(* ===== verification/Prelude.thy ===== *)
theory Prelude
  imports Main "HOL-Library.Word"
begin

text \<open>
  Shared vocabulary of the development: the names of the machine types, the conversions that C++
  performs implicitly between them, little-endian storage of integers in byte vectors, results
  with an error value, and the list lemmas several components use.
\<close>

unbundle bit_operations_syntax

named_theorems layout_simps \<open>sizes and positions of encoded instructions\<close>
named_theorems width_simps \<open>conversions that are the identity on values in range\<close>

type_synonym byte = "8 word"
type_synonym u16 = "16 word"
type_synonym u64 = "64 word"

subsection \<open>Implicit integer conversions\<close>

text \<open>
  Offsets and indices are natural numbers; \<open>u32\<close> is the conversion to \<^verbatim>\<open>uint32_t\<close> that happens when
  a \<^verbatim>\<open>size_t\<close> is stored in a 32-bit field, \<open>i32\<close> the conversion of a difference to \<^verbatim>\<open>int32_t\<close>.
\<close>

definition u32 :: "nat \<Rightarrow> nat" where
  "u32 n = n mod 2 ^ 32"

definition i32 :: "int \<Rightarrow> int" where
  "i32 z = signed_take_bit 31 z"

definition u32_max :: nat where
  "u32_max = 4294967295"

lemma u32_id [width_simps]: "n < 4294967296 \<Longrightarrow> u32 n = n"
  by (simp add: u32_def)

lemma i32_id [width_simps]: "- 2147483648 \<le> z \<Longrightarrow> z < 2147483648 \<Longrightarrow> i32 z = z"
  unfolding i32_def by (rule signed_take_bit_int_eq_self) simp_all

subsection \<open>Little-endian storage\<close>

primrec le_bytes :: "nat \<Rightarrow> int \<Rightarrow> byte list" where
  "le_bytes 0 v = []"
| "le_bytes (Suc n) v = word_of_int v # le_bytes n (v div 256)"

primrec le_value :: "byte list \<Rightarrow> int" where
  "le_value [] = 0"
| "le_value (b # bs) = uint b + 256 * le_value bs"

lemma length_le_bytes [simp]: "length (le_bytes n v) = n"
  by (induction n arbitrary: v) auto

lemma le_bytes_0: "le_bytes n 0 = replicate n 0"
  by (induction n) auto

lemma le_value_le_bytes: "le_value (le_bytes n v) = v mod 256 ^ n"
proof (induction n arbitrary: v)
  case (Suc n)
  have "le_value (le_bytes (Suc n) v) = v mod 256 + 256 * (v div 256 mod 256 ^ n)"
    by (simp add: Suc.IH uint_word_of_int)
  also have "\<dots> = v mod (256 * 256 ^ n)"
    by (simp add: zmod_zmult2_eq)
  finally show ?case by simp
qed simp

lemma le_bytes_cong: "v mod 256 ^ n = w mod 256 ^ n \<Longrightarrow> le_bytes n v = le_bytes n w"
proof (induction n arbitrary: v w)
  case (Suc n)
  have eq: "v mod 256 + 256 * (v div 256 mod 256 ^ n) = w mod 256 + 256 * (w div 256 mod 256 ^ n)"
    using Suc.prems by (simp add: zmod_zmult2_eq)
  then have "(v mod 256 + 256 * (v div 256 mod 256 ^ n)) mod 256 =
      (w mod 256 + 256 * (w div 256 mod 256 ^ n)) mod 256" by simp
  then have "v mod 256 = w mod 256" by (simp only: mod_mult_self2 mod_mod_trivial)
  with eq have "v mod 256 = w mod 256" and "v div 256 mod 256 ^ n = w div 256 mod 256 ^ n" by auto
  then show ?case
    using Suc.IH [of "v div 256" "w div 256"] by (simp add: word_of_int_eq_iff take_bit_eq_mod)
qed simp

lemma le_bytes_append: "le_bytes (m + n) v = le_bytes m v @ le_bytes n (v div 256 ^ m)"
  by (induction m arbitrary: v) (auto simp: zdiv_zmult2_eq)

subsection \<open>Vectors updated in a loop\<close>

lemma length_fold_update [simp]:
  "length (fold (\<lambda>j ds. ds[f j := x]) js ds) = length ds"
  by (induction js arbitrary: ds) auto

lemma nth_fold_update:
  "k < length ds \<Longrightarrow>
   fold (\<lambda>j ds. ds[f j := x]) js ds ! k = (if k \<in> f ` set js then x else ds ! k)"
  by (induction js arbitrary: ds) (auto simp: nth_list_update)

subsection \<open>Slices of vectors\<close>

text \<open>The elements between two positions of a vector, as the iterators visit them.\<close>

definition vec_slice :: "nat \<Rightarrow> nat \<Rightarrow> 'a list \<Rightarrow> 'a list" where
  "vec_slice start end xs = map ((!) xs) [start ..< end]"

lemma slice_append [simp]: "end \<le> length xs \<Longrightarrow> vec_slice start end (xs @ ys) = vec_slice start end xs"
  by (auto simp: vec_slice_def nth_append)

lemma slice_last [simp]: "vec_slice (length xs) (length xs + length ys) (xs @ ys) = ys"
  by (rule nth_equalityI) (auto simp: vec_slice_def nth_append)

lemma slice_all [simp]: "vec_slice (length xs) (length (xs @ ys)) (xs @ ys) = ys"
  using slice_last [of xs ys] by simp

lemma length_slice [simp]: "length (vec_slice i j xs) = j - i"
  by (simp add: vec_slice_def)

lemma slice_subset: "j \<le> length xs \<Longrightarrow> set (vec_slice i j xs) \<subseteq> set xs"
  by (auto simp: vec_slice_def)

end
