(* ===== verification/Mutable_Range_List.thy ===== *)
theory Mutable_Range_List
  imports Prelude "HOL-Library.While_Combinator"
begin

text \<open>
  \<^verbatim>\<open>MutableRangeList\<close>: sorted disjoint character ranges with data, kept as a chain of indices inside
  a vector.  The first range of the chain is always the first element of the vector, and 0 as the
  next index ends the chain.  \<^verbatim>\<open>extend\<close> merges another sorted sequence of ranges into the list.
\<close>

subsection \<open>Data and operations\<close>

record 'd mrange =
  mrData :: 'd
  nextRangeIndex :: nat
  mrFirst :: int
  mrLast :: int

type_synonym 'd range_vector = "'d mrange list"
type_synonym 'e char_data = "int \<times> int \<times> 'e"

text \<open>The conversion of an \<^verbatim>\<open>int\<close> to the signed \<^verbatim>\<open>char\<close> of the range bounds.\<close>

definition as_char :: "int \<Rightarrow> int" where
  "as_char z = signed_take_bit 7 z"

lemma as_char_id [width_simps]: "- 128 \<le> z \<Longrightarrow> z \<le> 127 \<Longrightarrow> as_char z = z"
  unfolding as_char_def by (rule signed_take_bit_int_eq_self) simp_all

definition appendRange :: "nat \<Rightarrow> int \<Rightarrow> int \<Rightarrow> 'd \<Rightarrow> 'd range_vector \<Rightarrow> nat \<times> 'd range_vector" where
  "appendRange lastRangeIndex rFirst rLast d ranges =
     (let newRangeIndex = length ranges;
          ranges' = ranges @ [\<lparr>mrData = d, nextRangeIndex = 0, mrFirst = rFirst, mrLast = rLast\<rparr>]
      in if newRangeIndex = 0 then (0, ranges')
         else (newRangeIndex,
               ranges'[lastRangeIndex := (ranges' ! lastRangeIndex)\<lparr>nextRangeIndex := newRangeIndex\<rparr>]))"

text \<open>\<^verbatim>\<open>insertBetween\<close> updates both indices it is given: the result is left, right and the vector.\<close>

definition insertBetween ::
  "nat \<Rightarrow> nat \<Rightarrow> int \<Rightarrow> int \<Rightarrow> 'd \<Rightarrow> 'd range_vector \<Rightarrow> nat \<times> nat \<times> 'd range_vector" where
  "insertBetween leftRangeIndex rightRangeIndex rFirst rLast d ranges =
     (if rightRangeIndex = 0 then
        (let movedRangeIndex = length ranges in
         (0, movedRangeIndex,
          (ranges @ [ranges ! 0])
            [0 := \<lparr>mrData = d, nextRangeIndex = movedRangeIndex, mrFirst = rFirst, mrLast = rLast\<rparr>]))
      else
        (let newRangeIndex = length ranges;
             ranges' = ranges @
               [\<lparr>mrData = d, nextRangeIndex = rightRangeIndex, mrFirst = rFirst, mrLast = rLast\<rparr>]
         in (newRangeIndex, rightRangeIndex,
             ranges'[leftRangeIndex := (ranges' ! leftRangeIndex)\<lparr>nextRangeIndex := newRangeIndex\<rparr>])))"

fun initializeFrom_loop ::
  "('e \<Rightarrow> 'd) \<Rightarrow> nat \<Rightarrow> 'e char_data list \<Rightarrow> 'd range_vector \<Rightarrow> 'd range_vector" where
  "initializeFrom_loop convert loopCounter [] ranges = ranges"
| "initializeFrom_loop convert loopCounter ((rFirst, rLast, e) # others) ranges =
     initializeFrom_loop convert (loopCounter + 1) others
       (ranges @ [\<lparr>mrData = convert e, nextRangeIndex = loopCounter + 1, mrFirst = rFirst, mrLast = rLast\<rparr>])"

definition initializeFrom :: "('e \<Rightarrow> 'd) \<Rightarrow> 'e char_data list \<Rightarrow> 'd range_vector \<Rightarrow> 'd range_vector" where
  "initializeFrom convert others ranges =
     (let ranges' = initializeFrom_loop convert 0 others ranges
      in if ranges' = [] then ranges'
         else ranges'[length ranges' - 1 := (last ranges')\<lparr>nextRangeIndex := 0\<rparr>])"

fun append_others ::
  "('e \<Rightarrow> 'd) \<Rightarrow> nat \<Rightarrow> int \<Rightarrow> 'e char_data list \<Rightarrow> 'd range_vector \<Rightarrow> 'd range_vector" where
  "append_others convert lastSelf offset [] ranges = ranges"
| "append_others convert lastSelf offset ((rFirst, rLast, e) # others) ranges =
     (case appendRange lastSelf (as_char (rFirst + offset)) rLast (convert e) ranges of
        (lastSelf', ranges') \<Rightarrow> append_others convert lastSelf' 0 others ranges')"

text \<open>
  The loop of \<^verbatim>\<open>extend\<close>; the other range list is the sequence its iterator has left.  The loop
  variables form a record, one step is one execution of the loop body.
\<close>

record ('d, 'e) extend_state =
  lastSelfRangeIndex :: nat
  selfRangeIndex :: nat
  reachedSelfEnd :: bool
  otherRangeOffset :: int
  otherIterator :: "'e char_data list"
  m_ranges :: "'d range_vector"

definition advance_self :: "('d, 'e) extend_state \<Rightarrow> ('d, 'e) extend_state" where
  "advance_self s =
     (let n = nextRangeIndex (m_ranges s ! selfRangeIndex s) in
      s\<lparr>lastSelfRangeIndex := selfRangeIndex s, selfRangeIndex := n, reachedSelfEnd := (n = 0)\<rparr>)"

definition advance_other :: "('d, 'e) extend_state \<Rightarrow> ('d, 'e) extend_state" where
  "advance_other s = s\<lparr>otherIterator := tl (otherIterator s), otherRangeOffset := 0\<rparr>"

definition insert_left :: "int \<Rightarrow> int \<Rightarrow> 'd \<Rightarrow> ('d, 'e) extend_state \<Rightarrow> ('d, 'e) extend_state" where
  "insert_left rFirst rLast d s =
     (case insertBetween (lastSelfRangeIndex s) (selfRangeIndex s) rFirst rLast d (m_ranges s) of
        (left, right, ranges) \<Rightarrow>
          s\<lparr>lastSelfRangeIndex := left, selfRangeIndex := right, m_ranges := ranges\<rparr>)"

definition update_self :: "('d mrange \<Rightarrow> 'd mrange) \<Rightarrow> ('d, 'e) extend_state \<Rightarrow> ('d, 'e) extend_state" where
  "update_self f s =
     s\<lparr>m_ranges := (m_ranges s)[selfRangeIndex s := f (m_ranges s ! selfRangeIndex s)]\<rparr>"

definition split_left ::
  "('e \<Rightarrow> 'd) \<Rightarrow> int \<Rightarrow> 'e \<Rightarrow> ('d, 'e) extend_state \<Rightarrow> ('d, 'e) extend_state" where
  "split_left convert oFirst e s =
     (let active = m_ranges s ! selfRangeIndex s; start = oFirst + otherRangeOffset s in
      if mrFirst active < start then
        insert_left (mrFirst active) (as_char (start - 1)) (mrData active)
          (update_self (mrFirst_update (\<lambda>_. as_char start)) s)
      else if start < mrFirst active then
        (let s' = insert_left (as_char start) (as_char (mrFirst active - 1)) (convert e) s
         in s'\<lparr>otherRangeOffset := as_char (mrFirst (m_ranges s' ! selfRangeIndex s') - oFirst)\<rparr>)
      else s)"

definition merge_self ::
  "('d \<Rightarrow> 'e \<Rightarrow> 'd) \<Rightarrow> int \<Rightarrow> int \<Rightarrow> 'e \<Rightarrow> ('d, 'e) extend_state \<Rightarrow> ('d, 'e) extend_state" where
  "merge_self ext oFirst oLast e s =
     (let active = m_ranges s ! selfRangeIndex s in
      if mrLast active = oLast then
        advance_other (advance_self (update_self (mrData_update (\<lambda>d. ext d e)) s))
      else if oLast < mrLast active then
        advance_other
          (insert_left (mrFirst active) oLast (ext (mrData active) e)
            (update_self (mrFirst_update (\<lambda>_. as_char (oLast + 1))) s))
      else
        advance_self
          ((update_self (mrData_update (\<lambda>d. ext d e)) s)
             \<lparr>otherRangeOffset := as_char (mrLast active - oFirst + 1)\<rparr>))"

definition extend_step ::
  "('e \<Rightarrow> 'd) \<Rightarrow> ('d \<Rightarrow> 'e \<Rightarrow> 'd) \<Rightarrow> ('d, 'e) extend_state \<Rightarrow> ('d, 'e) extend_state" where
  "extend_step convert ext s =
     (case hd (otherIterator s) of (oFirst, oLast, e) \<Rightarrow>
        let active = m_ranges s ! selfRangeIndex s in
        if mrLast active < oFirst + otherRangeOffset s then advance_self s
        else if oLast < mrFirst active then
          advance_other (insert_left (as_char (oFirst + otherRangeOffset s)) oLast (convert e) s)
        else merge_self ext oFirst oLast e (split_left convert oFirst e s))"

definition extend_continues :: "('d, 'e) extend_state \<Rightarrow> bool" where
  "extend_continues s \<longleftrightarrow> \<not> reachedSelfEnd s \<and> otherIterator s \<noteq> []"

text \<open>A chain with a cycle could make the loop run forever, which is the value \<open>None\<close>.\<close>

definition range_list_extend ::
  "('e \<Rightarrow> 'd) \<Rightarrow> ('d \<Rightarrow> 'e \<Rightarrow> 'd) \<Rightarrow> 'e char_data list \<Rightarrow> 'd range_vector \<Rightarrow> 'd range_vector option" where
  "range_list_extend convert ext others ranges =
     (if others = [] then Some ranges
      else if ranges = [] then Some (initializeFrom convert others ranges)
      else
        map_option
          (\<lambda>s. append_others convert (lastSelfRangeIndex s) (otherRangeOffset s) (otherIterator s) (m_ranges s))
          (while_option extend_continues (extend_step convert ext)
            \<lparr>lastSelfRangeIndex = 0, selfRangeIndex = 0, reachedSelfEnd = False, otherRangeOffset = 0,
             otherIterator = others, m_ranges = ranges\<rparr>))"

text \<open>The iterator: from index 0 along the chain.\<close>

partial_function (option) iterate_from :: "'d range_vector \<Rightarrow> nat \<Rightarrow> 'd char_data list option" where
  "iterate_from ranges i =
     (let r = ranges ! i; item = (mrFirst r, mrLast r, mrData r) in
      if nextRangeIndex r = 0 then Some [item]
      else Option.bind (iterate_from ranges (nextRangeIndex r)) (\<lambda>rest. Some (item # rest)))"

declare iterate_from.simps [code]

definition iterate :: "'d range_vector \<Rightarrow> 'd char_data list option" where
  "iterate ranges = (if ranges = [] then Some [] else iterate_from ranges 0)"

subsection \<open>The chain in the vector\<close>

fun linked :: "'d range_vector \<Rightarrow> nat list \<Rightarrow> nat \<Rightarrow> bool" where
  "linked v [] e = True"
| "linked v [i] e = (nextRangeIndex (v ! i) = e)"
| "linked v (i # j # js) e = (nextRangeIndex (v ! i) = j \<and> linked v (j # js) e)"

lemma linked_append:
  "linked v (is @ js) e \<longleftrightarrow> linked v is (if js = [] then e else hd js) \<and> linked v js e"
  by (induction v "is" e rule: linked.induct) (cases js; auto)+

lemma linked_cong:
  "(\<And>i. i \<in> set is \<Longrightarrow> nextRangeIndex (v ! i) = nextRangeIndex (w ! i)) \<Longrightarrow> linked v is e = linked w is e"
  by (induction v "is" e rule: linked.induct) auto

lemma linked_Cons:
  "linked v (i # is) e \<longleftrightarrow> nextRangeIndex (v ! i) = (if is = [] then e else hd is) \<and> linked v is e"
  by (cases "is") auto

definition chain :: "'d range_vector \<Rightarrow> nat list \<Rightarrow> bool" where
  "chain v is \<longleftrightarrow> (is = [] \<longleftrightarrow> v = []) \<and> (is \<noteq> [] \<longrightarrow> hd is = 0) \<and> distinct is \<and>
     set is \<subseteq> {..<length v} \<and> linked v is 0"

definition item :: "'d range_vector \<Rightarrow> nat \<Rightarrow> 'd char_data" where
  "item v i = (mrFirst (v ! i), mrLast (v ! i), mrData (v ! i))"

definition represents :: "'d range_vector \<Rightarrow> 'd char_data list \<Rightarrow> bool" where
  "represents v xs \<longleftrightarrow> (\<exists>is. chain v is \<and> map (item v) is = xs)"

lemma iterate_from_linked:
  assumes "linked v (i # is) 0" "0 \<notin> set is"
  shows "iterate_from v i = Some (map (item v) (i # is))"
  using assms
proof (induction "is" arbitrary: i)
  case Nil
  then show ?case by (subst iterate_from.simps) (simp add: Let_def item_def)
next
  case (Cons j js)
  then have "iterate_from v j = Some (map (item v) (j # js))" by simp
  with Cons.prems show ?case
    by (subst iterate_from.simps) (simp add: Let_def item_def)
qed

lemma iterate_represents:
  assumes "represents v xs"
  shows "iterate v = Some xs"
proof -
  obtain "is" where c: "chain v is" and xs: "map (item v) is = xs"
    using assms by (auto simp: represents_def)
  show ?thesis
  proof (cases "is")
    case Nil
    then show ?thesis using c xs by (simp add: iterate_def chain_def)
  next
    case (Cons i js)
    then have "i = 0" "0 \<notin> set js" "linked v (0 # js) 0" "v \<noteq> []"
      using c by (auto simp: chain_def)
    then show ?thesis using iterate_from_linked [of v 0 js] xs Cons by (simp add: iterate_def)
  qed
qed

subsection \<open>The loop state seen as two lists\<close>

definition placed :: "('d, 'e) extend_state \<Rightarrow> nat list \<Rightarrow> nat list \<Rightarrow> bool" where
  "placed s pre suf \<longleftrightarrow> chain (m_ranges s) (pre @ suf) \<and> m_ranges s \<noteq> [] \<and>
     (pre \<noteq> [] \<longrightarrow> lastSelfRangeIndex s = last pre) \<and>
     reachedSelfEnd s = (suf = []) \<and> (suf \<noteq> [] \<longrightarrow> selfRangeIndex s = hd suf)"

definition view :: "('d, 'e) extend_state \<Rightarrow> 'd char_data list \<Rightarrow> 'd char_data list \<Rightarrow> bool" where
  "view s before after \<longleftrightarrow> (\<exists>pre suf. placed s pre suf \<and>
     map (item (m_ranges s)) pre = before \<and> map (item (m_ranges s)) suf = after)"

lemma view_active:
  assumes "view s B ((f, l, d) # A)"
  shows "\<not> reachedSelfEnd s" "mrFirst (m_ranges s ! selfRangeIndex s) = f"
    "mrLast (m_ranges s ! selfRangeIndex s) = l" "mrData (m_ranges s ! selfRangeIndex s) = d"
  using assms by (auto simp: view_def placed_def item_def)

lemma view_end: "view s B [] \<Longrightarrow> reachedSelfEnd s"
  by (auto simp: view_def placed_def)

lemma view_advance_other [simp]: "view (advance_other s) B A = view s B A"
  by (simp add: view_def placed_def advance_other_def)

lemma view_offset [simp]: "view (s\<lparr>otherRangeOffset := x\<rparr>) B A = view s B A"
  by (simp add: view_def placed_def)

lemma view_advance_self:
  assumes "view s B (x # A)"
  shows "view (advance_self s) (B @ [x]) A"
proof -
  obtain pre i suf where p: "placed s pre (i # suf)" and
    B: "map (item (m_ranges s)) pre = B" and A: "item (m_ranges s) i = x" "map (item (m_ranges s)) suf = A"
    using assms by (auto simp: view_def)
  have "0 \<notin> set suf" using p by (cases pre) (auto simp: placed_def chain_def)
  moreover have "nextRangeIndex (m_ranges s ! i) = (if suf = [] then 0 else hd suf)"
    using p by (simp add: placed_def chain_def linked_append linked_Cons)
  ultimately have "placed (advance_self s) (pre @ [i]) suf"
    using p by (cases suf) (auto simp: placed_def advance_self_def Let_def)
  then show ?thesis using A B
    unfolding view_def by (intro exI conjI) (auto simp: advance_self_def Let_def)
qed

lemma chain_update:
  assumes "chain v is" "nextRangeIndex r = nextRangeIndex (v ! i)" "i < length v"
  shows "chain (v[i := r]) is"
proof -
  have "linked (v[i := r]) is 0 = linked v is 0"
    by (rule linked_cong) (use assms in \<open>auto simp: nth_list_update\<close>)
  then show ?thesis using assms(1) by (simp add: chain_def)
qed

lemma map_item_update: "i \<notin> set is \<Longrightarrow> map (item (v[i := r])) is = map (item v) is"
proof -
  assume "i \<notin> set is"
  then have "item (v[i := r]) j = item v j" if "j \<in> set is" for j
    using that by (cases "i = j") (simp_all add: item_def)
  then show ?thesis by simp
qed

lemma view_update_self:
  assumes "view s B (x # A)" "nextRangeIndex (g (m_ranges s ! selfRangeIndex s)) = nextRangeIndex (m_ranges s ! selfRangeIndex s)"
  shows "view (update_self g s) B
    ((mrFirst (g (m_ranges s ! selfRangeIndex s)), mrLast (g (m_ranges s ! selfRangeIndex s)),
      mrData (g (m_ranges s ! selfRangeIndex s))) # A)"
proof -
  obtain pre i suf where p: "placed s pre (i # suf)" and
    B: "map (item (m_ranges s)) pre = B" and A: "map (item (m_ranges s)) suf = A"
    using assms by (auto simp: view_def)
  have i: "selfRangeIndex s = i" "i < length (m_ranges s)" "i \<notin> set pre" "i \<notin> set suf"
    using p by (auto simp: placed_def chain_def)
  have "placed (update_self g s) pre (i # suf)"
    using p i assms(2) by (simp add: placed_def update_self_def chain_update)
  then show ?thesis using A B i
    unfolding view_def by (intro exI [of _ pre] exI [of _ "i # suf"])
      (simp add: update_self_def map_item_update item_def)
qed

lemma view_first_update:
  "view s B ((f, l, d) # A) \<Longrightarrow> view (update_self (mrFirst_update (\<lambda>_. x)) s) B ((x, l, d) # A)"
  using view_update_self [of s B "(f, l, d)" A "mrFirst_update (\<lambda>_. x)"] by (simp add: view_active)

lemma view_data_update:
  "view s B ((f, l, d) # A) \<Longrightarrow> view (update_self (mrData_update h) s) B ((f, l, h d) # A)"
  using view_update_self [of s B "(f, l, d)" A "mrData_update h"] by (simp add: view_active)

lemma chain_insert_front:
  assumes "chain v (0 # is)"
  shows "chain ((v @ [v ! 0])[0 := \<lparr>mrData = d, nextRangeIndex = length v, mrFirst = f, mrLast = l\<rparr>])
           (0 # length v # is)"
proof -
  let ?w = "(v @ [v ! 0])[0 := \<lparr>mrData = d, nextRangeIndex = length v, mrFirst = f, mrLast = l\<rparr>]"
  have r: "0 \<notin> set is" "set is \<subseteq> {..<length v}" "v \<noteq> []" "distinct is" "linked v (0 # is) 0"
    using assms by (auto simp: chain_def)
  have "linked ?w is 0 = linked v is 0"
    by (rule linked_cong) (use r in \<open>auto simp: nth_list_update nth_append\<close>)
  moreover have "?w ! 0 = \<lparr>mrData = d, nextRangeIndex = length v, mrFirst = f, mrLast = l\<rparr>"
    "?w ! length v = v ! 0"
    using r(3) by (simp_all add: nth_list_update nth_append)
  ultimately have "linked ?w (0 # length v # is) 0" using r(5) by (simp add: linked_Cons)
  then show ?thesis using r by (auto simp: chain_def)
qed

lemma chain_insert_middle:
  assumes "chain v (pre @ i # is)" "pre \<noteq> []"
  shows "chain ((v @ [\<lparr>mrData = d, nextRangeIndex = i, mrFirst = f, mrLast = l\<rparr>])
             [last pre := (v ! last pre)\<lparr>nextRangeIndex := length v\<rparr>]) (pre @ length v # i # is)"
proof -
  let ?w = "(v @ [\<lparr>mrData = d, nextRangeIndex = i, mrFirst = f, mrLast = l\<rparr>])
             [last pre := (v ! last pre)\<lparr>nextRangeIndex := length v\<rparr>]"
  obtain ps p where pre: "pre = ps @ [p]" using assms(2) by (cases pre rule: rev_cases) auto
  have r: "distinct (pre @ i # is)" "set (pre @ i # is) \<subseteq> {..<length v}" "linked v (pre @ i # is) 0"
    "hd pre = 0" using assms by (auto simp: chain_def)
  have ps: "linked ?w ps p = linked v ps p" "linked ?w (i # is) 0 = linked v (i # is) 0"
    by (rule linked_cong; use r pre in \<open>auto simp: nth_list_update nth_append\<close>)+
  have "nextRangeIndex (?w ! p) = length v" "nextRangeIndex (?w ! length v) = i"
    using r pre by (auto simp: nth_list_update nth_append)
  then have "linked ?w (pre @ length v # i # is) 0"
    using r(3) ps unfolding pre by (simp add: linked_append linked_Cons)
  then show ?thesis using r assms by (auto simp: chain_def)
qed

lemma view_insert_left:
  assumes "view s B (x # A)"
  shows "view (insert_left f l d s) (B @ [(f, l, d)]) (x # A)"
proof -
  obtain pre i suf where p: "placed s pre (i # suf)" and
    B: "map (item (m_ranges s)) pre = B" and A: "item (m_ranges s) i = x" "map (item (m_ranges s)) suf = A"
    using assms by (auto simp: view_def)
  have r: "selfRangeIndex s = i" "chain (m_ranges s) (pre @ i # suf)" "\<not> reachedSelfEnd s"
    "m_ranges s \<noteq> []" "distinct (pre @ i # suf)" "set (pre @ i # suf) \<subseteq> {..<length (m_ranges s)}"
    using p by (auto simp: placed_def chain_def)
  let ?n = "length (m_ranges s)"
  show ?thesis
  proof (cases "pre = []")
    case True
    then have i: "i = 0" using r(2) by (simp add: chain_def)
    have "placed (insert_left f l d s) [0] (?n # suf)"
      using chain_insert_front [of "m_ranges s" suf d f l] r True
      by (simp add: placed_def insert_left_def insertBetween_def Let_def i)
    then show ?thesis using A B r True unfolding view_def
      by (intro exI [of _ "[0]"] exI [of _ "?n # suf"])
        (auto simp: insert_left_def insertBetween_def Let_def i item_def nth_list_update nth_append)
  next
    case False
    then have i: "i \<noteq> 0" using r(2) by (cases pre) (auto simp: chain_def)
    have lp: "lastSelfRangeIndex s = last pre" "last pre \<in> set pre"
      using p False by (auto simp: placed_def)
    then have ln: "last pre < ?n" using r(6) by auto
    have "placed (insert_left f l d s) (pre @ [?n]) (i # suf)"
      using chain_insert_middle [of "m_ranges s" pre i suf d f l] r False lp ln
      by (simp add: placed_def insert_left_def insertBetween_def Let_def i nth_append)
    then show ?thesis using A B r False lp ln unfolding view_def
      by (intro exI [of _ "pre @ [?n]"] exI [of _ "i # suf"])
        (auto simp: insert_left_def insertBetween_def Let_def i item_def nth_list_update nth_append)
  qed
qed

lemma chain_append:
  assumes "chain v is" "is \<noteq> []"
  shows "chain ((v @ [\<lparr>mrData = d, nextRangeIndex = 0, mrFirst = f, mrLast = l\<rparr>])
             [last is := (v ! last is)\<lparr>nextRangeIndex := length v\<rparr>]) (is @ [length v])"
    (is "chain ?w _")
proof -
  obtain ps p where "is": "is = ps @ [p]" using assms(2) by (cases "is" rule: rev_cases) auto
  have r: "distinct is" "set is \<subseteq> {..<length v}" "linked v is 0" "hd is = 0"
    using assms by (auto simp: chain_def)
  have ps: "linked ?w ps p = linked v ps p"
    by (rule linked_cong) (use r "is" in \<open>auto simp: nth_list_update nth_append\<close>)
  have "nextRangeIndex (?w ! p) = length v" "nextRangeIndex (?w ! length v) = 0"
    using r "is" by (auto simp: nth_list_update nth_append)
  then have "linked ?w (is @ [length v]) 0"
    using r(3) ps unfolding "is" by (simp add: linked_append linked_Cons)
  then show ?thesis using r assms by (auto simp: chain_def)
qed

lemma chain_nonempty: "chain v is \<Longrightarrow> is \<noteq> [] \<Longrightarrow> v \<noteq> [] \<and> last is < length v"
  unfolding chain_def by (metis last_in_set lessThan_iff subsetD)

lemma appendRange_chain:
  assumes c: "chain v is" "is \<noteq> []" and a: "appendRange (last is) f l d v = (n, w)"
  shows "chain w (is @ [n])" "map (item w) (is @ [n]) = map (item v) is @ [(f, l, d)]"
proof -
  have v: "v \<noteq> []" "last is < length v" using chain_nonempty [OF c] by auto
  then have nw: "n = length v" "w = (v @ [\<lparr>mrData = d, nextRangeIndex = 0, mrFirst = f, mrLast = l\<rparr>])
             [last is := (v ! last is)\<lparr>nextRangeIndex := length v\<rparr>]"
    using a by (auto simp: appendRange_def Let_def nth_append)
  show "chain w (is @ [n])" unfolding nw by (rule chain_append [OF c])
  have "item w i = item v i" if "i \<in> set is" for i
    using that v c by (auto simp: nw item_def chain_def nth_list_update nth_append)
  then show "map (item w) (is @ [n]) = map (item v) is @ [(f, l, d)]"
    using v by (auto simp: nw item_def nth_list_update nth_append)
qed

subsection \<open>Merging on plain lists\<close>

text \<open>What \<^verbatim>\<open>extend\<close> computes, on the lists of ranges the two iterators produce.\<close>

function merge_ranges ::
  "('e \<Rightarrow> 'd) \<Rightarrow> ('d \<Rightarrow> 'e \<Rightarrow> 'd) \<Rightarrow> 'd char_data list \<Rightarrow> int \<Rightarrow> 'e char_data list \<Rightarrow> 'd char_data list" where
  "merge_ranges convert ext self off [] = self"
| "merge_ranges convert ext [] off ((f, l, e) # os) =
     (f + off, l, convert e) # merge_ranges convert ext [] 0 os"
| "merge_ranges convert ext ((sf, sl, d) # ss) off ((f, l, e) # os) =
     (if sl < f + off then (sf, sl, d) # merge_ranges convert ext ss off ((f, l, e) # os)
      else if l < sf then (f + off, l, convert e) # merge_ranges convert ext ((sf, sl, d) # ss) 0 os
      else
        (if sf < f + off then [(sf, f + off - 1, d)]
         else if f + off < sf then [(f + off, sf - 1, convert e)] else []) @
        (if sl = l then (max sf (f + off), l, ext d e) # merge_ranges convert ext ss 0 os
         else if l < sl then
           (max sf (f + off), l, ext d e) # merge_ranges convert ext ((l + 1, sl, d) # ss) 0 os
         else (max sf (f + off), sl, ext d e) #
           merge_ranges convert ext ss (sl - f + 1) ((f, l, e) # os)))"
  by pat_completeness auto
termination
  by (relation "measure (\<lambda>(_, _, ss, _, os). length ss + length os)") auto

definition ranges_bounded :: "'d char_data list \<Rightarrow> bool" where
  "ranges_bounded xs \<longleftrightarrow> (\<forall>(f, l, d) \<in> set xs. 0 \<le> f \<and> f \<le> l \<and> l \<le> 127)"

definition offset_ok :: "int \<Rightarrow> 'e char_data list \<Rightarrow> bool" where
  "offset_ok off os \<longleftrightarrow> (case os of [] \<Rightarrow> True | (f, l, e) # _ \<Rightarrow> 0 \<le> off \<and> f + off \<le> l)"

lemma ranges_bounded_simps [simp]:
  "ranges_bounded []"
  "ranges_bounded ((f, l, d) # xs) \<longleftrightarrow> 0 \<le> f \<and> f \<le> l \<and> l \<le> 127 \<and> ranges_bounded xs"
  by (simp_all add: ranges_bounded_def)

lemma offset_ok_simps [simp]:
  "offset_ok off []" "offset_ok off ((f, l, e) # os) \<longleftrightarrow> 0 \<le> off \<and> f + off \<le> l"
  "ranges_bounded os \<Longrightarrow> offset_ok 0 os"
  by (auto simp: offset_ok_def split: list.splits)

lemma append_others_chain:
  assumes "chain v is" "is \<noteq> []" "ranges_bounded os" "offset_ok off os"
  shows "represents (append_others convert (last is) off os v)
           (map (item v) is @ merge_ranges convert ext [] off os)"
  using assms
proof (induction os arbitrary: "is" off v)
  case Nil
  then show ?case by (auto simp: represents_def)
next
  case (Cons o1 os)
  obtain f l e where o1: "o1 = (f, l, e)" by (cases o1)
  have c: "as_char (f + off) = f + off" using Cons.prems by (simp add: o1 as_char_id)
  obtain n w where a: "appendRange (last is) (f + off) l (convert e) v = (n, w)"
    by (cases "appendRange (last is) (f + off) l (convert e) v")
  note w = appendRange_chain [OF Cons.prems(1,2) a]
  have "represents (append_others convert (last (is @ [n])) 0 os w)
      (map (item w) (is @ [n]) @ merge_ranges convert ext [] 0 os)"
    using Cons.prems(3) by (intro Cons.IH w(1)) (simp_all add: o1)
  then show ?case unfolding w(2) by (simp add: o1 a c)
qed

lemma view_split_left:
  fixes s :: "('d, 'e) extend_state" and convert :: "'e \<Rightarrow> 'd" and e :: 'e
  assumes v: "view s B ((sf, sl, d) # A)" and b: "0 \<le> sf" "sl \<le> 127" "0 \<le> f" "0 \<le> otherRangeOffset s"
    "f + otherRangeOffset s \<le> sl" "sf \<le> sl"
  defines "start \<equiv> f + otherRangeOffset s"
  defines "B' \<equiv> B @ (if sf < start then [(sf, start - 1, d)]
         else if start < sf then [(start, sf - 1, convert e)] else [])"
  defines "s' \<equiv> split_left convert f e s"
  shows "view s' B' ((max sf start, sl, d) # A)" "otherIterator s' = otherIterator s"
    "f + otherRangeOffset s' = max sf start"
proof -
  note act = view_active [OF v]
  have ch: "as_char start = start" "as_char (start - 1) = start - 1" "as_char (sf - 1) = sf - 1"
    using b unfolding start_def by (simp_all add: as_char_id)
  have oi: "otherIterator (insert_left x y z t) = otherIterator t"
    "otherRangeOffset (insert_left x y z t) = otherRangeOffset t"
    "otherIterator (update_self g t) = otherIterator t"
    "otherRangeOffset (update_self g t) = otherRangeOffset t" for x y z g and t :: "('d, 'e) extend_state"
    by (simp_all add: insert_left_def update_self_def split: prod.splits)
  consider "sf < start" | "start < sf" | "sf = start" by linarith
  then have "view s' B' ((max sf start, sl, d) # A) \<and> otherIterator s' = otherIterator s \<and>
    f + otherRangeOffset s' = max sf start"
  proof cases
    case 1
    then have "s' = insert_left sf (start - 1) d (update_self (mrFirst_update (\<lambda>_. start)) s)"
      unfolding s'_def split_left_def start_def [symmetric] by (simp add: ch act Let_def)
    then show ?thesis
      using 1 view_insert_left [OF view_first_update [OF v, of start], of sf "start - 1" d]
      by (simp add: B'_def oi start_def max_def)
  next
    case 2
    let ?t = "insert_left start (sf - 1) (convert e) s"
    have t: "view ?t (B @ [(start, sf - 1, convert e)]) ((sf, sl, d) # A)"
      by (rule view_insert_left [OF v])
    have "s' = ?t\<lparr>otherRangeOffset := as_char (sf - f)\<rparr>"
      using 2 unfolding s'_def split_left_def start_def [symmetric]
      by (simp add: ch act Let_def view_active [OF t])
    moreover have "as_char (sf - f) = sf - f" using b 2 by (simp add: as_char_id start_def)
    ultimately show ?thesis using 2 t by (simp add: B'_def oi max_def)
  next
    case 3
    then have "s' = s" unfolding s'_def split_left_def start_def [symmetric] by (simp add: act Let_def)
    then show ?thesis using v 3 by (simp add: B'_def start_def)
  qed
  then show "view s' B' ((max sf start, sl, d) # A)" "otherIterator s' = otherIterator s"
    "f + otherRangeOffset s' = max sf start" by auto
qed

lemma extend_state_fields [simp]:
  "otherIterator (insert_left x y z t) = otherIterator t"
  "otherRangeOffset (insert_left x y z t) = otherRangeOffset t"
  "otherIterator (update_self g t) = otherIterator t"
  "otherRangeOffset (update_self g t) = otherRangeOffset t"
  "otherIterator (advance_self t) = otherIterator t"
  "otherRangeOffset (advance_self t) = otherRangeOffset t"
  "otherIterator (advance_other t) = tl (otherIterator t)"
  "otherRangeOffset (advance_other t) = 0"
  by (simp_all add: insert_left_def update_self_def advance_self_def advance_other_def Let_def
      split: prod.splits)

lemma view_merge_self:
  fixes s :: "('d, 'e) extend_state" and ext :: "'d \<Rightarrow> 'e \<Rightarrow> 'd" and convert :: "'e \<Rightarrow> 'd"
  assumes v: "view s B ((p, sl, d) # A)" and b: "0 \<le> p" "p \<le> sl" "sl \<le> 127" "0 \<le> f" "p \<le> l" "f \<le> p"
    "ranges_bounded A" "ranges_bounded os" "l \<le> 127" and o: "otherIterator s = (f, l, e) # os"
  defines "s' \<equiv> merge_self ext f l e s"
  shows "\<exists>B' A'. view s' B' A' \<and> ranges_bounded A' \<and> ranges_bounded (otherIterator s') \<and>
    offset_ok (otherRangeOffset s') (otherIterator s') \<and>
    length A' + length (otherIterator s') \<le> length A + Suc (length os) \<and>
    B' @ merge_ranges convert ext A' (otherRangeOffset s') (otherIterator s') =
    B @ (if sl = l then (p, l, ext d e) # merge_ranges convert ext A 0 os
         else if l < sl then (p, l, ext d e) # merge_ranges convert ext ((l + 1, sl, d) # A) 0 os
         else (p, sl, ext d e) # merge_ranges convert ext A (sl - f + 1) ((f, l, e) # os))"
proof -
  note act = view_active [OF v]
  note upd = view_data_update [OF v, of "\<lambda>d. ext d e"]
  consider "sl = l" | "l < sl" | "sl < l" by linarith
  then show ?thesis
  proof cases
    case 1
    then have s': "s' = advance_other (advance_self (update_self (mrData_update (\<lambda>d. ext d e)) s))"
      by (simp add: s'_def merge_self_def act Let_def)
    show ?thesis using 1 b o view_advance_self [OF upd]
      by (intro exI [of _ "B @ [(p, sl, ext d e)]"] exI [of _ A]) (simp add: s')
  next
    case 2
    then have "as_char (l + 1) = l + 1" using b by (simp add: as_char_id)
    then have s': "s' = advance_other (insert_left p l (ext d e)
        (update_self (mrFirst_update (\<lambda>_. l + 1)) s))"
      using 2 by (simp add: s'_def merge_self_def act Let_def)
    show ?thesis using 2 b o view_insert_left [OF view_first_update [OF v, of "l + 1"], of p l "ext d e"]
      by (intro exI [of _ "B @ [(p, l, ext d e)]"] exI [of _ "(l + 1, sl, d) # A"]) (simp add: s')
  next
    case 3
    then have "as_char (sl - f + 1) = sl - f + 1" using b by (simp add: as_char_id)
    then have s': "s' = advance_self ((update_self (mrData_update (\<lambda>d. ext d e)) s)
        \<lparr>otherRangeOffset := sl - f + 1\<rparr>)"
      using 3 by (simp add: s'_def merge_self_def act Let_def)
    show ?thesis
      using 3 b o view_advance_self [of "(update_self (mrData_update (\<lambda>d. ext d e)) s)\<lparr>otherRangeOffset := sl - f + 1\<rparr>"] upd
      by (intro exI [of _ "B @ [(p, sl, ext d e)]"] exI [of _ A]) (simp add: s')
  qed
qed

lemma view_extend_step:
  fixes s :: "('d, 'e) extend_state" and ext :: "'d \<Rightarrow> 'e \<Rightarrow> 'd" and convert :: "'e \<Rightarrow> 'd"
  assumes v: "view s B ((sf, sl, d) # A)" and A: "ranges_bounded ((sf, sl, d) # A)"
    and o: "otherIterator s = (f, l, e) # os" "ranges_bounded ((f, l, e) # os)"
      "offset_ok (otherRangeOffset s) ((f, l, e) # os)"
  defines "s' \<equiv> extend_step convert ext s"
  shows "\<exists>B' A'. view s' B' A' \<and> ranges_bounded A' \<and> ranges_bounded (otherIterator s') \<and>
    offset_ok (otherRangeOffset s') (otherIterator s') \<and>
    length A' + length (otherIterator s') \<le> length A + Suc (length os) \<and>
    B' @ merge_ranges convert ext A' (otherRangeOffset s') (otherIterator s') =
    B @ merge_ranges convert ext ((sf, sl, d) # A) (otherRangeOffset s) ((f, l, e) # os)"
proof -
  note act = view_active [OF v]
  let ?start = "f + otherRangeOffset s"
  consider "sl < ?start" | "\<not> sl < ?start" "l < sf" | "\<not> sl < ?start" "\<not> l < sf" by blast
  then show ?thesis
  proof cases
    case 1
    then have "s' = advance_self s" by (simp add: s'_def extend_step_def o act)
    then show ?thesis using 1 A o view_advance_self [OF v]
      by (intro exI [of _ "B @ [(sf, sl, d)]"] exI [of _ A]) simp
  next
    case 2
    have "as_char ?start = ?start" using o by (simp add: as_char_id)
    then have "s' = advance_other (insert_left ?start l (convert e) s)"
      using 2 by (simp add: s'_def extend_step_def o act)
    then show ?thesis using 2 A o view_insert_left [OF v]
      by (intro exI [of _ "B @ [(?start, l, convert e)]"] exI [of _ "(sf, sl, d) # A"]) simp
  next
    case 3
    let ?t = "split_left convert f e s"
    have s': "s' = merge_self ext f l e ?t" using 3 by (simp add: s'_def extend_step_def o act)
    have b: "0 \<le> sf" "sl \<le> 127" "0 \<le> f" "0 \<le> otherRangeOffset s" "?start \<le> sl" "sf \<le> sl"
      using A o 3 by simp_all
    note t = view_split_left [OF v b, of convert e]
    show ?thesis
      unfolding s' merge_ranges.simps(3) if_not_P [OF 3(1)] if_not_P [OF 3(2)] append_assoc [symmetric]
      by (rule view_merge_self [OF t(1)]) (use t(2) A o 3 in \<open>auto simp: max_def\<close>)
  qed
qed

lemma extend_loop_view:
  assumes "view s B A" "ranges_bounded A" "ranges_bounded (otherIterator s)"
    "offset_ok (otherRangeOffset s) (otherIterator s)"
  shows "\<exists>t B'. while_option extend_continues (extend_step convert ext) s = Some t \<and>
     (\<exists>A'. view t B' A' \<and> (A' = [] \<or> otherIterator t = []) \<and> ranges_bounded (otherIterator t) \<and>
       offset_ok (otherRangeOffset t) (otherIterator t) \<and>
       B' @ merge_ranges convert ext A' (otherRangeOffset t) (otherIterator t) =
       B @ merge_ranges convert ext A (otherRangeOffset s) (otherIterator s))"
  using assms
proof (induction "length A + length (otherIterator s)" arbitrary: s A B rule: less_induct)
  case less
  show ?case
  proof (cases "A = [] \<or> otherIterator s = []")
    case True
    then have "\<not> extend_continues s" using less.prems(1) by (auto simp: extend_continues_def view_end)
    then show ?thesis using less.prems True by (subst while_option_unfold) auto
  next
    case False
    then obtain sf sl d A1 f l e os where A: "A = (sf, sl, d) # A1" and o: "otherIterator s = (f, l, e) # os"
      by (metis list.exhaust prod_cases3)
    let ?s = "extend_step convert ext s"
    obtain B' A' where st: "view ?s B' A'" "ranges_bounded A'" "ranges_bounded (otherIterator ?s)"
      "offset_ok (otherRangeOffset ?s) (otherIterator ?s)"
      "length A' + length (otherIterator ?s) \<le> length A1 + Suc (length os)"
      "B' @ merge_ranges convert ext A' (otherRangeOffset ?s) (otherIterator ?s) =
       B @ merge_ranges convert ext A (otherRangeOffset s) (otherIterator s)"
      using view_extend_step [of s B sf sl d A1 f l e os convert ext] less.prems unfolding A o by auto
    have "extend_continues s" using view_active(1) [of s B sf sl d A1] less.prems(1) o
      by (simp add: extend_continues_def A)
    moreover note less.hyps [OF _ st(1-4)]
    ultimately show ?thesis using st(5) unfolding st(6) [symmetric]
      by (subst while_option_unfold) (simp add: A o)
  qed
qed

lemma initializeFrom_loop_append:
  "initializeFrom_loop convert n os v =
     v @ map (\<lambda>(i, f, l, e). \<lparr>mrData = convert e, nextRangeIndex = Suc i, mrFirst = f, mrLast = l\<rparr>)
           (enumerate n os)"
  by (induction convert n os v rule: initializeFrom_loop.induct) simp_all

lemma linked_upt:
  assumes "\<And>i. m \<le> i \<Longrightarrow> Suc i < n \<Longrightarrow> nextRangeIndex (v ! i) = Suc i"
    "m < n \<Longrightarrow> nextRangeIndex (v ! (n - 1)) = e"
  shows "linked v [m..<n] e"
  using assms
proof (induction "n - m" arbitrary: m)
  case (Suc k)
  then have "linked v [Suc m..<n] e" by simp
  moreover have "m < n" "\<not> Suc m < n \<Longrightarrow> n - 1 = m" using Suc.hyps(2) by auto
  ultimately show ?case using Suc.prems
    by (cases "Suc m < n") (auto simp: upt_conv_Cons linked_Cons)
qed simp

lemma initializeFrom_represents:
  assumes "os \<noteq> []"
  shows "represents (initializeFrom convert os []) (merge_ranges convert ext [] 0 os)"
proof -
  let ?v = "initializeFrom convert os []"
  have m: "merge_ranges convert ext [] 0 os = map (\<lambda>(f, l, e). (f, l, convert e)) os"
    by (induction os) auto
  have ne: "enumerate 0 os \<noteq> []" using assms length_enumerate [of 0 os] by (metis length_0_conv)
  have v: "length ?v = length os"
    "i < length os \<Longrightarrow> item ?v i = (case os ! i of (f, l, e) \<Rightarrow> (f, l, convert e))"
    "i < length os \<Longrightarrow> nextRangeIndex (?v ! i) = (if Suc i = length os then 0 else Suc i)" for i
    using assms ne by (auto simp: initializeFrom_def Let_def initializeFrom_loop_append item_def
        nth_list_update nth_enumerate_eq last_conv_nth split: prod.splits)
  have "linked ?v [0..<length os] 0" by (rule linked_upt) (auto simp: v)
  then have "chain ?v [0..<length os]" using v(1) assms by (auto simp: chain_def)
  moreover have "map (item ?v) [0..<length os] = map (\<lambda>(f, l, e). (f, l, convert e)) os"
    by (rule nth_equalityI) (auto simp: v)
  ultimately show ?thesis unfolding m represents_def by blast
qed

lemma extend_represents:
  fixes v :: "'d range_vector" and os :: "'e char_data list"
  assumes r: "represents v xs" and b: "ranges_bounded xs" "ranges_bounded os"
  shows "\<exists>w. range_list_extend convert ext os v = Some w \<and> represents w (merge_ranges convert ext xs 0 os)"
proof (cases "os = [] \<or> v = []")
  case True
  then show ?thesis
  proof (cases "os = []")
    case False
    with True r have "v = []" "xs = []" by (auto simp: represents_def chain_def)
    then show ?thesis using False by (simp add: range_list_extend_def initializeFrom_represents)
  qed (use r in \<open>simp add: range_list_extend_def\<close>)
next
  case False
  let ?s = "\<lparr>lastSelfRangeIndex = 0, selfRangeIndex = 0, reachedSelfEnd = False, otherRangeOffset = 0,
             otherIterator = os, m_ranges = v\<rparr> :: ('d, 'e) extend_state"
  obtain "is" where "is": "chain v is" "map (item v) is = xs" using r by (auto simp: represents_def)
  then have "placed ?s [] is" using False by (auto simp: placed_def chain_def)
  then have "view ?s [] xs" using "is" by (auto simp: view_def)
  from extend_loop_view [OF this b(1), of convert ext] b(2) obtain t B' A' where
    t: "while_option extend_continues (extend_step convert ext) ?s = Some t" "view t B' A'"
      "A' = [] \<or> otherIterator t = []" "ranges_bounded (otherIterator t)"
      "offset_ok (otherRangeOffset t) (otherIterator t)"
      "B' @ merge_ranges convert ext A' (otherRangeOffset t) (otherIterator t) = merge_ranges convert ext xs 0 os"
    by auto
  obtain pre suf where p: "placed t pre suf" "map (item (m_ranges t)) pre = B'" "map (item (m_ranges t)) suf = A'"
    using t(2) by (auto simp: view_def)
  have "represents (append_others convert (lastSelfRangeIndex t) (otherRangeOffset t) (otherIterator t) (m_ranges t))
      (merge_ranges convert ext xs 0 os)"
  proof (cases "otherIterator t = []")
    case True
    then show ?thesis using p t(6) by (auto simp: represents_def placed_def simp flip: t(6))
  next
    case False
    then have "chain (m_ranges t) pre" "pre \<noteq> []" "lastSelfRangeIndex t = last pre"
      using p t(3) by (auto simp: placed_def chain_def)
    then show ?thesis using append_others_chain [OF _ _ t(4,5), of "m_ranges t" pre convert ext] p(2) t(3,6) False
      by auto
  qed
  then show ?thesis using False t(1) by (simp add: range_list_extend_def)
qed

subsection \<open>What a character maps to\<close>

fun range_data :: "'d char_data list \<Rightarrow> int \<Rightarrow> 'd option" where
  "range_data [] c = None"
| "range_data ((f, l, d) # xs) c = (if f \<le> c \<and> c \<le> l then Some d else range_data xs c)"

fun ordered_from :: "int \<Rightarrow> 'd char_data list \<Rightarrow> bool" where
  "ordered_from lo [] = True"
| "ordered_from lo ((f, l, d) # xs) = (lo \<le> f \<and> f \<le> l \<and> l \<le> 127 \<and> ordered_from (l + 1) xs)"

fun combine_data :: "('e \<Rightarrow> 'd) \<Rightarrow> ('d \<Rightarrow> 'e \<Rightarrow> 'd) \<Rightarrow> 'd option \<Rightarrow> 'e option \<Rightarrow> 'd option" where
  "combine_data convert ext None None = None"
| "combine_data convert ext None (Some e) = Some (convert e)"
| "combine_data convert ext (Some d) None = Some d"
| "combine_data convert ext (Some d) (Some e) = Some (ext d e)"

fun skip_chars :: "int \<Rightarrow> 'e char_data list \<Rightarrow> 'e char_data list" where
  "skip_chars off [] = []"
| "skip_chars off ((f, l, e) # xs) = (f + off, l, e) # xs"

lemma skip_chars_0 [simp]: "skip_chars 0 os = os"
  by (cases os) auto

lemma ordered_from_mono: "ordered_from lo xs \<Longrightarrow> lo' \<le> lo \<Longrightarrow> ordered_from lo' xs"
  by (cases "(lo, xs)" rule: ordered_from.cases) auto

lemma range_data_below: "ordered_from lo xs \<Longrightarrow> c < lo \<Longrightarrow> range_data xs c = None"
  by (induction lo xs rule: ordered_from.induct) auto

lemma ordered_from_bounded: "ordered_from lo xs \<Longrightarrow> 0 \<le> lo \<Longrightarrow> ranges_bounded xs"
  by (induction lo xs rule: ordered_from.induct) auto

lemma combine_data_None [simp]: "combine_data convert ext x None = x"
  by (cases x) auto

lemma merge_ranges_ordered:
  "ordered_from lo self \<Longrightarrow> ordered_from lo (skip_chars off os) \<Longrightarrow> 
   ordered_from lo (merge_ranges convert ext self off os)"
proof (induction convert ext self off os arbitrary: lo rule: merge_ranges.induct)
  case (3 convert ext sf sl d ss off f l e os)
  then show ?case by (auto simp: max_def intro: ordered_from_mono)
qed auto

lemma merge_ranges_data:
  "ordered_from lo self \<Longrightarrow> ordered_from lo (skip_chars off os) \<Longrightarrow> 
   range_data (merge_ranges convert ext self off os) c =
     combine_data convert ext (range_data self c) (range_data (skip_chars off os) c)"
proof (induction convert ext self off os arbitrary: lo rule: merge_ranges.induct)
  case (2 convert ext off f l e os)
  then show ?case by (auto simp: range_data_below)
next
  case (3 convert ext sf sl d ss off f l e os)
  have o: "lo \<le> sf" "sf \<le> sl" "sl \<le> 127" "ordered_from (sl + 1) ss" "lo \<le> f + off" "f + off \<le> l" "l \<le> 127"
    "ordered_from (l + 1) os" using "3.prems" by auto
  have below: "c \<le> sl \<Longrightarrow> range_data ss c = None" "c \<le> l \<Longrightarrow> range_data os c = None"
    using o range_data_below by force+
  consider "sl < f + off" | "\<not> sl < f + off" "l < sf" | "\<not> sl < f + off" "\<not> l < sf" "sl = l"
    | "\<not> sl < f + off" "\<not> l < sf" "l < sl" | "\<not> sl < f + off" "\<not> l < sf" "sl < l" by linarith
  then show ?case
  proof cases
    case 1
    then show ?thesis using "3.IH"(1) [of "sl + 1"] o below by auto
  next
    case 2
    then show ?thesis using "3.IH"(2) [of "l + 1"] o below by auto
  next
    case 3
    then show ?thesis using "3.IH"(3) [of "l + 1"] o below by (auto simp: max_def)
  next
    case 4
    then show ?thesis using "3.IH"(4) [of "l + 1"] o below by (auto simp: max_def)
  next
    case 5
    then show ?thesis using "3.IH"(5) [of "sl + 1"] o below by (auto simp: max_def)
  qed
qed auto

lemma ordered_from_length: "ordered_from lo xs \<Longrightarrow> lo \<le> 128 \<Longrightarrow> int (length xs) \<le> 128 - lo"
proof (induction lo xs rule: ordered_from.induct)
  case (2 lo f l d xs)
  then have "int (length xs) \<le> 128 - (l + 1)" by simp
  with 2 show ?case by simp
qed simp

lemma range_data_member: "range_data xs c = Some d \<Longrightarrow> \<exists>f l. (f, l, d) \<in> set xs \<and> f \<le> c \<and> c \<le> l"
  by (induction xs c rule: range_data.induct) (auto split: if_splits)

lemma member_range_data: "ordered_from lo xs \<Longrightarrow> (f, l, d) \<in> set xs \<Longrightarrow> f \<le> c \<Longrightarrow> c \<le> l \<Longrightarrow> range_data xs c = Some d"
proof (induction lo xs rule: ordered_from.induct)
  case (2 lo f' l' d' xs)
  have "c > l'" if "(f, l, d) \<in> set xs"
  proof (rule ccontr)
    assume "\<not> c > l'"
    then have "range_data xs c = None" using 2 by (intro range_data_below [of "l' + 1"]) auto
    then show False using 2 that by simp
  qed
  then show ?case using 2 by auto
qed simp

lemma ordered_from_member: "ordered_from lo xs \<Longrightarrow> (f, l, d) \<in> set xs \<Longrightarrow> lo \<le> f \<and> f \<le> l \<and> l \<le> 127"
  by (induction lo xs rule: ordered_from.induct) auto

lemma ordered_range_data:
  assumes "ordered_from lo xs" "(f, l, d) \<in> set xs"
  shows "range_data xs f = Some d"
  using member_range_data [OF assms, of f] ordered_from_member [OF assms] by simp

text \<open>\<^verbatim>\<open>extend\<close> on well-formed lists returns, and combines the data character by character.\<close>

lemma range_list_extend_data:
  assumes "represents v xs" "ordered_from 0 xs" "ordered_from 0 os"
  shows "\<exists>w ys. range_list_extend convert ext os v = Some w \<and> represents w ys \<and> ordered_from 0 ys \<and>
    (\<forall>c. range_data ys c = combine_data convert ext (range_data xs c) (range_data os c))"
proof -
  have "ranges_bounded xs" "ranges_bounded os"
    using assms(2,3) by (auto intro: ordered_from_bounded)
  then obtain w where w: "range_list_extend convert ext os v = Some w"
    "represents w (merge_ranges convert ext xs 0 os)"
    using extend_represents [OF assms(1), of os convert ext] by blast
  have "ordered_from 0 (merge_ranges convert ext xs 0 os)"
    by (rule merge_ranges_ordered) (use assms in simp_all)
  moreover have "range_data (merge_ranges convert ext xs 0 os) c =
      combine_data convert ext (range_data xs c) (range_data os c)" for c
    using merge_ranges_data [of 0 xs 0 os convert ext c] assms by simp
  ultimately show ?thesis using w by blast
qed

subsection \<open>Converters of target sets\<close>

text \<open>
  The two converters the source passes to \<^verbatim>\<open>extend\<close> add the converted targets to a set.  The one that
  adds epsilon closures does so only on sets that are closed already (\<open>keeps\<close>) and for targets that
  are nodes (\<open>valid\<close>).
\<close>

definition char_targets :: "nat set char_data list \<Rightarrow> int \<Rightarrow> nat set" where
  "char_targets xs c = (case range_data xs c of None \<Rightarrow> {} | Some s \<Rightarrow> s)"

definition converted_targets :: "('e \<Rightarrow> nat set) \<Rightarrow> 'e char_data list \<Rightarrow> int \<Rightarrow> nat set" where
  "converted_targets convert os c = (case range_data os c of None \<Rightarrow> {} | Some e \<Rightarrow> convert e)"

definition all_data :: "('d \<Rightarrow> bool) \<Rightarrow> 'd char_data list \<Rightarrow> bool" where
  "all_data P xs \<longleftrightarrow> (\<forall>(f, l, d) \<in> set xs. P d)"

lemma all_data_at: "all_data P xs \<Longrightarrow> range_data xs c = Some d \<Longrightarrow> P d"
  by (auto simp: all_data_def dest!: range_data_member)

lemma all_dataI:
  assumes "ordered_from lo xs" "\<And>c d. range_data xs c = Some d \<Longrightarrow> P d"
  shows "all_data P xs"
  using assms ordered_range_data [OF assms(1)] by (fastforce simp: all_data_def)

locale target_converter =
  fixes convert :: "'e \<Rightarrow> nat set"
    and ext :: "nat set \<Rightarrow> 'e \<Rightarrow> nat set"
    and keeps :: "nat set \<Rightarrow> bool"
    and valid :: "'e \<Rightarrow> bool"
  assumes ext_union: "keeps d \<Longrightarrow> valid e \<Longrightarrow> ext d e = d \<union> convert e"
    and ext_keeps: "keeps d \<Longrightarrow> valid e \<Longrightarrow> keeps (d \<union> convert e)"
    and convert_keeps: "keeps {} \<Longrightarrow> valid e \<Longrightarrow> keeps (convert e)"
    and convert_nonempty: "valid e \<Longrightarrow> convert e \<noteq> {}"
begin

definition good :: "nat set \<Rightarrow> bool" where
  "good d \<longleftrightarrow> keeps d \<and> d \<noteq> {}"

lemma extend_good:
  assumes v: "represents v xs" "ordered_from 0 xs" "all_data good xs"
    and o: "ordered_from 0 os" "all_data valid os" and k: "keeps {}"
  shows "\<exists>w ys. range_list_extend convert ext os v = Some w \<and> represents w ys \<and> ordered_from 0 ys \<and>
    all_data good ys \<and> (\<forall>c. char_targets ys c = char_targets xs c \<union> converted_targets convert os c)"
proof -
  obtain w ys where w: "range_list_extend convert ext os v = Some w" "represents w ys" "ordered_from 0 ys"
    and d: "\<And>c. range_data ys c = combine_data convert ext (range_data xs c) (range_data os c)"
    using range_list_extend_data [OF v(1,2) o(1)] by blast
  have at: "(\<forall>d'. range_data ys c = Some d' \<longrightarrow> good d') \<and>
      char_targets ys c = char_targets xs c \<union> converted_targets convert os c" for c
    using all_data_at [OF v(3), of c] all_data_at [OF o(2), of c]
    by (cases "range_data xs c"; cases "range_data os c")
      (auto simp: d char_targets_def converted_targets_def good_def ext_union ext_keeps convert_keeps [OF k]
        convert_nonempty)
  then have "all_data good ys" by (intro all_dataI [OF w(3)]) blast
  with at w show ?thesis by blast
qed

lemma good_char_targets: "all_data good xs \<Longrightarrow> range_data xs c = None \<longleftrightarrow> char_targets xs c = {}"
  by (auto simp: char_targets_def good_def dest: all_data_at split: option.splits)

end

end
