(* ===== verification/Content_NFA.thy ===== *)
theory Content_NFA
  imports Mutable_Range_List
begin

text \<open>
  The nondeterministic automaton of the content blocker: \<^verbatim>\<open>ImmutableNFA\<close>, its accessors, and
  \<^verbatim>\<open>ImmutableNFANodeBuilder\<close>, which collects the properties of one node and sinks them into the
  vectors of the automaton.  The hash sets of the builder are sets; the order in which a hash set is
  iterated depends on its table and is a parameter of the definitions that iterate.
\<close>

subsection \<open>Data\<close>

record immutable_range =
  targetStart :: nat
  targetEnd :: nat
  irFirst :: int
  irLast :: int

record nfa_node =
  rangesStart :: nat
  rangesEnd :: nat
  epsilonTransitionTargetsStart :: nat
  epsilonTransitionTargetsEnd :: nat
  actionStart :: nat
  actionEnd :: nat

record nfa =
  nfa_nodes :: "nfa_node list"
  nfa_transitions :: "immutable_range list"
  nfa_targets :: "nat list"
  epsilonTransitionsTargets :: "nat list"
  nfa_actions :: "u64 list"

definition new_nfa_node :: nfa_node where
  "new_nfa_node = \<lparr>rangesStart = 0, rangesEnd = 0, epsilonTransitionTargetsStart = 0,
     epsilonTransitionTargetsEnd = 0, actionStart = 0, actionEnd = 0\<rparr>"

definition new_nfa :: nfa where
  "new_nfa = \<lparr>nfa_nodes = [], nfa_transitions = [], nfa_targets = [],
     epsilonTransitionsTargets = [], nfa_actions = []\<rparr>"

subsection \<open>Accessors\<close>

definition range_targets :: "nfa \<Rightarrow> immutable_range \<Rightarrow> nat list" where
  "range_targets a r = vec_slice (targetStart r) (targetEnd r) (nfa_targets a)"

definition transitionsForNode :: "nfa \<Rightarrow> nat \<Rightarrow> nat list char_data list" where
  "transitionsForNode a nodeId =
     (let n = nfa_nodes a ! nodeId in
      map (\<lambda>r. (irFirst r, irLast r, range_targets a r))
        (vec_slice (rangesStart n) (rangesEnd n) (nfa_transitions a)))"

definition epsilon_targets :: "nfa \<Rightarrow> nat \<Rightarrow> nat list" where
  "epsilon_targets a nodeId =
     (let n = nfa_nodes a ! nodeId in
      vec_slice (epsilonTransitionTargetsStart n) (epsilonTransitionTargetsEnd n) (epsilonTransitionsTargets a))"

definition nfa_node_actions :: "nfa \<Rightarrow> nat \<Rightarrow> u64 list" where
  "nfa_node_actions a nodeId =
     (let n = nfa_nodes a ! nodeId in vec_slice (actionStart n) (actionEnd n) (nfa_actions a))"

text \<open>\<^verbatim>\<open>root\<close> asserts that there is a node, in release builds too.\<close>

definition nfa_root :: "nfa \<Rightarrow> nat option" where
  "nfa_root a = (if nfa_nodes a = [] then None else Some 0)"

subsection \<open>The node builder\<close>

record node_builder =
  m_rangeList :: "nat set range_vector"
  m_epsilonTransitionTargets :: "nat set"
  m_actions :: "u64 set"
  m_nodeId :: nat
  m_finalized :: bool

definition builder_new :: "nfa \<Rightarrow> node_builder \<times> nfa" where
  "builder_new a =
     (\<lparr>m_rangeList = [], m_epsilonTransitionTargets = {}, m_actions = {},
       m_nodeId = length (nfa_nodes a), m_finalized = False\<rparr>,
      a\<lparr>nfa_nodes := nfa_nodes a @ [new_nfa_node]\<rparr>)"

text \<open>The two operations of the converter that \<^verbatim>\<open>addTransition\<close> passes to \<^verbatim>\<open>extend\<close>.\<close>

definition target_convert :: "nat \<Rightarrow> nat set" where
  "target_convert target = {target}"

definition target_extend :: "nat set \<Rightarrow> nat \<Rightarrow> nat set" where
  "target_extend existingTargets target = insert target existingTargets"

definition addTransition :: "int \<Rightarrow> int \<Rightarrow> nat \<Rightarrow> node_builder \<Rightarrow> node_builder option" where
  "addTransition rFirst rLast targetNodeId b =
     Option.bind
       (range_list_extend target_convert target_extend [(rFirst, rLast, targetNodeId)] (m_rangeList b))
       (\<lambda>ranges. Some (b\<lparr>m_rangeList := ranges\<rparr>))"

definition addEpsilonTransition :: "nat \<Rightarrow> node_builder \<Rightarrow> node_builder" where
  "addEpsilonTransition targetNodeId b =
     b\<lparr>m_epsilonTransitionTargets := insert targetNodeId (m_epsilonTransitionTargets b)\<rparr>"

definition builder_setActions :: "u64 list \<Rightarrow> node_builder \<Rightarrow> node_builder" where
  "builder_setActions acts b = b\<lparr>m_actions := m_actions b \<union> set acts\<rparr>"

definition sinkActions :: "(u64 set \<Rightarrow> u64 list) \<Rightarrow> node_builder \<Rightarrow> nfa \<Rightarrow> nfa" where
  "sinkActions actionOrder b a =
     (let start = length (nfa_actions a);
          acts = nfa_actions a @ actionOrder (m_actions b);
          n = nfa_nodes a ! m_nodeId b
      in a\<lparr>nfa_actions := acts,
           nfa_nodes := (nfa_nodes a)[m_nodeId b := n\<lparr>actionStart := start, actionEnd := length acts\<rparr>]\<rparr>)"

definition sinkEpsilonTransitions :: "(nat set \<Rightarrow> nat list) \<Rightarrow> node_builder \<Rightarrow> nfa \<Rightarrow> nfa" where
  "sinkEpsilonTransitions order b a =
     (let start = length (epsilonTransitionsTargets a);
          ts = epsilonTransitionsTargets a @ order (m_epsilonTransitionTargets b);
          n = nfa_nodes a ! m_nodeId b
      in a\<lparr>epsilonTransitionsTargets := ts,
           nfa_nodes := (nfa_nodes a)[m_nodeId b := n\<lparr>epsilonTransitionTargetsStart := start,
             epsilonTransitionTargetsEnd := length ts\<rparr>]\<rparr>)"

fun sink_ranges :: "(nat set \<Rightarrow> nat list) \<Rightarrow> nat set char_data list \<Rightarrow> nfa \<Rightarrow> nfa" where
  "sink_ranges order [] a = a"
| "sink_ranges order ((rFirst, rLast, d) # xs) a =
     (let targetsStart = length (nfa_targets a); ts = nfa_targets a @ order d in
      sink_ranges order xs
        (a\<lparr>nfa_targets := ts,
           nfa_transitions := nfa_transitions a @
             [\<lparr>targetStart = targetsStart, targetEnd = length ts, irFirst = rFirst, irLast = rLast\<rparr>]\<rparr>))"

definition sinkTransitions :: "(nat set \<Rightarrow> nat list) \<Rightarrow> node_builder \<Rightarrow> nfa \<Rightarrow> nfa option" where
  "sinkTransitions order b a =
     Option.bind (iterate (m_rangeList b)) (\<lambda>ranges.
       let start = length (nfa_transitions a);
           a' = sink_ranges order ranges a;
           n = nfa_nodes a' ! m_nodeId b
       in Some (a'\<lparr>nfa_nodes := (nfa_nodes a')[m_nodeId b :=
            n\<lparr>rangesStart := start, rangesEnd := length (nfa_transitions a')\<rparr>]\<rparr>))"

definition builder_finalize ::
  "(nat set \<Rightarrow> nat list) \<Rightarrow> (u64 set \<Rightarrow> u64 list) \<Rightarrow> node_builder \<Rightarrow> nfa \<Rightarrow> (node_builder \<times> nfa) option" where
  "builder_finalize order actionOrder b a =
     Option.bind (sinkTransitions order b (sinkEpsilonTransitions order b (sinkActions actionOrder b a)))
       (\<lambda>a'. Some (b\<lparr>m_finalized := True\<rparr>, a'))"

definition builder_destroy ::
  "(nat set \<Rightarrow> nat list) \<Rightarrow> (u64 set \<Rightarrow> u64 list) \<Rightarrow> node_builder \<Rightarrow> nfa \<Rightarrow> (node_builder \<times> nfa) option" where
  "builder_destroy order actionOrder b a =
     (if \<not> m_finalized b then builder_finalize order actionOrder b a else Some (b, a))"

subsection \<open>Meaning and well-formedness\<close>

text \<open>An order enumerates every finite set once.\<close>

definition enumerates :: "('a set \<Rightarrow> 'a list) \<Rightarrow> bool" where
  "enumerates order \<longleftrightarrow> (\<forall>S. finite S \<longrightarrow> set (order S) = S \<and> distinct (order S))"

lemma enumeratesD [simp]:
  "enumerates order \<Longrightarrow> finite S \<Longrightarrow> set (order S) = S"
  "enumerates order \<Longrightarrow> finite S \<Longrightarrow> distinct (order S)"
  by (auto simp: enumerates_def)

lemma enumerates_sorted [simp]: "enumerates (sorted_list_of_set :: ('a :: linorder) set \<Rightarrow> 'a list)"
  by (simp add: enumerates_def)

definition node_targets :: "nfa \<Rightarrow> nat \<Rightarrow> int \<Rightarrow> nat set" where
  "node_targets a n c = converted_targets set (transitionsForNode a n) c"

definition wf_range :: "nfa \<Rightarrow> immutable_range \<Rightarrow> bool" where
  "wf_range a r \<longleftrightarrow> targetStart r < targetEnd r \<and> targetEnd r \<le> length (nfa_targets a)"

definition wf_nfa_node :: "nfa \<Rightarrow> nat \<Rightarrow> bool" where
  "wf_nfa_node a i \<longleftrightarrow>
     (let n = nfa_nodes a ! i in
      rangesEnd n \<le> length (nfa_transitions a) \<and>
      epsilonTransitionTargetsEnd n \<le> length (epsilonTransitionsTargets a) \<and>
      actionEnd n \<le> length (nfa_actions a) \<and>
      (\<forall>r \<in> set (vec_slice (rangesStart n) (rangesEnd n) (nfa_transitions a)). wf_range a r) \<and>
      ordered_from 0 (transitionsForNode a i))"

text \<open>The targets of a node are nodes.\<close>

definition closed_nfa_node :: "nfa \<Rightarrow> nat \<Rightarrow> bool" where
  "closed_nfa_node a i \<longleftrightarrow>
     (\<forall>(f, l, ts) \<in> set (transitionsForNode a i). \<forall>t \<in> set ts. t < length (nfa_nodes a)) \<and>
     (\<forall>t \<in> set (epsilon_targets a i). t < length (nfa_nodes a))"

definition wf_nfa :: "nfa \<Rightarrow> bool" where
  "wf_nfa a \<longleftrightarrow> nfa_nodes a \<noteq> [] \<and>
     (\<forall>i < length (nfa_nodes a). wf_nfa_node a i \<and> closed_nfa_node a i)"

subsection \<open>The builder records what was added\<close>

interpretation targets: target_converter target_convert target_extend "\<lambda>_. True" "\<lambda>_. True"
  by unfold_locales (auto simp: target_convert_def target_extend_def)

definition added_targets :: "(int \<times> int \<times> nat) list \<Rightarrow> int \<Rightarrow> nat set" where
  "added_targets ts c = {t. \<exists>f l. (f, l, t) \<in> set ts \<and> f \<le> c \<and> c \<le> l}"

definition builds :: "node_builder \<Rightarrow> (int \<times> int \<times> nat) list \<Rightarrow> bool" where
  "builds b ts \<longleftrightarrow> (\<exists>xs. represents (m_rangeList b) xs \<and> ordered_from 0 xs \<and>
     all_data (\<lambda>d. d \<noteq> {} \<and> finite d) xs \<and> (\<forall>c. char_targets xs c = added_targets ts c))"

text \<open>All transitions of a node, added one after the other.\<close>

fun addTransitions :: "(int \<times> int \<times> nat) list \<Rightarrow> node_builder \<Rightarrow> node_builder option" where
  "addTransitions [] b = Some b"
| "addTransitions ((f, l, t) # ts) b = Option.bind (addTransition f l t b) (addTransitions ts)"

lemma added_targets_finite: "finite (added_targets ts c)"
  by (rule finite_subset [of _ "(\<lambda>(f, l, t). t) ` set ts"]) (force simp: added_targets_def)+

lemma addTransition_builds:
  assumes "builds b ts" "0 \<le> f" "f \<le> l" "l \<le> 127"
  shows "\<exists>b'. addTransition f l t b = Some b' \<and> builds b' (ts @ [(f, l, t)]) \<and>
    m_nodeId b' = m_nodeId b \<and> m_finalized b' = m_finalized b \<and>
    m_epsilonTransitionTargets b' = m_epsilonTransitionTargets b \<and> m_actions b' = m_actions b"
proof -
  obtain xs where xs: "represents (m_rangeList b) xs" "ordered_from 0 xs"
    "all_data (\<lambda>d. d \<noteq> {} \<and> finite d) xs" "\<And>c. char_targets xs c = added_targets ts c"
    using assms(1) by (auto simp: builds_def)
  have g: "all_data targets.good xs" using xs(3) by (auto simp: all_data_def targets.good_def)
  obtain w ys where w: "range_list_extend target_convert target_extend [(f, l, t)] (m_rangeList b) = Some w"
    "represents w ys" "ordered_from 0 ys" "all_data targets.good ys" and
    ct: "\<And>c. char_targets ys c = char_targets xs c \<union> converted_targets target_convert [(f, l, t)] c"
    using targets.extend_good [OF xs(1,2) g, of "[(f, l, t)]"] assms by (auto simp: all_data_def)
  have new: "char_targets ys c = added_targets (ts @ [(f, l, t)]) c" for c
    by (auto simp: ct xs(4) added_targets_def converted_targets_def target_convert_def)
  have "all_data (\<lambda>d. d \<noteq> {} \<and> finite d) ys"
  proof (rule all_dataI [OF w(3)])
    fix c d assume d: "range_data ys c = Some d"
    then have "d = added_targets (ts @ [(f, l, t)]) c" using new [of c] by (simp add: char_targets_def)
    then show "d \<noteq> {} \<and> finite d"
      using all_data_at [OF w(4) d] by (simp add: targets.good_def added_targets_finite)
  qed
  then have "builds (b\<lparr>m_rangeList := w\<rparr>) (ts @ [(f, l, t)])"
    using w new by (auto simp: builds_def)
  then show ?thesis using w(1) by (simp add: addTransition_def)
qed

lemma addTransitions_builds:
  assumes "builds b us" "\<forall>(f, l, t) \<in> set ts. 0 \<le> f \<and> f \<le> l \<and> l \<le> 127"
  shows "\<exists>b'. addTransitions ts b = Some b' \<and> builds b' (us @ ts) \<and>
    m_nodeId b' = m_nodeId b \<and> m_finalized b' = m_finalized b \<and>
    m_epsilonTransitionTargets b' = m_epsilonTransitionTargets b \<and> m_actions b' = m_actions b"
  using assms
proof (induction ts arbitrary: b us)
  case (Cons x ts)
  obtain f l t where x: "x = (f, l, t)" by (cases x)
  obtain b1 where b1: "addTransition f l t b = Some b1" "builds b1 (us @ [(f, l, t)])"
    "m_nodeId b1 = m_nodeId b" "m_finalized b1 = m_finalized b"
    "m_epsilonTransitionTargets b1 = m_epsilonTransitionTargets b" "m_actions b1 = m_actions b"
    using addTransition_builds [OF Cons.prems(1), of f l t] Cons.prems(2) x by auto
  show ?case using Cons.IH [OF b1(2)] Cons.prems(2) b1 by (auto simp: x)
qed simp

lemma sink_ranges_appends:
  "\<exists>R T. sink_ranges order xs a =
      a\<lparr>nfa_targets := nfa_targets a @ T, nfa_transitions := nfa_transitions a @ R\<rparr> \<and>
    map (\<lambda>r. (irFirst r, irLast r, vec_slice (targetStart r) (targetEnd r) (nfa_targets a @ T))) R =
      map (\<lambda>(f, l, d). (f, l, order d)) xs \<and>
    (\<forall>r \<in> set R. targetEnd r \<le> length (nfa_targets a @ T))"
proof (induction xs arbitrary: a)
  case (Cons x xs)
  obtain f l d where x: "x = (f, l, d)" by (cases x)
  let ?r = "\<lparr>targetStart = length (nfa_targets a), targetEnd = length (nfa_targets a @ order d),
    irFirst = f, irLast = l\<rparr>"
  obtain R T where RT: "sink_ranges order xs
        (a\<lparr>nfa_targets := nfa_targets a @ order d, nfa_transitions := nfa_transitions a @ [?r]\<rparr>) =
      a\<lparr>nfa_targets := (nfa_targets a @ order d) @ T, nfa_transitions := (nfa_transitions a @ [?r]) @ R\<rparr>"
    "map (\<lambda>r. (irFirst r, irLast r, vec_slice (targetStart r) (targetEnd r) ((nfa_targets a @ order d) @ T))) R =
      map (\<lambda>(f, l, d). (f, l, order d)) xs"
    "\<forall>r \<in> set R. targetEnd r \<le> length ((nfa_targets a @ order d) @ T)"
    using Cons.IH [of "a\<lparr>nfa_targets := nfa_targets a @ order d,
      nfa_transitions := nfa_transitions a @ [?r]\<rparr>"] by auto
  have "vec_slice (length (nfa_targets a)) (length (nfa_targets a @ order d)) ((nfa_targets a @ order d) @ T) = order d"
    by (subst slice_append) simp_all
  then show ?case using RT unfolding x
    by (intro exI [of _ "?r # R"] exI [of _ "order d @ T"]) (simp add: Let_def)
qed (intro exI [of _ "[]"], simp)

lemma map_range_targets:
  "transitionsForNode a i = map (\<lambda>r. (irFirst r, irLast r, vec_slice (targetStart r) (targetEnd r) (nfa_targets a)))
     (vec_slice (rangesStart (nfa_nodes a ! i)) (rangesEnd (nfa_nodes a ! i)) (nfa_transitions a))"
  by (simp add: transitionsForNode_def range_targets_def Let_def)

text \<open>The vectors only grow, so a node that was complete keeps its properties.\<close>

definition grown :: "nfa \<Rightarrow> nfa \<Rightarrow> nat \<Rightarrow> bool" where
  "grown a a' n \<longleftrightarrow> length (nfa_nodes a') = length (nfa_nodes a) \<and>
     (\<forall>j. j \<noteq> n \<longrightarrow> nfa_nodes a' ! j = nfa_nodes a ! j) \<and>
     (\<exists>R. nfa_transitions a' = nfa_transitions a @ R) \<and> (\<exists>T. nfa_targets a' = nfa_targets a @ T) \<and>
     (\<exists>E. epsilonTransitionsTargets a' = epsilonTransitionsTargets a @ E) \<and>
     (\<exists>A. nfa_actions a' = nfa_actions a @ A)"

lemma grown_same:
  assumes g: "grown a a' n" and j: "j \<noteq> n" and w: "wf_nfa_node a j"
  shows "transitionsForNode a' j = transitionsForNode a j" "epsilon_targets a' j = epsilon_targets a j"
    "nfa_node_actions a' j = nfa_node_actions a j" "wf_nfa_node a' j"
proof -
  let ?n = "nfa_nodes a ! j"
  obtain R T E A where v: "nfa_nodes a' ! j = ?n" "nfa_transitions a' = nfa_transitions a @ R"
    "nfa_targets a' = nfa_targets a @ T" "epsilonTransitionsTargets a' = epsilonTransitionsTargets a @ E"
    "nfa_actions a' = nfa_actions a @ A" using g j by (auto simp: grown_def)
  have w': "rangesEnd ?n \<le> length (nfa_transitions a)"
    "epsilonTransitionTargetsEnd ?n \<le> length (epsilonTransitionsTargets a)"
    "actionEnd ?n \<le> length (nfa_actions a)"
    "\<And>r. r \<in> set (vec_slice (rangesStart ?n) (rangesEnd ?n) (nfa_transitions a)) \<Longrightarrow> wf_range a r"
    using w by (auto simp: wf_nfa_node_def Let_def)
  show t: "transitionsForNode a' j = transitionsForNode a j"
    unfolding map_range_targets v slice_append [OF w'(1)]
    by (rule map_cong) (auto dest!: w'(4) simp: wf_range_def)
  show "epsilon_targets a' j = epsilon_targets a j" "nfa_node_actions a' j = nfa_node_actions a j"
    using w' by (simp_all add: epsilon_targets_def nfa_node_actions_def Let_def v)
  show "wf_nfa_node a' j" using w' w t
    by (fastforce simp: wf_nfa_node_def Let_def v wf_range_def)
qed

lemma converted_targets_order:
  assumes "enumerates order" "all_data finite xs"
  shows "converted_targets set (map (\<lambda>(f, l, d). (f, l, order d)) xs) c = char_targets xs c"
proof -
  have "range_data (map (\<lambda>(f, l, d). (f, l, order d)) xs) c = map_option order (range_data xs c)"
    by (induction xs c rule: range_data.induct) auto
  then show ?thesis using all_data_at [OF assms(2), of c] assms(1)
    by (auto simp: converted_targets_def char_targets_def split: option.splits)
qed

lemma ordered_from_map: "ordered_from lo (map (\<lambda>(f, l, d). (f, l, h d)) xs) = ordered_from lo xs"
  by (induction lo xs rule: ordered_from.induct) auto

lemma builder_finalize_node:
  assumes b: "builds b ts" "finite (m_epsilonTransitionTargets b)" "finite (m_actions b)"
    and n: "m_nodeId b < length (nfa_nodes a)" and ord: "enumerates order" "enumerates actionOrder"
  shows "\<exists>a'. builder_finalize order actionOrder b a = Some (b\<lparr>m_finalized := True\<rparr>, a') \<and>
    grown a a' (m_nodeId b) \<and> wf_nfa_node a' (m_nodeId b) \<and>
    (\<forall>c. node_targets a' (m_nodeId b) c = added_targets ts c) \<and>
    set (epsilon_targets a' (m_nodeId b)) = m_epsilonTransitionTargets b \<and>
    set (nfa_node_actions a' (m_nodeId b)) = m_actions b"
proof -
  obtain xs where xs: "represents (m_rangeList b) xs" "ordered_from 0 xs"
    "all_data (\<lambda>d. d \<noteq> {} \<and> finite d) xs" "\<And>c. char_targets xs c = added_targets ts c"
    using b(1) by (auto simp: builds_def)
  let ?a = "sinkEpsilonTransitions order b (sinkActions actionOrder b a)"
  obtain R T where RT: "sink_ranges order xs ?a =
      ?a\<lparr>nfa_targets := nfa_targets ?a @ T, nfa_transitions := nfa_transitions ?a @ R\<rparr>"
    "map (\<lambda>r. (irFirst r, irLast r, vec_slice (targetStart r) (targetEnd r) (nfa_targets ?a @ T))) R =
      map (\<lambda>(f, l, d). (f, l, order d)) xs"
    "\<forall>r \<in> set R. targetEnd r \<le> length (nfa_targets ?a @ T)"
    using sink_ranges_appends [of order xs ?a] by auto
  obtain a' where a': "builder_finalize order actionOrder b a = Some (b\<lparr>m_finalized := True\<rparr>, a')"
    and f: "nfa_transitions a' = nfa_transitions a @ R" "nfa_targets a' = nfa_targets a @ T"
      "epsilonTransitionsTargets a' = epsilonTransitionsTargets a @ order (m_epsilonTransitionTargets b)"
      "nfa_actions a' = nfa_actions a @ actionOrder (m_actions b)"
      "length (nfa_nodes a') = length (nfa_nodes a)" "\<forall>j. j \<noteq> m_nodeId b \<longrightarrow> nfa_nodes a' ! j = nfa_nodes a ! j"
      "nfa_nodes a' ! m_nodeId b =
        \<lparr>rangesStart = length (nfa_transitions a), rangesEnd = length (nfa_transitions a @ R),
         epsilonTransitionTargetsStart = length (epsilonTransitionsTargets a),
         epsilonTransitionTargetsEnd = length (epsilonTransitionsTargets a @ order (m_epsilonTransitionTargets b)),
         actionStart = length (nfa_actions a),
         actionEnd = length (nfa_actions a @ actionOrder (m_actions b))\<rparr>"
    using RT(1) n by (simp add: builder_finalize_def sinkTransitions_def iterate_represents [OF xs(1)]
        sinkEpsilonTransitions_def sinkActions_def Let_def)
  have t0: "nfa_targets ?a = nfa_targets a" by (simp add: sinkEpsilonTransitions_def sinkActions_def Let_def)
  have tr: "transitionsForNode a' (m_nodeId b) = map (\<lambda>(f, l, d). (f, l, order d)) xs"
    unfolding map_range_targets f by (simp add: RT(2) [unfolded t0])
  have "wf_range a' r" if "r \<in> set R" for r
  proof -
    have "(irFirst r, irLast r, vec_slice (targetStart r) (targetEnd r) (nfa_targets a')) \<in>
        set (map (\<lambda>(f, l, d). (f, l, order d)) xs)"
      using that unfolding RT(2) [symmetric] f t0 by force
    then have "vec_slice (targetStart r) (targetEnd r) (nfa_targets a') \<noteq> []"
      using xs(3) ord(1) by (fastforce simp: all_data_def dest: enumeratesD(1))
    then show ?thesis using RT(3) that
      by (auto simp: wf_range_def f t0 vec_slice_def)
  qed
  then have "wf_nfa_node a' (m_nodeId b)"
    unfolding wf_nfa_node_def Let_def tr ordered_from_map using xs(2) by (simp add: f)
  moreover have "node_targets a' (m_nodeId b) c = added_targets ts c" for c
    unfolding node_targets_def tr xs(4) [symmetric]
    by (rule converted_targets_order [OF ord(1)]) (use xs(3) in \<open>fastforce simp: all_data_def\<close>)
  moreover have "grown a a' (m_nodeId b)" using f by (auto simp: grown_def)
  moreover have "set (epsilon_targets a' (m_nodeId b)) = m_epsilonTransitionTargets b"
    "set (nfa_node_actions a' (m_nodeId b)) = m_actions b"
    using b ord by (simp_all add: epsilon_targets_def nfa_node_actions_def f)
  ultimately show ?thesis using a' by blast
qed

lemma fold_addEpsilonTransition:
  "fold addEpsilonTransition es b = b\<lparr>m_epsilonTransitionTargets := m_epsilonTransitionTargets b \<union> set es\<rparr>"
  by (induction es arbitrary: b) (simp_all add: addEpsilonTransition_def)

lemma builder_node_complete:
  fixes a :: nfa
  assumes t: "\<forall>(f, l, t) \<in> set ts. 0 \<le> f \<and> f \<le> l \<and> l \<le> 127"
    and o: "enumerates order" "enumerates actionOrder"
  defines "n \<equiv> length (nfa_nodes a)"
  defines "b \<equiv> fst (builder_new a)" and "a0 \<equiv> snd (builder_new a)"
  shows "\<exists>b' a'. addTransitions ts b = Some b' \<and>
      builder_destroy order actionOrder (builder_setActions acts (fold addEpsilonTransition es b')) a0 =
        Some (\<lparr>m_rangeList = m_rangeList b', m_epsilonTransitionTargets = set es, m_actions = set acts,
                m_nodeId = n, m_finalized = True\<rparr>, a') \<and>
      wf_nfa_node a' n \<and> (\<forall>c. node_targets a' n c = added_targets ts c) \<and>
      set (epsilon_targets a' n) = set es \<and> set (nfa_node_actions a' n) = set acts \<and>
      (\<forall>j < n. wf_nfa_node a j \<longrightarrow> wf_nfa_node a' j \<and>
         transitionsForNode a' j = transitionsForNode a j \<and> epsilon_targets a' j = epsilon_targets a j \<and>
         nfa_node_actions a' j = nfa_node_actions a j)"
proof -
  have "builds b []"
    by (auto simp: b_def builder_new_def builds_def represents_def chain_def all_data_def char_targets_def
        added_targets_def intro!: exI [of _ "[]"])
  then obtain b' where b': "addTransitions ts b = Some b'" "builds b' ts" "m_nodeId b' = m_nodeId b"
    "m_finalized b' = m_finalized b" "m_epsilonTransitionTargets b' = m_epsilonTransitionTargets b"
    "m_actions b' = m_actions b"
    using addTransitions_builds [OF _ t, of b "[]"] by auto
  let ?b = "builder_setActions acts (fold addEpsilonTransition es b')"
  have f: "?b = \<lparr>m_rangeList = m_rangeList b', m_epsilonTransitionTargets = set es, m_actions = set acts,
      m_nodeId = n, m_finalized = False\<rparr>"
    using b'(3-) by (simp add: builder_setActions_def fold_addEpsilonTransition b_def builder_new_def n_def)
  then have "builds ?b ts" using b'(2) by (simp add: builds_def)
  then obtain a' where a': "builder_finalize order actionOrder ?b a0 = Some (?b\<lparr>m_finalized := True\<rparr>, a')"
    "grown a0 a' n" "wf_nfa_node a' n" "\<And>c. node_targets a' n c = added_targets ts c"
    "set (epsilon_targets a' n) = set es" "set (nfa_node_actions a' n) = set acts"
    using builder_finalize_node [OF _ _ _ _ o, of ?b ts a0]
    by (auto simp: f a0_def builder_new_def n_def)
  have same: "wf_nfa_node a0 j = wf_nfa_node a j" "transitionsForNode a0 j = transitionsForNode a j"
    "epsilon_targets a0 j = epsilon_targets a j" "nfa_node_actions a0 j = nfa_node_actions a j" if "j < n" for j
    using that by (simp_all add: a0_def builder_new_def n_def wf_nfa_node_def transitionsForNode_def
        range_targets_def wf_range_def epsilon_targets_def nfa_node_actions_def Let_def nth_append)
  have "wf_nfa_node a' j \<and> transitionsForNode a' j = transitionsForNode a j \<and>
      epsilon_targets a' j = epsilon_targets a j \<and> nfa_node_actions a' j = nfa_node_actions a j"
    if "j < n" "wf_nfa_node a j" for j
    using grown_same [OF a'(2), of j] that same [OF that(1)] by simp
  moreover have "builder_destroy order actionOrder ?b a0 = Some (?b\<lparr>m_finalized := True\<rparr>, a')"
    using a'(1) by (simp add: builder_destroy_def f)
  ultimately show ?thesis using b'(1) a'(3-6) by (intro exI [of _ b'] exI [of _ a']) (simp add: f)
qed

end
