(* ===== verification/Content_DFA.thy ===== *)
theory Content_DFA
  imports Prelude
begin

text \<open>
  The deterministic automaton of the content blocker: \<^verbatim>\<open>DFA\<close>, \<^verbatim>\<open>DFANode\<close> and \<^verbatim>\<open>CharRange\<close> of
  WebCore/contentextensions, their accessors, and the choice of the fallback target.  The second
  half states what a run of the automaton over a URL is, independently of the bytecode.
\<close>

subsection \<open>Data\<close>

record char_range =
  crFirst :: int
  crLast :: int

definition range_size :: "char_range \<Rightarrow> nat" where
  "range_size r = nat (crLast r - crFirst r + 1)"

record dfa_node =
  m_actionsStart :: nat
  m_transitionsStart :: nat
  m_actionsLength :: nat
  m_transitionsLength :: nat
  m_flags :: byte

record dfa =
  nodes :: "dfa_node list"
  dfa_actions :: "u64 list"
  transitionRanges :: "char_range list"
  transitionDestinations :: "nat list"
  root :: nat

definition IsKilled :: byte where
  "IsKilled = 1"

definition isKilled :: "dfa_node \<Rightarrow> bool" where
  "isKilled n \<longleftrightarrow> m_flags n AND IsKilled \<noteq> 0"

definition new_node :: dfa_node where
  "new_node = \<lparr>m_actionsStart = 0, m_transitionsStart = 0, m_actionsLength = 0,
     m_transitionsLength = 0, m_flags = 0\<rparr>"

definition dfa_empty :: dfa where
  "dfa_empty = \<lparr>nodes = [new_node], dfa_actions = [], transitionRanges = [],
     transitionDestinations = [], root = 0\<rparr>"

definition setActions :: "nat \<Rightarrow> nat \<Rightarrow> dfa_node \<Rightarrow> dfa_node" where
  "setActions start len n = n\<lparr>m_actionsStart := start, m_actionsLength := len\<rparr>"

text \<open>The length is stored in a \<^verbatim>\<open>uint8_t\<close> field.\<close>

definition setTransitions :: "nat \<Rightarrow> nat \<Rightarrow> dfa_node \<Rightarrow> dfa_node" where
  "setTransitions start len n =
     n\<lparr>m_transitionsStart := start, m_transitionsLength := len mod 256\<rparr>"

definition graphSize :: "dfa \<Rightarrow> nat" where
  "graphSize d = length (filter (\<lambda>n. \<not> isKilled n) (nodes d))"

subsection \<open>Accessors of a node\<close>

definition node_actions :: "dfa \<Rightarrow> dfa_node \<Rightarrow> u64 list" where
  "node_actions d n =
     map (\<lambda>i. dfa_actions d ! i) [m_actionsStart n ..< m_actionsStart n + m_actionsLength n]"

type_synonym transition = "char_range \<times> nat"

definition node_transitions :: "dfa \<Rightarrow> dfa_node \<Rightarrow> transition list" where
  "node_transitions d n =
     map (\<lambda>i. (transitionRanges d ! i, transitionDestinations d ! i))
       [m_transitionsStart n ..< m_transitionsStart n + m_transitionsLength n]"

definition containsTransition :: "int \<Rightarrow> dfa \<Rightarrow> dfa_node \<Rightarrow> bool" where
  "containsTransition c d n \<longleftrightarrow>
     list_ex (\<lambda>i. crFirst (transitionRanges d ! i) \<le> c \<and> c \<le> crLast (transitionRanges d ! i))
       [m_transitionsStart n ..< m_transitionsStart n + m_transitionsLength n]"

text \<open>
  \<^verbatim>\<open>DFANode::kill\<close> marks the node and overwrites the entries it owned in the three vectors.
\<close>

definition overwrite :: "nat \<Rightarrow> nat \<Rightarrow> 'a \<Rightarrow> 'a list \<Rightarrow> 'a list" where
  "overwrite start len v xs = fold (\<lambda>i ys. ys[i := v]) [start ..< start + len] xs"

definition kill :: "nat \<Rightarrow> dfa \<Rightarrow> dfa" where
  "kill i d =
     (let n = nodes d ! i in
      d\<lparr>transitionRanges :=
          overwrite (m_transitionsStart n) (m_transitionsLength n) \<lparr>crFirst = -1, crLast = -1\<rparr>
            (transitionRanges d),
        transitionDestinations :=
          overwrite (m_transitionsStart n) (m_transitionsLength n) u32_max
            (transitionDestinations d),
        dfa_actions :=
          overwrite (m_actionsStart n) (m_actionsLength n) (- 1) (dfa_actions d),
        nodes := (nodes d)[i := \<lparr>m_actionsStart = 0, m_transitionsStart = 0,
          m_actionsLength = 0, m_transitionsLength = 0, m_flags = IsKilled\<rparr>]\<rparr>)"

subsection \<open>The fallback transition\<close>

fun fallback_scan :: "int \<Rightarrow> transition list \<Rightarrow> bool" where
  "fallback_scan lastSeenCharacter [] = False"
| "fallback_scan lastSeenCharacter ((r, t) # ts) =
     (if crFirst r \<noteq> lastSeenCharacter + 1 then False
      else if crLast r = 127 then True
      else fallback_scan (crLast r) ts)"

definition canUseFallbackTransition :: "dfa \<Rightarrow> dfa_node \<Rightarrow> bool" where
  "canUseFallbackTransition d n =
     (case node_transitions d n of
        [] \<Rightarrow> False
      | (r, t) # ts \<Rightarrow>
          if crFirst r = 0 then (if crLast r = 127 then True else fallback_scan (crLast r) ts)
          else fallback_scan 0 ((r, t) # ts))"

text \<open>
  The histogram is a hash map from targets to the number of characters that lead to them;
  \<^verbatim>\<open>add\<close> inserts the size of the range when the key is new and the code adds to it otherwise.
\<close>

fun fallback_histogram ::
  "(nat \<rightharpoonup> nat) \<Rightarrow> nat \<Rightarrow> nat \<Rightarrow> transition list \<Rightarrow> nat" where
  "fallback_histogram h bestTarget bestTargetScore [] = bestTarget"
| "fallback_histogram h bestTarget bestTargetScore ((r, target) # ts) =
     (let rangeSize = range_size r;
          v = (case h target of None \<Rightarrow> rangeSize | Some old \<Rightarrow> old + rangeSize);
          h' = h(target \<mapsto> v)
      in if bestTargetScore < v then fallback_histogram h' target v ts
         else fallback_histogram h' bestTarget bestTargetScore ts)"

definition bestFallbackTarget :: "dfa \<Rightarrow> dfa_node \<Rightarrow> nat option" where
  "bestFallbackTarget d n =
     (let ts = node_transitions d n;
          it = (case ts of [] \<Rightarrow> [] | (r, t) # ts' \<Rightarrow>
                  if crFirst r = 0 \<and> crLast r = 0 then ts' else ts)
      in case it of
           [] \<Rightarrow> None
         | (r, bestTarget) # ts' \<Rightarrow>
             let score = (if crFirst r = 0 then range_size r - 1 else range_size r)
             in Some (fallback_histogram [bestTarget \<mapsto> score] bestTarget score ts'))"

subsection \<open>Well-formed automata\<close>

text \<open>
  The shape \<^verbatim>\<open>NFAToDFA::convert\<close> gives every automaton: the indices of a live node stay inside the
  vectors, its ranges are sorted, disjoint and ASCII, and its targets are live nodes.
\<close>

definition sorted_transitions :: "transition list \<Rightarrow> bool" where
  "sorted_transitions ts \<longleftrightarrow>
     (\<forall>(r, t) \<in> set ts. 0 \<le> crFirst r \<and> crFirst r \<le> crLast r \<and> crLast r \<le> 127) \<and>
     sorted_wrt (\<lambda>(r, _) (r', _). crLast r < crFirst r') ts"

definition live :: "dfa \<Rightarrow> nat \<Rightarrow> bool" where
  "live d i \<longleftrightarrow> i < length (nodes d) \<and> \<not> isKilled (nodes d ! i)"

definition wf_node :: "dfa \<Rightarrow> dfa_node \<Rightarrow> bool" where
  "wf_node d n \<longleftrightarrow>
     m_actionsStart n + m_actionsLength n \<le> length (dfa_actions d) \<and>
     m_transitionsStart n + m_transitionsLength n \<le> length (transitionRanges d) \<and>
     sorted_transitions (node_transitions d n) \<and>
     (\<forall>(r, t) \<in> set (node_transitions d n). live d t)"

definition wf_dfa :: "dfa \<Rightarrow> bool" where
  "wf_dfa d \<longleftrightarrow>
     live d (root d) \<and>
     length (nodes d) \<le> u32_max \<and>
     length (transitionRanges d) = length (transitionDestinations d) \<and>
     (\<forall>n \<in> set (nodes d). \<not> isKilled n \<longrightarrow> wf_node d n)"

subsection \<open>Runs of the automaton\<close>

definition in_range :: "int \<Rightarrow> char_range \<Rightarrow> bool" where
  "in_range c r \<longleftrightarrow> crFirst r \<le> c \<and> c \<le> crLast r"

fun find_target :: "int \<Rightarrow> transition list \<Rightarrow> nat option" where
  "find_target c [] = None"
| "find_target c ((r, t) # ts) = (if in_range c r then Some t else find_target c ts)"

definition dfa_next :: "dfa \<Rightarrow> nat \<Rightarrow> int \<Rightarrow> nat option" where
  "dfa_next d n c = find_target c (node_transitions d (nodes d ! n))"

text \<open>The nodes entered, in order, when the automaton reads a list of characters.\<close>

fun dfa_trace :: "dfa \<Rightarrow> nat \<Rightarrow> int list \<Rightarrow> nat list" where
  "dfa_trace d n [] = []"
| "dfa_trace d n (c # cs) =
     (case dfa_next d n c of None \<Rightarrow> [] | Some m \<Rightarrow> m # dfa_trace d m cs)"

text \<open>The actions of the nodes a run passes, the root included.\<close>

definition selected :: "dfa \<Rightarrow> int list \<Rightarrow> u64 set" where
  "selected d w = (\<Union>n\<in>set (root d # dfa_trace d (root d) w). set (node_actions d (nodes d ! n)))"

definition used_actions :: "dfa \<Rightarrow> u64 set" where
  "used_actions d = (\<Union>i\<in>{i. live d i}. set (node_actions d (nodes d ! i)))"

lemma finite_used_actions [simp]: "finite (used_actions d)"
  by (auto simp: used_actions_def live_def)

subsection \<open>Looking up a character\<close>

lemma sorted_transitions_Cons:
  "sorted_transitions ((r, t) # ts) \<longleftrightarrow>
     0 \<le> crFirst r \<and> crFirst r \<le> crLast r \<and> crLast r \<le> 127 \<and>
     (\<forall>(r', t') \<in> set ts. crLast r < crFirst r') \<and> sorted_transitions ts"
  by (auto simp: sorted_transitions_def)

lemma find_target_SomeD:
  "find_target c ts = Some t \<Longrightarrow> \<exists>r. (r, t) \<in> set ts \<and> in_range c r"
  by (induction c ts rule: find_target.induct) (auto split: if_splits)

lemma find_target_sorted:
  "sorted_transitions ts \<Longrightarrow> find_target c ts = Some t \<longleftrightarrow> (\<exists>r. (r, t) \<in> set ts \<and> in_range c r)"
proof (induction c ts rule: find_target.induct)
  case (2 c r t' ts)
  have later: "\<not> in_range c r'" if "in_range c r" "(r', u) \<in> set ts" for r' u
    using that "2.prems" by (fastforce simp: sorted_transitions_Cons in_range_def)
  show ?case
    using 2 later by (auto simp: sorted_transitions_Cons)
qed simp

lemma find_target_None:
  "find_target c ts = None \<longleftrightarrow> (\<forall>(r, t) \<in> set ts. \<not> in_range c r)"
  by (induction c ts rule: find_target.induct) auto

lemma find_target_ascii:
  "sorted_transitions ts \<Longrightarrow> find_target c ts = Some t \<Longrightarrow> 0 \<le> c \<and> c \<le> 127"
  by (auto simp: find_target_sorted sorted_transitions_def in_range_def)

lemma wf_dfa_node:
  "wf_dfa d \<Longrightarrow> live d i \<Longrightarrow> wf_node d (nodes d ! i)"
  by (auto simp: wf_dfa_def live_def)

lemma dfa_next_live:
  assumes "wf_dfa d" "live d i" "dfa_next d i c = Some t"
  shows "live d t"
  using assms wf_dfa_node [OF assms(1,2)] find_target_SomeD
  by (fastforce simp: dfa_next_def wf_node_def)

lemma node_actions_subset: "wf_node d n \<Longrightarrow> set (node_actions d n) \<subseteq> set (dfa_actions d)"
  by (auto simp: node_actions_def wf_node_def)

lemma used_actions_subset: "wf_dfa d \<Longrightarrow> used_actions d \<subseteq> set (dfa_actions d)"
  using node_actions_subset [OF wf_dfa_node] by (auto simp: used_actions_def)

subsection \<open>The fallback transition covers every character but the terminator\<close>

lemma fallback_scan_total:
  "fallback_scan s ts \<Longrightarrow> s < c \<Longrightarrow> c \<le> 127 \<Longrightarrow> find_target c ts \<noteq> None"
  by (induction s ts rule: fallback_scan.induct) (force simp: in_range_def split: if_splits)+

lemma canUseFallbackTransition_total:
  assumes "canUseFallbackTransition d n" "1 \<le> c" "c \<le> 127"
  shows "find_target c (node_transitions d n) \<noteq> None"
  using assms fallback_scan_total
  by (fastforce simp: canUseFallbackTransition_def in_range_def split: list.splits if_splits)

lemma fallback_histogram_mem:
  "fallback_histogram h b s ts \<in> insert b (snd ` set ts)"
proof (induction ts arbitrary: h b s)
  case (Cons x ts)
  then show ?case by (cases x) (force simp: Let_def)
qed simp

lemma bestFallbackTarget_mem:
  assumes "bestFallbackTarget d n = Some t"
  shows "t \<in> snd ` set (node_transitions d n)"
  using assms fallback_histogram_mem
  by (fastforce simp: bestFallbackTarget_def Let_def split: list.splits if_splits)

lemma canUseFallbackTransition_best:
  assumes "sorted_transitions (node_transitions d n)" "canUseFallbackTransition d n"
  shows "\<exists>t. bestFallbackTarget d n = Some t"
  using assms
  by (auto simp: bestFallbackTarget_def canUseFallbackTransition_def Let_def
      split: list.splits if_splits)

subsection \<open>The fallback target is a most frequent target\<close>

definition char_count :: "transition list \<Rightarrow> nat \<Rightarrow> nat" where
  "char_count ts t = card {c \<in> {1..127}. find_target c ts = Some t}"

definition range_weight :: "char_range \<Rightarrow> nat" where
  "range_weight r = card ({1..127} \<inter> {crFirst r..crLast r})"

definition total_weight :: "transition list \<Rightarrow> nat \<Rightarrow> nat" where
  "total_weight ts t = (\<Sum>(r, t') \<leftarrow> ts. if t' = t then range_weight r else 0)"

lemma range_weight_pos:
  "1 \<le> crFirst r \<Longrightarrow> crLast r \<le> 127 \<Longrightarrow> range_weight r = range_size r"
  by (simp add: range_weight_def range_size_def min_def max_def)

lemma range_weight_zero:
  "crFirst r = 0 \<Longrightarrow> crLast r \<le> 127 \<Longrightarrow> range_weight r = range_size r - 1"
  by (simp add: range_weight_def range_size_def min_def)

lemma total_weight_Cons:
  "total_weight ((r, t') # ts) t = (if t' = t then range_weight r else 0) + total_weight ts t"
  by (simp add: total_weight_def)

lemma char_count_total_weight:
  "sorted_transitions ts \<Longrightarrow> char_count ts t = total_weight ts t"
proof (induction ts)
  case Nil
  then show ?case by (simp add: char_count_def total_weight_def)
next
  case (Cons x ts)
  obtain r t' where x: "x = (r, t')" by (cases x)
  have disj: "find_target c ts = None" if "in_range c r" for c
    using Cons.prems that unfolding x
    by (fastforce simp: find_target_None sorted_transitions_Cons in_range_def)
  let ?R = "if t' = t then {1..127} \<inter> {crFirst r..crLast r} else {}"
  let ?T = "{c \<in> {1..127}. find_target c ts = Some t}"
  have "{c \<in> {1..127}. find_target c (x # ts) = Some t} = ?R \<union> ?T"
    using disj by (auto simp: x in_range_def)
  moreover have "finite ?T" by (rule finite_subset [of _ "{1..127}"]) auto
  then have "card (?R \<union> ?T) = card ?R + card ?T"
    using disj by (intro card_Un_disjoint) (auto simp: in_range_def split: if_splits)
  moreover have "card ?R = (if t' = t then range_weight r else 0)"
    by (simp add: range_weight_def)
  ultimately have "char_count (x # ts) t = (if t' = t then range_weight r else 0) + card ?T"
    unfolding char_count_def by (simp only:)
  then show ?case
    using Cons by (simp add: x total_weight_Cons sorted_transitions_Cons char_count_def)
qed

lemma fallback_histogram_max:
  assumes "\<forall>(r, t) \<in> set ts. range_weight r = range_size r"
    and "\<And>t. f t = (case h t of None \<Rightarrow> 0 | Some v \<Rightarrow> v)"
    and "\<And>t. f t \<le> s" and "f b = s"
  shows "f t + total_weight ts t \<le>
    f (fallback_histogram h b s ts) + total_weight ts (fallback_histogram h b s ts)"
  using assms
proof (induction ts arbitrary: f h b s)
  case Nil
  then show ?case by (simp add: total_weight_def)
next
  case (Cons x ts)
  obtain r u where x: "x = (r, u)" by (cases x)
  let ?v = "f u + range_size r"
  let ?h = "h(u \<mapsto> ?v)"
  let ?f = "f(u := ?v)"
  let ?b = "if s < ?v then u else b" and ?s = "if s < ?v then ?v else s"
  have v: "(case h u of None \<Rightarrow> range_size r | Some old \<Rightarrow> old + range_size r) = ?v"
    using Cons.prems(2) [of u] by (simp split: option.splits)
  have step: "fallback_histogram h b s (x # ts) = fallback_histogram ?h ?b ?s ts"
    by (simp add: x Let_def v)
  have w: "f t + total_weight (x # ts) t = ?f t + total_weight ts t" for t
    using Cons.prems(1) by (simp add: x total_weight_Cons)
  have "?f t + total_weight ts t \<le>
      ?f (fallback_histogram ?h ?b ?s ts) + total_weight ts (fallback_histogram ?h ?b ?s ts)"
  proof (rule Cons.IH)
    show "\<forall>(r, t) \<in> set ts. range_weight r = range_size r"
      using Cons.prems(1) by auto
    show "?f t = (case ?h t of None \<Rightarrow> 0 | Some v \<Rightarrow> v)" for t
      using Cons.prems(2) by auto
    show "?f t \<le> ?s" for t
      using Cons.prems(3) [of t] by auto
    show "?f ?b = ?s"
      using Cons.prems(3) [of u] Cons.prems(4) by auto
  qed
  then show ?case by (simp add: w step)
qed

lemma later_range_weight:
  assumes "sorted_transitions ((r, t) # ts)" "(r', t') \<in> set ts"
  shows "range_weight r' = range_size r'"
proof (rule range_weight_pos)
  show "1 \<le> crFirst r'" "crLast r' \<le> 127"
    using assms by (auto simp: sorted_transitions_def)
qed

lemma bestFallbackTarget_weight:
  assumes sorted: "sorted_transitions (node_transitions d n)"
    and best: "bestFallbackTarget d n = Some b"
  shows "total_weight (node_transitions d n) t \<le> total_weight (node_transitions d n) b"
proof -
  obtain r u ts where ts: "node_transitions d n = (r, u) # ts"
    using best by (auto simp: bestFallbackTarget_def Let_def split: list.splits)
  note s = sorted [unfolded ts]
  have max: "total_weight ((r', u') # ts') t \<le> total_weight ((r', u') # ts') b"
    if "sorted_transitions ((r', u') # ts')"
      and b: "b = fallback_histogram [u' \<mapsto> range_weight r'] u' (range_weight r') ts'" for r' u' ts'
  proof -
    have "(if t = u' then range_weight r' else 0) + total_weight ts' t
        \<le> (if b = u' then range_weight r' else 0) + total_weight ts' b"
      unfolding b using later_range_weight [OF that(1)]
      by (intro fallback_histogram_max) auto
    then show ?thesis by (simp add: total_weight_Cons eq_commute)
  qed
  show ?thesis
  proof (cases "crFirst r = 0 \<and> crLast r = 0")
    case True
    with best ts obtain r' u' ts' where ts': "ts = (r', u') # ts'"
      and b: "b = fallback_histogram [u' \<mapsto> range_size r'] u' (range_size r') ts'"
      using s by (auto simp: bestFallbackTarget_def Let_def sorted_transitions_Cons
          split: list.splits if_splits)
    have "range_weight r = 0" using True by (simp add: range_weight_def)
    moreover have "range_weight r' = range_size r'"
      using later_range_weight [OF s] ts' by auto
    moreover have "sorted_transitions ts" using s by (simp add: sorted_transitions_Cons)
    ultimately have "total_weight ts t \<le> total_weight ts b"
      using max [of r' u' ts'] b by (simp only: ts')
    with \<open>range_weight r = 0\<close> show ?thesis by (simp add: ts total_weight_Cons)
  next
    case False
    have "range_weight r = (if crFirst r = 0 then range_size r - 1 else range_size r)"
      using s range_weight_zero [of r] range_weight_pos [of r]
      by (auto simp: sorted_transitions_Cons)
    then show ?thesis
      using best ts False max [OF s] by (auto simp: bestFallbackTarget_def Let_def)
  qed
qed

end
