(* ===== verification/NFA_To_DFA.thy ===== *)
theory NFA_To_DFA
  imports Content_NFA Content_DFA
begin

text \<open>
  \<^verbatim>\<open>NFAToDFA::convert\<close>: epsilon closures, the table of unique node sets, and the worklist that turns
  a nondeterministic automaton into a \<^verbatim>\<open>DFA\<close>.  A loop that does not return is the value \<open>None\<close>; a
  failed release assertion is an error value.
\<close>

unbundle bit_operations_syntax

subsection \<open>Epsilon closures\<close>

record closure_state =
  cs_closure :: "nat set"
  cs_unprocessed :: "nat list"
  cs_output :: "nat list"

definition closure_add :: "nat \<Rightarrow> closure_state \<Rightarrow> closure_state" where
  "closure_add targetNodeId s =
     (if targetNodeId \<in> cs_closure s then s
      else s\<lparr>cs_closure := insert targetNodeId (cs_closure s),
             cs_unprocessed := cs_unprocessed s @ [targetNodeId],
             cs_output := cs_output s @ [targetNodeId]\<rparr>)"

definition closure_step :: "nfa \<Rightarrow> closure_state \<Rightarrow> closure_state" where
  "closure_step a s =
     fold closure_add (epsilon_targets a (last (cs_unprocessed s)))
       (s\<lparr>cs_unprocessed := butlast (cs_unprocessed s)\<rparr>)"

definition epsilonClosureExcludingSelf :: "nfa \<Rightarrow> nat \<Rightarrow> nat list option" where
  "epsilonClosureExcludingSelf a nodeId =
     map_option cs_output
       (while_option (\<lambda>s. cs_unprocessed s \<noteq> []) (closure_step a)
         \<lparr>cs_closure = {nodeId}, cs_unprocessed = [nodeId], cs_output = []\<rparr>)"

fun collect_options :: "'a option list \<Rightarrow> 'a list option" where
  "collect_options [] = Some []"
| "collect_options (x # xs) =
     Option.bind x (\<lambda>y. Option.bind (collect_options xs) (\<lambda>ys. Some (y # ys)))"

definition resolveEpsilonClosures :: "nfa \<Rightarrow> (nat list list \<times> nfa) option" where
  "resolveEpsilonClosures a =
     Option.bind (collect_options (map (epsilonClosureExcludingSelf a) [0 ..< length (nfa_nodes a)]))
       (\<lambda>closures. Some (closures, a\<lparr>epsilonTransitionsTargets := []\<rparr>))"

definition extendSetWithClosure :: "nat list list \<Rightarrow> nat \<Rightarrow> nat set \<Rightarrow> nat set" where
  "extendSetWithClosure closures nodeId s = s \<union> set (closures ! nodeId)"

subsection \<open>The table of unique node sets\<close>

definition intHash :: "32 word \<Rightarrow> 32 word" where
  "intHash key =
     (let key = key + NOT (push_bit 15 key);
          key = key XOR drop_bit 10 key;
          key = key + push_bit 3 key;
          key = key XOR drop_bit 6 key;
          key = key + NOT (push_bit 11 key)
      in key XOR drop_bit 16 key)"

record unique_set =
  us_hash :: "32 word"
  us_dfaNodeId :: nat
  us_buffer :: "nat list"

definition node_set_hash :: "(nat set \<Rightarrow> nat list) \<Rightarrow> nat set \<Rightarrow> 32 word" where
  "node_set_hash order s = intHash (fold (\<lambda>nodeId hash. hash + of_nat nodeId) (order s) 4207445155)"

definition unique_set_new :: "(nat set \<Rightarrow> nat list) \<Rightarrow> nat set \<Rightarrow> 32 word \<Rightarrow> nat \<Rightarrow> unique_set" where
  "unique_set_new order s hash dfaNodeId =
     \<lparr>us_hash = hash, us_dfaNodeId = dfaNodeId, us_buffer = order s\<rparr>"

definition unique_set_equal :: "unique_set \<Rightarrow> nat set \<Rightarrow> bool" where
  "unique_set_equal u s \<longleftrightarrow>
     length (us_buffer u) = card s \<and> list_all (\<lambda>n. n \<in> s) (us_buffer u)"

datatype convert_error = EmptyNFA | TooManyActions

record conv_state =
  conv_dfa :: dfa
  conv_table :: "unique_set list"
  conv_unprocessed :: "unique_set list"

definition set_actions :: "(nat set \<Rightarrow> nat list) \<Rightarrow> nfa \<Rightarrow> nat set \<Rightarrow> u64 set" where
  "set_actions order a s = fold (\<lambda>n acts. acts \<union> set (nfa_node_actions a n)) (order s) {}"

definition translate ::
  "(nat set \<Rightarrow> nat list) \<Rightarrow> (u64 set \<Rightarrow> u64 list) \<Rightarrow> nfa \<Rightarrow> nat set \<Rightarrow> 32 word \<Rightarrow> dfa \<Rightarrow>
   convert_error + (unique_set \<times> dfa)" where
  "translate order actionOrder a s hash d =
     (let actionsStart = length (dfa_actions d);
          acts = dfa_actions d @ actionOrder (set_actions order a s);
          actionsLength = length acts - actionsStart
      in if \<not> actionsLength \<le> 65535 then Inl TooManyActions
         else Inr (unique_set_new order s hash (length (nodes d)),
                   d\<lparr>dfa_actions := acts,
                     nodes := nodes d @ [setActions actionsStart (actionsLength mod 65536) new_node]\<rparr>))"

text \<open>
  \<^verbatim>\<open>HashSet::add\<close> with the translator: an entry with the hash of the set that the translator finds
  equal is returned, otherwise a new entry is translated.  The flag is \<^verbatim>\<open>isNewEntry\<close>.
\<close>

definition table_add ::
  "(nat set \<Rightarrow> nat list) \<Rightarrow> (u64 set \<Rightarrow> u64 list) \<Rightarrow> nfa \<Rightarrow> nat set \<Rightarrow> conv_state \<Rightarrow>
   convert_error + (unique_set \<times> bool \<times> conv_state)" where
  "table_add order actionOrder a s c =
     (let hash = node_set_hash order s in
      case find (\<lambda>u. us_hash u = hash \<and> unique_set_equal u s) (conv_table c) of
        Some u \<Rightarrow> Inr (u, False, c)
      | None \<Rightarrow>
          (case translate order actionOrder a s hash (conv_dfa c) of
             Inl e \<Rightarrow> Inl e
           | Inr (u, d) \<Rightarrow> Inr (u, True, c\<lparr>conv_dfa := d, conv_table := conv_table c @ [u]\<rparr>)))"

definition getOrCreateDFANode ::
  "(nat set \<Rightarrow> nat list) \<Rightarrow> (u64 set \<Rightarrow> u64 list) \<Rightarrow> nfa \<Rightarrow> nat set \<Rightarrow> conv_state \<Rightarrow>
   convert_error + (nat \<times> conv_state)" where
  "getOrCreateDFANode order actionOrder a s c =
     (case table_add order actionOrder a s c of
        Inl e \<Rightarrow> Inl e
      | Inr (u, isNewEntry, c') \<Rightarrow>
          Inr (us_dfaNodeId u,
               if isNewEntry then c'\<lparr>conv_unprocessed := conv_unprocessed c' @ [u]\<rparr> else c'))"

subsection \<open>Combined transitions\<close>

definition closure_convert :: "nat list list \<Rightarrow> nat list \<Rightarrow> nat set" where
  "closure_convert closures targets =
     fold (\<lambda>n result. insert n result \<union> set (closures ! n)) targets {}"

definition closure_extend :: "nat list list \<Rightarrow> nat set \<Rightarrow> nat list \<Rightarrow> nat set" where
  "closure_extend closures destination targets =
     fold (\<lambda>n dest. if n \<in> dest then dest else insert n dest \<union> set (closures ! n)) targets destination"

fun combine_transitions ::
  "nfa \<Rightarrow> nat list list \<Rightarrow> nat list \<Rightarrow> nat set range_vector \<Rightarrow> nat set range_vector option" where
  "combine_transitions a closures [] ranges = Some ranges"
| "combine_transitions a closures (n # ns) ranges =
     Option.bind
       (range_list_extend (closure_convert closures) (closure_extend closures) (transitionsForNode a n) ranges)
       (combine_transitions a closures ns)"

definition createCombinedTransition ::
  "unique_set \<Rightarrow> nfa \<Rightarrow> nat list list \<Rightarrow> nat set range_vector option" where
  "createCombinedTransition u a closures = combine_transitions a closures (us_buffer u) []"

subsection \<open>The conversion\<close>

fun add_transitions ::
  "(nat set \<Rightarrow> nat list) \<Rightarrow> (u64 set \<Rightarrow> u64 list) \<Rightarrow> nfa \<Rightarrow> nat set char_data list \<Rightarrow> conv_state \<Rightarrow>
   convert_error + conv_state" where
  "add_transitions order actionOrder a [] c = Inr c"
| "add_transitions order actionOrder a ((rFirst, rLast, s) # xs) c =
     (case getOrCreateDFANode order actionOrder a s c of
        Inl e \<Rightarrow> Inl e
      | Inr (targetNodeId, c') \<Rightarrow>
          let d = conv_dfa c' in
          add_transitions order actionOrder a xs
            (c'\<lparr>conv_dfa := d\<lparr>transitionRanges := transitionRanges d @ [\<lparr>crFirst = rFirst, crLast = rLast\<rparr>],
                              transitionDestinations := transitionDestinations d @ [targetNodeId]\<rparr>\<rparr>))"

definition convert_step ::
  "(nat set \<Rightarrow> nat list) \<Rightarrow> (u64 set \<Rightarrow> u64 list) \<Rightarrow> nfa \<Rightarrow> nat list list \<Rightarrow> conv_state \<Rightarrow>
   (convert_error + conv_state) option" where
  "convert_step order actionOrder a closures c =
     (let u = last (conv_unprocessed c);
          c = c\<lparr>conv_unprocessed := butlast (conv_unprocessed c)\<rparr>
      in Option.bind (createCombinedTransition u a closures) (\<lambda>combinedRangeList.
           Option.bind (iterate combinedRangeList) (\<lambda>ranges.
             let transitionsStart = length (transitionRanges (conv_dfa c)) in
             case add_transitions order actionOrder a ranges c of
               Inl e \<Rightarrow> Some (Inl e)
             | Inr c' \<Rightarrow>
                 let d = conv_dfa c';
                     transitionsLength = length (transitionRanges d) - transitionsStart;
                     i = us_dfaNodeId u
                 in Some (Inr (c'\<lparr>conv_dfa := d\<lparr>nodes :=
                      (nodes d)[i := setTransitions transitionsStart transitionsLength (nodes d ! i)]\<rparr>\<rparr>)))))"

partial_function (option) convert_loop ::
  "(nat set \<Rightarrow> nat list) \<Rightarrow> (u64 set \<Rightarrow> u64 list) \<Rightarrow> nfa \<Rightarrow> nat list list \<Rightarrow> conv_state \<Rightarrow>
   (convert_error + conv_state) option" where
  "convert_loop order actionOrder a closures c =
     Option.bind (convert_step order actionOrder a closures c)
       (\<lambda>r. case r of
              Inl e \<Rightarrow> Some (Inl e)
            | Inr c' \<Rightarrow>
                if conv_unprocessed c' = [] then Some (Inr c')
                else convert_loop order actionOrder a closures c')"

declare convert_loop.simps [code]

definition dfa_new :: dfa where
  "dfa_new = \<lparr>nodes = [], dfa_actions = [], transitionRanges = [], transitionDestinations = [], root = 0\<rparr>"

definition NFAToDFA_convert ::
  "(nat set \<Rightarrow> nat list) \<Rightarrow> (u64 set \<Rightarrow> u64 list) \<Rightarrow> nfa \<Rightarrow> (convert_error + dfa) option" where
  "NFAToDFA_convert order actionOrder a =
     Option.bind (resolveEpsilonClosures a) (\<lambda>(closures, a).
       case nfa_root a of
         None \<Rightarrow> Some (Inl EmptyNFA)
       | Some r \<Rightarrow>
           let initialSet = extendSetWithClosure closures r {r} in
           case table_add order actionOrder a initialSet
                  \<lparr>conv_dfa = dfa_new, conv_table = [], conv_unprocessed = []\<rparr> of
             Inl e \<Rightarrow> Some (Inl e)
           | Inr (u, isNewEntry, c) \<Rightarrow>
               Option.bind
                 (convert_loop order actionOrder a closures (c\<lparr>conv_unprocessed := [u]\<rparr>))
                 (\<lambda>r. case r of Inl e \<Rightarrow> Some (Inl e) | Inr c \<Rightarrow> Some (Inr (conv_dfa c))))"

end
