(* ===== verification/DFA_Minimizer.thy ===== *)
theory DFA_Minimizer
  imports NFA_To_DFA "HOL-Library.Monad_Syntax"
begin

text \<open>
  Minimizing automata: \<^verbatim>\<open>Partition\<close>, \<^verbatim>\<open>FullGraphPartition\<close> and \<^verbatim>\<open>DFAMinimizer::minimize\<close> in
  \<^verbatim>\<open>src/Source/WebCore/contentextensions/DFAMinimizer.cpp\<close>.  A partition is a permutation of the elements
  in which every set is a contiguous stretch, so that marking an element is a swap and splitting a
  set moves one boundary.  Vectors are read and written through \<open>vec_read\<close> and \<open>vec_write\<close>, which are
  \<^term>\<open>None\<close> outside the bounds.  The contents of memory that is allocated without being initialized
  and the iteration order of the hash map of final states are arguments.  Counters and accumulators
  wrap at 32 bits; sums of positions stay inside the vectors.
\<close>

subsection \<open>Vectors\<close>

definition vec_read :: "'a list \<Rightarrow> nat \<Rightarrow> 'a option" where
  "vec_read xs i = (if i < length xs then Some (xs ! i) else None)"

definition vec_write :: "'a list \<Rightarrow> nat \<Rightarrow> 'a \<Rightarrow> 'a list option" where
  "vec_write xs i v = (if i < length xs then Some (xs[i := v]) else None)"

definition vec_resize :: "(nat \<Rightarrow> 'a) \<Rightarrow> nat \<Rightarrow> 'a list \<Rightarrow> 'a list" where
  "vec_resize memory n xs = take n xs @ map memory [length xs ..< n]"

fun fold_option :: "('a \<Rightarrow> 's \<Rightarrow> 's option) \<Rightarrow> 'a list \<Rightarrow> 's \<Rightarrow> 's option" where
  "fold_option f [] s = Some s"
| "fold_option f (x # xs) s = Option.bind (f x s) (fold_option f xs)"

subsection \<open>Transitions cut at common boundaries\<close>

definition transition_items :: "dfa \<Rightarrow> dfa_node \<Rightarrow> nat char_data list" where
  "transition_items d n = map (\<lambda>(r, t). (crFirst r, crLast r, t)) (node_transitions d n)"

text \<open>The two inner loops: the first looks for a first character, the second passes the covered ones.\<close>

function skip_firsts :: "int list \<Rightarrow> int \<Rightarrow> nat \<Rightarrow> nat" where
  "skip_firsts firsts firstCharacter i =
     (if i < length firsts \<and> firsts ! i \<noteq> firstCharacter then skip_firsts firsts firstCharacter (i + 1) else i)"
  by pat_completeness auto
termination
  by (relation "measure (\<lambda>(firsts, c, i). length firsts - i)") auto

function pass_firsts :: "int list \<Rightarrow> int \<Rightarrow> nat \<Rightarrow> nat" where
  "pass_firsts firsts lastCharacter i =
     (if i < length firsts \<and> firsts ! i \<le> lastCharacter then pass_firsts firsts lastCharacter (i + 1) else i)"
  by pat_completeness auto
termination
  by (relation "measure (\<lambda>(firsts, c, i). length firsts - i)") auto

declare skip_firsts.simps [simp del] pass_firsts.simps [simp del]

text \<open>The result lists the calls of the handler: the index of the singular range and the target.\<close>

fun iterateIntersections :: "int list \<Rightarrow> nat char_data list \<Rightarrow> nat \<Rightarrow> (nat \<times> nat) list" where
  "iterateIntersections firsts [] i = []"
| "iterateIntersections firsts ((rFirst, rLast, t) # ts) i =
     (let i = skip_firsts firsts rFirst i;
          j = pass_firsts firsts rLast (i + 1)
      in map (\<lambda>k. (k, t)) [i ..< j] @ iterateIntersections firsts ts j)"

subsection \<open>Partitions\<close>

record set_descriptor =
  sdStart :: nat
  sdSize :: nat
  sdMarkedCount :: nat

definition indexAfterMarkedElements :: "set_descriptor \<Rightarrow> nat" where
  "indexAfterMarkedElements sd = sdStart sd + sdMarkedCount sd"

definition sdEnd :: "set_descriptor \<Rightarrow> nat" where
  "sdEnd sd = sdStart sd + sdSize sd"

record Partition =
  m_sets :: "set_descriptor list"
  m_partitionedElements :: "nat list"
  m_elementPosition :: "nat list"
  m_elementToSetMap :: "nat list"
  m_setsMarked :: "nat list"

definition Partition_new :: Partition where
  "Partition_new = \<lparr>m_sets = [], m_partitionedElements = [], m_elementPosition = [],
     m_elementToSetMap = [], m_setsMarked = []\<rparr>"

definition Partition_initialize :: "nat \<Rightarrow> Partition \<Rightarrow> Partition" where
  "Partition_initialize count p =
     (if count = 0 then p
      else p\<lparr>m_partitionedElements := [0 ..< count], m_elementPosition := [0 ..< count],
             m_elementToSetMap := replicate count 0,
             m_sets := m_sets p @ [\<lparr>sdStart = 0, sdSize = count, sdMarkedCount = 0\<rparr>]\<rparr>)"

definition reserveUninitializedCapacity :: "(nat \<Rightarrow> nat) \<Rightarrow> nat \<Rightarrow> Partition \<Rightarrow> Partition" where
  "reserveUninitializedCapacity memory elementCount p =
     p\<lparr>m_partitionedElements := vec_resize memory elementCount (m_partitionedElements p),
       m_elementPosition := vec_resize memory elementCount (m_elementPosition p),
       m_elementToSetMap := vec_resize memory elementCount (m_elementToSetMap p)\<rparr>"

definition addSetUnchecked :: "nat \<Rightarrow> nat \<Rightarrow> Partition \<Rightarrow> Partition" where
  "addSetUnchecked start count p =
     p\<lparr>m_sets := m_sets p @ [\<lparr>sdStart = start, sdSize = count, sdMarkedCount = 0\<rparr>]\<rparr>"

definition setElementUnchecked :: "nat \<Rightarrow> nat \<Rightarrow> nat \<Rightarrow> Partition \<Rightarrow> Partition option" where
  "setElementUnchecked elementIndex positionInPartition setIndex p =
     do {
       elements \<leftarrow> vec_write (m_partitionedElements p) positionInPartition elementIndex;
       positions \<leftarrow> vec_write (m_elementPosition p) elementIndex positionInPartition;
       sets \<leftarrow> vec_write (m_elementToSetMap p) elementIndex setIndex;
       Some (p\<lparr>m_partitionedElements := elements, m_elementPosition := positions, m_elementToSetMap := sets\<rparr>)
     }"

definition startOffsetOfSet :: "nat \<Rightarrow> Partition \<Rightarrow> nat option" where
  "startOffsetOfSet setIndex p = map_option sdStart (vec_read (m_sets p) setIndex)"

definition markElementInCurrentGeneration :: "nat \<Rightarrow> Partition \<Rightarrow> Partition option" where
  "markElementInCurrentGeneration elementIndex p =
     do {
       setIndex \<leftarrow> vec_read (m_elementToSetMap p) elementIndex;
       setDescriptor \<leftarrow> vec_read (m_sets p) setIndex;
       position \<leftarrow> vec_read (m_elementPosition p) elementIndex;
       let firstUnmarkedPosition = indexAfterMarkedElements setDescriptor;
       firstUnmarkedElement \<leftarrow> vec_read (m_partitionedElements p) firstUnmarkedPosition;
       elements \<leftarrow> vec_write (m_partitionedElements p) firstUnmarkedPosition elementIndex;
       elements \<leftarrow> vec_write elements position firstUnmarkedElement;
       positions \<leftarrow> vec_write (m_elementPosition p) elementIndex firstUnmarkedPosition;
       positions \<leftarrow> vec_write positions firstUnmarkedElement position;
       Some (p\<lparr>m_partitionedElements := elements, m_elementPosition := positions,
               m_setsMarked := (if sdMarkedCount setDescriptor = 0 then m_setsMarked p @ [setIndex] else m_setsMarked p),
               m_sets := (m_sets p)[setIndex := setDescriptor\<lparr>sdMarkedCount := u32 (sdMarkedCount setDescriptor + 1)\<rparr>]\<rparr>)
     }"

text \<open>Splitting a set: the smaller part gets the new index, unless the doubled count wraps.\<close>

definition splitSet :: "nat \<Rightarrow> set_descriptor \<Rightarrow> Partition \<Rightarrow> Partition option" where
  "splitSet setIndex sd p =
     do {
       let newSetIsMarkedSet = u32 (sdMarkedCount sd * 2) \<le> sdSize sd;
       let newSet = (if newSetIsMarkedSet
         then \<lparr>sdStart = sdStart sd, sdSize = sdMarkedCount sd, sdMarkedCount = 0\<rparr>
         else \<lparr>sdStart = sdStart sd + sdMarkedCount sd, sdSize = sdSize sd - sdMarkedCount sd, sdMarkedCount = 0\<rparr>);
       let start = (if newSetIsMarkedSet then sdStart sd + sdMarkedCount sd else sdStart sd);
       let newSetIndex = length (m_sets p);
       setMap \<leftarrow> fold_option (\<lambda>i m. Option.bind (vec_read (m_partitionedElements p) i) (\<lambda>e. vec_write m e newSetIndex))
         [sdStart newSet ..< sdEnd newSet] (m_elementToSetMap p);
       Some (p\<lparr>m_sets := (m_sets p)[setIndex :=
                 \<lparr>sdStart = start, sdSize = sdSize sd - sdSize newSet, sdMarkedCount = 0\<rparr>] @ [newSet],
               m_elementToSetMap := setMap\<rparr>)
     }"

text \<open>
  The function that is called for every new set may change its own state \<open>x\<close> but not the partition.
\<close>

fun refine_sets ::
  "(nat \<Rightarrow> Partition \<Rightarrow> 'x \<Rightarrow> 'x option) \<Rightarrow> nat list \<Rightarrow> Partition \<Rightarrow> 'x \<Rightarrow> (Partition \<times> 'x) option" where
  "refine_sets function [] p x = Some (p, x)"
| "refine_sets function (setIndex # setIndices) p x =
     do {
       sd \<leftarrow> vec_read (m_sets p) setIndex;
       if sdMarkedCount sd = sdSize sd
       then refine_sets function setIndices (p\<lparr>m_sets := (m_sets p)[setIndex := sd\<lparr>sdMarkedCount := 0\<rparr>]\<rparr>) x
       else do {
         p' \<leftarrow> splitSet setIndex sd p;
         x' \<leftarrow> function (length (m_sets p)) p' x;
         refine_sets function setIndices p' x'
       }
     }"

definition refineGeneration ::
  "(nat \<Rightarrow> Partition \<Rightarrow> 'x \<Rightarrow> 'x option) \<Rightarrow> Partition \<Rightarrow> 'x \<Rightarrow> (Partition \<times> 'x) option" where
  "refineGeneration function p x =
     map_option (\<lambda>(p, x). (p\<lparr>m_setsMarked := []\<rparr>, x)) (refine_sets function (m_setsMarked p) p x)"

definition iterateSet :: "nat \<Rightarrow> Partition \<Rightarrow> (nat \<Rightarrow> 'x \<Rightarrow> 'x option) \<Rightarrow> 'x \<Rightarrow> 'x option" where
  "iterateSet setIndex p function x =
     do {
       sd \<leftarrow> vec_read (m_sets p) setIndex;
       fold_option (\<lambda>i x. Option.bind (vec_read (m_partitionedElements p) i) (\<lambda>e. function e x))
         [sdStart sd ..< sdEnd sd] x
     }"

definition setIndexOf :: "nat \<Rightarrow> Partition \<Rightarrow> nat option" where
  "setIndexOf elementIndex p = vec_read (m_elementToSetMap p) elementIndex"

definition firstElementInSet :: "nat \<Rightarrow> Partition \<Rightarrow> nat option" where
  "firstElementInSet setIndex p =
     do {
       sd \<leftarrow> vec_read (m_sets p) setIndex;
       vec_read (m_partitionedElements p) (sdStart sd)
     }"

subsection \<open>The partition of the whole graph\<close>

record full_graph =
  fgStartOffset :: "nat list"
  fgSizePerNode :: "nat list"
  fgTransitions :: "nat list"
  fgNodePartition :: Partition
  fgTransitionPartition :: Partition
  fgNextTransitionSet :: nat

definition counter_convert :: "nat \<Rightarrow> nat" where
  "counter_convert t = 1"

definition counter_extend :: "nat \<Rightarrow> nat \<Rightarrow> nat" where
  "counter_extend destination t = u32 (destination + 1)"

definition live_indices :: "dfa \<Rightarrow> nat list" where
  "live_indices d = filter (\<lambda>i. \<not> isKilled (nodes d ! i)) [0 ..< length (nodes d)]"

definition singular_transitions :: "dfa \<Rightarrow> nat range_vector option" where
  "singular_transitions d =
     fold_option (\<lambda>i ranges. range_list_extend counter_convert counter_extend (transition_items d (nodes d ! i)) ranges)
       (live_indices d) []"

text \<open>The sets of the transition partition, one for each singular range, and their total size.\<close>

fun add_sets :: "nat char_data list \<Rightarrow> nat \<Rightarrow> Partition \<Rightarrow> nat \<times> Partition" where
  "add_sets [] rangeIndexAccumulator p = (rangeIndexAccumulator, p)"
| "add_sets ((rFirst, rLast, count) # rs) rangeIndexAccumulator p =
     add_sets rs (u32 (rangeIndexAccumulator + count)) (addSetUnchecked rangeIndexAccumulator count p)"

text \<open>All calls of the handler of \<open>iterateIntersections\<close>: source, singular range and target.\<close>

definition intersections :: "dfa \<Rightarrow> int list \<Rightarrow> (nat \<times> nat \<times> nat) list" where
  "intersections d firsts =
     concat (map (\<lambda>i. map (\<lambda>(k, t). (i, k, t)) (iterateIntersections firsts (transition_items d (nodes d ! i)) 0))
       (live_indices d))"

definition bump :: "nat \<Rightarrow> nat list \<Rightarrow> nat list option" where
  "bump i counters = Option.bind (vec_read counters i) (\<lambda>v. vec_write counters i (u32 (v + 1)))"

definition count_incoming :: "(nat \<times> nat \<times> nat) list \<Rightarrow> nat list \<Rightarrow> nat list option" where
  "count_incoming calls counters = fold_option (\<lambda>(i, k, targetNodeIndex). bump targetNodeIndex) calls counters"

fun accumulate :: "nat \<Rightarrow> nat list \<Rightarrow> nat \<times> nat list" where
  "accumulate transitionAccumulator [] = (transitionAccumulator, [])"
| "accumulate transitionAccumulator (count # counts) =
     (let (total, offsets) = accumulate (u32 (transitionAccumulator + count)) counts
      in (total, transitionAccumulator # offsets))"

record fill_state =
  flSizes :: "nat list"
  flTransitions :: "nat list"
  flRangeOffsets :: "nat list"
  flPartition :: Partition

definition fill_transition :: "nat list \<Rightarrow> nat \<times> nat \<times> nat \<Rightarrow> fill_state \<Rightarrow> fill_state option" where
  "fill_transition startOffsets = (\<lambda>(i, singularTransitionIndex, targetNodeIndex) s.
     do {
       start \<leftarrow> vec_read startOffsets targetNodeIndex;
       offset \<leftarrow> vec_read (flSizes s) targetNodeIndex;
       let positionInFlattenedTransitions = start + offset;
       transitions \<leftarrow> vec_write (flTransitions s) positionInFlattenedTransitions i;
       inRangeOffset \<leftarrow> vec_read (flRangeOffsets s) singularTransitionIndex;
       startOfSet \<leftarrow> startOffsetOfSet singularTransitionIndex (flPartition s);
       rangeOffsets \<leftarrow> bump singularTransitionIndex (flRangeOffsets s);
       p \<leftarrow> setElementUnchecked positionInFlattenedTransitions (startOfSet + inRangeOffset) singularTransitionIndex (flPartition s);
       sizes \<leftarrow> bump targetNodeIndex (flSizes s);
       Some \<lparr>flSizes = sizes, flTransitions = transitions, flRangeOffsets = rangeOffsets, flPartition = p\<rparr>
     })"

definition FullGraphPartition :: "(nat \<Rightarrow> nat) \<Rightarrow> dfa \<Rightarrow> full_graph option" where
  "FullGraphPartition memory d =
     do {
       let nodePartition = Partition_initialize (length (nodes d)) Partition_new;
       ranges \<leftarrow> singular_transitions d;
       singularTransitions \<leftarrow> iterate ranges;
       let (rangeIndexAccumulator, transitionPartition) = add_sets singularTransitions 0 Partition_new;
       let firsts = map fst singularTransitions;
       counts \<leftarrow> count_incoming (intersections d firsts) (replicate (length (nodes d)) 0);
       let (flattenedTransitionsSize, startOffsets) = accumulate 0 counts;
       let transitionPartition = reserveUninitializedCapacity memory flattenedTransitionsSize transitionPartition;
       filled \<leftarrow> fold_option (fill_transition startOffsets) (intersections d firsts)
         \<lparr>flSizes = replicate (length (nodes d)) 0, flTransitions = vec_resize memory flattenedTransitionsSize [],
          flRangeOffsets = replicate (length (m_sets transitionPartition)) 0, flPartition = transitionPartition\<rparr>;
       Some \<lparr>fgStartOffset = startOffsets, fgSizePerNode = flSizes filled, fgTransitions = flTransitions filled,
             fgNodePartition = nodePartition, fgTransitionPartition = flPartition filled, fgNextTransitionSet = 0\<rparr>
     }"

definition markNode :: "nat \<Rightarrow> full_graph \<Rightarrow> full_graph option" where
  "markNode nodeIndex g =
     map_option (\<lambda>p. g\<lparr>fgNodePartition := p\<rparr>) (markElementInCurrentGeneration nodeIndex (fgNodePartition g))"

definition mark_incoming :: "full_graph \<Rightarrow> nat \<Rightarrow> Partition \<Rightarrow> Partition option" where
  "mark_incoming g nodeIndex p =
     do {
       start \<leftarrow> vec_read (fgStartOffset g) nodeIndex;
       count \<leftarrow> vec_read (fgSizePerNode g) nodeIndex;
       fold_option (\<lambda>i. markElementInCurrentGeneration (start + i)) [0 ..< count] p
     }"

text \<open>What \<open>refinePartitions\<close> does for a new set of nodes: it splits the transitions into it.\<close>

definition split_transitions :: "full_graph \<Rightarrow> nat \<Rightarrow> Partition \<Rightarrow> Partition \<Rightarrow> Partition option" where
  "split_transitions g smallestSetIndex nodePartition transitionPartition =
     do {
       p \<leftarrow> iterateSet smallestSetIndex nodePartition (mark_incoming g) transitionPartition;
       map_option fst (refineGeneration (\<lambda>newSetIndex p x. Some x) p ())
     }"

definition refinePartitions :: "full_graph \<Rightarrow> full_graph option" where
  "refinePartitions g =
     map_option (\<lambda>(p, q). g\<lparr>fgNodePartition := p, fgTransitionPartition := q\<rparr>)
       (refineGeneration (split_transitions g) (fgNodePartition g) (fgTransitionPartition g))"

definition mark_source :: "full_graph \<Rightarrow> nat \<Rightarrow> Partition \<Rightarrow> Partition option" where
  "mark_source g transitionIndex p =
     Option.bind (vec_read (fgTransitions g) transitionIndex) (\<lambda>source. markElementInCurrentGeneration source p)"

definition split_step :: "full_graph \<Rightarrow> full_graph option" where
  "split_step g =
     do {
       p \<leftarrow> iterateSet (fgNextTransitionSet g) (fgTransitionPartition g) (mark_source g) (fgNodePartition g);
       g \<leftarrow> refinePartitions (g\<lparr>fgNodePartition := p\<rparr>);
       Some (g\<lparr>fgNextTransitionSet := fgNextTransitionSet g + 1\<rparr>)
     }"

partial_function (option) splitByUniqueTransitions :: "full_graph \<Rightarrow> full_graph option" where
  "splitByUniqueTransitions g =
     (if fgNextTransitionSet g < length (m_sets (fgTransitionPartition g))
      then Option.bind (split_step g) splitByUniqueTransitions
      else Some g)"

declare splitByUniqueTransitions.simps [code]

definition nodeReplacement :: "full_graph \<Rightarrow> nat \<Rightarrow> nat option" where
  "nodeReplacement g nodeIndex =
     Option.bind (setIndexOf nodeIndex (fgNodePartition g)) (\<lambda>setIndex. firstElementInSet setIndex (fgNodePartition g))"

subsection \<open>Minimizing\<close>

text \<open>The hash map of final states: nodes by their list of actions, in the order of insertion.\<close>

fun final_add :: "u64 list \<Rightarrow> nat \<Rightarrow> (u64 list \<times> nat list) list \<Rightarrow> (u64 list \<times> nat list) list" where
  "final_add key i [] = [(key, [i])]"
| "final_add key i ((key', slot) # slots) =
     (if key' = key then (key', slot @ [i]) # slots else (key', slot) # final_add key i slots)"

definition finalStates :: "dfa \<Rightarrow> (u64 list \<times> nat list) list" where
  "finalStates d =
     fold (\<lambda>i slots. if m_actionsLength (nodes d ! i) \<noteq> 0 then final_add (node_actions d (nodes d ! i)) i slots else slots)
       [0 ..< length (nodes d)] []"

definition partition_final :: "u64 list \<times> nat list \<Rightarrow> full_graph \<Rightarrow> full_graph option" where
  "partition_final slot g = Option.bind (fold_option markNode (snd slot) g) refinePartitions"

text \<open>Nodes that are not the first of their set are killed and recorded in the relocation vector.\<close>

definition relocate_node :: "full_graph \<Rightarrow> nat \<Rightarrow> dfa \<times> nat list \<Rightarrow> (dfa \<times> nat list) option" where
  "relocate_node g i = (\<lambda>(d, relocationVector).
     do {
       replacement \<leftarrow> nodeReplacement g i;
       Some (if i \<noteq> replacement then (kill i d, relocationVector[i := replacement]) else (d, relocationVector))
     })"

definition reset_target :: "nat list \<Rightarrow> nat \<Rightarrow> nat list \<Rightarrow> nat list option" where
  "reset_target relocationVector position destinations =
     do {
       target \<leftarrow> vec_read destinations position;
       relocatedTarget \<leftarrow> vec_read relocationVector target;
       Some (if target \<noteq> relocatedTarget then destinations[position := relocatedTarget] else destinations)
     }"

definition reset_targets :: "nat list \<Rightarrow> dfa_node \<Rightarrow> nat list \<Rightarrow> nat list option" where
  "reset_targets relocationVector n destinations =
     (if isKilled n then Some destinations
      else fold_option (reset_target relocationVector)
        [m_transitionsStart n ..< m_transitionsStart n + m_transitionsLength n] destinations)"

definition DFAMinimizer_minimize ::
  "((u64 list \<times> nat list) list \<Rightarrow> (u64 list \<times> nat list) list) \<Rightarrow> (nat \<Rightarrow> nat) \<Rightarrow> dfa \<Rightarrow> dfa option" where
  "DFAMinimizer_minimize slotOrder memory d =
     do {
       g \<leftarrow> FullGraphPartition memory d;
       g \<leftarrow> fold_option partition_final (slotOrder (finalStates d)) g;
       g \<leftarrow> splitByUniqueTransitions g;
       (d, relocationVector) \<leftarrow> fold_option (relocate_node g) [0 ..< length (nodes d)] (d, [0 ..< length (nodes d)]);
       newRoot \<leftarrow> vec_read relocationVector (root d);
       destinations \<leftarrow> fold_option (reset_targets relocationVector) (nodes d) (transitionDestinations d);
       Some (d\<lparr>root := newRoot, transitionDestinations := destinations\<rparr>)
     }"

end
