(* ===== verification/DFA_Combiner.thy ===== *)
theory DFA_Combiner
  imports DFA_Minimizer
begin

text \<open>
  Combining automata: the product construction of \<^verbatim>\<open>DFAMerger\<close> and the loop of
  \<^verbatim>\<open>DFACombiner::combineDFAs\<close> in \<^verbatim>\<open>src/Source/WebCore/contentextensions/DFACombiner.cpp\<close>.  A node of
  the product is named by a 64-bit signature with the index in the first automaton in the upper half
  and the index in the second in the lower half.  The node map is a list of entries; the order in
  which the set of actions is iterated is an argument, and so are the arguments of the minimizer:
  the order of the final states and the memory it finds when it minimizes an automaton.  Reading a
  node outside its vector is \<^term>\<open>None\<close>.
\<close>

unbundle bit_operations_syntax

subsection \<open>Signatures\<close>

datatype which_dfa = WhichA | WhichB

definition setHalfSignature :: "which_dfa \<Rightarrow> u64 \<Rightarrow> nat \<Rightarrow> u64" where
  "setHalfSignature w signature v =
     (let shiftAmount = (if w = WhichA then 32 else 0);
          mask = push_bit (32 - shiftAmount) 0xffffffff
      in (signature AND mask) OR push_bit shiftAmount (of_nat v))"

definition merger_extend :: "which_dfa \<Rightarrow> u64 \<Rightarrow> nat \<Rightarrow> u64" where
  "merger_extend w destination tgt = setHalfSignature w destination tgt"

definition merger_convert :: "which_dfa \<Rightarrow> nat \<Rightarrow> u64" where
  "merger_convert w tgt = merger_extend w 0xffffffffffffffff tgt"

definition invalidNodeIndex :: nat where
  "invalidNodeIndex = 4294967295"

definition signatureForIndices :: "nat \<Rightarrow> nat \<Rightarrow> u64" where
  "signatureForIndices aIndex bIndex = push_bit 32 (of_nat aIndex) OR of_nat bIndex"

definition extractIndexA :: "u64 \<Rightarrow> nat" where
  "extractIndexA signature = unat (ucast (drop_bit 32 signature) :: 32 word)"

definition extractIndexB :: "u64 \<Rightarrow> nat" where
  "extractIndexB signature = unat (ucast signature :: 32 word)"

subsection \<open>Merging two automata\<close>

record merge_state =
  mg_output :: dfa
  mg_nodeMapping :: "(u64 \<times> nat) list"
  mg_unprocessedNodes :: "u64 list"

definition merge_state_new :: merge_state where
  "merge_state_new = \<lparr>mg_output = dfa_new, mg_nodeMapping = [], mg_unprocessedNodes = []\<rparr>"

definition index_actions :: "dfa \<Rightarrow> nat \<Rightarrow> u64 set option" where
  "index_actions d i =
     (if i = invalidNodeIndex then Some {}
      else if i < length (nodes d) then Some (set (node_actions d (nodes d ! i)))
      else None)"

definition getOrCreateCombinedNode ::
  "(u64 set \<Rightarrow> u64 list) \<Rightarrow> dfa \<Rightarrow> dfa \<Rightarrow> u64 \<Rightarrow> merge_state \<Rightarrow> (nat \<times> merge_state) option" where
  "getOrCreateCombinedNode actionOrder a b signature s =
     (case map_of (mg_nodeMapping s) signature of
        Some i \<Rightarrow> Some (i, s)
      | None \<Rightarrow>
          Option.bind (index_actions a (extractIndexA signature)) (\<lambda>actsA.
          Option.bind (index_actions b (extractIndexB signature)) (\<lambda>actsB.
            let d = mg_output s;
                newNodeIndex = length (nodes d);
                actionsStart = length (dfa_actions d);
                acts = dfa_actions d @ actionOrder (actsA \<union> actsB);
                actionsLength = (length acts - actionsStart) mod 65536
            in Some (newNodeIndex,
                 \<lparr>mg_output = d\<lparr>nodes := nodes d @ [setActions actionsStart actionsLength new_node], dfa_actions := acts\<rparr>,
                  mg_nodeMapping = mg_nodeMapping s @ [(signature, newNodeIndex)],
                  mg_unprocessedNodes = mg_unprocessedNodes s @ [signature]\<rparr>))))"

definition extend_combined :: "which_dfa \<Rightarrow> dfa \<Rightarrow> nat \<Rightarrow> u64 range_vector \<Rightarrow> u64 range_vector option" where
  "extend_combined w d i combined =
     (if i = invalidNodeIndex then Some combined
      else if i < length (nodes d)
        then range_list_extend (merger_convert w) (merger_extend w) (transition_items d (nodes d ! i)) combined
      else None)"

fun add_combined ::
  "(u64 set \<Rightarrow> u64 list) \<Rightarrow> dfa \<Rightarrow> dfa \<Rightarrow> u64 char_data list \<Rightarrow> merge_state \<Rightarrow> merge_state option" where
  "add_combined actionOrder a b [] s = Some s"
| "add_combined actionOrder a b ((rFirst, rLast, signature) # xs) s =
     Option.bind (getOrCreateCombinedNode actionOrder a b signature s) (\<lambda>(targetNodeId, s).
       let d = mg_output s in
       add_combined actionOrder a b xs
         (s\<lparr>mg_output := d\<lparr>transitionRanges := transitionRanges d @ [\<lparr>crFirst = rFirst, crLast = rLast\<rparr>],
                           transitionDestinations := transitionDestinations d @ [targetNodeId]\<rparr>\<rparr>))"

definition merge_step :: "(u64 set \<Rightarrow> u64 list) \<Rightarrow> dfa \<Rightarrow> dfa \<Rightarrow> merge_state \<Rightarrow> merge_state option" where
  "merge_step actionOrder a b s =
     (let unprocessedNode = last (mg_unprocessedNodes s);
          s = s\<lparr>mg_unprocessedNodes := butlast (mg_unprocessedNodes s)\<rparr>;
          transitionsStart = length (transitionRanges (mg_output s))
      in Option.bind (extend_combined WhichA a (extractIndexA unprocessedNode) []) (\<lambda>combined.
         Option.bind (extend_combined WhichB b (extractIndexB unprocessedNode) combined) (\<lambda>combined.
         Option.bind (iterate combined) (\<lambda>ranges.
         Option.bind (add_combined actionOrder a b ranges s) (\<lambda>s.
         Option.bind (map_of (mg_nodeMapping s) unprocessedNode) (\<lambda>sourceNodeId.
           let d = mg_output s;
               transitionsLength = length (transitionRanges d) - transitionsStart
           in Some (s\<lparr>mg_output := d\<lparr>nodes := (nodes d)[sourceNodeId :=
                setTransitions transitionsStart transitionsLength (nodes d ! sourceNodeId)]\<rparr>\<rparr>)))))))"

partial_function (option) merge_loop ::
  "(u64 set \<Rightarrow> u64 list) \<Rightarrow> dfa \<Rightarrow> dfa \<Rightarrow> merge_state \<Rightarrow> merge_state option" where
  "merge_loop actionOrder a b s =
     (if mg_unprocessedNodes s = [] then Some s
      else Option.bind (merge_step actionOrder a b s) (merge_loop actionOrder a b))"

definition DFAMerger_merge :: "(u64 set \<Rightarrow> u64 list) \<Rightarrow> dfa \<Rightarrow> dfa \<Rightarrow> merge_state \<Rightarrow> merge_state option" where
  "DFAMerger_merge actionOrder a b s =
     (if mg_nodeMapping s \<noteq> [] then Some s
      else Option.bind (getOrCreateCombinedNode actionOrder a b (signatureForIndices (root a) (root b)) s)
             (\<lambda>(i, s). merge_loop actionOrder a b s))"

definition merge_dfas :: "(u64 set \<Rightarrow> u64 list) \<Rightarrow> dfa \<Rightarrow> dfa \<Rightarrow> dfa option" where
  "merge_dfas actionOrder a b = map_option mg_output (DFAMerger_merge actionOrder a b merge_state_new)"

subsection \<open>Combining a list of automata\<close>

type_synonym slot_order = "(u64 list \<times> nat list) list \<Rightarrow> (u64 list \<times> nat list) list"

definition minimize :: "slot_order \<Rightarrow> (dfa \<Rightarrow> nat \<Rightarrow> nat) \<Rightarrow> dfa \<Rightarrow> dfa option" where
  "minimize slotOrder memory d = DFAMinimizer_minimize slotOrder (memory d) d"

definition addDFA :: "slot_order \<Rightarrow> (dfa \<Rightarrow> nat \<Rightarrow> nat) \<Rightarrow> dfa \<Rightarrow> dfa list \<Rightarrow> dfa list option" where
  "addDFA slotOrder memory d ds = map_option (\<lambda>q. ds @ [q]) (minimize slotOrder memory d)"

text \<open>The result lists the automata in the order in which the handler receives them.\<close>

function combine_loop ::
  "slot_order \<Rightarrow> (dfa \<Rightarrow> nat \<Rightarrow> nat) \<Rightarrow> (u64 set \<Rightarrow> u64 list) \<Rightarrow> nat \<Rightarrow> dfa list \<Rightarrow> dfa list option" where
  "combine_loop slotOrder memory actionOrder minimumSize ds =
     (case rev ds of
        [] \<Rightarrow> Some []
      | [d] \<Rightarrow> Some [d]
      | a # b # rest \<Rightarrow>
          Option.bind (merge_dfas actionOrder a b) (\<lambda>c.
          Option.bind (if minimumSize < graphSize c \<or> rest = [] then minimize slotOrder memory c else Some c) (\<lambda>c.
            if minimumSize < graphSize c
            then map_option (\<lambda>out. c # out) (combine_loop slotOrder memory actionOrder minimumSize (rev rest))
            else combine_loop slotOrder memory actionOrder minimumSize (rev rest @ [c]))))"
  by pat_completeness auto
termination
  by (relation "measure (\<lambda>(slotOrder, memory, actionOrder, minimumSize, ds). length ds)")
     (auto dest!: arg_cong [where f = length])

declare combine_loop.simps [simp del]

definition combineDFAs ::
  "slot_order \<Rightarrow> (dfa \<Rightarrow> nat \<Rightarrow> nat) \<Rightarrow> (u64 set \<Rightarrow> u64 list) \<Rightarrow> nat \<Rightarrow> dfa list \<Rightarrow> dfa list option" where
  "combineDFAs slotOrder memory actionOrder minimumSize ds =
     map_option (\<lambda>out. rev (filter (\<lambda>d. minimumSize < graphSize d) ds) @ out)
       (combine_loop slotOrder memory actionOrder minimumSize (filter (\<lambda>d. \<not> minimumSize < graphSize d) ds))"

end
