(* ===== verification/DFA_Bytecode.thy ===== *)
theory DFA_Bytecode
  imports Content_DFA
begin

text \<open>
  The instruction set of the content blocker's bytecode (DFABytecode.h), the flags packed into an
  action (ResourceLoadInfo.h), the case folding both ends use, and the raw reads and writes of the
  byte vector.
\<close>

subsection \<open>Instructions and jump sizes\<close>

datatype dfa_instruction =
    CheckValueCaseInsensitive | CheckValueCaseSensitive
  | JumpTableCaseInsensitive | JumpTableCaseSensitive
  | CheckValueRangeCaseInsensitive | CheckValueRangeCaseSensitive
  | AppendAction | AppendActionWithIfCondition
  | TestFlagsAndAppendAction | TestFlagsAndAppendActionWithIfCondition
  | Terminate | Jump

fun instruction_code :: "dfa_instruction \<Rightarrow> byte" where
  "instruction_code CheckValueCaseInsensitive = 0x0"
| "instruction_code CheckValueCaseSensitive = 0x1"
| "instruction_code JumpTableCaseInsensitive = 0x2"
| "instruction_code JumpTableCaseSensitive = 0x3"
| "instruction_code CheckValueRangeCaseInsensitive = 0x4"
| "instruction_code CheckValueRangeCaseSensitive = 0x5"
| "instruction_code AppendAction = 0x6"
| "instruction_code AppendActionWithIfCondition = 0x7"
| "instruction_code TestFlagsAndAppendAction = 0x8"
| "instruction_code TestFlagsAndAppendActionWithIfCondition = 0x9"
| "instruction_code Terminate = 0xA"
| "instruction_code Jump = 0xB"

definition DFABytecodeInstructionMask :: byte where
  "DFABytecodeInstructionMask = 0x0F"

definition DFABytecodeJumpSizeMask :: byte where
  "DFABytecodeJumpSizeMask = 0xF0"

datatype jump_size = Int8 | Int16 | Int24 | Int32

fun jump_size_code :: "jump_size \<Rightarrow> byte" where
  "jump_size_code Int8 = 0x10"
| "jump_size_code Int16 = 0x20"
| "jump_size_code Int24 = 0x30"
| "jump_size_code Int32 = 0x40"

text \<open>\<^verbatim>\<open>std::max\<close> compares the enumerators by value.\<close>

instantiation jump_size :: linorder
begin

definition less_eq_jump_size :: "jump_size \<Rightarrow> jump_size \<Rightarrow> bool" where
  "less_eq_jump_size a b \<longleftrightarrow> jump_size_code a \<le> jump_size_code b"

definition less_jump_size :: "jump_size \<Rightarrow> jump_size \<Rightarrow> bool" where
  "less_jump_size a b \<longleftrightarrow> jump_size_code a < jump_size_code b"

instance
proof
  fix x y z :: jump_size
  show "x < y \<longleftrightarrow> x \<le> y \<and> \<not> y \<le> x"
    by (auto simp: less_eq_jump_size_def less_jump_size_def)
  show "x \<le> x" by (simp add: less_eq_jump_size_def)
  show "x \<le> y \<Longrightarrow> y \<le> z \<Longrightarrow> x \<le> z" by (simp add: less_eq_jump_size_def)
  show "x \<le> y \<Longrightarrow> y \<le> x \<Longrightarrow> x = y"
    by (cases x; cases y) (simp_all add: less_eq_jump_size_def)
  show "x \<le> y \<or> y \<le> x" by (auto simp: less_eq_jump_size_def)
qed

end

definition Int24Max :: int where
  "Int24Max = 8388607"

definition Int24Min :: int where
  "Int24Min = - 8388608"

definition smallestPossibleJumpSize :: "int \<Rightarrow> jump_size" where
  "smallestPossibleJumpSize longestPossibleJump =
     (if longestPossibleJump \<le> 127 \<and> - 128 \<le> longestPossibleJump then Int8
      else if longestPossibleJump \<le> 32767 \<and> - 32768 \<le> longestPossibleJump then Int16
      else if longestPossibleJump \<le> Int24Max \<and> Int24Min \<le> longestPossibleJump then Int24
      else Int32)"

text \<open>Instructions with a jump have no fixed size: the code crashes, the model gives \<open>None\<close>.\<close>

fun instructionSizeWithArguments :: "dfa_instruction \<Rightarrow> nat option" where
  "instructionSizeWithArguments AppendAction = Some (1 + 4)"
| "instructionSizeWithArguments AppendActionWithIfCondition = Some (1 + 4)"
| "instructionSizeWithArguments TestFlagsAndAppendAction = Some (1 + 2 + 4)"
| "instructionSizeWithArguments TestFlagsAndAppendActionWithIfCondition = Some (1 + 2 + 4)"
| "instructionSizeWithArguments Terminate = Some 1"
| "instructionSizeWithArguments _ = None"

fun jumpSizeInBytes :: "jump_size \<Rightarrow> nat" where
  "jumpSizeInBytes Int8 = 1"
| "jumpSizeInBytes Int16 = 2"
| "jumpSizeInBytes Int24 = 2 + 1"
| "jumpSizeInBytes Int32 = 4"

subsection \<open>Flags of an action\<close>

definition ResourceTypeMask :: u16 where
  "ResourceTypeMask = 0x03FF"

definition LoadTypeMask :: u16 where
  "LoadTypeMask = 0x0C00"

definition ActionFlagMask :: u64 where
  "ActionFlagMask = 0x0000FFFF00000000"

definition IfConditionFlag :: u64 where
  "IfConditionFlag = 0x0001000000000000"

subsection \<open>ASCII case folding\<close>

definition asciiCaseFoldTable :: "byte list" where
  "asciiCaseFoldTable = [
      0x00, 0x01, 0x02, 0x03, 0x04, 0x05, 0x06, 0x07, 0x08, 0x09, 0x0a, 0x0b, 0x0c, 0x0d, 0x0e, 0x0f,
      0x10, 0x11, 0x12, 0x13, 0x14, 0x15, 0x16, 0x17, 0x18, 0x19, 0x1a, 0x1b, 0x1c, 0x1d, 0x1e, 0x1f,
      0x20, 0x21, 0x22, 0x23, 0x24, 0x25, 0x26, 0x27, 0x28, 0x29, 0x2a, 0x2b, 0x2c, 0x2d, 0x2e, 0x2f,
      0x30, 0x31, 0x32, 0x33, 0x34, 0x35, 0x36, 0x37, 0x38, 0x39, 0x3a, 0x3b, 0x3c, 0x3d, 0x3e, 0x3f,
      0x40, 0x61, 0x62, 0x63, 0x64, 0x65, 0x66, 0x67, 0x68, 0x69, 0x6a, 0x6b, 0x6c, 0x6d, 0x6e, 0x6f,
      0x70, 0x71, 0x72, 0x73, 0x74, 0x75, 0x76, 0x77, 0x78, 0x79, 0x7a, 0x5b, 0x5c, 0x5d, 0x5e, 0x5f,
      0x60, 0x61, 0x62, 0x63, 0x64, 0x65, 0x66, 0x67, 0x68, 0x69, 0x6a, 0x6b, 0x6c, 0x6d, 0x6e, 0x6f,
      0x70, 0x71, 0x72, 0x73, 0x74, 0x75, 0x76, 0x77, 0x78, 0x79, 0x7a, 0x7b, 0x7c, 0x7d, 0x7e, 0x7f,
      0x80, 0x81, 0x82, 0x83, 0x84, 0x85, 0x86, 0x87, 0x88, 0x89, 0x8a, 0x8b, 0x8c, 0x8d, 0x8e, 0x8f,
      0x90, 0x91, 0x92, 0x93, 0x94, 0x95, 0x96, 0x97, 0x98, 0x99, 0x9a, 0x9b, 0x9c, 0x9d, 0x9e, 0x9f,
      0xa0, 0xa1, 0xa2, 0xa3, 0xa4, 0xa5, 0xa6, 0xa7, 0xa8, 0xa9, 0xaa, 0xab, 0xac, 0xad, 0xae, 0xaf,
      0xb0, 0xb1, 0xb2, 0xb3, 0xb4, 0xb5, 0xb6, 0xb7, 0xb8, 0xb9, 0xba, 0xbb, 0xbc, 0xbd, 0xbe, 0xbf,
      0xc0, 0xc1, 0xc2, 0xc3, 0xc4, 0xc5, 0xc6, 0xc7, 0xc8, 0xc9, 0xca, 0xcb, 0xcc, 0xcd, 0xce, 0xcf,
      0xd0, 0xd1, 0xd2, 0xd3, 0xd4, 0xd5, 0xd6, 0xd7, 0xd8, 0xd9, 0xda, 0xdb, 0xdc, 0xdd, 0xde, 0xdf,
      0xe0, 0xe1, 0xe2, 0xe3, 0xe4, 0xe5, 0xe6, 0xe7, 0xe8, 0xe9, 0xea, 0xeb, 0xec, 0xed, 0xee, 0xef,
      0xf0, 0xf1, 0xf2, 0xf3, 0xf4, 0xf5, 0xf6, 0xf7, 0xf8, 0xf9, 0xfa, 0xfb, 0xfc, 0xfd, 0xfe, 0xff]"

definition toASCIILower :: "byte \<Rightarrow> byte" where
  "toASCIILower character = asciiCaseFoldTable ! unat character"

subsection \<open>Writing the byte vector\<close>

definition appendZeroes :: "byte list \<Rightarrow> jump_size \<Rightarrow> byte list" where
  "appendZeroes bytecode jumpSize =
     (case jumpSize of
        Int8 \<Rightarrow> bytecode @ le_bytes 1 0
      | Int16 \<Rightarrow> bytecode @ le_bytes 2 0
      | Int24 \<Rightarrow> (bytecode @ le_bytes 2 0) @ le_bytes 1 0
      | Int32 \<Rightarrow> bytecode @ le_bytes 4 0)"

text \<open>\<^verbatim>\<open>setBits\<close> crashes when the field does not fit (a release assertion).\<close>

definition setBits :: "nat \<Rightarrow> byte list \<Rightarrow> nat \<Rightarrow> int \<Rightarrow> byte list option" where
  "setBits width bytecode index v =
     (if index + width \<le> length bytecode
      then Some (take index bytecode @ le_bytes width v @ drop (index + width) bytecode)
      else None)"

subsection \<open>Reading the byte vector\<close>

text \<open>
  \<^verbatim>\<open>getBits\<close> only asserts that the field is inside the vector; reading past the end has no defined
  result, so the model makes it an error.
\<close>

definition getBits :: "nat \<Rightarrow> byte list \<Rightarrow> nat \<Rightarrow> int option" where
  "getBits width bytecode index =
     (if index + width \<le> length bytecode
      then Some (le_value (take width (drop index bytecode))) else None)"

definition getSignedBits :: "nat \<Rightarrow> byte list \<Rightarrow> nat \<Rightarrow> int option" where
  "getSignedBits width bytecode index =
     map_option (signed_take_bit (8 * width - 1)) (getBits width bytecode index)"

definition decode_instruction :: "byte \<Rightarrow> dfa_instruction option" where
  "decode_instruction b =
     List.find (\<lambda>i. instruction_code i = b AND DFABytecodeInstructionMask)
       [CheckValueCaseInsensitive, CheckValueCaseSensitive, JumpTableCaseInsensitive,
        JumpTableCaseSensitive, CheckValueRangeCaseInsensitive, CheckValueRangeCaseSensitive,
        AppendAction, AppendActionWithIfCondition, TestFlagsAndAppendAction,
        TestFlagsAndAppendActionWithIfCondition, Terminate, Jump]"

definition decode_jump_size :: "byte \<Rightarrow> jump_size option" where
  "decode_jump_size b =
     List.find (\<lambda>j. jump_size_code j = b AND DFABytecodeJumpSizeMask) [Int8, Int16, Int24, Int32]"

definition getInstruction :: "byte list \<Rightarrow> nat \<Rightarrow> dfa_instruction option" where
  "getInstruction bytecode index =
     Option.bind (getBits 1 bytecode index) (\<lambda>b. decode_instruction (word_of_int b))"

definition getJumpSize :: "byte list \<Rightarrow> nat \<Rightarrow> jump_size option" where
  "getJumpSize bytecode index =
     Option.bind (getBits 1 bytecode index) (\<lambda>b. decode_jump_size (word_of_int b))"

fun getJumpDistance :: "byte list \<Rightarrow> nat \<Rightarrow> jump_size \<Rightarrow> int option" where
  "getJumpDistance bytecode index Int8 = getSignedBits 1 bytecode index"
| "getJumpDistance bytecode index Int16 = getSignedBits 2 bytecode index"
| "getJumpDistance bytecode index Int24 =
     Option.bind (getBits 2 bytecode index) (\<lambda>low.
     Option.bind (getSignedBits 1 bytecode (index + 2)) (\<lambda>high.
     Some (low OR push_bit 16 high)))"
| "getJumpDistance bytecode index Int32 = getSignedBits 4 bytecode index"

subsection \<open>Round trips\<close>

lemma decode_instruction_code [simp]:
  "decode_instruction (instruction_code i OR jump_size_code j) = Some i"
  "decode_instruction (instruction_code i) = Some i"
  by (cases i; cases j; simp add: decode_instruction_def DFABytecodeInstructionMask_def)
     (cases i; simp add: decode_instruction_def DFABytecodeInstructionMask_def)

lemma decode_jump_size_code [simp]:
  "decode_jump_size (instruction_code i OR jump_size_code j) = Some j"
  by (cases i; cases j; simp add: decode_jump_size_def DFABytecodeJumpSizeMask_def)

end
