(* ===== verification/DFA_Bytecode_Compiler.thy ===== *)
theory DFA_Bytecode_Compiler
  imports DFA_Bytecode
begin

text \<open>
  \<^verbatim>\<open>DFABytecodeCompiler\<close>: the state of the compiler is the bytecode vector, the worst-case and the
  actual start offsets of the nodes and the link records; every method is a function on that
  state.  The automaton is an argument.  Release assertions are the error \<open>None\<close>.
\<close>

subsection \<open>Data\<close>

record range =
  rangeMin :: nat
  rangeMax :: nat
  destination :: nat
  caseSensitive :: bool

record jump_table =
  tableMin :: nat
  tableMax :: nat
  tableCaseSensitive :: bool
  destinations :: "nat list"

record transitions =
  jumpTables :: "jump_table list"
  ranges :: "range list"
  useFallbackTransition :: bool
  fallbackTransitionTarget :: nat

record link_record =
  jumpSize :: jump_size
  lrLongestPossibleJump :: int
  instructionLocation :: nat
  jumpLocation :: nat
  destinationNodeIndex :: nat

record compiler =
  m_bytecode :: "byte list"
  m_maxNodeStartOffsets :: "nat list"
  m_nodeStartOffsets :: "nat list"
  m_linkRecords :: "link_record list"

definition noDestination :: nat where
  "noDestination = u32_max"

subsection \<open>Emitting instructions\<close>

definition appendActionBytecodeSize :: "u64 \<Rightarrow> nat" where
  "appendActionBytecodeSize action =
     (if action AND ActionFlagMask \<noteq> 0 then 1 + 2 + 4 else 1 + 4)"

definition append_bytes :: "byte list \<Rightarrow> compiler \<Rightarrow> compiler" where
  "append_bytes bs c = c\<lparr>m_bytecode := m_bytecode c @ bs\<rparr>"

definition emitAppendAction :: "u64 \<Rightarrow> compiler \<Rightarrow> compiler" where
  "emitAppendAction action c =
     (if action AND ActionFlagMask \<noteq> 0 then
        append_bytes (le_bytes 4 (uint action))
          (append_bytes (le_bytes 2 (uint (drop_bit 32 action)))
            (append_bytes
              [instruction_code (if action AND IfConditionFlag \<noteq> 0
                 then TestFlagsAndAppendActionWithIfCondition else TestFlagsAndAppendAction)] c))
      else
        append_bytes (le_bytes 4 (uint action))
          (append_bytes
            [instruction_code (if action AND IfConditionFlag \<noteq> 0
               then AppendActionWithIfCondition else AppendAction)] c))"

definition longestPossibleJump :: "nat \<Rightarrow> nat \<Rightarrow> nat \<Rightarrow> compiler \<Rightarrow> int" where
  "longestPossibleJump location source dest c =
     (if m_nodeStartOffsets c ! dest = u32_max then
        i32 (int (m_maxNodeStartOffsets c ! dest) - int (m_maxNodeStartOffsets c ! source)
             - (int (m_nodeStartOffsets c ! source) - int location))
      else i32 (int (m_nodeStartOffsets c ! dest) - int location))"

definition add_link ::
  "jump_size \<Rightarrow> int \<Rightarrow> nat \<Rightarrow> nat \<Rightarrow> nat \<Rightarrow> compiler \<Rightarrow> compiler" where
  "add_link js longest location jump dest c =
     c\<lparr>m_linkRecords := m_linkRecords c @
         [\<lparr>jumpSize = js, lrLongestPossibleJump = longest, instructionLocation = location,
           jumpLocation = jump, destinationNodeIndex = dest\<rparr>]\<rparr>"

definition append_zeroes :: "jump_size \<Rightarrow> compiler \<Rightarrow> compiler" where
  "append_zeroes js c = c\<lparr>m_bytecode := appendZeroes (m_bytecode c) js\<rparr>"

definition emitJump :: "nat \<Rightarrow> nat \<Rightarrow> compiler \<Rightarrow> compiler" where
  "emitJump source dest c =
     (let location = u32 (length (m_bytecode c));
          jump = u32 (location + 1);
          longest = longestPossibleJump location source dest c;
          js = smallestPossibleJumpSize longest
      in append_zeroes js (add_link js longest location jump dest
           (append_bytes [instruction_code Jump OR jump_size_code js] c)))"

definition emitCheckValue :: "nat \<Rightarrow> nat \<Rightarrow> nat \<Rightarrow> bool \<Rightarrow> compiler \<Rightarrow> compiler" where
  "emitCheckValue v source dest cs c =
     (let location = u32 (length (m_bytecode c));
          jump = u32 (location + 2 * 1);
          longest = longestPossibleJump location source dest c;
          js = smallestPossibleJumpSize longest;
          instruction = (if cs then CheckValueCaseSensitive else CheckValueCaseInsensitive)
      in append_zeroes js (add_link js longest location jump dest
           (append_bytes [word_of_nat v]
             (append_bytes [instruction_code instruction OR jump_size_code js] c))))"

definition emitCheckValueRange ::
  "nat \<Rightarrow> nat \<Rightarrow> nat \<Rightarrow> nat \<Rightarrow> bool \<Rightarrow> compiler \<Rightarrow> compiler" where
  "emitCheckValueRange lowValue highValue source dest cs c =
     (let location = u32 (length (m_bytecode c));
          jump = u32 (location + 3 * 1);
          longest = longestPossibleJump location source dest c;
          js = smallestPossibleJumpSize longest;
          instruction =
            (if cs then CheckValueRangeCaseSensitive else CheckValueRangeCaseInsensitive)
      in append_zeroes js (add_link js longest location jump dest
           (append_bytes [word_of_nat highValue]
             (append_bytes [word_of_nat lowValue]
               (append_bytes [instruction_code instruction OR jump_size_code js] c)))))"

definition emitTerminate :: "compiler \<Rightarrow> compiler" where
  "emitTerminate c = append_bytes [instruction_code Terminate] c"

subsection \<open>From the transitions of a node to ranges and jump tables\<close>

definition lower :: "nat \<Rightarrow> nat" where
  "lower c = unat (toASCIILower (word_of_nat c))"

definition fill_destinations :: "transition list \<Rightarrow> nat option \<Rightarrow> nat list" where
  "fill_destinations ts fallback =
     fold (\<lambda>(r, target) ds.
         if fallback = Some target then ds
         else fold (\<lambda>i ds. ds[i := target]) [nat (crFirst r) ..< Suc (nat (crLast r))] ds)
       ts (replicate 128 noDestination)"

text \<open>
  The loop over the 128 characters keeps the start of the open range, if any.  A range inside
  \<open>A\<close> to \<open>Z\<close> whose lower-case letters have the same destination is emitted once,
  case-insensitively, and the lower-case entries are cleared.
\<close>

record range_state =
  rsDestinations :: "nat list"
  rsRangeMin :: "nat option"
  rsRanges :: "range list"

definition range_is_case_sensitive :: "nat list \<Rightarrow> nat \<Rightarrow> nat \<Rightarrow> bool" where
  "range_is_case_sensitive ds mn mx =
     (if 65 \<le> mn \<and> mx \<le> 90
      then list_ex (\<lambda>j. ds ! mn \<noteq> ds ! lower j) [mn ..< Suc mx]
      else True)"

definition close_range :: "nat \<Rightarrow> nat \<Rightarrow> range_state \<Rightarrow> range_state" where
  "close_range mn mx s =
     (let ds = rsDestinations s in
      if range_is_case_sensitive ds mn mx then
        s\<lparr>rsRanges := rsRanges s @
            [\<lparr>rangeMin = mn, rangeMax = mx, destination = ds ! mn, caseSensitive = True\<rparr>]\<rparr>
      else
        s\<lparr>rsDestinations := fold (\<lambda>j ds. ds[lower j := noDestination]) [mn ..< Suc mx] ds,
          rsRanges := rsRanges s @
            [\<lparr>rangeMin = lower mn, rangeMax = lower mx, destination = ds ! mn,
              caseSensitive = False\<rparr>]\<rparr>)"

definition range_step :: "nat \<Rightarrow> range_state \<Rightarrow> range_state" where
  "range_step i s =
     (case rsRangeMin s of
        Some mn \<Rightarrow>
          if rsDestinations s ! i \<noteq> rsDestinations s ! mn then
            (let s' = close_range mn (i - 1) s in
             if rsDestinations s' ! i = noDestination then s'\<lparr>rsRangeMin := None\<rparr>
             else s'\<lparr>rsRangeMin := Some i\<rparr>)
          else s
      | None \<Rightarrow>
          if rsDestinations s ! i \<noteq> noDestination then s\<lparr>rsRangeMin := Some i\<rparr> else s)"

definition find_ranges :: "nat list \<Rightarrow> range list" where
  "find_ranges ds =
     (let s = fold range_step [0 ..< 128]
                \<lparr>rsDestinations = ds, rsRangeMin = None, rsRanges = []\<rparr>
      in case rsRangeMin s of
           None \<Rightarrow> rsRanges s
         | Some mn \<Rightarrow> rsRanges s @
             [\<lparr>rangeMin = mn, rangeMax = 127, destination = rsDestinations s ! mn,
               caseSensitive = True\<rparr>])"

definition extractJumpTable :: "range list \<Rightarrow> nat \<Rightarrow> nat \<Rightarrow> jump_table \<times> range list" where
  "extractJumpTable rs firstRange lastRange =
     (\<lparr>tableMin = rangeMin (rs ! firstRange), tableMax = rangeMax (rs ! lastRange),
       tableCaseSensitive = caseSensitive (rs ! lastRange),
       destinations = map (\<lambda>i. destination (rs ! i)) [firstRange ..< Suc lastRange]\<rparr>,
      take firstRange rs @ drop (Suc lastRange) rs)"

text \<open>
  The scan for jump tables: \<open>base\<close> is \<^verbatim>\<open>baseRangePosition\<close>, \<open>None\<close> while \<^verbatim>\<open>baseRange\<close> is null.
\<close>

function find_jump_tables ::
  "range list \<Rightarrow> nat \<Rightarrow> nat option \<Rightarrow> jump_table list \<Rightarrow> jump_table list \<times> range list" where
  "find_jump_tables rs pos base tables =
     (if pos < length rs then
        (case base of
           Some b \<Rightarrow>
             if rangeMin (rs ! pos) \<noteq> rangeMax (rs ! pos)
                \<or> caseSensitive (rs ! b) \<noteq> caseSensitive (rs ! pos)
                \<or> rangeMax (rs ! (pos - 1)) + 1 \<noteq> rangeMin (rs ! pos)
             then (if pos - b > 1 then
                     (case extractJumpTable rs b (pos - 1) of (jt, rs') \<Rightarrow>
                        find_jump_tables rs' (b + 1) None (tables @ [jt]))
                   else find_jump_tables rs (pos + 1) None tables)
             else find_jump_tables rs (pos + 1) base tables
         | None \<Rightarrow>
             if rangeMin (rs ! pos) = rangeMax (rs ! pos)
             then find_jump_tables rs (pos + 1) (Some pos) tables
             else find_jump_tables rs (pos + 1) None tables)
      else
        (case base of
           Some b \<Rightarrow>
             if length rs - b > 1 then
               (case extractJumpTable rs b (length rs - 1) of (jt, rs') \<Rightarrow> (tables @ [jt], rs'))
             else (tables, rs)
         | None \<Rightarrow> (tables, rs)))"
  by pat_completeness auto
termination
  by (relation "measure (\<lambda>(rs, pos, base, tables). length rs - pos)")
     (auto simp: extractJumpTable_def)

declare find_jump_tables.simps [simp del]

definition node_transition_plan :: "dfa \<Rightarrow> dfa_node \<Rightarrow> transitions" where
  "node_transition_plan d n =
     (let fallback = (if canUseFallbackTransition d n then bestFallbackTarget d n else None);
          rs = find_ranges (fill_destinations (node_transitions d n) fallback);
          (jts, rs') = find_jump_tables rs 0 None []
      in \<lparr>jumpTables = jts, ranges = rs',
          useFallbackTransition = canUseFallbackTransition d n,
          fallbackTransitionTarget = (case fallback of None \<Rightarrow> u32_max | Some t \<Rightarrow> t)\<rparr>)"

definition checkForJumpTableMaxBytecodeSize :: "jump_table \<Rightarrow> nat" where
  "checkForJumpTableMaxBytecodeSize jt = (1 + 2 * 1) + (tableMax jt - tableMin jt + 1) * 4"

definition checkForRangeMaxBytecodeSize :: "range \<Rightarrow> nat" where
  "checkForRangeMaxBytecodeSize r =
     (if rangeMin r = rangeMax r then 1 + 1 + 4 else 1 + 2 * 1 + 4)"

definition nodeTransitionsMaxBytecodeSize :: "dfa \<Rightarrow> dfa_node \<Rightarrow> nat" where
  "nodeTransitionsMaxBytecodeSize d n =
     (let plan = node_transition_plan d n in
      sum_list (map checkForJumpTableMaxBytecodeSize (jumpTables plan)) +
      sum_list (map checkForRangeMaxBytecodeSize (ranges plan)) +
      (if useFallbackTransition plan then 1 + 4 else 1))"

definition compiledNodeMaxBytecodeSize :: "dfa \<Rightarrow> nat \<Rightarrow> nat" where
  "compiledNodeMaxBytecodeSize d index =
     (let n = nodes d ! index in
      if isKilled n then 0
      else sum_list (map appendActionBytecodeSize (node_actions d n))
           + nodeTransitionsMaxBytecodeSize d n)"

subsection \<open>Compiling nodes\<close>

definition compileJumpTable :: "nat \<Rightarrow> jump_table \<Rightarrow> compiler \<Rightarrow> compiler" where
  "compileJumpTable nodeIndex jt c =
     (let location = u32 (length (m_bytecode c));
          js = fold (\<lambda>dest js. max js
                 (smallestPossibleJumpSize (longestPossibleJump location nodeIndex dest c)))
                 (destinations jt) Int8;
          instruction = (if tableCaseSensitive jt then JumpTableCaseSensitive
                         else JumpTableCaseInsensitive);
          c' = append_bytes [word_of_nat (tableMax jt)]
                 (append_bytes [word_of_nat (tableMin jt)]
                   (append_bytes [instruction_code instruction OR jump_size_code js] c))
      in fold (\<lambda>dest c.
            let longest = longestPossibleJump location nodeIndex dest c;
                jump = u32 (length (m_bytecode c))
            in append_zeroes js (add_link js longest location jump dest c))
          (destinations jt) c')"

definition compileCheckForRange :: "nat \<Rightarrow> range \<Rightarrow> compiler \<Rightarrow> compiler" where
  "compileCheckForRange nodeIndex r c =
     (if rangeMin r = rangeMax r
      then emitCheckValue (rangeMin r) nodeIndex (destination r) (caseSensitive r) c
      else emitCheckValueRange (rangeMin r) (rangeMax r) nodeIndex (destination r)
             (caseSensitive r) c)"

definition compileNodeTransitions :: "dfa \<Rightarrow> nat \<Rightarrow> compiler \<Rightarrow> compiler" where
  "compileNodeTransitions d nodeIndex c =
     (let plan = node_transition_plan d (nodes d ! nodeIndex);
          c1 = fold (compileJumpTable nodeIndex) (jumpTables plan) c;
          c2 = fold (compileCheckForRange nodeIndex) (ranges plan) c1
      in if useFallbackTransition plan
         then emitJump nodeIndex (fallbackTransitionTarget plan) c2
         else emitTerminate c2)"

definition set_node_start :: "nat \<Rightarrow> compiler \<Rightarrow> compiler" where
  "set_node_start index c =
     c\<lparr>m_nodeStartOffsets := (m_nodeStartOffsets c)[index := u32 (length (m_bytecode c))]\<rparr>"

definition compileNode :: "dfa \<Rightarrow> nat \<Rightarrow> bool \<Rightarrow> compiler \<Rightarrow> compiler" where
  "compileNode d index isRoot c =
     (let n = nodes d ! index in
      if isKilled n then c
      else
        (let c1 = (if \<not> isRoot then set_node_start index c else c);
             c2 = fold emitAppendAction (node_actions d n) c1;
             c3 = (if isRoot then set_node_start index c2 else c2)
         in compileNodeTransitions d index c3))"

subsection \<open>Linking and the whole compilation\<close>

definition link_one :: "nat list \<Rightarrow> link_record \<Rightarrow> byte list \<Rightarrow> byte list option" where
  "link_one starts r bytecode =
     (let dest = starts ! destinationNodeIndex r in
      if \<not> dest < 2147483647 then None
      else
        (let distance = i32 (int dest - int (instructionLocation r)) in
         case jumpSize r of
           Int8 \<Rightarrow>
             if distance \<noteq> signed_take_bit 7 distance then None
             else setBits 1 bytecode (jumpLocation r) (signed_take_bit 7 distance)
         | Int16 \<Rightarrow>
             if distance \<noteq> signed_take_bit 15 distance then None
             else setBits 2 bytecode (jumpLocation r) (signed_take_bit 15 distance)
         | Int24 \<Rightarrow>
             if \<not> (Int24Min \<le> distance \<and> distance \<le> Int24Max) then None
             else Option.bind (setBits 2 bytecode (jumpLocation r) (take_bit 16 distance))
                    (\<lambda>bytecode. setBits 1 bytecode (jumpLocation r + 2)
                       (signed_take_bit 7 (drop_bit 16 distance)))
         | Int32 \<Rightarrow> setBits 4 bytecode (jumpLocation r) distance))"

fun link :: "nat list \<Rightarrow> link_record list \<Rightarrow> byte list \<Rightarrow> byte list option" where
  "link starts [] bytecode = Some bytecode"
| "link starts (r # rs) bytecode = Option.bind (link_one starts r bytecode) (link starts rs)"

text \<open>
  The worst-case offsets, relative to the start of this automaton's code: the root comes first,
  the other nodes follow in index order.
\<close>

definition max_offsets :: "dfa \<Rightarrow> nat list" where
  "max_offsets d =
     (let rootActionsSize =
            sum_list (map appendActionBytecodeSize (node_actions d (nodes d ! root d)));
          offsets = (replicate (length (nodes d)) 0)[root d := 4 + rootActionsSize];
          nextIndex = 4 + compiledNodeMaxBytecodeSize d (root d)
      in fst (fold (\<lambda>i (offsets, nextIndex).
                if i \<noteq> root d
                then (offsets[i := nextIndex], nextIndex + compiledNodeMaxBytecodeSize d i)
                else (offsets, nextIndex))
              [0 ..< length (nodes d)] (offsets, nextIndex)))"

definition compile :: "dfa \<Rightarrow> byte list \<Rightarrow> byte list option" where
  "compile d bytecode =
     (let startLocation = u32 (length bytecode);
          c0 = \<lparr>m_bytecode = bytecode @ le_bytes 4 0,
                m_maxNodeStartOffsets = max_offsets d,
                m_nodeStartOffsets = replicate (length (nodes d)) u32_max,
                m_linkRecords = []\<rparr>;
          c1 = compileNode d (root d) True c0;
          c2 = fold (\<lambda>i c. if i \<noteq> root d then compileNode d i False c else c)
                 [0 ..< length (nodes d)] c1
      in Option.bind (link (m_nodeStartOffsets c2) (m_linkRecords c2) (m_bytecode c2))
           (\<lambda>linked. setBits 4 linked startLocation (int (length linked) - int startLocation)))"

end
