(* ===== verification/Content_Compiler.thy ===== *)
theory Content_Compiler
  imports DFA_Combiner DFA_Bytecode_Compiler
begin

text \<open>
  \<^verbatim>\<open>compileToBytecode\<close> in \<^verbatim>\<open>src/Source/WebCore/contentextensions/ContentExtensionCompiler.cpp\<close>: the
  nondeterministic automata are converted one after the other; large automata are minimized and
  compiled at once, small ones are collected and combined first.  The actions of the rules that match
  everything go on the root of the automaton that is compiled first.  The input is the list of automata that
  \<^verbatim>\<open>CombinedURLFilters::processNFAs\<close> hands to its handler.  A failed release assertion is \<^term>\<open>None\<close>; what the
  client is given is appended to one file.
\<close>

definition addUniversalActionsToDFA :: "(u64 set \<Rightarrow> u64 list) \<Rightarrow> u64 set \<Rightarrow> dfa \<Rightarrow> dfa option" where
  "addUniversalActionsToDFA actionOrder universalActions d =
     (if universalActions = {} then Some d
      else do {
        rootNode \<leftarrow> vec_read (nodes d) (root d);
        let actionsStart = length (dfa_actions d);
        let acts = dfa_actions d @ actionOrder universalActions;
        let actionsLength = length acts - actionsStart;
        if actionsLength < 65535
        then Some (d\<lparr>nodes := (nodes d)[root d := setActions actionsStart actionsLength rootNode], dfa_actions := acts\<rparr>)
        else None
      })"

record compile_state =
  csFirstNFASeen :: bool
  csBytecode :: "byte list"
  csSmallDFACombiner :: "dfa list"

definition lowerDFAToBytecode :: "(u64 set \<Rightarrow> u64 list) \<Rightarrow> u64 set \<Rightarrow> dfa \<Rightarrow> compile_state \<Rightarrow> compile_state option" where
  "lowerDFAToBytecode actionOrder universalActions d s =
     do {
       d \<leftarrow> (if csFirstNFASeen s then Some d else addUniversalActionsToDFA actionOrder universalActions d);
       bytecode \<leftarrow> compile d [];
       Some (s\<lparr>csBytecode := csBytecode s @ bytecode, csFirstNFASeen := True\<rparr>)
     }"

definition smallDFASize :: nat where
  "smallDFASize = 100"

definition convert_nfa :: "(nat set \<Rightarrow> nat list) \<Rightarrow> (u64 set \<Rightarrow> u64 list) \<Rightarrow> nfa \<Rightarrow> dfa option" where
  "convert_nfa order actionOrder a =
     Option.bind (NFAToDFA_convert order actionOrder a) (\<lambda>r. case r of Inl e \<Rightarrow> None | Inr d \<Rightarrow> Some d)"

definition process_nfa ::
  "(nat set \<Rightarrow> nat list) \<Rightarrow> (u64 set \<Rightarrow> u64 list) \<Rightarrow> slot_order \<Rightarrow> (dfa \<Rightarrow> nat \<Rightarrow> nat) \<Rightarrow> u64 set \<Rightarrow> nfa \<Rightarrow>
   compile_state \<Rightarrow> compile_state option" where
  "process_nfa order actionOrder slotOrder memory universalActions a s =
     do {
       d \<leftarrow> convert_nfa order actionOrder a;
       if graphSize d < smallDFASize
       then do {
         ds \<leftarrow> addDFA slotOrder memory d (csSmallDFACombiner s);
         Some (s\<lparr>csSmallDFACombiner := ds\<rparr>)
       }
       else do {
         d \<leftarrow> minimize slotOrder memory d;
         lowerDFAToBytecode actionOrder universalActions d s
       }
     }"

definition compileToBytecode ::
  "(nat set \<Rightarrow> nat list) \<Rightarrow> (u64 set \<Rightarrow> u64 list) \<Rightarrow> slot_order \<Rightarrow> (dfa \<Rightarrow> nat \<Rightarrow> nat) \<Rightarrow> nfa list \<Rightarrow> u64 set \<Rightarrow>
   byte list option" where
  "compileToBytecode order actionOrder slotOrder memory nfas universalActions =
     do {
       s \<leftarrow> fold_option (process_nfa order actionOrder slotOrder memory universalActions) nfas
         \<lparr>csFirstNFASeen = False, csBytecode = [], csSmallDFACombiner = []\<rparr>;
       ds \<leftarrow> combineDFAs slotOrder memory actionOrder smallDFASize (csSmallDFACombiner s);
       s \<leftarrow> fold_option (lowerDFAToBytecode actionOrder universalActions) ds s;
       if csFirstNFASeen s then Some (csBytecode s)
       else do {
         dummyDFA \<leftarrow> addUniversalActionsToDFA actionOrder universalActions dfa_empty;
         bytecode \<leftarrow> compile dummyDFA [];
         Some (csBytecode s @ bytecode)
       }
     }"

end
