(* ===== verification/Transition_Plan.thy ===== *)
theory Transition_Plan
  imports DFA_Bytecode_Compiler
begin

text \<open>
  The plan \<^verbatim>\<open>DFABytecodeCompiler::transitions\<close> makes for a node (jump tables, ranges, fallback)
  sends every ASCII character where the automaton sends it.
\<close>

subsection \<open>Case folding\<close>

lemma asciiCaseFoldTable_eq:
  "asciiCaseFoldTable = map word_of_nat ([0 ..< 65] @ [97 ..< 123] @ [91 ..< 256])"
proof -
  have "[0 ..< 65] = 0 # 1 # [2 ..< (65::nat)]"
    by (simp add: upt_conv_Cons numeral_2_eq_2)
  then show ?thesis by (simp add: asciiCaseFoldTable_def)
qed

lemma nth_three_intervals:
  "m + (q - p) = e \<Longrightarrow> k < z \<Longrightarrow>
   map f ([0 ..< m] @ [p ..< q] @ [e ..< z]) ! k
     = f (if k < m then k else if k < e then k - m + p else k)"
  by (auto simp: nth_append add.commute)

lemma toASCIILower_eq:
  "toASCIILower b = (if 65 \<le> b \<and> b \<le> 90 then b + 32 else b)"
proof -
  have "unat b < 256" using unsigned_less [of b] by simp
  then have "toASCIILower b =
      word_of_nat (if unat b < 65 then unat b else if unat b < 91 then unat b - 65 + 97 else unat b)"
    unfolding toASCIILower_def asciiCaseFoldTable_eq by (intro nth_three_intervals) simp_all
  then show ?thesis by (auto simp: word_le_nat_alt word_less_nat_alt)
qed

lemma lower_eq: "c < 256 \<Longrightarrow> lower c = (if 65 \<le> c \<and> c \<le> 90 then c + 32 else c)"
  by (auto simp: lower_def toASCIILower_eq word_le_nat_alt unat_of_nat unat_word_ariths)

subsection \<open>Destinations of the characters\<close>

lemma length_fold_fill [simp]:
  "length (fold (\<lambda>(r, target) ds. if fb = Some target then ds
     else fold (\<lambda>i ds. ds[i := target]) [nat (crFirst r) ..< Suc (nat (crLast r))] ds) ts acc)
   = length acc"
  by (induction ts arbitrary: acc) auto

lemma length_fill_destinations [simp]: "length (fill_destinations ts fb) = 128"
  by (simp add: fill_destinations_def)

lemma fold_fill_nth:
  assumes "sorted_transitions ts" "c < length acc"
  shows "fold (\<lambda>(r, target) ds. if fb = Some target then ds
      else fold (\<lambda>i ds. ds[i := target]) [nat (crFirst r) ..< Suc (nat (crLast r))] ds) ts acc ! c
    = (case find_target (int c) ts of None \<Rightarrow> acc ! c
       | Some t \<Rightarrow> if fb = Some t then acc ! c else t)"
  using assms
proof (induction ts arbitrary: acc)
  case (Cons x ts)
  obtain r t where x: "x = (r, t)" by (cases x)
  let ?acc = "if fb = Some t then acc
    else fold (\<lambda>i ds. ds[i := t]) [nat (crFirst r) ..< Suc (nat (crLast r))] acc"
  have r: "0 \<le> crFirst r" "sorted_transitions ts" "crFirst r \<le> crLast r"
    using Cons.prems by (auto simp: x sorted_transitions_Cons)
  have nth: "?acc ! c = (if in_range (int c) r \<and> fb \<noteq> Some t then t else acc ! c)"
    using Cons.prems(2) r
    by (auto simp: nth_fold_update [where f = "\<lambda>i. i"] in_range_def simp del: upt_Suc)
  have later: "find_target (int c) ts = None" if "in_range (int c) r"
    using Cons.prems(1) that
    by (fastforce simp: x find_target_None sorted_transitions_Cons in_range_def)
  have "c < length ?acc" using Cons.prems(2) by simp
  from Cons.IH [OF r(2) this] show ?case
    using nth later by (auto simp: x split: option.splits)
qed simp

lemma fill_destinations_nth:
  assumes "sorted_transitions ts" "c < 128"
  shows "fill_destinations ts fb ! c =
    (case find_target (int c) ts of None \<Rightarrow> noDestination
     | Some t \<Rightarrow> if fb = Some t then noDestination else t)"
  using assms by (simp add: fill_destinations_def fold_fill_nth split: option.splits)

subsection \<open>Finding the ranges\<close>

definition range_matches :: "range \<Rightarrow> nat \<Rightarrow> bool" where
  "range_matches r c \<longleftrightarrow>
     (let c' = (if caseSensitive r then c else lower c) in rangeMin r \<le> c' \<and> c' \<le> rangeMax r)"

definition sound_ranges :: "nat list \<Rightarrow> range list \<Rightarrow> bool" where
  "sound_ranges ds rs \<longleftrightarrow>
     (\<forall>r \<in> set rs. rangeMin r \<le> rangeMax r \<and> rangeMax r < 128 \<and> range_matches r (rangeMin r) \<and>
        (\<forall>c < 128. range_matches r c \<longrightarrow> destination r = ds ! c \<and> ds ! c \<noteq> noDestination))"

definition covered :: "range list \<Rightarrow> nat \<Rightarrow> bool" where
  "covered rs c \<longleftrightarrow> (\<exists>r \<in> set rs. range_matches r c)"

text \<open>
  The invariant of the loop at character \<open>i\<close>, for the original destinations \<open>ds\<close>: an entry that
  was cleared is a lower-case letter some range already covers.
\<close>

definition kept_or_covered :: "nat list \<Rightarrow> range_state \<Rightarrow> bool" where
  "kept_or_covered ds s \<longleftrightarrow>
     length (rsDestinations s) = 128 \<and>
     (\<forall>j < 128. rsDestinations s ! j = ds ! j \<or>
        rsDestinations s ! j = noDestination \<and> covered (rsRanges s) j)"

definition range_inv :: "nat list \<Rightarrow> nat \<Rightarrow> range_state \<Rightarrow> bool" where
  "range_inv ds i s \<longleftrightarrow>
     kept_or_covered ds s \<and> sound_ranges ds (rsRanges s) \<and>
     (case rsRangeMin s of
        None \<Rightarrow> (\<forall>c < i. ds ! c \<noteq> noDestination \<longrightarrow> covered (rsRanges s) c)
      | Some mn \<Rightarrow>
          (\<forall>c < mn. ds ! c \<noteq> noDestination \<longrightarrow> covered (rsRanges s) c) \<and>
          mn < i \<and> rsDestinations s ! mn \<noteq> noDestination \<and>
          (\<forall>j. mn \<le> j \<longrightarrow> j < i \<longrightarrow> rsDestinations s ! mn = rsDestinations s ! j))"

lemma covered_append [simp]: "covered (xs @ ys) c \<longleftrightarrow> covered xs c \<or> covered ys c"
  by (auto simp: covered_def)

lemma sound_ranges_append [simp]:
  "sound_ranges ds (xs @ ys) \<longleftrightarrow> sound_ranges ds xs \<and> sound_ranges ds ys"
  by (auto simp: sound_ranges_def)

lemma sound_ranges_single:
  "sound_ranges ds [r] \<longleftrightarrow> rangeMin r \<le> rangeMax r \<and> rangeMax r < 128 \<and> range_matches r (rangeMin r) \<and>
    (\<forall>c < 128. range_matches r c \<longrightarrow> destination r = ds ! c \<and> ds ! c \<noteq> noDestination)"
  by (simp add: sound_ranges_def)

lemma sound_rangesD:
  assumes "sound_ranges ds rs" "r \<in> set rs"
  shows "rangeMin r \<le> rangeMax r" "rangeMax r < 128" "range_matches r (rangeMin r)"
    and "range_matches r c \<Longrightarrow> c < 128 \<Longrightarrow> ds ! c = destination r"
    and "range_matches r c \<Longrightarrow> c < 128 \<Longrightarrow> destination r \<noteq> noDestination"
  using assms by (auto simp: sound_ranges_def)

lemma close_range_sensitive:
  assumes "kept_or_covered ds s" "sound_ranges ds (rsRanges s)" "mn \<le> mx" "mx < 128"
    and eq: "\<forall>j. mn \<le> j \<longrightarrow> j \<le> mx \<longrightarrow> rsDestinations s ! mn = rsDestinations s ! j"
    and dest: "rsDestinations s ! mn \<noteq> noDestination"
    and cs: "range_is_case_sensitive (rsDestinations s) mn mx"
  shows "kept_or_covered ds (close_range mn mx s) \<and> sound_ranges ds (rsRanges (close_range mn mx s))"
    and "mn \<le> c \<Longrightarrow> c \<le> mx \<Longrightarrow> covered (rsRanges (close_range mn mx s)) c"
proof -
  have same: "rsDestinations s ! j = rsDestinations s ! mn" if "mn \<le> j" "j \<le> mx" for j
    using eq that by simp
  let ?r = "\<lparr>rangeMin = mn, rangeMax = mx, destination = rsDestinations s ! mn, caseSensitive = True\<rparr>"
  have close: "close_range mn mx s = s\<lparr>rsRanges := rsRanges s @ [?r]\<rparr>"
    using cs by (simp add: close_range_def Let_def)
  have orig: "ds ! j = rsDestinations s ! mn" if "mn \<le> j" "j \<le> mx" for j
  proof -
    have "rsDestinations s ! j \<noteq> noDestination" using same [OF that] dest by simp
    then have "rsDestinations s ! j = ds ! j"
      using assms(1) that \<open>mx < 128\<close> unfolding kept_or_covered_def by (meson le_less_trans)
    then show ?thesis using same [OF that] by simp
  qed
  then have "sound_ranges ds [?r]"
    using dest \<open>mn \<le> mx\<close> \<open>mx < 128\<close> by (simp add: sound_ranges_def range_matches_def)
  then show "kept_or_covered ds (close_range mn mx s) \<and>
      sound_ranges ds (rsRanges (close_range mn mx s))"
    using assms(1,2) by (auto simp: close kept_or_covered_def)
  show "covered (rsRanges (close_range mn mx s)) c" if "mn \<le> c" "c \<le> mx"
    using that by (simp add: close covered_def range_matches_def)
qed

lemma lower_image_range:
  assumes "65 \<le> mn" "mx \<le> 90" "mn \<le> mx" "c < 128"
  shows "lower mn \<le> lower c \<and> lower c \<le> lower mx \<longleftrightarrow>
    mn \<le> c \<and> c \<le> mx \<or> (\<exists>j. mn \<le> j \<and> j \<le> mx \<and> c = lower j)"
proof -
  have low: "lower j = j + 32" if "mn \<le> j" "j \<le> mx" for j
    using that assms by (simp add: lower_eq)
  have "(\<exists>j. mn \<le> j \<and> j \<le> mx \<and> c = lower j) \<longleftrightarrow> mn + 32 \<le> c \<and> c \<le> mx + 32"
    using low by (auto intro: exI [of _ "c - 32"])
  then show ?thesis using assms by (auto simp: lower_eq)
qed

lemma close_range_insensitive:
  assumes kept: "kept_or_covered ds s" and sound: "sound_ranges ds (rsRanges s)"
    and mx: "mn \<le> mx" "mx < 128"
    and eq: "\<forall>j. mn \<le> j \<longrightarrow> j \<le> mx \<longrightarrow> rsDestinations s ! mn = rsDestinations s ! j"
    and dest: "rsDestinations s ! mn \<noteq> noDestination"
    and ci: "\<not> range_is_case_sensitive (rsDestinations s) mn mx"
  shows "kept_or_covered ds (close_range mn mx s) \<and> sound_ranges ds (rsRanges (close_range mn mx s))"
    and "mn \<le> c \<Longrightarrow> c \<le> mx \<Longrightarrow> covered (rsRanges (close_range mn mx s)) c"
    and "j < 97 \<Longrightarrow> rsDestinations (close_range mn mx s) ! j = rsDestinations s ! j"
    and "mx \<le> 90"
proof -
  have same: "rsDestinations s ! j = rsDestinations s ! mn" if "mn \<le> j" "j \<le> mx" for j
    using eq that by simp
  let ?D = "rsDestinations s" and ?s = "close_range mn mx s"
  let ?r = "\<lparr>rangeMin = lower mn, rangeMax = lower mx, destination = ?D ! mn, caseSensitive = False\<rparr>"
  have letters: "65 \<le> mn" "mx \<le> 90"
    and "\<forall>j \<in> set [mn ..< Suc mx]. ?D ! mn = ?D ! lower j"
    using ci by (auto simp: range_is_case_sensitive_def list_ex_iff simp del: upt_Suc
        split: if_splits)
  then have lows: "?D ! lower j = ?D ! mn" if "mn \<le> j" "j \<le> mx" for j
    using that by (metis atLeastLessThan_iff le_imp_less_Suc set_upt)
  note img = lower_image_range [OF letters mx(1)]
  have len: "length ?D = 128" using kept by (simp add: kept_or_covered_def)
  have match: "range_matches ?r c \<longleftrightarrow>
      mn \<le> c \<and> c \<le> mx \<or> (\<exists>j. mn \<le> j \<and> j \<le> mx \<and> c = lower j)" if "c < 128" for c
    using img [OF that] by (simp add: range_matches_def)
  have rs: "rsRanges ?s = rsRanges s @ [?r]"
    using ci by (simp add: close_range_def Let_def)
  have orig: "?D ! c = ds ! c" if "?D ! c = ?D ! mn" "c < 128" for c
    using kept that dest unfolding kept_or_covered_def by metis
  have D: "rsDestinations ?s ! k = (if k \<in> lower ` {mn..mx} then noDestination else ?D ! k)"
    if "k < 128" for k
    using ci that len
    by (simp add: close_range_def Let_def nth_fold_update atLeastLessThanSuc_atLeastAtMost
        del: upt_Suc)
  have cleared: "covered [?r] k" if "k \<in> lower ` {mn..mx}" "k < 128" for k
    using that match by (auto simp: covered_def)
  show "mx \<le> 90" by (rule letters)
  show "rsDestinations ?s ! j = ?D ! j" if "j < 97"
  proof -
    have "j \<notin> lower ` {mn..mx}" using that letters by (auto simp: lower_eq)
    then show ?thesis using D that by simp
  qed
  show "covered (rsRanges ?s) c" if "mn \<le> c" "c \<le> mx"
    using that mx match [of c] by (auto simp: rs covered_def)
  have "\<forall>c < 128. range_matches ?r c \<longrightarrow> destination ?r = ds ! c \<and> ds ! c \<noteq> noDestination"
  proof (intro allI impI)
    fix c assume that: "c < 128" "range_matches ?r c"
    have "?D ! c = ?D ! mn" using that match [of c] lows same by metis
    from orig [OF this that(1)] this dest
    show "destination ?r = ds ! c \<and> ds ! c \<noteq> noDestination" by simp
  qed
  moreover have "lower mn \<le> lower mx" "lower mx < 128"
    using letters mx by (auto simp: lower_eq)
  moreover from this have "range_matches ?r (lower mn)"
    using match [of "lower mn"] mx by auto
  ultimately have "sound_ranges ds [?r]"
    unfolding sound_ranges_single by (intro conjI; (assumption | simp))
  moreover have "length (rsDestinations ?s) = 128"
    using ci len by (simp add: close_range_def Let_def del: upt_Suc)
  moreover have "rsDestinations ?s ! k = ds ! k \<or>
      rsDestinations ?s ! k = noDestination \<and> covered (rsRanges ?s) k" if "k < 128" for k
    using kept that D [OF that] cleared [of k] unfolding kept_or_covered_def rs covered_append
    by metis
  ultimately show "kept_or_covered ds ?s \<and> sound_ranges ds (rsRanges ?s)"
    using sound by (simp add: kept_or_covered_def rs)
qed

lemma close_range_inv:
  assumes inv: "range_inv ds i s" "rsRangeMin s = Some mn" "i < 128"
  shows "kept_or_covered ds (close_range mn (i - 1) s)"
    and "sound_ranges ds (rsRanges (close_range mn (i - 1) s))"
    and "c < i \<Longrightarrow> ds ! c \<noteq> noDestination \<Longrightarrow> covered (rsRanges (close_range mn (i - 1) s)) c"
    and "rsDestinations (close_range mn (i - 1) s) ! i = rsDestinations s ! i"
proof -
  let ?s = "close_range mn (i - 1) s"
  have pre: "kept_or_covered ds s" "sound_ranges ds (rsRanges s)" "mn < i"
    "rsDestinations s ! mn \<noteq> noDestination"
    and eq: "\<forall>j. mn \<le> j \<longrightarrow> j < i \<longrightarrow> rsDestinations s ! mn = rsDestinations s ! j"
    using inv by (simp_all add: range_inv_def)
  have bounds: "mn \<le> i - 1" "i - 1 < 128"
    using pre(3) inv(3) by simp_all
  have eq': "\<forall>j. mn \<le> j \<longrightarrow> j \<le> i - 1 \<longrightarrow> rsDestinations s ! mn = rsDestinations s ! j"
  proof (intro allI impI)
    fix j assume "mn \<le> j" "j \<le> i - 1"
    then have "j < i" using pre(3) by arith
    then show "rsDestinations s ! mn = rsDestinations s ! j" using eq \<open>mn \<le> j\<close> by blast
  qed
  have before: "covered (rsRanges s) c" if "c < mn" "ds ! c \<noteq> noDestination" for c
    using inv that by (simp add: range_inv_def)
  have mono: "covered (rsRanges s) c \<Longrightarrow> covered (rsRanges ?s) c" for c
    by (auto simp: close_range_def Let_def)
  note sens = close_range_sensitive [OF pre(1,2) bounds eq' pre(4)]
    and insens = close_range_insensitive [OF pre(1,2) bounds eq' pre(4)]
  have "kept_or_covered ds ?s \<and> sound_ranges ds (rsRanges ?s)"
    by (cases "range_is_case_sensitive (rsDestinations s) mn (i - 1)") (rule sens insens; assumption)+
  then show "kept_or_covered ds ?s" "sound_ranges ds (rsRanges ?s)" by auto
  show "covered (rsRanges ?s) c" if "c < i" "ds ! c \<noteq> noDestination"
  proof (cases "c < mn")
    case True
    then show ?thesis using before that mono by blast
  next
    case False
    then have "mn \<le> c" "c \<le> i - 1" using that by auto
    then show ?thesis
      by (cases "range_is_case_sensitive (rsDestinations s) mn (i - 1)")
        (rule sens(2) insens(2); assumption)+
  qed
  show "rsDestinations ?s ! i = rsDestinations s ! i"
  proof (cases "range_is_case_sensitive (rsDestinations s) mn (i - 1)")
    case True
    then show ?thesis by (simp add: close_range_def Let_def)
  next
    case False
    then have "i - 1 \<le> 90" by (rule insens(4))
    then show ?thesis by (intro insens(3) False) arith
  qed
qed

lemma range_inv_step:
  assumes inv: "range_inv ds i s" and "i < 128"
  shows "range_inv ds (Suc i) (range_step i s)"
proof (cases "rsRangeMin s")
  case None
  have "covered (rsRanges s) i"
    if "rsDestinations s ! i = noDestination" "ds ! i \<noteq> noDestination"
    using inv that \<open>i < 128\<close> by (auto simp: range_inv_def kept_or_covered_def)
  then show ?thesis
    using inv None
    by (auto simp: range_step_def range_inv_def less_Suc_eq kept_or_covered_def)
next
  case (Some mn)
  show ?thesis
  proof (cases "rsDestinations s ! i = rsDestinations s ! mn")
    case True
    then show ?thesis
      using inv Some by (auto simp: range_step_def range_inv_def less_Suc_eq)
  next
    case False
    let ?s = "close_range mn (i - 1) s"
    note closed = close_range_inv [OF inv Some \<open>i < 128\<close>]
    have kept: "kept_or_covered ds (?s\<lparr>rsRangeMin := x\<rparr>)" for x
      using closed(1) by (simp add: kept_or_covered_def)
    have "covered (rsRanges ?s) i"
      if "rsDestinations ?s ! i = noDestination" "ds ! i \<noteq> noDestination"
      using closed(1) that \<open>i < 128\<close> unfolding kept_or_covered_def by metis
    then show ?thesis
      using False Some closed(2,3) kept
      by (simp add: range_step_def Let_def range_inv_def less_Suc_eq)
  qed
qed

lemma range_inv_fold:
  assumes "length ds = 128" "n \<le> 128"
  shows "range_inv ds n (fold range_step [0 ..< n]
    \<lparr>rsDestinations = ds, rsRangeMin = None, rsRanges = []\<rparr>)"
  using assms(2)
proof (induction n)
  case 0
  then show ?case
    using assms(1) by (simp add: range_inv_def kept_or_covered_def sound_ranges_def)
next
  case (Suc n)
  then have "n < 128" "n \<le> 128" by auto
  from range_inv_step [OF Suc.IH [OF this(2)] this(1)] show ?case
    by (simp only: upt_Suc_append [of 0 n] fold_append fold_simps comp_apply le0)
qed

lemma find_ranges_correct:
  assumes "length ds = 128"
  shows "sound_ranges ds (find_ranges ds)"
    and "c < 128 \<Longrightarrow> ds ! c \<noteq> noDestination \<Longrightarrow> covered (find_ranges ds) c"
proof -
  define s where "s = fold range_step [0 ..< 128]
    \<lparr>rsDestinations = ds, rsRangeMin = None, rsRanges = []\<rparr>"
  have inv: "range_inv ds 128 s"
    unfolding s_def by (rule range_inv_fold [OF assms order_refl])
  have fr: "find_ranges ds = (case rsRangeMin s of None \<Rightarrow> rsRanges s | Some mn \<Rightarrow> rsRanges s @
      [\<lparr>rangeMin = mn, rangeMax = 127, destination = rsDestinations s ! mn, caseSensitive = True\<rparr>])"
    by (simp only: find_ranges_def s_def Let_def)
  have "sound_ranges ds (find_ranges ds) \<and>
      (\<forall>c < 128. ds ! c \<noteq> noDestination \<longrightarrow> covered (find_ranges ds) c)"
  proof (cases "rsRangeMin s")
    case None
    then show ?thesis using inv by (simp add: fr range_inv_def)
  next
    case (Some mn)
    let ?r = "\<lparr>rangeMin = mn, rangeMax = 127, destination = rsDestinations s ! mn,
      caseSensitive = True\<rparr>"
    have same: "rsDestinations s ! j = rsDestinations s ! mn" if "mn \<le> j" "j < 128" for j
      using inv that unfolding range_inv_def Some option.case by metis
    have mn: "rsDestinations s ! mn \<noteq> noDestination" "mn < 128"
      using inv Some by (simp_all add: range_inv_def)
    have orig: "rsDestinations s ! mn = ds ! j" if "mn \<le> j" "j < 128" for j
    proof -
      have "rsDestinations s ! j = ds ! j \<or> rsDestinations s ! j = noDestination"
        using inv that(2) unfolding range_inv_def kept_or_covered_def by blast
      then show ?thesis using same [OF that] mn(1) by simp
    qed
    have "\<forall>c < 128. range_matches ?r c \<longrightarrow> destination ?r = ds ! c \<and> ds ! c \<noteq> noDestination"
    proof (intro allI impI)
      fix c assume "c < 128" "range_matches ?r c"
      then show "destination ?r = ds ! c \<and> ds ! c \<noteq> noDestination"
        using orig [of c] mn(1) by (simp add: range_matches_def)
    qed
    then have "sound_ranges ds [?r]"
      unfolding sound_ranges_single using mn(2)
      by (intro conjI; (assumption | simp add: range_matches_def))
    moreover have "sound_ranges ds (rsRanges s)"
      using inv by (simp add: range_inv_def)
    moreover have "covered (rsRanges s) c \<or> covered [?r] c"
      if "c < 128" "ds ! c \<noteq> noDestination" for c
    proof (cases "c < mn")
      case True
      then show ?thesis using inv Some that(2) by (simp add: range_inv_def)
    next
      case False
      then show ?thesis using that(1) by (simp add: covered_def range_matches_def)
    qed
    ultimately show ?thesis
      unfolding fr Some option.case sound_ranges_append covered_append by blast
  qed
  then show "sound_ranges ds (find_ranges ds)"
    and "c < 128 \<Longrightarrow> ds ! c \<noteq> noDestination \<Longrightarrow> covered (find_ranges ds) c"
    by blast+
qed

subsection \<open>Folding runs of ranges into jump tables\<close>

definition wf_range :: "range \<Rightarrow> bool" where
  "wf_range r \<longleftrightarrow> rangeMin r \<le> rangeMax r \<and> rangeMax r < 128"

definition wf_table :: "jump_table \<Rightarrow> bool" where
  "wf_table jt \<longleftrightarrow> tableMin jt \<le> tableMax jt \<and> tableMax jt < 128 \<and>
     length (destinations jt) = tableMax jt - tableMin jt + 1"

definition table_target :: "jump_table \<Rightarrow> nat \<Rightarrow> nat option" where
  "table_target jt c =
     (let c' = (if tableCaseSensitive jt then c else lower c)
      in if tableMin jt \<le> c' \<and> c' \<le> tableMax jt
         then Some (destinations jt ! (c' - tableMin jt)) else None)"

definition plan_clauses :: "jump_table list \<Rightarrow> range list \<Rightarrow> (nat \<times> nat) set" where
  "plan_clauses jts rs =
     {(c, t). (\<exists>jt \<in> set jts. table_target jt c = Some t) \<or>
        (\<exists>r \<in> set rs. range_matches r c \<and> destination r = t)}"

text \<open>
  Ranges \<open>b\<close> to \<open>e\<close> are a run of consecutive single characters from \<open>m\<close> on, of one case
  sensitivity.
\<close>

definition is_run :: "range list \<Rightarrow> nat \<Rightarrow> bool \<Rightarrow> nat \<Rightarrow> nat \<Rightarrow> bool" where
  "is_run rs m cs b e \<longleftrightarrow> (\<forall>i. b \<le> i \<longrightarrow> i \<le> e \<longrightarrow>
     rangeMin (rs ! i) = m + (i - b) \<and> rangeMax (rs ! i) = m + (i - b) \<and>
     caseSensitive (rs ! i) = cs)"

lemma is_run_single:
  "rangeMin (rs ! b) = rangeMax (rs ! b) \<Longrightarrow> is_run rs (rangeMin (rs ! b)) (caseSensitive (rs ! b)) b b"
  by (auto simp: is_run_def dest: le_antisym)

lemma is_run_Suc:
  assumes run: "is_run rs m cs b e" and "b \<le> e" and single: "rangeMin (rs ! Suc e) = rangeMax (rs ! Suc e)"
    and cs: "caseSensitive (rs ! b) = caseSensitive (rs ! Suc e)"
    and consecutive: "rangeMax (rs ! e) + 1 = rangeMin (rs ! Suc e)"
  shows "is_run rs m cs b (Suc e)"
proof -
  have "rangeMax (rs ! e) = m + (e - b)" "caseSensitive (rs ! b) = cs"
    using run \<open>b \<le> e\<close> by (auto simp: is_run_def)
  then have "rangeMin (rs ! Suc e) = m + (Suc e - b)" "caseSensitive (rs ! Suc e) = cs"
    using consecutive cs \<open>b \<le> e\<close> by auto
  then show ?thesis
    using run single unfolding is_run_def by (metis le_Suc_eq)
qed

lemma extractJumpTable_target:
  assumes run: "is_run rs m cs b e" and "b \<le> e"
  shows "table_target (fst (extractJumpTable rs b e)) c = Some t \<longleftrightarrow>
    (\<exists>i. b \<le> i \<and> i \<le> e \<and> range_matches (rs ! i) c \<and> destination (rs ! i) = t)"
proof -
  define c' where "c' = (if cs then c else lower c)"
  have rm: "range_matches (rs ! i) c \<longleftrightarrow> c' = m + (i - b)" if "b \<le> i" "i \<le> e" for i
    using run that by (auto simp: is_run_def range_matches_def c'_def Let_def)
  have ends: "rangeMin (rs ! b) = m" "rangeMax (rs ! e) = m + (e - b)" "caseSensitive (rs ! e) = cs"
    using run \<open>b \<le> e\<close> by (auto simp: is_run_def)
  have "table_target (fst (extractJumpTable rs b e)) c =
      (if m \<le> c' \<and> c' \<le> m + (e - b)
       then Some (map (\<lambda>i. destination (rs ! i)) [b ..< Suc e] ! (c' - m)) else None)"
    by (simp add: table_target_def extractJumpTable_def c'_def Let_def ends del: upt_Suc)
  also have "\<dots> = (if m \<le> c' \<and> c' \<le> m + (e - b) then Some (destination (rs ! (b + (c' - m)))) else None)"
    using \<open>b \<le> e\<close> by (auto simp del: upt_Suc)
  finally have tt: "table_target (fst (extractJumpTable rs b e)) c = \<dots>" .
  show ?thesis
  proof
    assume "table_target (fst (extractJumpTable rs b e)) c = Some t"
    then have "m \<le> c'" "c' \<le> m + (e - b)" "destination (rs ! (b + (c' - m))) = t"
      by (auto simp: tt split: if_splits)
    then show "\<exists>i. b \<le> i \<and> i \<le> e \<and> range_matches (rs ! i) c \<and> destination (rs ! i) = t"
      using \<open>b \<le> e\<close> rm [of "b + (c' - m)"] by (intro exI [of _ "b + (c' - m)"]) auto
  next
    assume "\<exists>i. b \<le> i \<and> i \<le> e \<and> range_matches (rs ! i) c \<and> destination (rs ! i) = t"
    then show "table_target (fst (extractJumpTable rs b e)) c = Some t"
      using rm by (auto simp: tt)
  qed
qed

lemma extractJumpTable_wf:
  assumes run: "is_run rs m cs b e" and "b \<le> e" "wf_range (rs ! e)"
  shows "wf_table (fst (extractJumpTable rs b e))"
proof -
  have "rangeMin (rs ! b) = m" "rangeMax (rs ! e) = m + (e - b)"
    using run \<open>b \<le> e\<close> by (auto simp: is_run_def)
  then show ?thesis
    using assms(2,3) by (simp add: wf_table_def wf_range_def extractJumpTable_def Suc_diff_le
        del: upt_Suc Nat.add_diff_assoc)
qed

lemma extractJumpTable_clauses:
  assumes run: "is_run rs m cs b e" and "b \<le> e" "e < length rs"
    and x: "extractJumpTable rs b e = (jt, rs')"
  shows "plan_clauses (tables @ [jt]) rs' = plan_clauses tables rs" and "set rs' \<subseteq> set rs"
proof -
  have rs': "rs' = take b rs @ drop (Suc e) rs" and jt: "jt = fst (extractJumpTable rs b e)"
    using x by (auto simp: extractJumpTable_def)
  have split: "set rs = set (take b rs) \<union> {rs ! i |i. b \<le> i \<and> i \<le> e} \<union> set (drop (Suc e) rs)"
  proof -
    have "set rs = set (take b rs @ take (Suc e - b) (drop b rs) @ drop (Suc e) rs)"
      using \<open>b \<le> e\<close> by (metis append_take_drop_id le_SucI le_add_diff_inverse2 drop_drop)
    moreover have "take (Suc e - b) (drop b rs) = map ((!) rs) [b ..< Suc e]"
      using assms(2,3) by (intro nth_equalityI) (auto simp del: upt_Suc)
    then have "set (take (Suc e - b) (drop b rs)) = {rs ! i |i. b \<le> i \<and> i \<le> e}"
      by (auto simp: less_Suc_eq_le simp del: upt_Suc)
    ultimately show ?thesis by (simp only: set_append Un_assoc)
  qed
  show "set rs' \<subseteq> set rs" unfolding split rs' by auto
  show "plan_clauses (tables @ [jt]) rs' = plan_clauses tables rs"
    unfolding plan_clauses_def split rs' jt
    using extractJumpTable_target [OF run \<open>b \<le> e\<close>] by (auto; blast)
qed

definition plan_destinations :: "jump_table list \<Rightarrow> range list \<Rightarrow> nat set" where
  "plan_destinations jts rs = (\<Union>jt \<in> set jts. set (destinations jt)) \<union> destination ` set rs"

definition same_plan :: "jump_table list \<Rightarrow> range list \<Rightarrow> jump_table list \<times> range list \<Rightarrow> bool" where
  "same_plan tables rs res \<longleftrightarrow>
     plan_clauses (fst res) (snd res) = plan_clauses tables rs \<and> set (snd res) \<subseteq> set rs \<and>
     plan_destinations (fst res) (snd res) \<subseteq> plan_destinations tables rs \<and>
     (\<forall>jt \<in> set (fst res). wf_table jt)"

definition scan_inv :: "range list \<Rightarrow> nat \<Rightarrow> nat option \<Rightarrow> bool" where
  "scan_inv rs pos base \<longleftrightarrow> (case base of None \<Rightarrow> True
     | Some b \<Rightarrow> b < pos \<and> pos \<le> length rs \<and> (\<exists>m cs. is_run rs m cs b (pos - 1)))"

lemma extract_same_plan:
  assumes "scan_inv rs pos (Some b)" "\<forall>r \<in> set rs. wf_range r" "\<forall>jt \<in> set tables. wf_table jt"
    and x: "extractJumpTable rs b (pos - 1) = (jt, rs')"
  shows "same_plan tables rs (tables @ [jt], rs')" and "length rs' = length rs - (pos - b)"
proof -
  obtain m cs where run: "is_run rs m cs b (pos - 1)" and b: "b \<le> pos - 1" "pos - 1 < length rs"
    using assms(1) by (auto simp: scan_inv_def)
  have "wf_table jt"
    using extractJumpTable_wf [OF run b(1)] x b assms(2) by simp
  moreover have "set (destinations jt) \<subseteq> destination ` set rs"
    using x b by (auto simp: extractJumpTable_def simp del: upt_Suc)
  ultimately show "same_plan tables rs (tables @ [jt], rs')"
    using extractJumpTable_clauses [OF run b x] assms(3)
    by (auto simp: same_plan_def plan_destinations_def)
  show "length rs' = length rs - (pos - b)"
    using x b assms(1) by (auto simp: extractJumpTable_def scan_inv_def)
qed

lemma same_plan_trans:
  "same_plan tables rs (tables', rs') \<Longrightarrow> same_plan tables' rs' res \<Longrightarrow> same_plan tables rs res"
  by (auto simp: same_plan_def)

lemma find_jump_tables_same_plan:
  assumes "scan_inv rs pos base" "\<forall>r \<in> set rs. wf_range r" "\<forall>jt \<in> set tables. wf_table jt"
  shows "same_plan tables rs (find_jump_tables rs pos base tables)"
  using assms
proof (induction "length rs - pos" arbitrary: rs pos base tables rule: less_induct)
  case less
  note step = find_jump_tables.simps [of rs pos base tables]
  have refl: "same_plan tables rs (tables, rs)"
    using less.prems by (simp add: same_plan_def)
  have skip: "same_plan tables rs (find_jump_tables rs (pos + 1) base' tables)"
    if "pos < length rs" "scan_inv rs (pos + 1) base'" for base'
    using that less.prems by (intro less.hyps) auto
  have cut: "same_plan tables rs (find_jump_tables rs' (b + 1) None (tables @ [jt]))"
    if "base = Some b" "pos < length rs" "extractJumpTable rs b (pos - 1) = (jt, rs')" for b jt rs'
  proof -
    note ex = extract_same_plan [OF less.prems(1) [unfolded that(1)] less.prems(2,3) that(3)]
    have "b < pos" using less.prems(1) that(1) by (simp add: scan_inv_def)
    then have "same_plan (tables @ [jt]) rs' (find_jump_tables rs' (b + 1) None (tables @ [jt]))"
      using ex less.prems(2) that(2)
      by (intro less.hyps) (auto simp: scan_inv_def same_plan_def)
    then show ?thesis by (rule same_plan_trans [OF ex(1)])
  qed
  show ?case
  proof (cases base)
    case None
    then show ?thesis
      using skip [of None] skip [of "Some pos"] refl
      by (subst step) (auto simp: scan_inv_def dest: is_run_single)
  next
    case (Some b)
    obtain m cs where run: "is_run rs m cs b (pos - 1)" and b: "b < pos" "b \<le> pos - 1" "pos \<le> length rs"
      using less.prems(1) Some by (auto simp: scan_inv_def)
    obtain jt rs' where x: "extractJumpTable rs b (pos - 1) = (jt, rs')" by fastforce
    let ?stop = "rangeMin (rs ! pos) \<noteq> rangeMax (rs ! pos) \<or> caseSensitive (rs ! b) \<noteq> caseSensitive (rs ! pos)
      \<or> rangeMax (rs ! (pos - 1)) + 1 \<noteq> rangeMin (rs ! pos)"
    consider "\<not> pos < length rs" | "pos < length rs" "?stop" | "pos < length rs" "\<not> ?stop" by blast
    then show ?thesis
    proof cases
      case 1
      then have "length rs = pos" using b by simp
      then show ?thesis
        using 1 x refl extract_same_plan(1) [OF less.prems(1) [unfolded Some] less.prems(2,3) x]
        by (subst step) (simp add: Some)
    next
      case 2
      then show ?thesis
        using x skip [of None] cut [OF Some 2(1) x] by (subst step) (simp add: Some scan_inv_def)
    next
      case 3
      then have "is_run rs m cs b pos" using is_run_Suc [OF run b(2)] b(1) by simp
      then have "scan_inv rs (pos + 1) base" using 3 b Some by (auto simp: scan_inv_def)
      from skip [OF 3(1) this] show ?thesis using 3 by (subst step) (simp add: Some)
    qed
  qed
qed

subsection \<open>The plan of a node\<close>

definition node_fallback :: "dfa \<Rightarrow> dfa_node \<Rightarrow> nat option" where
  "node_fallback d n = (if canUseFallbackTransition d n then bestFallbackTarget d n else None)"

lemma node_transition_plan_unfold:
  fixes d n
  defines "rs \<equiv> find_ranges (fill_destinations (node_transitions d n) (node_fallback d n))"
  shows "jumpTables (node_transition_plan d n) = fst (find_jump_tables rs 0 None [])"
    and "ranges (node_transition_plan d n) = snd (find_jump_tables rs 0 None [])"
    and "useFallbackTransition (node_transition_plan d n) = canUseFallbackTransition d n"
    and "fallbackTransitionTarget (node_transition_plan d n) =
      (case node_fallback d n of None \<Rightarrow> u32_max | Some t \<Rightarrow> t)"
  by (simp_all add: node_transition_plan_def Let_def rs_def node_fallback_def split: prod.split)

lemma node_plan_same:
  fixes d n
  defines "ds \<equiv> fill_destinations (node_transitions d n) (node_fallback d n)"
    and "plan \<equiv> node_transition_plan d n"
  shows "same_plan [] (find_ranges ds) (jumpTables plan, ranges plan)"
    and "sound_ranges ds (find_ranges ds)"
    and "c < 128 \<Longrightarrow> ds ! c \<noteq> noDestination \<Longrightarrow> covered (find_ranges ds) c"
proof -
  have "length ds = 128" by (simp add: ds_def length_fill_destinations)
  note fr = find_ranges_correct [OF this]
  show "sound_ranges ds (find_ranges ds)"
    and "c < 128 \<Longrightarrow> ds ! c \<noteq> noDestination \<Longrightarrow> covered (find_ranges ds) c"
    by (fact fr)+
  have "\<forall>r \<in> set (find_ranges ds). wf_range r"
    using fr(1) by (auto simp: sound_ranges_def wf_range_def)
  then have "same_plan [] (find_ranges ds) (find_jump_tables (find_ranges ds) 0 None [])"
    by (intro find_jump_tables_same_plan) (auto simp: scan_inv_def)
  then show "same_plan [] (find_ranges ds) (jumpTables plan, ranges plan)"
    by (simp add: plan_def ds_def node_transition_plan_unfold)
qed

lemma node_plan_wf:
  "jt \<in> set (jumpTables (node_transition_plan d n)) \<Longrightarrow> wf_table jt"
  "r \<in> set (ranges (node_transition_plan d n)) \<Longrightarrow> wf_range r"
  using node_plan_same(1,2) [where d = d and n = n]
  by (auto simp: same_plan_def wf_range_def dest: sound_rangesD)

lemma wf_node_targets:
  assumes "wf_dfa d" "live d i" "find_target c (node_transitions d (nodes d ! i)) = Some t"
  shows "live d t" "t \<noteq> noDestination"
proof -
  show "live d t" using dfa_next_live assms by (simp add: dfa_next_def)
  then show "t \<noteq> noDestination"
    using assms(1) by (auto simp: live_def wf_dfa_def noDestination_def)
qed

lemma node_plan_clauses:
  assumes "wf_dfa d" "live d i" "c < 128"
  defines "n \<equiv> nodes d ! i"
  shows "(c, t) \<in> plan_clauses (jumpTables (node_transition_plan d n)) (ranges (node_transition_plan d n)) \<longleftrightarrow>
    dfa_next d i (int c) = Some t \<and> node_fallback d n \<noteq> Some t"
proof -
  let ?ds = "fill_destinations (node_transitions d n) (node_fallback d n)"
  note same = node_plan_same [where d = d and n = n]
  have sorted: "sorted_transitions (node_transitions d n)"
    using wf_dfa_node [OF assms(1,2)] by (simp add: wf_node_def n_def)
  have "(c, t) \<in> plan_clauses (jumpTables (node_transition_plan d n)) (ranges (node_transition_plan d n)) \<longleftrightarrow>
      (c, t) \<in> plan_clauses [] (find_ranges ?ds)"
    using same(1) by (simp add: same_plan_def)
  also have "\<dots> \<longleftrightarrow> ?ds ! c = t \<and> t \<noteq> noDestination"
    using sound_rangesD(4,5) [OF same(2)] same(3) [OF \<open>c < 128\<close>] \<open>c < 128\<close>
    by (fastforce simp: plan_clauses_def covered_def)
  also have "\<dots> \<longleftrightarrow> dfa_next d i (int c) = Some t \<and> node_fallback d n \<noteq> Some t"
    using wf_node_targets(2) [OF assms(1,2), of "int c"]
    unfolding fill_destinations_nth [OF sorted \<open>c < 128\<close>] dfa_next_def n_def [symmetric]
    by (auto split: option.splits)
  finally show ?thesis .
qed

lemma node_plan_destinations:
  assumes "wf_dfa d" "live d i"
    and "t \<in> plan_destinations (jumpTables (node_transition_plan d (nodes d ! i)))
                (ranges (node_transition_plan d (nodes d ! i)))"
  shows "live d t"
proof -
  let ?n = "nodes d ! i"
  let ?ds = "fill_destinations (node_transitions d ?n) (node_fallback d ?n)"
  have sorted: "sorted_transitions (node_transitions d ?n)"
    using wf_dfa_node [OF assms(1,2)] by (simp add: wf_node_def)
  have "t \<in> destination ` set (find_ranges ?ds)"
    using node_plan_same(1) [where d = d and n = ?n] assms(3) by (auto simp: same_plan_def plan_destinations_def)
  then obtain r where "r \<in> set (find_ranges ?ds)" "destination r = t" by auto
  then have c: "rangeMin r < 128" and "?ds ! rangeMin r = t" "t \<noteq> noDestination"
    using sound_rangesD [OF node_plan_same(2) [where d = d and n = ?n], of r]
    by (auto intro: le_less_trans)
  then show ?thesis
    using wf_node_targets(1) [OF assms(1,2), of "int (rangeMin r)"]
    unfolding fill_destinations_nth [OF sorted c] by (auto split: option.splits if_splits)
qed

end
