(* ===== verification/Bytecode_Layout.thy ===== *)
theory Bytecode_Layout
  imports Transition_Plan
begin

text \<open>
  A symbolic view of the emitted bytecode: instructions whose jumps name target nodes, their
  encoding, and the sequence of instructions the compiler lays out for each node.  The compiler
  is shown to emit that sequence with blank jump fields and one link record per field, and the
  linker to fill every field with the distance to the start of its target.
\<close>

subsection \<open>Symbolic instructions\<close>

datatype branch_kind =
    KCheck bool nat
  | KRange bool nat nat
  | KTable bool nat nat
  | KJump

type_synonym branch = "branch_kind \<times> nat list"

datatype code =
    CAction u64
  | CBranch branch_kind jump_size "nat list"
  | CTerminate

fun kind_instruction :: "branch_kind \<Rightarrow> dfa_instruction" where
  "kind_instruction (KCheck cs v) = (if cs then CheckValueCaseSensitive else CheckValueCaseInsensitive)"
| "kind_instruction (KRange cs lo hi) =
     (if cs then CheckValueRangeCaseSensitive else CheckValueRangeCaseInsensitive)"
| "kind_instruction (KTable cs lo hi) = (if cs then JumpTableCaseSensitive else JumpTableCaseInsensitive)"
| "kind_instruction KJump = Jump"

fun kind_arguments :: "branch_kind \<Rightarrow> byte list" where
  "kind_arguments (KCheck cs v) = [word_of_nat v]"
| "kind_arguments (KRange cs lo hi) = [word_of_nat lo, word_of_nat hi]"
| "kind_arguments (KTable cs lo hi) = [word_of_nat lo, word_of_nat hi]"
| "kind_arguments KJump = []"

definition branch_header :: "branch_kind \<Rightarrow> jump_size \<Rightarrow> byte list" where
  "branch_header k js = (instruction_code (kind_instruction k) OR jump_size_code js) # kind_arguments k"

definition header_size :: "branch_kind \<Rightarrow> nat" where
  "header_size k = 1 + length (kind_arguments k)"

definition jump_bytes :: "jump_size \<Rightarrow> int \<Rightarrow> byte list" where
  "jump_bytes js v = le_bytes (jumpSizeInBytes js) v"

definition action_bytes :: "u64 \<Rightarrow> byte list" where
  "action_bytes a =
     (if a AND ActionFlagMask \<noteq> 0 then
        instruction_code (if a AND IfConditionFlag \<noteq> 0
          then TestFlagsAndAppendActionWithIfCondition else TestFlagsAndAppendAction)
        # le_bytes 2 (uint (drop_bit 32 a)) @ le_bytes 4 (uint a)
      else
        instruction_code (if a AND IfConditionFlag \<noteq> 0
          then AppendActionWithIfCondition else AppendAction)
        # le_bytes 4 (uint a))"

text \<open>The encoding of an instruction whose jump to \<open>t\<close> has distance \<open>f t\<close>.\<close>

fun encode :: "(nat \<Rightarrow> int) \<Rightarrow> code \<Rightarrow> byte list" where
  "encode f (CAction a) = action_bytes a"
| "encode f (CBranch k js ts) = branch_header k js @ concat (map (\<lambda>t. jump_bytes js (f t)) ts)"
| "encode f CTerminate = [instruction_code Terminate]"

fun code_size :: "code \<Rightarrow> nat" where
  "code_size (CAction a) = appendActionBytecodeSize a"
| "code_size (CBranch k js ts) = header_size k + length ts * jumpSizeInBytes js"
| "code_size CTerminate = 1"

fun codes_size :: "code list \<Rightarrow> nat" where
  "codes_size [] = 0"
| "codes_size (a # as) = code_size a + codes_size as"

definition blank :: "code list \<Rightarrow> byte list" where
  "blank as = concat (map (encode (\<lambda>_. 0)) as)"

text \<open>The encoding of consecutive instructions from \<open>loc\<close> on, for given starts of the nodes.\<close>

fun assemble :: "nat list \<Rightarrow> nat \<Rightarrow> code list \<Rightarrow> byte list" where
  "assemble starts loc [] = []"
| "assemble starts loc (a # as) =
     encode (\<lambda>t. int (starts ! t) - int loc) a @ assemble starts (loc + code_size a) as"

lemma length_jump_bytes [simp]: "length (jump_bytes js v) = jumpSizeInBytes js"
  by (simp add: jump_bytes_def)

lemma length_branch_header [simp]: "length (branch_header k js) = header_size k"
  by (simp add: branch_header_def header_size_def)

lemma length_action_bytes [simp]: "length (action_bytes a) = appendActionBytecodeSize a"
  by (simp add: action_bytes_def appendActionBytecodeSize_def)

lemma length_concat_jump_bytes [simp]:
  "length (concat (map (\<lambda>t. jump_bytes js (f t)) ts)) = length ts * jumpSizeInBytes js"
  by (induction ts) auto

lemma length_encode [simp]: "length (encode f a) = code_size a"
  by (cases a) auto

lemma length_blank [simp]: "length (blank as) = codes_size as"
  by (induction as) (auto simp: blank_def)

lemma length_assemble [simp]: "length (assemble starts loc as) = codes_size as"
  by (induction as arbitrary: loc) auto

lemma codes_size_append [simp]: "codes_size (as @ bs) = codes_size as + codes_size bs"
  by (induction as) auto

lemma blank_append [simp]: "blank (as @ bs) = blank as @ blank bs"
  by (simp add: blank_def)

lemma assemble_append:
  "assemble starts loc (as @ bs) = assemble starts loc as @ assemble starts (loc + codes_size as) bs"
  by (induction as arbitrary: loc) (auto simp: add.assoc)

subsection \<open>Link records\<close>

type_synonym link_key = "jump_size \<times> nat \<times> nat \<times> nat"

definition link_key :: "link_record \<Rightarrow> link_key" where
  "link_key r = (jumpSize r, instructionLocation r, jumpLocation r, destinationNodeIndex r)"

fun field_keys :: "jump_size \<Rightarrow> nat \<Rightarrow> nat \<Rightarrow> nat list \<Rightarrow> link_key list" where
  "field_keys js loc pos [] = []"
| "field_keys js loc pos (t # ts) = (js, loc, pos, t) # field_keys js loc (pos + jumpSizeInBytes js) ts"

fun code_keys :: "nat \<Rightarrow> code \<Rightarrow> link_key list" where
  "code_keys loc (CBranch k js ts) = field_keys js loc (loc + header_size k) ts"
| "code_keys loc _ = []"

fun codes_keys :: "nat \<Rightarrow> code list \<Rightarrow> link_key list" where
  "codes_keys loc [] = []"
| "codes_keys loc (a # as) = code_keys loc a @ codes_keys (loc + code_size a) as"

lemma codes_keys_append:
  "codes_keys loc (as @ bs) = codes_keys loc as @ codes_keys (loc + codes_size as) bs"
  by (induction as arbitrary: loc) (auto simp: add.assoc)

lemma codes_keys_actions [simp]: "codes_keys loc (map CAction acts) = []"
  by (induction acts arbitrary: loc) auto

lemma link_one_key:
  "link_key r = link_key r' \<Longrightarrow> link_one starts r bs = link_one starts r' bs"
  by (simp add: link_key_def link_one_def Let_def cong: jump_size.case_cong)

lemma link_keys:
  "map link_key rs = map link_key rs' \<Longrightarrow> link starts rs bs = link starts rs' bs"
proof (induction rs arbitrary: rs' bs)
  case (Cons r rs)
  then obtain r' rs'' where rs': "rs' = r' # rs''" "link_key r = link_key r'"
    "map link_key rs = map link_key rs''"
    by (cases rs') auto
  have "link starts rs = link starts rs''" using Cons.IH rs'(3) by blast
  then show ?case using link_one_key [OF rs'(2)] by (simp add: rs'(1))
qed simp

subsection \<open>What an emission adds to the compiler's state\<close>

definition emitted :: "compiler \<Rightarrow> code list \<Rightarrow> compiler \<Rightarrow> bool" where
  "emitted c as c' \<longleftrightarrow>
     m_bytecode c' = m_bytecode c @ blank as \<and>
     map link_key (m_linkRecords c') =
       map link_key (m_linkRecords c) @ codes_keys (length (m_bytecode c)) as \<and>
     m_nodeStartOffsets c' = m_nodeStartOffsets c \<and>
     m_maxNodeStartOffsets c' = m_maxNodeStartOffsets c"

lemma emitted_refl [simp]: "emitted c [] c"
  by (simp add: emitted_def blank_def)

lemma emitted_trans: "emitted c as c' \<Longrightarrow> emitted c' bs c'' \<Longrightarrow> emitted c (as @ bs) c''"
  by (simp add: emitted_def codes_keys_append)

lemma emitted_length: "emitted c as c' \<Longrightarrow> length (m_bytecode c') = length (m_bytecode c) + codes_size as"
  by (simp add: emitted_def)

lemma emitted_action: "emitted c [CAction a] (emitAppendAction a c)"
  by (simp add: emitted_def emitAppendAction_def append_bytes_def blank_def action_bytes_def)

lemma emitted_actions: "emitted c (map CAction as) (fold emitAppendAction as c)"
proof (induction as arbitrary: c)
  case (Cons a as)
  from emitted_trans [OF emitted_action Cons.IH] show ?case by simp
qed simp

lemma emitted_terminate: "emitted c [CTerminate] (emitTerminate c)"
  by (simp add: emitted_def emitTerminate_def append_bytes_def blank_def)

subsection \<open>Linking fills every field\<close>

fun fits :: "jump_size \<Rightarrow> int \<Rightarrow> bool" where
  "fits Int8 v \<longleftrightarrow> - 128 \<le> v \<and> v \<le> 127"
| "fits Int16 v \<longleftrightarrow> - 32768 \<le> v \<and> v \<le> 32767"
| "fits Int24 v \<longleftrightarrow> Int24Min \<le> v \<and> v \<le> Int24Max"
| "fits Int32 v \<longleftrightarrow> - 2147483648 \<le> v \<and> v < 2147483648"

lemma fits_Int32: "fits js v \<Longrightarrow> fits Int32 v"
  by (cases js) (auto simp: Int24Min_def Int24Max_def)

lemma setBits_middle:
  "length zs = n \<Longrightarrow> setBits n (xs @ zs @ ys) (length xs) v = Some (xs @ le_bytes n v @ ys)"
  by (simp add: setBits_def)

lemma le_bytes_signed:
  "le_bytes 1 (signed_take_bit 7 v) = le_bytes 1 v"
  "le_bytes 2 (take_bit 16 v) = le_bytes 2 v"
  by (rule le_bytes_cong, simp add: take_bit_eq_mod [of 8, simplified, symmetric] take_bit_signed_take_bit)
     (rule le_bytes_cong, simp add: take_bit_eq_mod)

lemma byte_signed [simp]: "(word_of_int (signed_take_bit 7 v) :: byte) = word_of_int v"
  by (simp add: word_of_int_eq_iff take_bit_signed_take_bit)

lemma jump_bytes_Int24: "jump_bytes Int24 v = le_bytes 2 v @ le_bytes 1 (drop_bit 16 v)"
  using le_bytes_append [of 2 1 v] by (simp add: jump_bytes_def drop_bit_eq_div numeral_3_eq_3)

definition of_key :: "link_key \<Rightarrow> link_record" where
  "of_key = (\<lambda>(js, loc, pos, t). \<lparr>jumpSize = js, lrLongestPossibleJump = 0,
     instructionLocation = loc, jumpLocation = pos, destinationNodeIndex = t\<rparr>)"

lemma link_key_of_key [simp]: "link_key (of_key k) = k"
  by (simp add: link_key_def of_key_def split: prod.split)

lemma link_of_keys: "link starts rs bs = link starts (map of_key (map link_key rs)) bs"
  by (rule link_keys) simp

lemma link_one_field:
  assumes "starts ! t < 2147483647" "fits js (int (starts ! t) - int loc)"
    "length zs = jumpSizeInBytes js"
  shows "link_one starts (of_key (js, loc, length xs, t)) (xs @ zs @ ys) =
    Some (xs @ jump_bytes js (int (starts ! t) - int loc) @ ys)"
proof -
  let ?v = "int (starts ! t) - int loc"
  have i32: "i32 ?v = ?v"
    using fits_Int32 [OF assms(2)] by (auto intro: i32_id)
  have narrow: "js = Int8 \<Longrightarrow> signed_take_bit 7 ?v = ?v" "js = Int16 \<Longrightarrow> signed_take_bit 15 ?v = ?v"
    using assms(2) by (auto intro: signed_take_bit_int_eq_self)
  show ?thesis
  proof (cases js)
    case Int24
    then obtain z0 z1 z2 where zs: "zs = [z0, z1, z2]"
      using assms(3) by (auto simp: length_Suc_conv numeral_3_eq_3)
    have "setBits 2 (xs @ zs @ ys) (length xs) v = Some (xs @ le_bytes 2 v @ z2 # ys)" for v
      using setBits_middle [of "[z0, z1]" 2 xs "z2 # ys"] by (simp add: zs)
    moreover have "setBits 1 (xs @ le_bytes 2 u @ z2 # ys) (length xs + 2) v =
        Some (xs @ le_bytes 2 u @ le_bytes 1 v @ ys)" for u v
      using setBits_middle [of "[z2]" 1 "xs @ le_bytes 2 u" ys] by simp
    ultimately show ?thesis
      using assms Int24 i32
      by (simp add: link_one_def of_key_def Let_def jump_bytes_Int24 le_bytes_signed)
  qed (use assms i32 narrow in \<open>simp_all add: link_one_def of_key_def Let_def setBits_middle
        jump_bytes_def\<close>)
qed

fun code_fits :: "nat list \<Rightarrow> nat \<Rightarrow> code \<Rightarrow> bool" where
  "code_fits starts loc (CBranch k js ts) \<longleftrightarrow>
     (\<forall>t \<in> set ts. starts ! t < 2147483647 \<and> fits js (int (starts ! t) - int loc))"
| "code_fits starts loc _ \<longleftrightarrow> True"

fun codes_fit :: "nat list \<Rightarrow> nat \<Rightarrow> code list \<Rightarrow> bool" where
  "codes_fit starts loc [] \<longleftrightarrow> True"
| "codes_fit starts loc (a # as) \<longleftrightarrow> code_fits starts loc a \<and> codes_fit starts (loc + code_size a) as"

lemma codes_fit_append:
  "codes_fit starts loc (as @ bs) \<longleftrightarrow>
     codes_fit starts loc as \<and> codes_fit starts (loc + codes_size as) bs"
  by (induction as arbitrary: loc) (auto simp: add.assoc)

lemma link_append: "link starts (rs @ rs') bs = Option.bind (link starts rs bs) (link starts rs')"
proof (induction rs arbitrary: bs)
  case (Cons r rs)
  then show ?case by (cases "link_one starts r bs") auto
qed simp

lemma link_fields:
  assumes "\<forall>t \<in> set ts. starts ! t < 2147483647 \<and> fits js (int (starts ! t) - int loc)"
  shows "link starts (map of_key (field_keys js loc (length xs) ts))
      (xs @ concat (map (\<lambda>t. jump_bytes js 0) ts) @ ys) =
    Some (xs @ concat (map (\<lambda>t. jump_bytes js (int (starts ! t) - int loc)) ts) @ ys)"
  using assms
proof (induction ts arbitrary: xs)
  case (Cons t ts)
  let ?f = "jump_bytes js (int (starts ! t) - int loc)"
  have "link_one starts (of_key (js, loc, length xs, t))
      (xs @ jump_bytes js 0 @ concat (map (\<lambda>t. jump_bytes js 0) ts) @ ys) =
    Some (xs @ ?f @ concat (map (\<lambda>t. jump_bytes js 0) ts) @ ys)"
    using Cons.prems by (intro link_one_field) auto
  then show ?case using Cons.IH [of "xs @ ?f"] Cons.prems by simp
qed simp

lemma link_code:
  assumes "code_fits starts (length xs) a"
  shows "link starts (map of_key (code_keys (length xs) a)) (xs @ encode (\<lambda>_. 0) a @ ys) =
    Some (xs @ encode (\<lambda>t. int (starts ! t) - int (length xs)) a @ ys)"
proof (cases a)
  case (CBranch k js ts)
  then show ?thesis
    using assms link_fields [of ts starts js "length xs" "xs @ branch_header k js" ys] by simp
qed auto

lemma link_codes:
  assumes "codes_fit starts (length xs) as"
  shows "link starts (map of_key (codes_keys (length xs) as)) (xs @ blank as @ ys) =
    Some (xs @ assemble starts (length xs) as @ ys)"
  using assms
proof (induction as arbitrary: xs)
  case (Cons a as)
  let ?e = "encode (\<lambda>t. int (starts ! t) - int (length xs)) a"
  have "link starts (map of_key (code_keys (length xs) a)) (xs @ encode (\<lambda>_. 0) a @ blank as @ ys) =
      Some (xs @ ?e @ blank as @ ys)"
    using Cons.prems by (intro link_code) simp
  then show ?case
    using Cons.IH [of "xs @ ?e"] Cons.prems by (simp add: link_append blank_def)
qed (simp add: blank_def)

subsection \<open>The instructions of a node\<close>

text \<open>The distance bound of the compiler, as a function of the two offset tables.\<close>

definition longest_jump :: "nat list \<Rightarrow> nat list \<Rightarrow> nat \<Rightarrow> nat \<Rightarrow> nat \<Rightarrow> int" where
  "longest_jump starts maxs loc src t =
     (if starts ! t = u32_max
      then i32 (int (maxs ! t) - int (maxs ! src) - (int (starts ! src) - int loc))
      else i32 (int (starts ! t) - int loc))"

definition branch_size :: "nat list \<Rightarrow> nat list \<Rightarrow> nat \<Rightarrow> nat \<Rightarrow> nat list \<Rightarrow> jump_size" where
  "branch_size starts maxs src loc ts =
     fold (\<lambda>t js. max js (smallestPossibleJumpSize (longest_jump starts maxs loc src t))) ts Int8"

fun layout_branches ::
  "nat list \<Rightarrow> nat list \<Rightarrow> nat \<Rightarrow> nat \<Rightarrow> branch list \<Rightarrow> code list" where
  "layout_branches starts maxs src loc [] = []"
| "layout_branches starts maxs src loc ((k, ts) # bs) =
     (let a = CBranch k (branch_size starts maxs src loc ts) ts
      in a # layout_branches starts maxs src (loc + code_size a) bs)"

definition branch_max :: "branch \<Rightarrow> nat" where
  "branch_max b = header_size (fst b) + 4 * length (snd b)"

definition branches_max :: "branch list \<Rightarrow> nat" where
  "branches_max bs = sum_list (map branch_max bs)"

definition table_branch :: "jump_table \<Rightarrow> branch" where
  "table_branch jt = (KTable (tableCaseSensitive jt) (tableMin jt) (tableMax jt), destinations jt)"

definition range_branch :: "range \<Rightarrow> branch" where
  "range_branch r =
     (if rangeMin r = rangeMax r then (KCheck (caseSensitive r) (rangeMin r), [destination r])
      else (KRange (caseSensitive r) (rangeMin r) (rangeMax r), [destination r]))"

definition node_branches :: "dfa \<Rightarrow> nat \<Rightarrow> branch list" where
  "node_branches d i =
     (let plan = node_transition_plan d (nodes d ! i) in
      map table_branch (jumpTables plan) @ map range_branch (ranges plan) @
      (if useFallbackTransition plan then [(KJump, [fallbackTransitionTarget plan])] else []))"

definition node_tail :: "dfa \<Rightarrow> nat \<Rightarrow> code list" where
  "node_tail d i = (if canUseFallbackTransition d (nodes d ! i) then [] else [CTerminate])"

lemma longestPossibleJump_eq:
  "longestPossibleJump loc src t c =
     longest_jump (m_nodeStartOffsets c) (m_maxNodeStartOffsets c) loc src t"
  by (simp add: longestPossibleJump_def longest_jump_def)

lemma jump_size_le4: "jumpSizeInBytes js \<le> 4"
  by (cases js) auto

lemma Int8_least [simp]: "max Int8 js = js" "Int8 \<le> js"
  by (cases js; simp add: max_def less_eq_jump_size_def)+

lemma code_size_branch_max: "code_size (CBranch k js ts) \<le> branch_max (k, ts)"
  using jump_size_le4 [of js] by (simp add: branch_max_def mult_le_mono)

lemma layout_branches_max: "codes_size (layout_branches starts maxs src loc bs) \<le> branches_max bs"
proof (induction starts maxs src loc bs rule: layout_branches.induct)
  case (2 starts maxs src loc k ts bs)
  then show ?case
    using code_size_branch_max [of k "branch_size starts maxs src loc ts" ts]
    by (simp add: Let_def branches_max_def)
qed (simp add: branches_max_def)

subsection \<open>The compiler emits the layout\<close>

definition branch_code :: "compiler \<Rightarrow> nat \<Rightarrow> branch \<Rightarrow> code" where
  "branch_code c src b =
     CBranch (fst b) (branch_size (m_nodeStartOffsets c) (m_maxNodeStartOffsets c) src
       (length (m_bytecode c)) (snd b)) (snd b)"

lemma appendZeroes_eq: "appendZeroes bs js = bs @ jump_bytes js 0"
  by (cases js) (simp_all add: appendZeroes_def jump_bytes_def le_bytes_0 numeral_eq_Suc)

lemmas emit_defs = append_bytes_def add_link_def append_zeroes_def appendZeroes_eq emitted_def
  blank_def branch_header_def header_size_def link_key_def longestPossibleJump_eq branch_code_def
  branch_size_def Let_def

lemma emitted_jump:
  assumes "length (m_bytecode c) + branch_max (KJump, [t]) < 4294967296"
  shows "emitted c [branch_code c src (KJump, [t])] (emitJump src t c)"
  using assms by (simp add: emitJump_def emit_defs branch_max_def width_simps)

lemma emitted_check:
  assumes "length (m_bytecode c) + branch_max (KCheck cs v, [t]) < 4294967296"
  shows "emitted c [branch_code c src (KCheck cs v, [t])] (emitCheckValue v src t cs c)"
  using assms by (simp add: emitCheckValue_def emit_defs branch_max_def width_simps)

lemma emitted_range:
  assumes "length (m_bytecode c) + branch_max (KRange cs lo hi, [t]) < 4294967296"
  shows "emitted c [branch_code c src (KRange cs lo hi, [t])] (emitCheckValueRange lo hi src t cs c)"
  using assms
  by (simp add: emitCheckValueRange_def emit_defs branch_max_def width_simps numeral_3_eq_3)

lemma emitted_check_for_range:
  assumes "length (m_bytecode c) + branch_max (range_branch r) < 4294967296"
  shows "emitted c [branch_code c src (range_branch r)] (compileCheckForRange src r c)"
  using assms emitted_check emitted_range
  by (cases "rangeMin r = rangeMax r") (simp_all add: compileCheckForRange_def range_branch_def)

lemma emit_table_fields:
  assumes "length (m_bytecode c) + length ts * jumpSizeInBytes js < 4294967296"
    and "c' = fold (\<lambda>dest c.
            let longest = longestPossibleJump loc src dest c;
                jump = u32 (length (m_bytecode c))
            in append_zeroes js (add_link js longest loc jump dest c)) ts c"
  shows "m_bytecode c' = m_bytecode c @ concat (map (\<lambda>t. jump_bytes js 0) ts) \<and>
    map link_key (m_linkRecords c') =
      map link_key (m_linkRecords c) @ field_keys js loc (length (m_bytecode c)) ts \<and>
    m_nodeStartOffsets c' = m_nodeStartOffsets c \<and>
    m_maxNodeStartOffsets c' = m_maxNodeStartOffsets c"
  using assms
proof (induction ts arbitrary: c)
  case (Cons t ts)
  then show ?case by (simp add: emit_defs width_simps)
qed simp

lemma emitted_table:
  assumes "length (m_bytecode c) + branch_max (table_branch jt) < 4294967296"
  shows "emitted c [branch_code c src (table_branch jt)] (compileJumpTable src jt c)"
proof -
  let ?js = "branch_size (m_nodeStartOffsets c) (m_maxNodeStartOffsets c) src
    (length (m_bytecode c)) (destinations jt)"
  define c1 where "c1 = append_bytes (branch_header (fst (table_branch jt)) ?js) c"
  have len: "length (m_bytecode c) < 4294967296"
    "length (m_bytecode c1) + length (destinations jt) * jumpSizeInBytes ?js < 4294967296"
    using assms code_size_branch_max [of "fst (table_branch jt)" ?js "destinations jt"]
    by (simp_all add: c1_def append_bytes_def table_branch_def)
  have "compileJumpTable src jt c = fold (\<lambda>dest c.
            let longest = longestPossibleJump (length (m_bytecode c1) - 3) src dest c;
                jump = u32 (length (m_bytecode c))
            in append_zeroes ?js (add_link ?js longest (length (m_bytecode c1) - 3) jump dest c))
          (destinations jt) c1"
    using len(1)
    by (simp add: compileJumpTable_def c1_def append_bytes_def width_simps branch_header_def
        table_branch_def header_size_def branch_size_def longestPossibleJump_eq Let_def)
  from emit_table_fields [OF len(2) this] show ?thesis
    by (simp add: emitted_def branch_code_def blank_def table_branch_def c1_def append_bytes_def
        header_size_def)
qed

lemma layout_branches_append:
  "layout_branches starts maxs src loc (bs @ bs') =
     (let as = layout_branches starts maxs src loc bs
      in as @ layout_branches starts maxs src (loc + codes_size as) bs')"
  by (induction starts maxs src loc bs rule: layout_branches.induct) (auto simp: Let_def add.assoc)

lemma branches_max_append [simp]: "branches_max (bs @ bs') = branches_max bs + branches_max bs'"
  by (simp add: branches_max_def)

text \<open>What the two emitters of conditional branches, for jump tables and for ranges, have in common.\<close>

locale branch_emitter =
  fixes emit :: "nat \<Rightarrow> 'a \<Rightarrow> compiler \<Rightarrow> compiler"
    and branch_of :: "'a \<Rightarrow> branch"
  assumes emitted_one:
    "length (m_bytecode c) + branch_max (branch_of x) < 4294967296 \<Longrightarrow>
     emitted c [branch_code c src (branch_of x)] (emit src x c)"
begin

lemma emitted_all:
  assumes "length (m_bytecode c) + branches_max (map branch_of xs) < 4294967296"
  shows "emitted c (layout_branches (m_nodeStartOffsets c) (m_maxNodeStartOffsets c) src
    (length (m_bytecode c)) (map branch_of xs)) (fold (emit src) xs c)"
  using assms
proof (induction xs arbitrary: c)
  case (Cons x xs)
  let ?a = "branch_code c src (branch_of x)" and ?c = "emit src x c"
  have one: "emitted c [?a] ?c"
    using Cons.prems by (intro emitted_one) (simp add: branches_max_def)
  have size: "code_size ?a \<le> branch_max (branch_of x)"
    using code_size_branch_max [of "fst (branch_of x)" _ "snd (branch_of x)"]
    by (simp add: branch_code_def)
  have "length (m_bytecode ?c) = length (m_bytecode c) + code_size ?a"
    using emitted_length [OF one] by simp
  with size Cons.prems have "emitted ?c (layout_branches (m_nodeStartOffsets ?c)
      (m_maxNodeStartOffsets ?c) src (length (m_bytecode ?c)) (map branch_of xs)) (fold (emit src) xs ?c)"
    by (intro Cons.IH) (simp add: branches_max_def)
  from emitted_trans [OF one this] one show ?case
    by (cases "branch_of x") (simp add: Let_def emitted_def branch_code_def)
qed simp

end

interpretation table_emitter: branch_emitter compileJumpTable table_branch
  by unfold_locales (rule emitted_table)

interpretation range_emitter: branch_emitter compileCheckForRange range_branch
  by unfold_locales (rule emitted_check_for_range)

lemma emitted_transitions:
  assumes "length (m_bytecode c) + branches_max (node_branches d i) + codes_size (node_tail d i) < 4294967296"
  shows "emitted c (layout_branches (m_nodeStartOffsets c) (m_maxNodeStartOffsets c) i
      (length (m_bytecode c)) (node_branches d i) @ node_tail d i) (compileNodeTransitions d i c)"
proof -
  let ?plan = "node_transition_plan d (nodes d ! i)"
  let ?L = "\<lambda>c bs. layout_branches (m_nodeStartOffsets c) (m_maxNodeStartOffsets c) i
      (length (m_bytecode c)) bs"
  define ts rs where "ts = map table_branch (jumpTables ?plan)" and "rs = map range_branch (ranges ?plan)"
  define c1 where "c1 = fold (compileJumpTable i) (jumpTables ?plan) c"
  define c2 where "c2 = fold (compileCheckForRange i) (ranges ?plan) c1"
  define js where "js = (if useFallbackTransition ?plan then [(KJump, [fallbackTransitionTarget ?plan])] else [])"
  have all: "node_branches d i = ts @ rs @ js"
    by (simp add: node_branches_def ts_def rs_def js_def Let_def)
  have 1: "emitted c (?L c ts) c1"
    unfolding ts_def c1_def using assms by (intro table_emitter.emitted_all) (simp add: all ts_def)
  then have l1: "length (m_bytecode c1) \<le> length (m_bytecode c) + branches_max ts"
    using emitted_length layout_branches_max add_le_mono by fastforce
  have 2: "emitted c1 (?L c1 rs) c2"
    unfolding rs_def c2_def using assms l1 by (intro range_emitter.emitted_all) (simp add: all rs_def)
  then have l2: "length (m_bytecode c2) \<le> length (m_bytecode c1) + branches_max rs"
    using emitted_length layout_branches_max add_le_mono by fastforce
  have 3: "emitted c2 (?L c2 js @ node_tail d i) (compileNodeTransitions d i c)"
    using emitted_terminate [of c2] emitted_jump [of c2 "fallbackTransitionTarget ?plan" i] assms l1 l2
    by (auto simp: compileNodeTransitions_def Let_def c1_def c2_def js_def node_tail_def all
        branches_max_def branch_code_def node_transition_plan_unfold)
  show ?thesis
    using emitted_trans [OF 1 emitted_trans [OF 2 3]] 1 2 emitted_length [OF 1] emitted_length [OF 2]
    by (simp add: all layout_branches_append Let_def emitted_def add.assoc)
qed

subsection \<open>The blocks of an automaton\<close>

text \<open>
  A block is what a jump to the node executes: the root's block leaves out its actions, which stand
  between the header and the first block.
\<close>

definition entry_actions :: "dfa \<Rightarrow> nat \<Rightarrow> code list" where
  "entry_actions d i = (if i = root d then [] else map CAction (node_actions d (nodes d ! i)))"

definition node_codes :: "dfa \<Rightarrow> nat list \<Rightarrow> nat list \<Rightarrow> nat \<Rightarrow> nat \<Rightarrow> code list" where
  "node_codes d starts maxs i loc =
     entry_actions d i @
     layout_branches starts maxs i (loc + codes_size (entry_actions d i)) (node_branches d i) @
     node_tail d i"

definition block_max :: "dfa \<Rightarrow> nat \<Rightarrow> nat" where
  "block_max d i =
     codes_size (entry_actions d i) + branches_max (node_branches d i) + codes_size (node_tail d i)"

fun layout_blocks ::
  "dfa \<Rightarrow> nat list \<Rightarrow> nat list \<Rightarrow> nat \<Rightarrow> nat list \<Rightarrow> code list \<times> nat list" where
  "layout_blocks d maxs starts loc [] = ([], starts)"
| "layout_blocks d maxs starts loc (i # is) =
     (let starts' = starts[i := loc];
          as = node_codes d starts' maxs i loc;
          (rest, final) = layout_blocks d maxs starts' (loc + codes_size as) is
      in (as @ rest, final))"

lemma node_codes_max: "codes_size (node_codes d starts maxs i loc) \<le> block_max d i"
  using layout_branches_max by (simp add: node_codes_def block_max_def)

lemma layout_blocks_max:
  "codes_size (fst (layout_blocks d maxs starts loc is)) \<le> sum_list (map (block_max d) is)"
proof (induction d maxs starts loc "is" rule: layout_blocks.induct)
  case (2 d maxs starts loc i "is")
  show ?case
    using 2 [OF refl refl] node_codes_max [of d "starts[i := loc]" maxs i loc]
    by (auto simp: Let_def split: prod.split)
qed simp

lemma emitted_block:
  assumes "\<not> isKilled (nodes d ! i)" "i \<noteq> root d"
    and "length (m_bytecode c) + block_max d i < 4294967296"
  defines "starts \<equiv> (m_nodeStartOffsets c)[i := length (m_bytecode c)]"
  shows "emitted (c\<lparr>m_nodeStartOffsets := starts\<rparr>)
    (node_codes d starts (m_maxNodeStartOffsets c) i (length (m_bytecode c))) (compileNode d i False c)"
proof -
  define c1 where "c1 = c\<lparr>m_nodeStartOffsets := starts\<rparr>"
  define c2 where "c2 = fold emitAppendAction (node_actions d (nodes d ! i)) c1"
  have c1: "set_node_start i c = c1"
    using assms(3) by (simp add: set_node_start_def c1_def starts_def width_simps block_max_def)
  have 1: "emitted c1 (entry_actions d i) c2"
    using assms(2) emitted_actions by (simp add: c2_def entry_actions_def)
  have "compileNode d i False c = compileNodeTransitions d i c2"
    using assms(1) by (simp add: compileNode_def Let_def c1 c2_def)
  moreover have "length (m_bytecode c2) = length (m_bytecode c) + codes_size (entry_actions d i)"
    using emitted_length [OF 1] by (simp add: c1_def)
  ultimately show ?thesis
    using emitted_trans [OF 1 emitted_transitions [of c2 d i]] 1 assms(3)
    by (simp add: node_codes_def block_max_def emitted_def c1_def add.assoc)
qed

lemma emitted_blocks:
  assumes "length (m_bytecode c) + sum_list (map (block_max d) is) < 4294967296"
    and "\<forall>i \<in> set is. \<not> isKilled (nodes d ! i) \<and> i \<noteq> root d"
    and "layout_blocks d (m_maxNodeStartOffsets c) (m_nodeStartOffsets c) (length (m_bytecode c)) is
      = (as, final)"
  shows "emitted (c\<lparr>m_nodeStartOffsets := final\<rparr>) as (fold (\<lambda>i. compileNode d i False) is c)"
  using assms
proof (induction "is" arbitrary: c as)
  case (Cons i "is")
  define starts where "starts = (m_nodeStartOffsets c)[i := length (m_bytecode c)]"
  define c1 where "c1 = compileNode d i False c"
  let ?codes = "node_codes d starts (m_maxNodeStartOffsets c) i (length (m_bytecode c))"
  have 1: "emitted (c\<lparr>m_nodeStartOffsets := starts\<rparr>) ?codes c1"
    unfolding c1_def starts_def using Cons.prems by (intro emitted_block) auto
  then have c1: "m_nodeStartOffsets c1 = starts" "m_maxNodeStartOffsets c1 = m_maxNodeStartOffsets c"
    "length (m_bytecode c1) = length (m_bytecode c) + codes_size ?codes"
    by (auto simp: emitted_def)
  obtain rest where rest: "layout_blocks d (m_maxNodeStartOffsets c1) (m_nodeStartOffsets c1)
      (length (m_bytecode c1)) is = (rest, final)" "as = ?codes @ rest"
    using Cons.prems(3) by (auto simp: c1 Let_def starts_def split: prod.splits)
  have "emitted (c1\<lparr>m_nodeStartOffsets := final\<rparr>) rest (fold (\<lambda>i. compileNode d i False) is c1)"
    using Cons.prems node_codes_max [of d starts "m_maxNodeStartOffsets c" i "length (m_bytecode c)"] rest(1)
    by (intro Cons.IH) (auto simp: c1)
  moreover have "emitted (c\<lparr>m_nodeStartOffsets := final\<rparr>) ?codes (c1\<lparr>m_nodeStartOffsets := final\<rparr>)"
    using 1 by (simp add: emitted_def)
  ultimately show ?case
    using emitted_trans by (auto simp: rest(2) c1_def)
qed (simp add: emitted_def blank_def)

text \<open>The nodes in the order of their blocks, and the sizes of the whole code.\<close>

definition block_order :: "dfa \<Rightarrow> nat list" where
  "block_order d =
     root d # filter (\<lambda>i. i \<noteq> root d \<and> \<not> isKilled (nodes d ! i)) [0 ..< length (nodes d)]"

definition root_prologue :: "dfa \<Rightarrow> code list" where
  "root_prologue d = map CAction (node_actions d (nodes d ! root d))"

definition first_block :: "dfa \<Rightarrow> nat \<Rightarrow> nat" where
  "first_block d start = start + 4 + codes_size (root_prologue d)"

definition worst_case_size :: "dfa \<Rightarrow> nat" where
  "worst_case_size d = first_block d 0 + sum_list (map (block_max d) (block_order d))"

definition program :: "dfa \<Rightarrow> nat \<Rightarrow> code list \<times> nat list" where
  "program d start =
     layout_blocks d (max_offsets d) (replicate (length (nodes d)) u32_max) (first_block d start)
       (block_order d)"

lemma fold_if_filter: "fold (\<lambda>i c. if P i then f i c else c) xs c = fold f (filter P xs) c"
  by (induction xs arbitrary: c) auto

lemma compile_nodes_order:
  "fold (\<lambda>i c. if i \<noteq> root d then compileNode d i False c else c) [0 ..< length (nodes d)] c =
   fold (\<lambda>i. compileNode d i False) (tl (block_order d)) c"
proof -
  have "fold (\<lambda>i. compileNode d i False) xs c =
      fold (\<lambda>i. compileNode d i False) (filter (\<lambda>i. \<not> isKilled (nodes d ! i)) xs) c" for xs
    by (induction xs arbitrary: c) (auto simp: compileNode_def)
  from this [of "filter (\<lambda>i. i \<noteq> root d) [0 ..< length (nodes d)]"] show ?thesis
    by (simp add: fold_if_filter [where f = "\<lambda>i. compileNode d i False"] block_order_def)
qed

lemma emitted_root_block:
  assumes "\<not> isKilled (nodes d ! root d)"
    and "length (m_bytecode c) + codes_size (root_prologue d) + block_max d (root d) < 4294967296"
  defines "loc \<equiv> length (m_bytecode c) + codes_size (root_prologue d)"
  defines "starts \<equiv> (m_nodeStartOffsets c)[root d := loc]"
  shows "emitted (c\<lparr>m_nodeStartOffsets := starts\<rparr>)
    (root_prologue d @ node_codes d starts (m_maxNodeStartOffsets c) (root d) loc)
    (compileNode d (root d) True c)"
proof -
  define c1 where "c1 = fold emitAppendAction (node_actions d (nodes d ! root d)) c"
  have 1: "emitted c (root_prologue d) c1"
    by (simp add: c1_def root_prologue_def emitted_actions)
  define c2 where "c2 = c1\<lparr>m_nodeStartOffsets := starts\<rparr>"
  have len: "length (m_bytecode c1) = loc" using emitted_length [OF 1] by (simp add: loc_def)
  have "set_node_start (root d) c1 = c2"
    using assms(2) 1 len
    by (simp add: set_node_start_def c2_def starts_def width_simps loc_def emitted_def)
  then have comp: "compileNode d (root d) True c = compileNodeTransitions d (root d) c2"
    using assms(1) by (simp add: compileNode_def Let_def c1_def)
  have 2: "emitted (c\<lparr>m_nodeStartOffsets := starts\<rparr>) (root_prologue d) c2"
    using 1 by (simp add: emitted_def c2_def)
  have "length (m_bytecode c2) = loc" "m_maxNodeStartOffsets c2 = m_maxNodeStartOffsets c"
    "m_nodeStartOffsets c2 = starts"
    using len 1 by (simp_all add: c2_def emitted_def)
  then show ?thesis
    using emitted_trans [OF 2 emitted_transitions [of c2 d "root d"]] assms(2)
    by (simp add: comp node_codes_def block_max_def entry_actions_def loc_def)
qed

theorem compile_assembles:
  assumes live: "\<not> isKilled (nodes d ! root d)"
    and size: "length pre + worst_case_size d < 4294967296"
    and prog: "program d (length pre) = (as, final)"
    and fit: "codes_fit final (first_block d (length pre)) as"
  shows "compile d pre = Some (pre @ le_bytes 4 (int (4 + codes_size (root_prologue d) + codes_size as)) @
      blank (root_prologue d) @ assemble final (first_block d (length pre)) as)"
proof -
  let ?n = "length (nodes d)" and ?loc = "first_block d (length pre)"
  define c0 where "c0 = \<lparr>m_bytecode = pre @ le_bytes 4 0, m_maxNodeStartOffsets = max_offsets d,
    m_nodeStartOffsets = replicate ?n u32_max, m_linkRecords = []\<rparr>"
  define c1 where "c1 = compileNode d (root d) True c0"
  define c2 where "c2 = fold (\<lambda>i. compileNode d i False) (tl (block_order d)) c1"
  define starts where "starts = (replicate ?n u32_max)[root d := ?loc]"
  define codes where "codes = node_codes d starts (max_offsets d) (root d) ?loc"
  obtain rest where rest: "layout_blocks d (max_offsets d) starts (?loc + codes_size codes)
      (tl (block_order d)) = (rest, final)" "as = codes @ rest"
    using prog by (auto simp: program_def block_order_def Let_def starts_def codes_def split: prod.splits)
  have bounds: "length (m_bytecode c0) + codes_size (root_prologue d) + block_max d (root d) +
      sum_list (map (block_max d) (tl (block_order d))) < 4294967296"
    using size by (simp add: c0_def worst_case_size_def first_block_def block_order_def)
  have loc: "length (m_bytecode c0) + codes_size (root_prologue d) = ?loc"
    by (simp add: c0_def first_block_def)
  have 1: "emitted (c0\<lparr>m_nodeStartOffsets := starts\<rparr>) (root_prologue d @ codes) c1"
    using emitted_root_block [OF live, of c0] bounds
    by (simp add: loc c1_def starts_def codes_def) (simp add: c0_def)
  have size1: "length (m_bytecode c1) = ?loc + codes_size codes"
    using emitted_length [OF 1] loc by simp
  have c1: "m_nodeStartOffsets c1 = starts" "m_maxNodeStartOffsets c1 = max_offsets d"
    using 1 by (simp_all add: emitted_def) (simp add: c0_def)
  have "emitted (c1\<lparr>m_nodeStartOffsets := final\<rparr>) rest c2"
    unfolding c2_def
  proof (rule emitted_blocks)
    show "length (m_bytecode c1) + sum_list (map (block_max d) (tl (block_order d))) < 4294967296"
      using bounds size1 loc node_codes_max [of d starts "max_offsets d" "root d" ?loc]
      by (simp add: codes_def)
    show "layout_blocks d (m_maxNodeStartOffsets c1) (m_nodeStartOffsets c1) (length (m_bytecode c1))
        (tl (block_order d)) = (rest, final)"
      using c1 rest(1) size1 by simp
  qed (simp add: block_order_def)
  moreover have "emitted (c0\<lparr>m_nodeStartOffsets := final\<rparr>) (root_prologue d @ codes)
      (c1\<lparr>m_nodeStartOffsets := final\<rparr>)"
    using 1 by (simp add: emitted_def)
  ultimately have 2: "emitted (c0\<lparr>m_nodeStartOffsets := final\<rparr>) (root_prologue d @ as) c2"
    using emitted_trans [of _ "root_prologue d @ codes" _ rest] by (simp add: rest(2))
  let ?xs = "pre @ le_bytes 4 0 @ blank (root_prologue d)"
  have xs: "length ?xs = ?loc" by (simp add: first_block_def)
  have keys: "map link_key (m_linkRecords c2) = codes_keys ?loc as"
    using 2 loc by (simp add: emitted_def c0_def codes_keys_append)
      (simp add: root_prologue_def)
  have "link final (m_linkRecords c2) (m_bytecode c2) = Some (?xs @ assemble final ?loc as)"
    using 2 link_codes [of final ?xs as "[]"] fit unfolding link_of_keys [of final "m_linkRecords c2"] keys
    by (simp add: emitted_def c0_def first_block_def add.assoc)
  moreover have "m_nodeStartOffsets c2 = final" using 2 by (simp add: emitted_def)
  moreover have "u32 (length pre) = length pre"
    using size by (intro u32_id) simp
  ultimately show ?thesis
    using setBits_middle [of "le_bytes 4 0" 4 pre]
    by (simp add: compile_def compile_nodes_order Let_def c2_def c1_def c0_def add.assoc)
qed

end
