(* ===== verification/Jump_Distances.thy ===== *)
theory Jump_Distances
  imports Bytecode_Layout
begin

text \<open>
  The jump widths the compiler picks before it knows where the nodes end up are wide enough: the
  worst-case offsets bound the distance of every forward jump, backward jumps are known exactly,
  and so the linker's release assertions hold and compilation succeeds.
\<close>

subsection \<open>Widths\<close>

lemma fits_mono_size: "fits js v \<Longrightarrow> js \<le> js' \<Longrightarrow> fits js' v"
  by (cases js; cases js') (auto simp: less_eq_jump_size_def Int24Min_def Int24Max_def)

lemma smallestPossibleJumpSize_fits:
  assumes "fits Int32 l" "v = l \<or> 0 \<le> v \<and> v \<le> l"
  shows "fits (smallestPossibleJumpSize l) v"
  using assms by (auto simp: smallestPossibleJumpSize_def Int24Min_def Int24Max_def)

lemma fold_max_ge:
  fixes f :: "'a \<Rightarrow> 'b::linorder"
  shows "a \<le> fold (\<lambda>x m. max m (f x)) xs a \<and> (\<forall>x \<in> set xs. f x \<le> fold (\<lambda>x m. max m (f x)) xs a)"
proof (induction xs arbitrary: a)
  case (Cons x xs)
  show ?case using Cons.IH [of "max a (f x)"] by auto
qed simp

lemma branch_size_ge:
  "t \<in> set ts \<Longrightarrow>
   smallestPossibleJumpSize (longest_jump starts maxs loc src t) \<le> branch_size starts maxs src loc ts"
  using fold_max_ge [of Int8 "\<lambda>t. smallestPossibleJumpSize (longest_jump starts maxs loc src t)" ts]
  by (simp add: branch_size_def)

text \<open>A jump at \<open>loc\<close> in the block of \<open>src\<close> whose distance is at most what the compiler expects.\<close>

definition reachable :: "nat list \<Rightarrow> nat list \<Rightarrow> nat list \<Rightarrow> nat \<Rightarrow> nat \<Rightarrow> nat \<Rightarrow> bool" where
  "reachable final starts maxs src loc t \<longleftrightarrow>
     final ! t < 2147483647 \<and> fits Int32 (longest_jump starts maxs loc src t) \<and>
     (let v = int (final ! t) - int loc; l = longest_jump starts maxs loc src t
      in v = l \<or> 0 \<le> v \<and> v \<le> l)"

lemma layout_branches_fit:
  assumes "loc + codes_size (layout_branches starts maxs src loc bs) \<le> bound"
    and "\<forall>(k, ts) \<in> set bs. \<forall>t \<in> set ts. \<forall>p. loc \<le> p \<longrightarrow> p \<le> bound \<longrightarrow> reachable final starts maxs src p t"
  shows "codes_fit final loc (layout_branches starts maxs src loc bs)"
  using assms
proof (induction starts maxs src loc bs rule: layout_branches.induct)
  case (2 starts maxs src loc k ts bs)
  let ?js = "branch_size starts maxs src loc ts"
  let ?a = "CBranch k ?js ts"
  have "reachable final starts maxs src loc t" if "t \<in> set ts" for t
    using "2.prems" that by auto
  then have "code_fits final loc ?a"
    using fits_mono_size [OF smallestPossibleJumpSize_fits branch_size_ge]
    by (fastforce simp: reachable_def Let_def)
  moreover have "codes_fit final (loc + code_size ?a)
      (layout_branches starts maxs src (loc + code_size ?a) bs)"
    using "2.prems" by (intro "2.IH") (auto simp: Let_def)
  ultimately show ?case by (simp add: Let_def)
qed simp

subsection \<open>Worst-case offsets\<close>

fun chain_from :: "dfa \<Rightarrow> nat list \<Rightarrow> nat \<Rightarrow> nat list \<Rightarrow> bool" where
  "chain_from d maxs m [] \<longleftrightarrow> True"
| "chain_from d maxs m (i # is) \<longleftrightarrow> maxs ! i = m \<and> chain_from d maxs (m + block_max d i) is"

lemma nodeTransitionsMaxBytecodeSize_eq:
  "nodeTransitionsMaxBytecodeSize d (nodes d ! i) =
     branches_max (node_branches d i) + codes_size (node_tail d i)"
proof -
  let ?plan = "node_transition_plan d (nodes d ! i)"
  have "map checkForJumpTableMaxBytecodeSize (jumpTables ?plan) =
      map (branch_max \<circ> table_branch) (jumpTables ?plan)"
    using node_plan_wf(1) [of _ d "nodes d ! i"]
    by (intro map_cong refl) (auto simp: checkForJumpTableMaxBytecodeSize_def branch_max_def
        table_branch_def header_size_def wf_table_def)
  then have 1: "sum_list (map checkForJumpTableMaxBytecodeSize (jumpTables ?plan)) =
      branches_max (map table_branch (jumpTables ?plan))"
    by (simp only: branches_max_def map_map)
  have "map checkForRangeMaxBytecodeSize (ranges ?plan) = map (branch_max \<circ> range_branch) (ranges ?plan)"
    by (intro map_cong refl) (auto simp: checkForRangeMaxBytecodeSize_def branch_max_def
        range_branch_def header_size_def)
  then have 2: "sum_list (map checkForRangeMaxBytecodeSize (ranges ?plan)) =
      branches_max (map range_branch (ranges ?plan))"
    by (simp only: branches_max_def map_map)
  have 3: "branches_max [(KJump, [t])] = 5" "branches_max [] = 0" for t
    by (simp_all add: branches_max_def branch_max_def header_size_def)
  show ?thesis
    unfolding nodeTransitionsMaxBytecodeSize_def Let_def node_branches_def 1 2
    by (simp add: 3 node_tail_def node_transition_plan_unfold(3))
qed

lemma codes_size_actions:
  "codes_size (map CAction acts) = sum_list (map appendActionBytecodeSize acts)"
  by (induction acts) auto

lemma compiledNodeMaxBytecodeSize_eq:
  "compiledNodeMaxBytecodeSize d i =
     (if isKilled (nodes d ! i) then 0
      else (if i = root d then codes_size (root_prologue d) else 0) + block_max d i)"
  by (auto simp: compiledNodeMaxBytecodeSize_def Let_def nodeTransitionsMaxBytecodeSize_eq
      block_max_def entry_actions_def root_prologue_def codes_size_actions)

definition offset_step :: "dfa \<Rightarrow> nat \<Rightarrow> nat list \<times> nat \<Rightarrow> nat list \<times> nat" where
  "offset_step d i = (\<lambda>(offsets, nextIndex).
     if i \<noteq> root d
     then (offsets[i := nextIndex], nextIndex + compiledNodeMaxBytecodeSize d i)
     else (offsets, nextIndex))"

lemma offset_step_apply:
  "offset_step d i (offsets, n) =
     (if i \<noteq> root d then (offsets[i := n], n + compiledNodeMaxBytecodeSize d i) else (offsets, n))"
  by (simp add: offset_step_def)

lemma offset_steps_other:
  "i \<notin> set xs - {root d} \<Longrightarrow> fst (fold (offset_step d) xs (offsets, n)) ! i = offsets ! i"
  by (induction xs arbitrary: offsets n) (auto simp: offset_step_apply)

lemma offset_steps_chain:
  assumes "distinct xs" "\<forall>x \<in> set xs. x < length offsets"
  shows "chain_from d (fst (fold (offset_step d) xs (offsets, n))) n
    (filter (\<lambda>i. i \<noteq> root d \<and> \<not> isKilled (nodes d ! i)) xs)"
  using assms
proof (induction xs arbitrary: offsets n)
  case (Cons i xs)
  let ?s = "offset_step d i (offsets, n)"
  have s: "?s = (fst ?s, snd ?s)" by simp
  have "length (fst ?s) = length offsets" by (simp add: offset_step_apply)
  with Cons have IH: "chain_from d (fst (fold (offset_step d) xs ?s)) (snd ?s)
      (filter (\<lambda>i. i \<noteq> root d \<and> \<not> isKilled (nodes d ! i)) xs)"
    by (metis distinct.simps(2) list.set_intros(2) s)
  have "fst (fold (offset_step d) xs ?s) ! i = fst ?s ! i"
    using Cons.prems offset_steps_other [of i xs d "fst ?s" "snd ?s"] by simp
  with IH Cons.prems show ?case
    by (auto simp: offset_step_apply compiledNodeMaxBytecodeSize_eq)
qed simp

lemma max_offsets_chain:
  assumes "live d (root d)"
  shows "chain_from d (max_offsets d) (first_block d 0) (block_order d)"
proof -
  let ?n = "length (nodes d)" and ?first = "first_block d 0"
  let ?offs = "(replicate ?n 0)[root d := ?first]"
  have step: "(\<lambda>i (offsets, nextIndex).
      if i \<noteq> root d
      then (offsets[i := nextIndex], nextIndex + compiledNodeMaxBytecodeSize d i)
      else (offsets, nextIndex)) = offset_step d"
    by (intro ext) (simp add: offset_step_def)
  have mo: "max_offsets d = fst (fold (offset_step d) [0 ..< ?n]
      (?offs, ?first + block_max d (root d)))"
    using assms
    by (simp add: max_offsets_def step Let_def first_block_def root_prologue_def
        codes_size_actions compiledNodeMaxBytecodeSize_eq live_def add.assoc)
  have "max_offsets d ! root d = ?first"
    unfolding mo using assms by (subst offset_steps_other) (auto simp: live_def)
  then show ?thesis
    unfolding block_order_def chain_from.simps unfolding mo
    by (intro conjI offset_steps_chain) auto
qed

subsection \<open>Where the blocks end up\<close>

lemma chain_from_bound:
  assumes "chain_from d maxs m is" "t \<in> set is"
  shows "m \<le> maxs ! t" "maxs ! t \<le> m + sum_list (map (block_max d) is)"
  using assms by (induction "is" arbitrary: m) fastforce+

lemma layout_blocks_other:
  assumes "layout_blocks d maxs starts loc is = (as, final)" "t \<notin> set is"
  shows "final ! t = starts ! t"
  using assms
  by (induction d maxs starts loc "is" arbitrary: as rule: layout_blocks.induct)
     (auto simp: Let_def split: prod.splits)

lemma layout_blocks_Cons:
  assumes "layout_blocks d maxs starts loc (i # is) = (as, final)"
  obtains rest where "as = node_codes d (starts[i := loc]) maxs i loc @ rest"
    and "layout_blocks d maxs (starts[i := loc])
      (loc + codes_size (node_codes d (starts[i := loc]) maxs i loc)) is = (rest, final)"
  using assms by (auto simp: Let_def split: prod.splits)

lemma layout_blocks_positions:
  assumes "layout_blocks d maxs starts loc is = (as, final)" "chain_from d maxs m is"
    "distinct is" "\<forall>i \<in> set is. i < length starts" "t \<in> set is"
  shows "loc \<le> final ! t \<and> final ! t + m \<le> loc + maxs ! t"
  using assms
proof (induction "is" arbitrary: starts loc as m)
  case (Cons i "is")
  let ?starts = "starts[i := loc]"
  let ?codes = "node_codes d ?starts maxs i loc"
  obtain rest where rest: "layout_blocks d maxs ?starts (loc + codes_size ?codes) is = (rest, final)"
    using Cons.prems(1) by (rule layout_blocks_Cons)
  show ?case
  proof (cases "t = i")
    case True
    then have "final ! t = loc"
      using layout_blocks_other [OF rest, of i] Cons.prems by simp
    then show ?thesis using Cons.prems True by simp
  next
    case False
    then have "loc + codes_size ?codes \<le> final ! t \<and>
        final ! t + (m + block_max d i) \<le> loc + codes_size ?codes + maxs ! t"
      using Cons.prems by (intro Cons.IH [OF rest]) auto
    then show ?thesis using node_codes_max [of d ?starts maxs i loc] by auto
  qed
qed simp

lemma block_reachable:
  assumes bound: "loc + sz < 2147483647" "2 * w < 2147483648"
    and pos: "\<And>t. t \<in> later \<Longrightarrow> loc + sz \<le> final ! t \<and>
      final ! t + (maxs ! i + block_max d i) \<le> loc + sz + maxs ! t \<and> final ! t < 2147483647"
    and maxs: "\<And>t. t \<in> later \<Longrightarrow> maxs ! t \<le> w"
    and starts: "starts ! i = loc" "\<And>t. t \<in> later \<Longrightarrow> starts ! t = u32_max"
    and early: "\<And>t. t \<in> earlier \<Longrightarrow> final ! t = starts ! t \<and> starts ! t \<le> loc"
    and sz: "sz \<le> block_max d i" "sz \<le> w" and p: "loc \<le> p" "p \<le> loc + sz"
    and t: "t \<in> earlier \<or> t \<in> later"
  shows "reachable final starts maxs i p t"
  using t
proof
  assume t: "t \<in> earlier"
  have "starts ! t \<noteq> u32_max" using early [OF t] bound by (simp add: u32_max_def)
  moreover have "i32 (int (starts ! t) - int p) = int (starts ! t) - int p"
    using early [OF t] bound p by (intro i32_id) auto
  ultimately show ?thesis
    using early [OF t] bound p by (simp add: reachable_def longest_jump_def)
next
  assume t: "t \<in> later"
  let ?l = "int (maxs ! t) - int (maxs ! i) - (int loc - int p)"
  have l: "0 \<le> ?l" "?l < 2147483648"
    using pos [OF t] maxs [OF t] p bound sz by linarith+
  then have "i32 ?l = ?l" by (intro i32_id) auto
  then have "longest_jump starts maxs p i t = ?l"
    using starts t by (simp add: longest_jump_def)
  moreover have "int (final ! t) - int p \<le> ?l" "0 \<le> int (final ! t) - int p"
    using pos [OF t] p sz by linarith+
  ultimately show ?thesis
    using l pos [OF t] by (simp add: reachable_def Let_def)
qed

lemma codes_fit_actions: "codes_fit final loc (map CAction acts)"
  by (induction acts arbitrary: loc) auto

lemma node_codes_fit:
  assumes "\<forall>(k, ts) \<in> set (node_branches d i). \<forall>t \<in> set ts. \<forall>p.
      loc \<le> p \<longrightarrow> p \<le> loc + codes_size (node_codes d starts maxs i loc) \<longrightarrow>
      reachable final starts maxs i p t"
  shows "codes_fit final loc (node_codes d starts maxs i loc)"
proof -
  let ?e = "entry_actions d i"
  let ?L = "layout_branches starts maxs i (loc + codes_size ?e) (node_branches d i)"
  have "codes_fit final (loc + codes_size ?e) ?L"
    using assms
    by (intro layout_branches_fit [where bound = "loc + codes_size (node_codes d starts maxs i loc)"])
       (fastforce simp: node_codes_def)+
  then show ?thesis
    by (simp add: node_codes_def codes_fit_append entry_actions_def codes_fit_actions node_tail_def)
qed

lemma layout_blocks_fit:
  assumes "layout_blocks d maxs starts loc is = (as, final)" "chain_from d maxs m is"
    and "distinct is" "\<forall>i \<in> set is. i < length starts"
    and "\<forall>i \<in> set is. starts ! i = u32_max"
    and "\<forall>t \<in> done. starts ! t \<le> loc \<and> t \<notin> set is"
    and "\<forall>i \<in> set is. \<forall>(k, ts) \<in> set (node_branches d i). set ts \<subseteq> done \<union> set is"
    and "loc + sum_list (map (block_max d) is) < 2147483647" "2 * w < 2147483648"
    and "m + sum_list (map (block_max d) is) \<le> w"
  shows "codes_fit final loc as"
  using assms
proof (induction "is" arbitrary: starts loc as m "done")
  case (Cons i "is")
  let ?starts = "starts[i := loc]"
  let ?codes = "node_codes d ?starts maxs i loc"
  let ?rest = "sum_list (map (block_max d) is)"
  obtain rest where rest: "as = ?codes @ rest"
    "layout_blocks d maxs ?starts (loc + codes_size ?codes) is = (rest, final)"
    using Cons.prems(1) by (rule layout_blocks_Cons)
  have i: "i < length starts" "i \<notin> set is" "maxs ! i = m" using Cons.prems by auto
  have sz: "codes_size ?codes \<le> block_max d i"
    by (rule node_codes_max)
  have "reachable final ?starts maxs i p t"
    if "loc \<le> p" "p \<le> loc + codes_size ?codes" "t \<in> insert i done \<or> t \<in> set is" for p t
  proof (rule block_reachable [where w = w and later = "set is" and earlier = "insert i done"])
    show "loc + codes_size ?codes \<le> final ! u \<and>
        final ! u + (maxs ! i + block_max d i) \<le> loc + codes_size ?codes + maxs ! u \<and>
        final ! u < 2147483647"
      if "u \<in> set is" for u
    proof -
      have "loc + codes_size ?codes \<le> final ! u \<and>
          final ! u + (m + block_max d i) \<le> loc + codes_size ?codes + maxs ! u"
        using Cons.prems that by (intro layout_blocks_positions [OF rest(2)]) auto
      moreover have "maxs ! u \<le> m + block_max d i + ?rest"
        using Cons.prems that by (intro chain_from_bound(2)) auto
      ultimately show ?thesis using Cons.prems(8) sz i(3) by simp
    qed
    show "maxs ! u \<le> w" if "u \<in> set is" for u
      using chain_from_bound(2) [of d maxs "m + block_max d i" "is" u] Cons.prems that by simp
    show "final ! u = ?starts ! u \<and> ?starts ! u \<le> loc" if "u \<in> insert i done" for u
      using layout_blocks_other [OF rest(2), of u] that Cons.prems(6) i
      by (cases "u = i") auto
    show "?starts ! u = u32_max" if "u \<in> set is" for u
      using that i Cons.prems(5) by (auto simp: nth_list_update)
  qed (use that Cons.prems(8-10) sz i in auto)
  then have "codes_fit final loc ?codes"
    using Cons.prems(7) by (intro node_codes_fit) fastforce
  moreover have "codes_fit final (loc + codes_size ?codes) rest"
  proof (rule Cons.IH [OF rest(2), of "m + block_max d i" "insert i done"])
    show "loc + codes_size ?codes + ?rest < 2147483647" using Cons.prems(8) sz by simp
    show "\<forall>t \<in> insert i done. ?starts ! t \<le> loc + codes_size ?codes \<and> t \<notin> set is"
      using Cons.prems(6) i by (auto simp: nth_list_update)
    show "\<forall>j \<in> set is. ?starts ! j = u32_max"
      using Cons.prems(5) i by (auto simp: nth_list_update)
  qed (use Cons.prems(2-4,7,9,10) in auto)
  ultimately show ?case by (simp add: rest(1) codes_fit_append)
qed simp

subsection \<open>Compilation succeeds\<close>

lemma set_block_order: "live d (root d) \<Longrightarrow> set (block_order d) = {i. live d i}"
  by (auto simp: block_order_def live_def)

lemma distinct_block_order: "distinct (block_order d)"
  by (simp add: block_order_def)

lemma node_branches_live:
  assumes "wf_dfa d" "live d i" "(k, ts) \<in> set (node_branches d i)" "t \<in> set ts"
  shows "live d t"
proof -
  let ?n = "nodes d ! i"
  let ?plan = "node_transition_plan d ?n"
  have wf: "wf_node d ?n" using wf_dfa_node assms(1,2) .
  have "t \<in> plan_destinations (jumpTables ?plan) (ranges ?plan) \<or>
      useFallbackTransition ?plan \<and> t = fallbackTransitionTarget ?plan"
    using assms(3,4)
    by (auto simp: node_branches_def Let_def plan_destinations_def table_branch_def range_branch_def
        split: if_splits)
  then show ?thesis
  proof
    assume "useFallbackTransition ?plan \<and> t = fallbackTransitionTarget ?plan"
    then have c: "canUseFallbackTransition d ?n" and t: "t = fallbackTransitionTarget ?plan"
      by (auto simp: node_transition_plan_unfold(3))
    then obtain b where b: "bestFallbackTarget d ?n = Some b"
      using canUseFallbackTransition_best [of d ?n] wf by (auto simp: wf_node_def)
    then have "t = b" using c t by (simp add: node_transition_plan_unfold(4) node_fallback_def)
    then show ?thesis
      using bestFallbackTarget_mem [OF b] wf by (auto simp: wf_node_def)
  qed (rule node_plan_destinations [OF assms(1,2)])
qed

theorem compile_program:
  assumes wf: "wf_dfa d" and size: "length pre + 2 * worst_case_size d < 2147483647"
    and prog: "program d (length pre) = (as, final)"
  shows "compile d pre = Some (pre @ le_bytes 4 (int (4 + codes_size (root_prologue d) + codes_size as)) @
      blank (root_prologue d) @ assemble final (first_block d (length pre)) as)"
    and "codes_fit final (first_block d (length pre)) as"
proof -
  have live: "live d (root d)" using wf by (simp add: wf_dfa_def)
  note order = set_block_order [OF live]
  show fit: "codes_fit final (first_block d (length pre)) as"
  proof (rule layout_blocks_fit [OF prog [unfolded program_def] max_offsets_chain [OF live]
        distinct_block_order, where ?done = "{}" and w = "worst_case_size d"])
    show "\<forall>i \<in> set (block_order d). \<forall>(k, ts) \<in> set (node_branches d i). set ts \<subseteq> {} \<union> set (block_order d)"
      using node_branches_live [OF wf] by (fastforce simp: order)
    show "first_block d (length pre) + sum_list (map (block_max d) (block_order d)) < 2147483647"
      using size by (simp add: worst_case_size_def first_block_def)
  qed (use size in \<open>auto simp: order live_def worst_case_size_def\<close>)
  show "compile d pre = Some (pre @ le_bytes 4 (int (4 + codes_size (root_prologue d) + codes_size as)) @
      blank (root_prologue d) @ assemble final (first_block d (length pre)) as)"
    using live size by (intro compile_assembles [OF _ _ prog fit]) (auto simp: live_def)
qed

lemma layout_blocks_at:
  assumes "layout_blocks d maxs starts loc is = (as, final)" "distinct is"
    "\<forall>i \<in> set is. i < length starts" "i \<in> set is"
  shows "\<exists>before after st. as = before @ node_codes d st maxs i (final ! i) @ after \<and>
    loc + codes_size before = final ! i"
  using assms
proof (induction "is" arbitrary: starts loc as)
  case (Cons j "is")
  let ?starts = "starts[j := loc]"
  let ?codes = "node_codes d ?starts maxs j loc"
  obtain rest where rest: "as = ?codes @ rest"
    "layout_blocks d maxs ?starts (loc + codes_size ?codes) is = (rest, final)"
    using Cons.prems(1) by (rule layout_blocks_Cons)
  show ?case
  proof (cases "i = j")
    case True
    then have "final ! i = loc"
      using layout_blocks_other [OF rest(2), of j] Cons.prems by simp
    then show ?thesis
      using rest(1) True
      by (intro exI [where x = "[]"] exI [where x = rest] exI [where x = ?starts]) simp
  next
    case False
    then obtain before after st where "rest = before @ node_codes d st maxs i (final ! i) @ after"
      "loc + codes_size ?codes + codes_size before = final ! i"
      using Cons.IH [OF rest(2)] Cons.prems by auto
    then show ?thesis
      using rest(1)
      by (intro exI [where x = "?codes @ before"] exI [where x = after] exI [where x = st])
         (simp add: add.assoc)
  qed
qed simp

end
