(* ===== verification/DFA_Bytecode_Interpreter.thy ===== *)
theory DFA_Bytecode_Interpreter
  imports DFA_Bytecode
begin

text \<open>
  \<^verbatim>\<open>DFABytecodeInterpreter\<close>: one step of the instruction loop, the loop over the code of one
  automaton and the loop over the automata of a bytecode file.  The bytecode comes from a file, so
  nothing is assumed about it: a read outside the bytecode or the URL and an instruction that is
  not one are the outcome \<open>Crash\<close>, and a loop that does not end is \<open>None\<close>.
\<close>

subsection \<open>State and outcomes\<close>

record machine =
  programCounter :: nat
  urlIndex :: nat
  urlIndexIsAfterEndOfString :: bool
  actions :: "u64 set"

datatype outcome = Continue machine | GotoNextDFA machine | Crash

datatype 'a result = Crashed | Returned 'a

text \<open>\<^verbatim>\<open>CString::data()\<close> is terminated by a null character, which may be read; what follows may not.\<close>

definition url_char :: "byte list \<Rightarrow> nat \<Rightarrow> byte option" where
  "url_char url i =
     (if i < length url then Some (url ! i) else if i = length url then Some 0 else None)"

definition advance :: "nat \<Rightarrow> int \<Rightarrow> nat" where
  "advance pc distance = nat ((int pc + distance) mod 2 ^ 32)"

subsection \<open>Appending actions\<close>

definition matchesCondition :: "u64 \<Rightarrow> u64 set \<Rightarrow> bool" where
  "matchesCondition actionAndFlags conditionActions \<longleftrightarrow>
     (actionAndFlags AND IfConditionFlag \<noteq> 0) = (actionAndFlags \<in> conditionActions)"

definition add_action :: "u64 set option \<Rightarrow> u64 \<Rightarrow> u64 set \<Rightarrow> u64 set" where
  "add_action topURLActions action acts =
     (case topURLActions of
        None \<Rightarrow> insert action acts
      | Some topActs \<Rightarrow> if matchesCondition action topActs then insert action acts else acts)"

definition interpretAppendAction ::
  "byte list \<Rightarrow> u64 set option \<Rightarrow> bool \<Rightarrow> nat \<Rightarrow> u64 set \<Rightarrow> (nat \<times> u64 set) option" where
  "interpretAppendAction bytecode topActs ifCondition pc acts =
     map_option (\<lambda>v.
         (u32 (pc + 5),
          add_action topActs ((if ifCondition then IfConditionFlag else 0) OR word_of_int v) acts))
       (getBits 4 bytecode (u32 (pc + 1)))"

definition flags_match :: "u16 \<Rightarrow> u16 \<Rightarrow> bool" where
  "flags_match flagsToCheck flags \<longleftrightarrow>
     (let loadTypeFlags = flagsToCheck AND LoadTypeMask;
          resourceTypeFlags = flagsToCheck AND ResourceTypeMask;
          loadTypeMatches = (if loadTypeFlags \<noteq> 0 then loadTypeFlags AND flags \<noteq> 0 else True);
          resourceTypeMatches =
            (if resourceTypeFlags \<noteq> 0 then resourceTypeFlags AND flags \<noteq> 0 else True)
      in loadTypeMatches \<and> resourceTypeMatches)"

definition interpretTestFlagsAndAppendAction ::
  "byte list \<Rightarrow> u64 set option \<Rightarrow> u16 \<Rightarrow> bool \<Rightarrow> nat \<Rightarrow> u64 set \<Rightarrow> (nat \<times> u64 set) option" where
  "interpretTestFlagsAndAppendAction bytecode topActs flags ifCondition pc acts =
     Option.bind (getBits 2 bytecode (u32 (pc + 1))) (\<lambda>f.
       let flagsToCheck = word_of_int f :: u16 in
       if flags_match flagsToCheck flags then
         map_option (\<lambda>v.
             (u32 (pc + 7),
              add_action topActs
                (((if ifCondition then IfConditionFlag else 0)
                  OR push_bit 32 (ucast flagsToCheck)) OR word_of_int v) acts))
           (getBits 4 bytecode (u32 (pc + 1 + 2)))
       else Some (u32 (pc + 7), acts))"

subsection \<open>Instructions that consume a character\<close>

definition fetch_character :: "bool \<Rightarrow> byte list \<Rightarrow> nat \<Rightarrow> int option" where
  "fetch_character isCaseSensitive url i =
     map_option (\<lambda>c. sint (if isCaseSensitive then c else toASCIILower c)) (url_char url i)"

definition take_edge :: "byte list \<Rightarrow> nat \<Rightarrow> jump_size \<Rightarrow> int \<Rightarrow> machine \<Rightarrow> outcome" where
  "take_edge bytecode jump js character m =
     (case getJumpDistance bytecode jump js of
        None \<Rightarrow> Crash
      | Some distance \<Rightarrow>
          Continue (m\<lparr>programCounter := advance (programCounter m) distance,
            urlIndexIsAfterEndOfString :=
              (if character = 0 then True else urlIndexIsAfterEndOfString m),
            urlIndex := u32 (urlIndex m + 1)\<rparr>))"

definition skip_instruction :: "int \<Rightarrow> machine \<Rightarrow> outcome" where
  "skip_instruction width m =
     Continue (m\<lparr>programCounter := advance (programCounter m) width\<rparr>)"

definition interpretCheckValue :: "byte list \<Rightarrow> byte list \<Rightarrow> bool \<Rightarrow> machine \<Rightarrow> outcome" where
  "interpretCheckValue bytecode url isCaseSensitive m =
     (let pc = programCounter m in
      if urlIndexIsAfterEndOfString m then GotoNextDFA m
      else
        (case (fetch_character isCaseSensitive url (urlIndex m), getJumpSize bytecode pc,
               getBits 1 bytecode (u32 (pc + 1))) of
           (Some character, Some js, Some v) \<Rightarrow>
             if character = v then take_edge bytecode (u32 (pc + 1 + 1)) js character m
             else skip_instruction (1 + 1 + int (jumpSizeInBytes js)) m
         | _ \<Rightarrow> Crash))"

definition interpetJumpTable :: "byte list \<Rightarrow> byte list \<Rightarrow> bool \<Rightarrow> machine \<Rightarrow> outcome" where
  "interpetJumpTable bytecode url isCaseSensitive m =
     (let pc = programCounter m in
      if urlIndexIsAfterEndOfString m then GotoNextDFA m
      else
        (case (fetch_character isCaseSensitive url (urlIndex m), getJumpSize bytecode pc,
               getBits 1 bytecode (u32 (pc + 1)), getBits 1 bytecode (u32 (pc + 1 + 1))) of
           (Some character, Some js, Some firstCharacter, Some lastCharacter) \<Rightarrow>
             if firstCharacter \<le> character \<and> character \<le> lastCharacter then
               take_edge bytecode
                 (u32 (pc + 1 + 2 * 1 + nat (character - firstCharacter) * jumpSizeInBytes js))
                 js character m
             else skip_instruction
                    (1 + 2 * 1 + int (jumpSizeInBytes js) * (lastCharacter - firstCharacter + 1)) m
         | _ \<Rightarrow> Crash))"

definition interpretCheckValueRange ::
  "byte list \<Rightarrow> byte list \<Rightarrow> bool \<Rightarrow> machine \<Rightarrow> outcome" where
  "interpretCheckValueRange bytecode url isCaseSensitive m =
     (let pc = programCounter m in
      if urlIndexIsAfterEndOfString m then GotoNextDFA m
      else
        (case (fetch_character isCaseSensitive url (urlIndex m), getJumpSize bytecode pc,
               getBits 1 bytecode (u32 (pc + 1)), getBits 1 bytecode (u32 (pc + 1 + 1))) of
           (Some character, Some js, Some lowValue, Some highValue) \<Rightarrow>
             if lowValue \<le> character \<and> character \<le> highValue
             then take_edge bytecode (u32 (pc + 1 + 2 * 1)) js character m
             else skip_instruction (1 + 2 * 1 + int (jumpSizeInBytes js)) m
         | _ \<Rightarrow> Crash))"

definition interpretJump :: "byte list \<Rightarrow> byte list \<Rightarrow> machine \<Rightarrow> outcome" where
  "interpretJump bytecode url m =
     (let pc = programCounter m in
      case url_char url (urlIndex m) of
        None \<Rightarrow> Crash
      | Some c \<Rightarrow>
          if c = 0 \<or> urlIndexIsAfterEndOfString m then GotoNextDFA m
          else
            (case getJumpSize bytecode pc of
               None \<Rightarrow> Crash
             | Some js \<Rightarrow>
                 (case getJumpDistance bytecode (u32 (pc + 1)) js of
                    None \<Rightarrow> Crash
                  | Some distance \<Rightarrow>
                      Continue (m\<lparr>programCounter := advance pc distance,
                        urlIndex := u32 (urlIndex m + 1)\<rparr>))))"

definition after_append :: "machine \<Rightarrow> (nat \<times> u64 set) option \<Rightarrow> outcome" where
  "after_append m r =
     (case r of None \<Rightarrow> Crash
      | Some (pc, acts) \<Rightarrow> Continue (m\<lparr>programCounter := pc, actions := acts\<rparr>))"

definition step ::
  "byte list \<Rightarrow> byte list \<Rightarrow> u16 \<Rightarrow> u64 set option \<Rightarrow> machine \<Rightarrow> outcome" where
  "step bytecode url flags topActs m =
     (case getInstruction bytecode (programCounter m) of
        None \<Rightarrow> Crash
      | Some Terminate \<Rightarrow> GotoNextDFA m
      | Some CheckValueCaseSensitive \<Rightarrow> interpretCheckValue bytecode url True m
      | Some CheckValueCaseInsensitive \<Rightarrow> interpretCheckValue bytecode url False m
      | Some JumpTableCaseInsensitive \<Rightarrow> interpetJumpTable bytecode url False m
      | Some JumpTableCaseSensitive \<Rightarrow> interpetJumpTable bytecode url True m
      | Some CheckValueRangeCaseSensitive \<Rightarrow> interpretCheckValueRange bytecode url True m
      | Some CheckValueRangeCaseInsensitive \<Rightarrow> interpretCheckValueRange bytecode url False m
      | Some Jump \<Rightarrow> interpretJump bytecode url m
      | Some AppendAction \<Rightarrow>
          after_append m (interpretAppendAction bytecode topActs False (programCounter m) (actions m))
      | Some AppendActionWithIfCondition \<Rightarrow>
          after_append m (interpretAppendAction bytecode topActs True (programCounter m) (actions m))
      | Some TestFlagsAndAppendAction \<Rightarrow>
          after_append m (interpretTestFlagsAndAppendAction bytecode topActs flags False
            (programCounter m) (actions m))
      | Some TestFlagsAndAppendActionWithIfCondition \<Rightarrow>
          after_append m (interpretTestFlagsAndAppendAction bytecode topActs flags True
            (programCounter m) (actions m)))"

subsection \<open>The loops\<close>

partial_function (option) run ::
  "byte list \<Rightarrow> byte list \<Rightarrow> u16 \<Rightarrow> u64 set option \<Rightarrow> machine \<Rightarrow> machine result option" where
  "run bytecode url flags topActs m =
     (case step bytecode url flags topActs m of
        Crash \<Rightarrow> Some Crashed
      | GotoNextDFA m' \<Rightarrow> Some (Returned m')
      | Continue m' \<Rightarrow> run bytecode url flags topActs m')"

text \<open>
  The actions on the root of the first automaton: \<^verbatim>\<open>interpret\<close> keeps those with flags, and
  \<^verbatim>\<open>actionsMatchingEverything\<close> those without.
\<close>

partial_function (option) root_actions ::
  "byte list \<Rightarrow> u16 \<Rightarrow> u64 set option \<Rightarrow> nat \<Rightarrow> nat \<Rightarrow> u64 set \<Rightarrow>
   (nat \<times> u64 set) result option" where
  "root_actions bytecode flags topActs dfaBytecodeLength pc acts =
     (if pc < dfaBytecodeLength then
        (case getInstruction bytecode pc of
           Some AppendAction \<Rightarrow>
             root_actions bytecode flags topActs dfaBytecodeLength (u32 (pc + 5)) acts
         | Some AppendActionWithIfCondition \<Rightarrow>
             root_actions bytecode flags topActs dfaBytecodeLength (u32 (pc + 5)) acts
         | Some TestFlagsAndAppendAction \<Rightarrow>
             (case interpretTestFlagsAndAppendAction bytecode topActs flags False pc acts of
                None \<Rightarrow> Some Crashed
              | Some (pc, acts) \<Rightarrow> root_actions bytecode flags topActs dfaBytecodeLength pc acts)
         | Some TestFlagsAndAppendActionWithIfCondition \<Rightarrow>
             (case interpretTestFlagsAndAppendAction bytecode topActs flags True pc acts of
                None \<Rightarrow> Some Crashed
              | Some (pc, acts) \<Rightarrow> root_actions bytecode flags topActs dfaBytecodeLength pc acts)
         | _ \<Rightarrow> if pc < length bytecode then Some (Returned (pc, acts)) else Some Crashed)
      else Some (Returned (pc, acts)))"

partial_function (option) matching_everything ::
  "byte list \<Rightarrow> u64 set option \<Rightarrow> nat \<Rightarrow> nat \<Rightarrow> u64 set \<Rightarrow> u64 set result option" where
  "matching_everything bytecode topActs dfaBytecodeLength pc acts =
     (if pc < dfaBytecodeLength then
        (case getInstruction bytecode pc of
           Some AppendAction \<Rightarrow>
             (case interpretAppendAction bytecode topActs False pc acts of
                None \<Rightarrow> Some Crashed
              | Some (pc, acts) \<Rightarrow> matching_everything bytecode topActs dfaBytecodeLength pc acts)
         | Some AppendActionWithIfCondition \<Rightarrow>
             (case interpretAppendAction bytecode topActs True pc acts of
                None \<Rightarrow> Some Crashed
              | Some (pc, acts) \<Rightarrow> matching_everything bytecode topActs dfaBytecodeLength pc acts)
         | Some TestFlagsAndAppendAction \<Rightarrow>
             matching_everything bytecode topActs dfaBytecodeLength (u32 (pc + 7)) acts
         | Some TestFlagsAndAppendActionWithIfCondition \<Rightarrow>
             matching_everything bytecode topActs dfaBytecodeLength (u32 (pc + 7)) acts
         | _ \<Rightarrow> if pc < length bytecode then Some (Returned acts) else Some Crashed)
      else Some (Returned acts))"

definition actionsMatchingEverything ::
  "byte list \<Rightarrow> u64 set option \<Rightarrow> u64 set result option" where
  "actionsMatchingEverything bytecode topActs =
     (case getBits 4 bytecode 0 of
        None \<Rightarrow> Some Crashed
      | Some dfaBytecodeLength \<Rightarrow> matching_everything bytecode topActs (nat dfaBytecodeLength) 4 {})"

partial_function (option) interpret_dfas ::
  "byte list \<Rightarrow> byte list \<Rightarrow> u16 \<Rightarrow> u64 set option \<Rightarrow> nat \<Rightarrow> u64 set \<Rightarrow>
   u64 set result option" where
  "interpret_dfas bytecode url flags topActs dfaStart acts =
     (if dfaStart < length bytecode then
        (case getBits 4 bytecode dfaStart of
           None \<Rightarrow> Some Crashed
         | Some dfaBytecodeLength \<Rightarrow>
             Option.bind
               (if dfaStart = 0
                then root_actions bytecode flags topActs (nat dfaBytecodeLength) 4 acts
                else Some (Returned (u32 (dfaStart + 4), acts)))
               (\<lambda>r. case r of
                  Crashed \<Rightarrow> Some Crashed
                | Returned (pc, acts) \<Rightarrow>
                    if dfaStart = 0 \<and> length bytecode \<le> pc then Some (Returned acts)
                    else
                      Option.bind
                        (run bytecode url flags topActs
                          \<lparr>programCounter = pc, urlIndex = 0,
                           urlIndexIsAfterEndOfString = False, actions = acts\<rparr>)
                        (\<lambda>r. case r of
                           Crashed \<Rightarrow> Some Crashed
                         | Returned m \<Rightarrow>
                             interpret_dfas bytecode url flags topActs
                               (u32 (dfaStart + nat dfaBytecodeLength)) (actions m))))
      else Some (Returned acts))"

definition interpret_url ::
  "byte list \<Rightarrow> u64 set option \<Rightarrow> byte list \<Rightarrow> u16 \<Rightarrow> u64 set result option" where
  "interpret_url bytecode topActs url flags = interpret_dfas bytecode url flags topActs 0 {}"

definition interpretWithConditions ::
  "byte list \<Rightarrow> byte list \<Rightarrow> u16 \<Rightarrow> u64 set \<Rightarrow> u64 set result option" where
  "interpretWithConditions bytecode url flags topURLActions =
     interpret_url bytecode (Some topURLActions) url flags"

declare run.simps [code] root_actions.simps [code] matching_everything.simps [code]
  interpret_dfas.simps [code]

end
