(* ===== verification/Bytecode_Execution.thy ===== *)
theory Bytecode_Execution
  imports Jump_Distances DFA_Bytecode_Interpreter
begin

text \<open>
  The interpreter on the assembled code of an automaton: what one step does at each symbolic
  instruction, what a block does with the current character, and by induction over the URL the
  set of actions the whole run collects.
\<close>

subsection \<open>Reading assembled code\<close>

definition holds :: "byte list \<Rightarrow> nat \<Rightarrow> byte list \<Rightarrow> bool" where
  "holds B loc bs \<longleftrightarrow> (\<exists>xs ys. B = xs @ bs @ ys \<and> length xs = loc)"

lemma holds_append:
  assumes "holds B loc (as @ bs)"
  shows "holds B loc as" "holds B (loc + length as) bs"
proof -
  obtain xs ys where "B = xs @ (as @ bs) @ ys" "length xs = loc"
    using assms by (auto simp: holds_def)
  note B = this
  show "holds B loc as"
    unfolding holds_def using B by (intro exI [where x = xs] exI [where x = "bs @ ys"]) simp
  show "holds B (loc + length as) bs"
    unfolding holds_def using B by (intro exI [where x = "xs @ as"] exI [where x = ys]) simp
qed

lemma holds_length: "holds B loc bs \<Longrightarrow> loc + length bs \<le> length B"
  by (auto simp: holds_def)

lemma getBits_holds: "holds B loc bs \<Longrightarrow> length bs = n \<Longrightarrow> getBits n B loc = Some (le_value bs)"
  by (auto simp: holds_def getBits_def)

lemma getBits_byte: "holds B loc [b] \<Longrightarrow> getBits 1 B loc = Some (uint b)"
  by (simp add: getBits_holds)

lemma getInstruction_branch:
  "holds B loc (branch_header k js) \<Longrightarrow> getInstruction B loc = Some (kind_instruction k)"
  using holds_append(1) [of B loc "[_]"] getBits_byte
  by (fastforce simp: branch_header_def getInstruction_def)

lemma getJumpSize_branch:
  "holds B loc (branch_header k js) \<Longrightarrow> getJumpSize B loc = Some js"
  using holds_append(1) [of B loc "[_]"] getBits_byte
  by (fastforce simp: branch_header_def getJumpSize_def)

lemma getInstruction_byte:
  "holds B loc [instruction_code i] \<Longrightarrow> getInstruction B loc = Some i"
  using getBits_byte by (simp add: getInstruction_def)

lemma getBits_field: "holds B loc (le_bytes n v) \<Longrightarrow> getBits n B loc = Some (v mod 256 ^ n)"
  by (simp add: getBits_holds le_value_le_bytes)

lemma getSignedBits_field:
  assumes "holds B loc (le_bytes n v)" "0 < n" "- (2 ^ (8 * n - 1)) \<le> v" "v < 2 ^ (8 * n - 1)"
  shows "getSignedBits n B loc = Some v"
proof -
  have "(256::int) ^ n = 2 ^ (8 * n)" by (simp add: power_mult)
  moreover have "\<not> 8 * n \<le> 8 * n - 1" using assms(2) by arith
  ultimately have "signed_take_bit (8 * n - 1) (v mod 256 ^ n) = v"
    using assms(2-4)
    by (simp add: take_bit_eq_mod [symmetric] signed_take_bit_take_bit signed_take_bit_int_eq_self)
  then show ?thesis by (simp add: getSignedBits_def getBits_field [OF assms(1)])
qed

lemma combine_Int24: "take_bit 16 v OR push_bit 16 (drop_bit 16 v) = (v :: int)"
proof (rule bit_eqI)
  show "bit (take_bit 16 v OR push_bit 16 (drop_bit 16 v)) n = bit v n" for n
    by (cases "n < 16") (simp_all add: bit_simps)
qed

lemma getJumpDistance_field:
  assumes "holds B loc (jump_bytes js v)" "fits js v"
  shows "getJumpDistance B loc js = Some v"
proof (cases js)
  case Int24
  have fields: "holds B loc (le_bytes 2 v)" "holds B (loc + 2) (le_bytes 1 (drop_bit 16 v))"
    using assms(1) holds_append [of B loc "le_bytes 2 v"] Int24 by (simp_all add: jump_bytes_Int24)
  have "getBits 2 B loc = Some (take_bit 16 v)"
    using getBits_field [OF fields(1)] by (simp add: take_bit_eq_mod)
  moreover have "getSignedBits 1 B (loc + 2) = Some (drop_bit 16 v)"
    using assms(2) Int24
    by (intro getSignedBits_field fields) (auto simp: Int24Min_def Int24Max_def drop_bit_eq_div)
  ultimately show ?thesis by (simp add: Int24 combine_Int24)
next
  case Int8
  then show ?thesis using assms getSignedBits_field [of B loc 1 v] by (simp add: jump_bytes_def)
next
  case Int16
  then show ?thesis using assms getSignedBits_field [of B loc 2 v] by (simp add: jump_bytes_def)
next
  case Int32
  then show ?thesis using assms getSignedBits_field [of B loc 4 v] by (simp add: jump_bytes_def)
qed

subsection \<open>Characters\<close>

definition fold_case :: "bool \<Rightarrow> nat \<Rightarrow> nat" where
  "fold_case cs c = (if cs then c else lower c)"

lemma toASCIILower_lower: "unat (toASCIILower b) = lower (unat b)"
  by (simp add: lower_def)

lemma lower_ascii: "c < 128 \<Longrightarrow> lower c < 128"
  by (simp add: lower_eq)

lemma lower_zero: "c < 128 \<Longrightarrow> lower c = 0 \<longleftrightarrow> c = 0"
  by (simp add: lower_eq)

lemma sint_ascii: "unat (b :: byte) < 128 \<Longrightarrow> sint b = int (unat b)"
proof -
  assume "unat b < 128"
  then have "int (unat b) < int 128" by (simp only: of_nat_less_iff)
  then have "uint b < 2 ^ 7" by simp
  then have "signed_take_bit 7 (uint b) = uint b"
    by (intro signed_take_bit_int_eq_self) (auto intro: order_trans [OF _ uint_ge_0])
  then show ?thesis by (simp add: sint_uint)
qed

lemma fetch_character_ascii:
  assumes "url_char url i = Some b" "unat b < 128"
  shows "fetch_character cs url i = Some (int (fold_case cs (unat b)))"
proof -
  have "sint (toASCIILower b) = int (lower (unat b))"
    using sint_ascii [of "toASCIILower b"] lower_ascii [OF assms(2)]
    by (simp only: toASCIILower_lower)
  then show ?thesis
    using assms sint_ascii [of b] by (simp add: fetch_character_def fold_case_def)
qed

subsection \<open>Branches\<close>

fun branch_target :: "branch_kind \<Rightarrow> nat list \<Rightarrow> nat \<Rightarrow> nat option" where
  "branch_target (KCheck cs v) ts c = (if fold_case cs c = v then Some (ts ! 0) else None)"
| "branch_target (KRange cs lo hi) ts c =
     (if lo \<le> fold_case cs c \<and> fold_case cs c \<le> hi then Some (ts ! 0) else None)"
| "branch_target (KTable cs lo hi) ts c =
     (if lo \<le> fold_case cs c \<and> fold_case cs c \<le> hi then Some (ts ! (fold_case cs c - lo)) else None)"
| "branch_target KJump ts c = (if c \<noteq> 0 then Some (ts ! 0) else None)"

fun wf_branch :: "branch_kind \<Rightarrow> nat list \<Rightarrow> bool" where
  "wf_branch (KCheck cs v) ts \<longleftrightarrow> v < 128 \<and> length ts = 1"
| "wf_branch (KRange cs lo hi) ts \<longleftrightarrow> lo \<le> hi \<and> hi < 128 \<and> length ts = 1"
| "wf_branch (KTable cs lo hi) ts \<longleftrightarrow> lo \<le> hi \<and> hi < 128 \<and> length ts = hi - lo + 1"
| "wf_branch KJump ts \<longleftrightarrow> length ts = 1"

definition follow :: "nat \<Rightarrow> nat \<Rightarrow> machine \<Rightarrow> machine" where
  "follow pc c m = m\<lparr>programCounter := pc, urlIndex := Suc (urlIndex m),
     urlIndexIsAfterEndOfString := (c = 0 \<or> urlIndexIsAfterEndOfString m)\<rparr>"

lemma fold_case_ascii: "c < 128 \<Longrightarrow> fold_case cs c < 128"
  and fold_case_zero: "c < 128 \<Longrightarrow> fold_case cs c = 0 \<longleftrightarrow> c = 0"
  by (auto simp: fold_case_def lower_ascii lower_zero)

lemma holds_jump_fields:
  assumes "holds B loc (concat (map (\<lambda>t. jump_bytes js (f t)) ts))" "n < length ts"
  shows "holds B (loc + n * jumpSizeInBytes js) (jump_bytes js (f (ts ! n)))"
  using assms
proof (induction ts arbitrary: loc n)
  case (Cons t ts)
  then have h: "holds B loc (jump_bytes js (f t))"
    "holds B (loc + jumpSizeInBytes js) (concat (map (\<lambda>t. jump_bytes js (f t)) ts))"
    using holds_append [of B loc "jump_bytes js (f t)"] by auto
  show ?case
    using h Cons.IH [OF h(2), of "n - 1"] Cons.prems(2) by (cases n) (auto simp: add.assoc)
qed simp

lemma advance_forward: "loc + n < 4294967296 \<Longrightarrow> advance loc (int n) = loc + n"
  by (simp add: advance_def nat_int_add flip: of_nat_add)

lemma advance_jump: "t < 4294967296 \<Longrightarrow> advance loc (int t - int loc) = t"
  by (simp add: advance_def)

text \<open>A branch in the code: its header, and for each target the field with the distance.\<close>

definition branch_at :: "byte list \<Rightarrow> nat list \<Rightarrow> nat \<Rightarrow> branch_kind \<Rightarrow> jump_size \<Rightarrow> nat list \<Rightarrow> bool" where
  "branch_at B final loc k js ts \<longleftrightarrow>
     holds B loc (encode (\<lambda>t. int (final ! t) - int loc) (CBranch k js ts)) \<and>
     code_fits final loc (CBranch k js ts) \<and> wf_branch k ts"

lemma branch_at_header:
  assumes "branch_at B final loc k js ts"
  shows "getInstruction B loc = Some (kind_instruction k)" "getJumpSize B loc = Some js"
    and "holds B (loc + 1) (kind_arguments k)"
    and "loc + header_size k + length ts * jumpSizeInBytes js \<le> length B"
proof -
  have all: "holds B loc (branch_header k js @ concat (map (\<lambda>t. jump_bytes js (int (final ! t) - int loc)) ts))"
    using assms by (simp add: branch_at_def)
  note h = holds_append [OF all]
  show "getInstruction B loc = Some (kind_instruction k)" "getJumpSize B loc = Some js"
    using h(1) by (rule getInstruction_branch, rule getJumpSize_branch)
  show "holds B (loc + 1) (kind_arguments k)"
    using h(1) holds_append(2) [of B loc "[_]" "kind_arguments k"] by (simp add: branch_header_def)
  show "loc + header_size k + length ts * jumpSizeInBytes js \<le> length B"
    using holds_length [OF all] by simp
qed

lemma branch_at_distance:
  assumes "branch_at B final loc k js ts" "n < length ts"
  shows "getJumpDistance B (loc + header_size k + n * jumpSizeInBytes js) js =
      Some (int (final ! (ts ! n)) - int loc)"
    and "final ! (ts ! n) < 2147483647"
proof -
  have "holds B (loc + header_size k) (concat (map (\<lambda>t. jump_bytes js (int (final ! t) - int loc)) ts))"
    using assms(1) holds_append(2) [of B loc "branch_header k js"] by (simp add: branch_at_def)
  from holds_jump_fields [OF this assms(2)] show
    "getJumpDistance B (loc + header_size k + n * jumpSizeInBytes js) js =
      Some (int (final ! (ts ! n)) - int loc)"
    using assms by (intro getJumpDistance_field) (auto simp: branch_at_def)
  show "final ! (ts ! n) < 2147483647"
    using assms by (auto simp: branch_at_def)
qed

lemma take_edge_branch:
  assumes "branch_at B final (programCounter m) k js ts" "n < length ts" "c < 128"
    and "Suc (urlIndex m) < 4294967296"
    and "pos = programCounter m + header_size k + n * jumpSizeInBytes js"
  shows "take_edge B pos js (int (fold_case cs c)) m = Continue (follow (final ! (ts ! n)) c m)"
  using branch_at_distance [OF assms(1,2)] assms(3-5)
  by (auto simp: take_edge_def follow_def advance_jump width_simps fold_case_zero)

lemma uint_small_byte: "v < 128 \<Longrightarrow> uint (word_of_nat v :: byte) = int v"
  by (simp add: unsigned_of_nat take_bit_eq_mod)

definition after_branch :: "nat list \<Rightarrow> branch_kind \<Rightarrow> jump_size \<Rightarrow> nat list \<Rightarrow> nat \<Rightarrow> machine \<Rightarrow> machine" where
  "after_branch final k js ts c m =
     (case branch_target k ts c of
        Some t \<Rightarrow> follow (final ! t) c m
      | None \<Rightarrow> m\<lparr>programCounter := programCounter m + code_size (CBranch k js ts)\<rparr>)"

lemma step_check:
  assumes at: "branch_at B final (programCounter m) (KCheck cs v) js ts"
    and len: "length B < 4294967296" and idx: "Suc (urlIndex m) < 4294967296"
    and char: "url_char url (urlIndex m) = Some b" "unat b < 128"
    and running: "\<not> urlIndexIsAfterEndOfString m"
  shows "interpretCheckValue B url cs m = Continue (after_branch final (KCheck cs v) js ts (unat b) m)"
proof -
  let ?pc = "programCounter m"
  note h = branch_at_header [OF at]
  have wf: "v < 128" "length ts = 1" using at by (auto simp: branch_at_def)
  have size: "?pc + 2 + jumpSizeInBytes js \<le> length B"
    using h(4) wf by (simp add: header_size_def)
  have "getBits 1 B (?pc + 1) = Some (int v)"
    using getBits_byte h(3) wf by (simp add: uint_small_byte)
  moreover have "take_edge B (?pc + 2) js (int (fold_case cs (unat b))) m =
      Continue (follow (final ! (ts ! 0)) (unat b) m)"
    using wf by (intro take_edge_branch [OF at _ char(2) idx]) (auto simp: header_size_def)
  moreover have "advance ?pc (2 + int (jumpSizeInBytes js)) = ?pc + (2 + jumpSizeInBytes js)"
    using advance_forward [of ?pc "2 + jumpSizeInBytes js"] size len by simp
  ultimately show ?thesis
    using h(2) running size len wf fetch_character_ascii [OF char]
    by (auto simp: interpretCheckValue_def Let_def after_branch_def skip_instruction_def width_simps
        header_size_def)
qed

lemma step_range:
  assumes at: "branch_at B final (programCounter m) (KRange cs lo hi) js ts"
    and len: "length B < 4294967296" and idx: "Suc (urlIndex m) < 4294967296"
    and char: "url_char url (urlIndex m) = Some b" "unat b < 128"
    and running: "\<not> urlIndexIsAfterEndOfString m"
  shows "interpretCheckValueRange B url cs m =
    Continue (after_branch final (KRange cs lo hi) js ts (unat b) m)"
proof -
  let ?pc = "programCounter m"
  note h = branch_at_header [OF at]
  have wf: "lo < 128" "hi < 128" "length ts = 1" using at by (auto simp: branch_at_def)
  have size: "?pc + 3 + jumpSizeInBytes js \<le> length B"
    using h(4) wf by (simp add: header_size_def)
  have args: "holds B (?pc + 1) ([word_of_nat lo] @ [word_of_nat hi])" using h(3) by simp
  have "getBits 1 B (?pc + 1) = Some (int lo)" "getBits 1 B (?pc + 2) = Some (int hi)"
    using getBits_byte [OF holds_append(1) [OF args]] getBits_byte [OF holds_append(2) [OF args]] wf
    by (auto simp: uint_small_byte)
  moreover have "take_edge B (?pc + 3) js (int (fold_case cs (unat b))) m =
      Continue (follow (final ! (ts ! 0)) (unat b) m)"
    using wf by (intro take_edge_branch [OF at _ char(2) idx]) (auto simp: header_size_def)
  moreover have "advance ?pc (3 + int (jumpSizeInBytes js)) = ?pc + (3 + jumpSizeInBytes js)"
    using advance_forward [of ?pc "3 + jumpSizeInBytes js"] size len by simp
  ultimately show ?thesis
    using h(2) running size len wf fetch_character_ascii [OF char]
    by (simp add: interpretCheckValueRange_def Let_def after_branch_def skip_instruction_def
        width_simps header_size_def numeral_3_eq_3)
qed

lemma step_table:
  assumes at: "branch_at B final (programCounter m) (KTable cs lo hi) js ts"
    and len: "length B < 4294967296" and idx: "Suc (urlIndex m) < 4294967296"
    and char: "url_char url (urlIndex m) = Some b" "unat b < 128"
    and running: "\<not> urlIndexIsAfterEndOfString m"
  shows "interpetJumpTable B url cs m =
    Continue (after_branch final (KTable cs lo hi) js ts (unat b) m)"
proof -
  let ?pc = "programCounter m" and ?c = "fold_case cs (unat b)" and ?s = "jumpSizeInBytes js"
  note h = branch_at_header [OF at]
  have wf: "lo < 128" "hi < 128" "lo \<le> hi" "length ts = hi - lo + 1"
    using at by (auto simp: branch_at_def)
  have size: "?pc + 3 + ?s * (hi - lo + 1) \<le> length B"
    using h(4) wf by (simp add: header_size_def mult.commute)
  have args: "holds B (?pc + 1) ([word_of_nat lo] @ [word_of_nat hi])" using h(3) by simp
  have bits: "getBits 1 B (?pc + 1) = Some (int lo)" "getBits 1 B (?pc + 2) = Some (int hi)"
    using getBits_byte [OF holds_append(1) [OF args]] getBits_byte [OF holds_append(2) [OF args]] wf
    by (auto simp: uint_small_byte)
  have edge: "take_edge B (u32 (?pc + 1 + 2 * 1 + nat (int ?c - int lo) * ?s)) js (int ?c) m =
      Continue (follow (final ! (ts ! (?c - lo))) (unat b) m)" if "lo \<le> ?c" "?c \<le> hi"
  proof (rule take_edge_branch [OF at _ char(2) idx])
    show "?c - lo < length ts" using that wf by auto
    then have "(?c - lo) * ?s \<le> (hi - lo + 1) * ?s" using wf by (intro mult_right_mono) auto
    then show "u32 (?pc + 1 + 2 * 1 + nat (int ?c - int lo) * ?s) =
        ?pc + header_size (KTable cs lo hi) + (?c - lo) * ?s"
      using size len that by (subst u32_id) (auto simp: header_size_def nat_diff_distrib mult.commute)
  qed
  have skip: "advance ?pc (1 + 2 * 1 + int ?s * (int hi - int lo + 1)) = ?pc + (3 + ?s * (hi - lo + 1))"
  proof -
    have "1 + 2 * 1 + int ?s * (int hi - int lo + 1) = int (3 + ?s * (hi - lo + 1))"
      using wf(3) by (simp add: of_nat_diff distrib_left)
    then show ?thesis
      using advance_forward [of ?pc "3 + ?s * (hi - lo + 1)"] size len by (simp only:)
  qed
  show ?thesis
    using h(2) running size len wf bits edge skip fetch_character_ascii [OF char]
    by (simp add: interpetJumpTable_def Let_def after_branch_def skip_instruction_def width_simps
        header_size_def mult.commute)
qed

lemma step_jump:
  assumes at: "branch_at B final (programCounter m) KJump js ts"
    and len: "length B < 4294967296" and idx: "Suc (urlIndex m) < 4294967296"
    and char: "url_char url (urlIndex m) = Some b"
    and running: "\<not> urlIndexIsAfterEndOfString m"
  shows "interpretJump B url m =
    (if b = 0 then GotoNextDFA m else Continue (follow (final ! (ts ! 0)) (unat b) m))"
proof -
  let ?pc = "programCounter m"
  note h = branch_at_header [OF at]
  have wf: "length ts = 1" using at by (auto simp: branch_at_def)
  have "?pc + 1 + jumpSizeInBytes js \<le> length B" using h(4) wf by (simp add: header_size_def)
  moreover have "getJumpDistance B (?pc + 1) js = Some (int (final ! (ts ! 0)) - int ?pc)"
    "final ! (ts ! 0) < 2147483647"
    using branch_at_distance [OF at, of 0] wf by (auto simp: header_size_def)
  ultimately show ?thesis
    using h(2) running len idx char
    by (auto simp: interpretJump_def Let_def follow_def width_simps advance_jump unat_eq_0)
qed

lemma step_branch:
  assumes at: "branch_at B final (programCounter m) k js ts" and "k \<noteq> KJump"
    and "length B < 4294967296" "Suc (urlIndex m) < 4294967296"
    and "url_char url (urlIndex m) = Some b" "unat b < 128" "\<not> urlIndexIsAfterEndOfString m"
  shows "step B url flags topActs m = Continue (after_branch final k js ts (unat b) m)"
proof (cases k)
  case (KCheck cs v)
  then show ?thesis
    using branch_at_header(1) [OF at] step_check assms by (cases cs) (simp_all add: step_def)
next
  case (KRange cs lo hi)
  then show ?thesis
    using branch_at_header(1) [OF at] step_range assms by (cases cs) (simp_all add: step_def)
next
  case (KTable cs lo hi)
  then show ?thesis
    using branch_at_header(1) [OF at] step_table assms by (cases cs) (simp_all add: step_def)
qed (use assms in simp)

lemma step_branch_jump:
  assumes at: "branch_at B final (programCounter m) KJump js ts"
    and "length B < 4294967296" "Suc (urlIndex m) < 4294967296"
    and "url_char url (urlIndex m) = Some b" "\<not> urlIndexIsAfterEndOfString m"
  shows "step B url flags topActs m =
    (if b = 0 then GotoNextDFA m else Continue (follow (final ! (ts ! 0)) (unat b) m))"
  using step_jump [OF assms] branch_at_header(1) [OF at] by (simp add: step_def)

lemma step_branch_after_end:
  assumes "branch_at B final (programCounter m) k js ts" "k \<noteq> KJump" "urlIndexIsAfterEndOfString m"
  shows "step B url flags topActs m = GotoNextDFA m"
  using branch_at_header(1) [OF assms(1)] assms(2,3)
  by (cases k) (auto simp: step_def interpretCheckValue_def interpretCheckValueRange_def
      interpetJumpTable_def Let_def)

lemma step_terminate:
  assumes "holds B (programCounter m) [instruction_code Terminate]"
  shows "step B url flags topActs m = GotoNextDFA m"
  using getInstruction_byte [OF assms] by (simp add: step_def)

subsection \<open>Actions\<close>

text \<open>
  An action is a location of 32 bits, 16 flag bits and the if-condition bit.  It is added when its
  flags match the request and, with a top URL, when its condition does.
\<close>

definition wf_action :: "u64 \<Rightarrow> bool" where
  "wf_action a \<longleftrightarrow> drop_bit 49 a = 0"

definition accepted :: "u64 set option \<Rightarrow> u16 \<Rightarrow> u64 \<Rightarrow> bool" where
  "accepted topActs flags a \<longleftrightarrow>
     flags_match (ucast (drop_bit 32 a)) flags \<and>
     (case topActs of None \<Rightarrow> True | Some acts \<Rightarrow> matchesCondition a acts)"

lemma IfConditionFlag_exp: "IfConditionFlag = 2 ^ 48"
  by (simp add: IfConditionFlag_def)

lemma IfConditionFlag_bit: "a AND IfConditionFlag \<noteq> 0 \<longleftrightarrow> bit a 48"
  unfolding IfConditionFlag_exp and_exp_eq_0_iff_not_bit by simp

lemma bit_IfConditionFlag: "bit IfConditionFlag n \<longleftrightarrow> n = 48"
  unfolding IfConditionFlag_exp bit_exp_iff by (auto simp: possible_bit_def)

lemma low_action_bits: "(word_of_int (uint a mod 4294967296) :: u64) = take_bit 32 a"
proof -
  have "uint a mod 4294967296 = take_bit 32 (uint a)" by (simp add: take_bit_eq_mod)
  moreover have "(word_of_int (take_bit 32 (uint a)) :: u64) = take_bit 32 a"
    by (rule bit_word_eqI) (auto simp: bit_simps)
  ultimately show ?thesis by simp
qed

lemma wf_action_bit: "wf_action a \<Longrightarrow> bit a n \<Longrightarrow> n < 49"
proof (rule ccontr)
  assume "wf_action a" "bit a n" "\<not> n < 49"
  then have "bit (drop_bit 49 a) (n - 49)" by (simp add: bit_simps)
  then show False using \<open>wf_action a\<close> by (simp add: wf_action_def)
qed

lemma action_decodes:
  assumes "wf_action a"
  shows "(if a AND IfConditionFlag \<noteq> 0 then IfConditionFlag else 0) OR
      push_bit 32 (ucast (ucast (drop_bit 32 a) :: u16)) OR take_bit 32 a = a"
proof (rule bit_word_eqI)
  fix n assume n: "n < LENGTH(64)"
  have flag: "bit (if a AND IfConditionFlag \<noteq> 0 then IfConditionFlag else 0) n \<longleftrightarrow> n = 48 \<and> bit a 48"
    by (simp add: IfConditionFlag_bit bit_IfConditionFlag)
  show "bit ((if a AND IfConditionFlag \<noteq> 0 then IfConditionFlag else 0) OR
      push_bit 32 (ucast (ucast (drop_bit 32 a) :: u16)) OR take_bit 32 a) n = bit a n"
  proof (cases "n < 32 \<or> n = 48")
    case True
    then show ?thesis using n by (auto simp: bit_or_iff flag) (auto simp: bit_simps)
  next
    case False
    then show ?thesis
      using n wf_action_bit [OF assms, of n]
      by (cases "n < 48") (auto simp: bit_or_iff flag, auto simp: bit_simps)
  qed
qed

lemma unflagged_bits:
  assumes "a AND ActionFlagMask = 0" "32 \<le> n" "n < 48"
  shows "\<not> bit a n"
proof -
  have "ActionFlagMask = push_bit 32 (mask 16)"
    by (simp add: ActionFlagMask_def mask_eq_exp_minus_1 push_bit_eq_mult)
  note mask = this
  have "bit ActionFlagMask n"
    using assms(2,3) unfolding mask bit_push_bit_iff bit_mask_iff by (auto simp: possible_bit_def)
  moreover have "\<not> bit (a AND ActionFlagMask) n" using assms(1) by simp
  ultimately show ?thesis by (simp add: bit_and_iff)
qed

lemma unflagged_flags:
  assumes "a AND ActionFlagMask = 0"
  shows "(ucast (drop_bit 32 a) :: u16) = 0"
  using unflagged_bits [OF assms] by (intro bit_word_eqI) (auto simp: bit_simps)

lemma add_action_accepted:
  "flags_match (ucast (drop_bit 32 a)) flags \<Longrightarrow>
   add_action topActs a acts = (if accepted topActs flags a then insert a acts else acts)"
  by (auto simp: add_action_def accepted_def split: option.splits)

lemma flags_match_0: "flags_match 0 flags"
  by (simp add: flags_match_def)

lemma appendActionBytecodeSize_cases:
  "appendActionBytecodeSize a = (if a AND ActionFlagMask \<noteq> 0 then 7 else 5)"
  by (simp add: appendActionBytecodeSize_def)

lemma flags_field: "(word_of_int (uint (drop_bit 32 a) mod 65536) :: u16) = ucast (drop_bit 32 (a :: u64))"
proof -
  have "uint (drop_bit 32 a) mod 65536 = take_bit 16 (uint (drop_bit 32 a))"
    by (simp add: take_bit_eq_mod)
  moreover have "(word_of_int (take_bit 16 (uint (drop_bit 32 a))) :: u16) = ucast (drop_bit 32 a)"
    by (rule bit_word_eqI) (auto simp: bit_simps)
  ultimately show ?thesis by simp
qed

lemma interpretTestFlags_action:
  assumes "holds B pc (action_bytes a)" "wf_action a" "a AND ActionFlagMask \<noteq> 0"
    and "length B < 4294967296"
  shows "interpretTestFlagsAndAppendAction B topActs flags (a AND IfConditionFlag \<noteq> 0) pc acts =
    Some (pc + 7, if accepted topActs flags a then insert a acts else acts)"
proof -
  have all: "holds B pc ([instruction_code (if a AND IfConditionFlag \<noteq> 0
      then TestFlagsAndAppendActionWithIfCondition else TestFlagsAndAppendAction)]
      @ le_bytes 2 (uint (drop_bit 32 a)) @ le_bytes 4 (uint a))"
    using assms(1,3) by (simp add: action_bytes_def)
  note f = holds_append [OF holds_append(2) [OF all]]
  have "pc + 7 \<le> length B" using holds_length [OF all] by simp
  moreover have "getBits 2 B (pc + 1) = Some (uint (drop_bit 32 a) mod 65536)"
    using getBits_field [OF f(1)] by simp
  moreover have "getBits 4 B (pc + 1 + 2) = Some (uint a mod 4294967296)"
    using getBits_field [OF f(2)] by simp
  moreover have "add_action topActs a acts = (if accepted topActs flags a then insert a acts else acts)"
    if "flags_match (ucast (drop_bit 32 a)) flags"
    using that by (rule add_action_accepted)
  moreover have "\<not> accepted topActs flags a" if "\<not> flags_match (ucast (drop_bit 32 a)) flags"
    using that by (simp add: accepted_def)
  ultimately show ?thesis
    using assms(4) action_decodes [OF assms(2)]
    by (cases "a AND IfConditionFlag = 0")
       (simp_all add: interpretTestFlagsAndAppendAction_def width_simps flags_field low_action_bits
        Let_def or.assoc)
qed

lemma interpretAppend_action:
  assumes "holds B pc (action_bytes a)" "wf_action a" "a AND ActionFlagMask = 0"
    and "length B < 4294967296"
  shows "interpretAppendAction B topActs (a AND IfConditionFlag \<noteq> 0) pc acts =
    Some (pc + 5, if accepted topActs flags a then insert a acts else acts)"
proof -
  have all: "holds B pc ([instruction_code (if a AND IfConditionFlag \<noteq> 0
      then AppendActionWithIfCondition else AppendAction)] @ le_bytes 4 (uint a))"
    using assms(1,3) by (simp add: action_bytes_def)
  have "pc + 5 \<le> length B" using holds_length [OF all] by simp
  moreover have "getBits 4 B (pc + 1) = Some (uint a mod 4294967296)"
    using getBits_field [OF holds_append(2) [OF all]] by simp
  moreover have "(if a AND IfConditionFlag \<noteq> 0 then IfConditionFlag else 0) OR take_bit 32 a = a"
    using action_decodes [OF assms(2)] by (simp add: unflagged_flags [OF assms(3)])
  moreover have "add_action topActs a acts = (if accepted topActs flags a then insert a acts else acts)"
    by (rule add_action_accepted) (simp add: unflagged_flags [OF assms(3)] flags_match_0)
  ultimately show ?thesis
    using assms(4) by (simp add: interpretAppendAction_def width_simps low_action_bits)
qed

lemma getInstruction_action:
  assumes "holds B pc (action_bytes a)"
  shows "getInstruction B pc = Some
    (if a AND ActionFlagMask \<noteq> 0
     then (if a AND IfConditionFlag \<noteq> 0 then TestFlagsAndAppendActionWithIfCondition
           else TestFlagsAndAppendAction)
     else (if a AND IfConditionFlag \<noteq> 0 then AppendActionWithIfCondition else AppendAction))"
  using assms holds_append(1) [of B pc "[_]"] getInstruction_byte
  by (fastforce simp: action_bytes_def split: if_splits)

lemma step_action:
  assumes "holds B (programCounter m) (action_bytes a)" "wf_action a" "length B < 4294967296"
  shows "step B url flags topActs m =
    Continue (m\<lparr>programCounter := programCounter m + appendActionBytecodeSize a,
      actions := (if accepted topActs flags a then insert a (actions m) else actions m)\<rparr>)"
proof (cases "a AND ActionFlagMask = 0")
  case True
  then show ?thesis
    using interpretAppend_action [OF assms(1,2) True assms(3), where flags = flags] getInstruction_action [OF assms(1)]
    by (cases "a AND IfConditionFlag = 0")
       (simp_all add: step_def after_append_def appendActionBytecodeSize_cases)
next
  case False
  then show ?thesis
    using interpretTestFlags_action [OF assms(1,2) _ assms(3)] getInstruction_action [OF assms(1)]
    by (cases "a AND IfConditionFlag = 0")
       (simp_all add: step_def after_append_def appendActionBytecodeSize_cases)
qed

end
