(* ===== verification/Bytecode_Runs.thy ===== *)
theory Bytecode_Runs
  imports Bytecode_Execution
begin

text \<open>
  Runs of the interpreter over the blocks of a compiled automaton.  \<open>compiled_next\<close> is the edge the
  bytecode takes from a node: the automaton's, except that the terminator's edge is missing when it
  leads to the fallback target.
\<close>

subsection \<open>One block\<close>

lemma run_Continue: "step B url flags topActs m = Continue m' \<Longrightarrow> run B url flags topActs m = run B url flags topActs m'"
  by (subst run.simps) simp

lemma run_GotoNextDFA:
  "step B url flags topActs m = GotoNextDFA m' \<Longrightarrow> run B url flags topActs m = Some (Returned m')"
  by (subst run.simps) simp

fun first_target :: "branch list \<Rightarrow> nat \<Rightarrow> nat option" where
  "first_target [] c = None"
| "first_target ((k, ts) # bs) c =
     (case branch_target k ts c of Some t \<Rightarrow> Some t | None \<Rightarrow> first_target bs c)"

lemma first_target_append:
  "first_target (bs @ bs') c =
     (case first_target bs c of Some t \<Rightarrow> Some t | None \<Rightarrow> first_target bs' c)"
  by (induction bs c rule: first_target.induct) (auto split: option.splits)

lemma first_target_SomeD:
  "first_target bs c = Some t \<Longrightarrow> \<exists>b \<in> set bs. branch_target (fst b) (snd b) c = Some t"
  by (induction bs c rule: first_target.induct) (auto split: option.splits)

lemma first_target_None:
  "first_target bs c = None \<longleftrightarrow> (\<forall>b \<in> set bs. branch_target (fst b) (snd b) c = None)"
  by (induction bs c rule: first_target.induct) (auto split: option.splits)

definition collect :: "u64 set option \<Rightarrow> u16 \<Rightarrow> u64 list \<Rightarrow> u64 set" where
  "collect topActs flags acts = {a \<in> set acts. accepted topActs flags a}"

lemma collect_Cons:
  "collect topActs flags (a # acts) =
     (if accepted topActs flags a then {a} else {}) \<union> collect topActs flags acts"
  by (auto simp: collect_def)

lemma run_actions:
  assumes "holds B (programCounter m) (assemble final loc (map CAction acts))"
    and "\<forall>a \<in> set acts. wf_action a" "length B < 4294967296"
  shows "run B url flags topActs m = run B url flags topActs
    (m\<lparr>programCounter := programCounter m + codes_size (map CAction acts),
       actions := actions m \<union> collect topActs flags acts\<rparr>)"
  using assms
proof (induction acts arbitrary: m loc)
  case (Cons a acts)
  define m1 where "m1 = m\<lparr>programCounter := programCounter m + appendActionBytecodeSize a,
      actions := (if accepted topActs flags a then insert a (actions m) else actions m)\<rparr>"
  have h: "holds B (programCounter m) (action_bytes a)"
    "holds B (programCounter m1) (assemble final (loc + appendActionBytecodeSize a) (map CAction acts))"
    using Cons.prems(1) holds_append [of B _ "action_bytes a"] by (auto simp: m1_def)
  have "run B url flags topActs m = run B url flags topActs m1"
    using Cons.prems by (intro run_Continue) (simp add: m1_def step_action [OF h(1)])
  also have "\<dots> = run B url flags topActs
    (m1\<lparr>programCounter := programCounter m1 + codes_size (map CAction acts),
       actions := actions m1 \<union> collect topActs flags acts\<rparr>)"
    using Cons.prems h(2) by (intro Cons.IH) auto
  also have "m1\<lparr>programCounter := programCounter m1 + codes_size (map CAction acts),
       actions := actions m1 \<union> collect topActs flags acts\<rparr> =
     m\<lparr>programCounter := programCounter m + codes_size (map CAction (a # acts)),
       actions := actions m \<union> collect topActs flags (a # acts)\<rparr>"
    by (simp add: m1_def collect_Cons add.assoc)
  finally show ?case .
qed (simp add: collect_def)

lemma run_conditional_branches:
  assumes "holds B loc (assemble final loc (layout_branches starts maxs src pos bs))"
    and "codes_fit final loc (layout_branches starts maxs src pos bs)"
    and "\<forall>(k, ts) \<in> set bs. wf_branch k ts \<and> k \<noteq> KJump"
    and "length B < 4294967296" "Suc (urlIndex m) < 4294967296"
    and "url_char url (urlIndex m) = Some b" "unat b < 128" "\<not> urlIndexIsAfterEndOfString m"
    and "programCounter m = loc"
  shows "run B url flags topActs m = run B url flags topActs
    (case first_target bs (unat b) of
       Some t \<Rightarrow> follow (final ! t) (unat b) m
     | None \<Rightarrow> m\<lparr>programCounter := loc + codes_size (layout_branches starts maxs src pos bs)\<rparr>)"
  using assms
proof (induction starts maxs src pos bs arbitrary: m loc rule: layout_branches.induct)
  case (2 starts maxs src pos k ts bs)
  let ?js = "branch_size starts maxs src pos ts"
  let ?a = "CBranch k ?js ts"
  let ?rest = "layout_branches starts maxs src (pos + code_size ?a) bs"
  have parts: "holds B loc (encode (\<lambda>t. int (final ! t) - int loc) ?a)"
    "holds B (loc + code_size ?a) (assemble final (loc + code_size ?a) ?rest)"
    using "2.prems"(1) holds_append [of B loc "encode _ ?a"] by (simp_all add: Let_def)
  have at: "branch_at B final (programCounter m) k ?js ts"
    using parts(1) "2.prems" by (simp add: branch_at_def Let_def)
  have step: "run B url flags topActs m = run B url flags topActs (after_branch final k ?js ts (unat b) m)"
    using "2.prems" by (intro run_Continue step_branch [OF at]) auto
  show ?case
  proof (cases "branch_target k ts (unat b)")
    case None
    define m1 where "m1 = m\<lparr>programCounter := loc + code_size ?a\<rparr>"
    have "run B url flags topActs m = run B url flags topActs m1"
      using step None "2.prems" by (simp add: after_branch_def m1_def)
    also have "\<dots> = run B url flags topActs
      (case first_target bs (unat b) of
         Some t \<Rightarrow> follow (final ! t) (unat b) m1
       | None \<Rightarrow> m1\<lparr>programCounter := loc + code_size ?a + codes_size ?rest\<rparr>)"
      using "2.prems" parts(2) by (intro "2.IH") (auto simp: m1_def Let_def)
    finally show ?thesis
      using None by (auto simp: m1_def follow_def Let_def add.assoc split: option.splits)
  next
    case (Some t)
    then show ?thesis using step by (simp add: after_branch_def)
  qed
next
  case (1 starts maxs src pos)
  then show ?case by (cases m) simp
qed

subsection \<open>The edges of a block\<close>

definition conditional_branches :: "dfa \<Rightarrow> nat \<Rightarrow> branch list" where
  "conditional_branches d i =
     (let plan = node_transition_plan d (nodes d ! i)
      in map table_branch (jumpTables plan) @ map range_branch (ranges plan))"

definition fallback_branches :: "dfa \<Rightarrow> nat \<Rightarrow> branch list" where
  "fallback_branches d i =
     (case node_fallback d (nodes d ! i) of None \<Rightarrow> [] | Some t \<Rightarrow> [(KJump, [t])])"

definition compiled_next :: "dfa \<Rightarrow> nat \<Rightarrow> nat \<Rightarrow> nat option" where
  "compiled_next d i c =
     (case dfa_next d i (int c) of
        None \<Rightarrow> None
      | Some t \<Rightarrow> if c = 0 \<and> node_fallback d (nodes d ! i) = Some t then None else Some t)"

lemma node_fallback_iff:
  assumes "wf_dfa d" "live d i"
  shows "node_fallback d (nodes d ! i) = None \<longleftrightarrow> \<not> canUseFallbackTransition d (nodes d ! i)"
  using canUseFallbackTransition_best [of d "nodes d ! i"] wf_dfa_node [OF assms]
  by (auto simp: node_fallback_def wf_node_def)

lemma node_branches_split:
  assumes "wf_dfa d" "live d i"
  shows "node_branches d i = conditional_branches d i @ fallback_branches d i"
  using node_fallback_iff [OF assms]
  by (auto simp: node_branches_def conditional_branches_def fallback_branches_def Let_def
      node_transition_plan_unfold(3,4) split: option.splits)

lemma table_branch_target: "branch_target (fst (table_branch jt)) (snd (table_branch jt)) c = table_target jt c"
  by (simp add: table_branch_def table_target_def fold_case_def Let_def)

lemma range_branch_target:
  "wf_range r \<Longrightarrow> branch_target (fst (range_branch r)) (snd (range_branch r)) c = (if range_matches r c then Some (destination r) else None)"
  by (auto simp: range_branch_def range_matches_def fold_case_def Let_def wf_range_def)

lemma conditional_branches_clauses:
  "(\<exists>b \<in> set (conditional_branches d i). branch_target (fst b) (snd b) c = Some t) \<longleftrightarrow>
   (c, t) \<in> plan_clauses (jumpTables (node_transition_plan d (nodes d ! i)))
      (ranges (node_transition_plan d (nodes d ! i)))"
  using node_plan_wf(2) [of _ d "nodes d ! i"]
  by (auto simp: conditional_branches_def plan_clauses_def Let_def bex_Un table_branch_target
      range_branch_target split: if_splits)

lemma conditional_branches_wf:
  "(k, ts) \<in> set (conditional_branches d i) \<Longrightarrow> wf_branch k ts \<and> k \<noteq> KJump"
  using node_plan_wf [of _ d "nodes d ! i"]
  by (fastforce simp: conditional_branches_def Let_def table_branch_def range_branch_def wf_table_def
      wf_range_def split: if_splits)

lemma first_target_conditional:
  assumes "wf_dfa d" "live d i" "c < 128"
  shows "first_target (conditional_branches d i) c = Some t \<longleftrightarrow>
    dfa_next d i (int c) = Some t \<and> node_fallback d (nodes d ! i) \<noteq> Some t"
proof -
  note clauses = conditional_branches_clauses [of d i c, unfolded node_plan_clauses [OF assms]]
  show ?thesis
  proof
    assume "first_target (conditional_branches d i) c = Some t"
    then show "dfa_next d i (int c) = Some t \<and> node_fallback d (nodes d ! i) \<noteq> Some t"
      using first_target_SomeD clauses by fastforce
  next
    assume t: "dfa_next d i (int c) = Some t \<and> node_fallback d (nodes d ! i) \<noteq> Some t"
    then obtain u where u: "first_target (conditional_branches d i) c = Some u"
      using clauses [of t] by (cases "first_target (conditional_branches d i) c")
        (fastforce simp: first_target_None)+
    then have "dfa_next d i (int c) = Some u"
      using first_target_SomeD clauses by fastforce
    then show "first_target (conditional_branches d i) c = Some t" using t u by simp
  qed
qed

lemma first_target_node:
  assumes "wf_dfa d" "live d i" "c < 128"
  shows "first_target (node_branches d i) c = compiled_next d i c"
proof (cases "first_target (conditional_branches d i) c")
  case (Some t)
  then show ?thesis
    using first_target_conditional [OF assms, of t]
    by (auto simp: node_branches_split [OF assms(1,2)] first_target_append compiled_next_def)
next
  case None
  then have none: "dfa_next d i (int c) = Some t \<Longrightarrow> node_fallback d (nodes d ! i) = Some t" for t
    using first_target_conditional [OF assms, of t] by auto
  have total: "dfa_next d i (int c) \<noteq> None" if "c \<noteq> 0" "node_fallback d (nodes d ! i) \<noteq> None"
    using canUseFallbackTransition_total [of d "nodes d ! i" "int c"] that assms
      node_fallback_iff [OF assms(1,2)]
    by (auto simp: dfa_next_def)
  show ?thesis
    using None none total
    by (auto simp: node_branches_split [OF assms(1,2)] first_target_append compiled_next_def
        fallback_branches_def split: option.splits)
qed

subsection \<open>Running a block\<close>

definition block_at :: "byte list \<Rightarrow> nat list \<Rightarrow> dfa \<Rightarrow> nat \<Rightarrow> bool" where
  "block_at B final d i \<longleftrightarrow>
     (\<exists>starts maxs pos. let codes = node_codes d starts maxs i pos
        in holds B (final ! i) (assemble final (final ! i) codes) \<and> codes_fit final (final ! i) codes)"

definition collected :: "u64 set option \<Rightarrow> u16 \<Rightarrow> dfa \<Rightarrow> nat \<Rightarrow> u64 set" where
  "collected topActs flags d i =
     (if i = root d then {} else collect topActs flags (node_actions d (nodes d ! i)))"

text \<open>What follows the entry actions: the conditional branches, then a jump or the end.\<close>

definition code_after_entry :: "byte list \<Rightarrow> nat list \<Rightarrow> dfa \<Rightarrow> nat \<Rightarrow> nat \<Rightarrow> bool" where
  "code_after_entry B final d i loc \<longleftrightarrow>
     (\<exists>starts maxs pos. let codes = layout_branches starts maxs i pos (conditional_branches d i);
           next = loc + codes_size codes in
        holds B loc (assemble final loc codes) \<and> codes_fit final loc codes \<and>
        (case node_fallback d (nodes d ! i) of
           None \<Rightarrow> holds B next [instruction_code Terminate]
         | Some t \<Rightarrow> (\<exists>js. branch_at B final next KJump js [t])))"

lemma block_at_parts:
  assumes "wf_dfa d" "live d i" "block_at B final d i"
  shows "holds B (final ! i) (assemble final (final ! i) (entry_actions d i))"
    and "code_after_entry B final d i (final ! i + codes_size (entry_actions d i))"
proof -
  let ?loc = "final ! i + codes_size (entry_actions d i)"
  obtain starts maxs pos where
    h: "holds B (final ! i) (assemble final (final ! i) (node_codes d starts maxs i pos))"
    and f: "codes_fit final (final ! i) (node_codes d starts maxs i pos)"
    using assms(3) by (auto simp: block_at_def Let_def)
  let ?pos = "pos + codes_size (entry_actions d i)"
  let ?L = "layout_branches starts maxs i ?pos"
  note split = node_codes_def node_branches_split [OF assms(1,2)] assemble_append
    codes_fit_append layout_branches_append Let_def
  show "holds B (final ! i) (assemble final (final ! i) (entry_actions d i))"
    using h holds_append(1) by (fastforce simp: split)
  have rest: "holds B ?loc (assemble final ?loc (?L (node_branches d i) @ node_tail d i))"
    using h holds_append(2) [of B "final ! i" "assemble final (final ! i) (entry_actions d i)"]
    by (simp add: node_codes_def assemble_append)
  let ?C = "?L (conditional_branches d i)"
  let ?next = "?loc + codes_size ?C" and ?npos = "?pos + codes_size ?C"
  have cond: "holds B ?loc (assemble final ?loc ?C)"
    and tail: "holds B ?next (assemble final ?next
      (layout_branches starts maxs i ?npos (fallback_branches d i) @ node_tail d i))"
    using rest holds_append [of B ?loc "assemble final ?loc ?C"] by (simp_all add: split add.assoc)
  have fits: "codes_fit final ?loc ?C"
    "codes_fit final ?next (layout_branches starts maxs i ?npos (fallback_branches d i))"
    using f by (simp_all add: split add.assoc)
  have last: "case node_fallback d (nodes d ! i) of
      None \<Rightarrow> holds B ?next [instruction_code Terminate]
    | Some t \<Rightarrow> (\<exists>js. branch_at B final ?next KJump js [t])"
    using tail fits(2) node_fallback_iff [OF assms(1,2)]
    by (auto simp: fallback_branches_def node_tail_def branch_at_def Let_def split: option.splits)
  show "code_after_entry B final d i ?loc"
    unfolding code_after_entry_def Let_def using cond fits(1) last by blast
qed

lemma run_entry:
  assumes "wf_dfa d" "live d i" "block_at B final d i" "length B < 4294967296"
    and "\<forall>a \<in> used_actions d. wf_action a" "programCounter m = final ! i"
  obtains loc where "code_after_entry B final d i loc"
    and "\<And>url flags topActs. run B url flags topActs m = run B url flags topActs
      (m\<lparr>programCounter := loc, actions := actions m \<union> collected topActs flags d i\<rparr>)"
proof
  let ?loc = "final ! i + codes_size (entry_actions d i)"
  note parts = block_at_parts [OF assms(1-3)]
  show "code_after_entry B final d i ?loc" by (rule parts(2))
  have wf: "\<forall>a \<in> set (node_actions d (nodes d ! i)). wf_action a"
    using assms(2,5) by (auto simp: used_actions_def)
  show "run B url flags topActs m = run B url flags topActs
      (m\<lparr>programCounter := ?loc, actions := actions m \<union> collected topActs flags d i\<rparr>)" for url flags topActs
  proof (cases "i = root d")
    case True
    then show ?thesis using assms(6) by (cases m) (simp add: entry_actions_def collected_def)
  next
    case False
    then show ?thesis
      using run_actions [of B m final "final ! i" "node_actions d (nodes d ! i)"] parts(1) assms(4,6) wf
      by (simp add: entry_actions_def collected_def)
  qed
qed

lemma run_after_entry:
  assumes "wf_dfa d" "live d i" "code_after_entry B final d i (programCounter m)" "length B < 4294967296"
    and char: "Suc (urlIndex m) < 4294967296" "url_char url (urlIndex m) = Some b" "unat b < 128"
      "\<not> urlIndexIsAfterEndOfString m"
  shows "case compiled_next d i (unat b) of
      Some t \<Rightarrow> run B url flags topActs m = run B url flags topActs (follow (final ! t) (unat b) m)
    | None \<Rightarrow> \<exists>m'. run B url flags topActs m = Some (Returned m') \<and> actions m' = actions m"
proof -
  let ?loc = "programCounter m" and ?c = "unat b"
  obtain starts maxs pos where
    h: "holds B ?loc (assemble final ?loc (layout_branches starts maxs i pos (conditional_branches d i)))"
    and f: "codes_fit final ?loc (layout_branches starts maxs i pos (conditional_branches d i))"
    and last: "case node_fallback d (nodes d ! i) of
        None \<Rightarrow> holds B (?loc + codes_size (layout_branches starts maxs i pos (conditional_branches d i)))
                 [instruction_code Terminate]
      | Some t \<Rightarrow> (\<exists>js. branch_at B final
          (?loc + codes_size (layout_branches starts maxs i pos (conditional_branches d i))) KJump js [t])"
    using assms(3) by (auto simp: code_after_entry_def Let_def)
  define m1 where "m1 = m\<lparr>programCounter :=
    ?loc + codes_size (layout_branches starts maxs i pos (conditional_branches d i))\<rparr>"
  have cond: "run B url flags topActs m = run B url flags topActs
      (case first_target (conditional_branches d i) ?c of
         Some t \<Rightarrow> follow (final ! t) ?c m | None \<Rightarrow> m1)"
    unfolding m1_def using conditional_branches_wf [of _ _ d i] assms(4) char
    by (intro run_conditional_branches [OF h f]) auto
  have next_eq: "compiled_next d i ?c = (case first_target (conditional_branches d i) ?c of
      Some t \<Rightarrow> Some t | None \<Rightarrow> first_target (fallback_branches d i) ?c)"
    using first_target_node [OF assms(1,2) char(3)]
    by (simp add: node_branches_split [OF assms(1,2)] first_target_append)
  have m1: "urlIndex m1 = urlIndex m" "actions m1 = actions m" "\<not> urlIndexIsAfterEndOfString m1"
    "follow pc c m1 = follow pc c m" for pc c
    using char(4) by (simp_all add: m1_def follow_def)
  show ?thesis
  proof (cases "first_target (conditional_branches d i) ?c")
    case None
    then have run1: "run B url flags topActs m = run B url flags topActs m1" using cond by simp
    show ?thesis
    proof (cases "node_fallback d (nodes d ! i)")
      case no_fallback: None
      then have "run B url flags topActs m1 = Some (Returned m1)"
        using last by (intro run_GotoNextDFA step_terminate) (simp add: m1_def)
      then show ?thesis
        using None no_fallback run1 next_eq m1 by (simp add: fallback_branches_def)
    next
      case (Some t)
      then obtain js where "branch_at B final (programCounter m1) KJump js [t]"
        using last by (auto simp: m1_def)
      then have "step B url flags topActs m1 =
          (if b = 0 then GotoNextDFA m1 else Continue (follow (final ! t) ?c m1))"
        using step_branch_jump [of B final m1 js "[t]"] assms(4) char m1 by simp
      then show ?thesis
        using None Some run1 next_eq m1 run_GotoNextDFA run_Continue
        by (cases "b = 0") (auto simp: fallback_branches_def unat_eq_0)
    qed
  next
    case (Some t)
    then show ?thesis using cond next_eq by simp
  qed
qed

lemma run_after_end:
  assumes "wf_dfa d" "live d i" "code_after_entry B final d i (programCounter m)"
    and "urlIndexIsAfterEndOfString m" "\<not> canUseFallbackTransition d (nodes d ! i)"
  shows "run B url flags topActs m = Some (Returned m)"
proof -
  let ?loc = "programCounter m"
  obtain starts maxs pos where
    h: "holds B ?loc (assemble final ?loc (layout_branches starts maxs i pos (conditional_branches d i)))"
    and f: "codes_fit final ?loc (layout_branches starts maxs i pos (conditional_branches d i))"
    and last: "holds B (?loc + codes_size (layout_branches starts maxs i pos (conditional_branches d i)))
                 [instruction_code Terminate]"
    using assms(3,5) node_fallback_iff [OF assms(1,2)] by (auto simp: code_after_entry_def Let_def)
  show ?thesis
  proof (cases "conditional_branches d i")
    case Nil
    then show ?thesis using last by (intro run_GotoNextDFA step_terminate) simp
  next
    case (Cons b bs)
    obtain k ts where b: "b = (k, ts)" by fastforce
    have wf: "wf_branch k ts \<and> k \<noteq> KJump"
      using conditional_branches_wf [of k ts d i] Cons b by simp
    let ?a = "CBranch k (branch_size starts maxs i pos ts) ts"
    have "holds B ?loc (encode (\<lambda>t. int (final ! t) - int ?loc) ?a)"
      by (rule holds_append(1) [OF h [unfolded Cons b layout_branches.simps Let_def assemble.simps]])
    then have "branch_at B final ?loc k (branch_size starts maxs i pos ts) ts"
      using f wf by (simp add: Cons b branch_at_def Let_def)
    then show ?thesis
      using wf assms(4) by (intro run_GotoNextDFA step_branch_after_end) auto
  qed
qed

subsection \<open>Running over the URL\<close>

fun compiled_trace :: "dfa \<Rightarrow> nat \<Rightarrow> nat list \<Rightarrow> nat list" where
  "compiled_trace d i [] = []"
| "compiled_trace d i (c # cs) =
     (case compiled_next d i c of None \<Rightarrow> [] | Some t \<Rightarrow> t # compiled_trace d t cs)"

text \<open>The characters the interpreter reads: the URL and its terminator.\<close>

definition url_chars :: "byte list \<Rightarrow> nat list" where
  "url_chars url = map unat url @ [0]"

definition ascii_url :: "byte list \<Rightarrow> bool" where
  "ascii_url url \<longleftrightarrow> (\<forall>b \<in> set url. b \<noteq> 0 \<and> unat b < 128) \<and> length url < 4294967294"

text \<open>No fallback transition leaves a node that is entered by the terminator.\<close>

definition end_safe :: "dfa \<Rightarrow> bool" where
  "end_safe d \<longleftrightarrow> (\<forall>i t. live d i \<longrightarrow> dfa_next d i 0 = Some t \<longrightarrow>
     \<not> canUseFallbackTransition d (nodes d ! t))"

lemma compiled_next_live:
  "wf_dfa d \<Longrightarrow> live d i \<Longrightarrow> compiled_next d i c = Some t \<Longrightarrow> live d t"
  using dfa_next_live by (auto simp: compiled_next_def split: option.splits if_splits)

lemma url_char_ascii:
  assumes "ascii_url url" "k \<le> length url"
  obtains b where "url_char url k = Some b" "unat b < 128" "url_chars url ! k = unat b"
    "b = 0 \<longleftrightarrow> k = length url"
proof (cases "k < length url")
  case True
  then show ?thesis
    using assms that [of "url ! k"] by (auto simp: ascii_url_def url_char_def url_chars_def nth_append)
next
  case False
  then show ?thesis
    using assms that [of 0] by (auto simp: url_char_def url_chars_def nth_append)
qed

lemma run_block_after_end:
  assumes "wf_dfa d" "live d i" "block_at B final d i" "length B < 4294967296"
    and "\<forall>a \<in> used_actions d. wf_action a" "programCounter m = final ! i"
    and "urlIndexIsAfterEndOfString m" "\<not> canUseFallbackTransition d (nodes d ! i)"
  shows "\<exists>m'. run B url flags topActs m = Some (Returned m') \<and>
    actions m' = actions m \<union> collected topActs flags d i"
proof -
  obtain loc where loc: "code_after_entry B final d i loc"
    and entry: "run B url flags topActs m = run B url flags topActs
      (m\<lparr>programCounter := loc, actions := actions m \<union> collected topActs flags d i\<rparr>)"
    using run_entry [OF assms(1-6)] by metis
  show ?thesis
    unfolding entry using loc assms(7,8) by (subst run_after_end [OF assms(1,2)]) auto
qed

lemma run_url:
  assumes wf: "wf_dfa d" and blocks: "\<forall>i. live d i \<longrightarrow> block_at B final d i"
    and len: "length B < 4294967296" and acts: "\<forall>a \<in> used_actions d. wf_action a"
    and url: "ascii_url url" and safe: "end_safe d"
    and "live d i" "programCounter m = final ! i" "urlIndex m \<le> length url"
      "\<not> urlIndexIsAfterEndOfString m"
  shows "\<exists>m'. run B url flags topActs m = Some (Returned m') \<and>
    actions m' = actions m \<union> collected topActs flags d i \<union>
      (\<Union>n \<in> set (compiled_trace d i (drop (urlIndex m) (url_chars url))). collected topActs flags d n)"
  using assms(7-)
proof (induction "length url - urlIndex m" arbitrary: m i rule: less_induct)
  case (less m i)
  let ?k = "urlIndex m" and ?run = "run B url flags topActs"
  obtain loc where loc: "code_after_entry B final d i loc"
    and entry: "?run m = ?run
      (m\<lparr>programCounter := loc, actions := actions m \<union> collected topActs flags d i\<rparr>)"
    using run_entry [OF wf less.prems(1) _ len acts less.prems(2)] blocks less.prems(1) by metis
  define m1 where "m1 = m\<lparr>programCounter := loc, actions := actions m \<union> collected topActs flags d i\<rparr>"
  obtain b where b: "url_char url ?k = Some b" "unat b < 128" "url_chars url ! ?k = unat b"
    "b = 0 \<longleftrightarrow> ?k = length url"
    using url_char_ascii [OF url less.prems(3)] .
  have k: "Suc ?k < 4294967296" using less.prems(3) url by (simp add: ascii_url_def)
  have drop: "drop ?k (url_chars url) = unat b # drop (Suc ?k) (url_chars url)"
    using less.prems(3) b(3) by (subst Cons_nth_drop_Suc [symmetric]) (auto simp: url_chars_def)
  have after: "case compiled_next d i (unat b) of
      Some t \<Rightarrow> ?run m1 = ?run (follow (final ! t) (unat b) m1)
    | None \<Rightarrow> \<exists>m'. ?run m1 = Some (Returned m') \<and> actions m' = actions m1"
    using loc k b less.prems(4) by (intro run_after_entry [OF wf less.prems(1) _ len]) (auto simp: m1_def)
  show ?case
  proof (cases "compiled_next d i (unat b)")
    case None
    then show ?thesis using after entry by (simp add: m1_def drop)
  next
    case (Some t)
    have t: "live d t" using compiled_next_live [OF wf less.prems(1) Some] .
    define m2 where "m2 = follow (final ! t) (unat b) m1"
    have run2: "?run m = ?run m2" using after entry Some by (simp add: m2_def m1_def)
    have m2: "programCounter m2 = final ! t" "urlIndex m2 = Suc ?k"
      "urlIndexIsAfterEndOfString m2 = (b = 0)" "actions m2 = actions m \<union> collected topActs flags d i"
      using less.prems(4) by (simp_all add: m2_def m1_def follow_def unat_eq_0)
    show ?thesis
    proof (cases "b = 0")
      case True
      have "compiled_next d i 0 = Some t" using Some True by simp
      then have "dfa_next d i 0 = Some t" by (auto simp: compiled_next_def split: option.splits if_splits)
      then have no: "\<not> canUseFallbackTransition d (nodes d ! t)"
        using safe less.prems(1) by (auto simp: end_safe_def)
      obtain m' where "?run m2 = Some (Returned m')"
        "actions m' = actions m2 \<union> collected topActs flags d t"
        using run_block_after_end [OF wf t _ len acts m2(1) _ no] blocks t m2(3) True by blast
      moreover have "drop (Suc ?k) (url_chars url) = []"
        using True b(4) by (simp add: url_chars_def)
      ultimately show ?thesis
        using run2 Some m2(4) by (simp add: drop Un_assoc)
    next
      case False
      then have "\<exists>m'. ?run m2 = Some (Returned m') \<and>
        actions m' = actions m2 \<union> collected topActs flags d t \<union>
          (\<Union>n \<in> set (compiled_trace d t (drop (urlIndex m2) (url_chars url))). collected topActs flags d n)"
        using less.prems(3) b(4) m2 t by (intro less.hyps) auto
      then show ?thesis
        using run2 Some m2 by (auto simp: drop Un_assoc)
    qed
  qed
qed

end
