(* ===== verification/Content_Blocker.thy ===== *)
theory Content_Blocker
  imports Bytecode_Runs
begin

text \<open>
  The bytecode file of a content blocker is the concatenation of the code of its automata, each
  compiled on its own.  Jumps are relative, so the code of an automaton can stand anywhere in the
  file; the interpreter visits the automata one after the other and collects their actions.
\<close>

subsection \<open>Relocation\<close>

fun targets_in :: "(nat \<Rightarrow> bool) \<Rightarrow> code \<Rightarrow> bool" where
  "targets_in P (CBranch k js ts) \<longleftrightarrow> (\<forall>t \<in> set ts. P t)"
| "targets_in P _ \<longleftrightarrow> True"

lemma layout_branches_targets:
  assumes "\<forall>(k, ts) \<in> set bs. \<forall>t \<in> set ts. P t" "a \<in> set (layout_branches starts maxs src loc bs)"
  shows "targets_in P a"
  using assms
  by (induction starts maxs src loc bs rule: layout_branches.induct) (auto simp: Let_def)

lemma node_codes_targets:
  assumes "\<forall>(k, ts) \<in> set (node_branches d i). \<forall>t \<in> set ts. P t" "a \<in> set (node_codes d starts maxs i loc)"
  shows "targets_in P a"
proof -
  from assms(2) consider "a \<in> set (entry_actions d i)" | "a \<in> set (node_tail d i)"
    | "a \<in> set (layout_branches starts maxs i (loc + codes_size (entry_actions d i)) (node_branches d i))"
    by (auto simp: node_codes_def)
  then show ?thesis
  proof cases
    case 3
    then show ?thesis using layout_branches_targets [OF assms(1)] by blast
  qed (auto simp: entry_actions_def node_tail_def split: if_splits)
qed

lemma layout_blocks_targets:
  assumes "layout_blocks d maxs starts loc is = (as, final)" "a \<in> set as"
    and "\<forall>i \<in> set is. \<forall>(k, ts) \<in> set (node_branches d i). \<forall>t \<in> set ts. P t"
  shows "targets_in P a"
  using assms
proof (induction "is" arbitrary: starts loc as)
  case (Cons i "is")
  obtain rest where rest: "as = node_codes d (starts[i := loc]) maxs i loc @ rest"
    "layout_blocks d maxs (starts[i := loc])
      (loc + codes_size (node_codes d (starts[i := loc]) maxs i loc)) is = (rest, final)"
    using Cons.prems(1) by (rule layout_blocks_Cons)
  from Cons.prems(2) consider "a \<in> set rest" | "a \<in> set (node_codes d (starts[i := loc]) maxs i loc)"
    by (auto simp: rest(1))
  then show ?case
  proof cases
    case 1
    then show ?thesis using Cons.IH [OF rest(2)] Cons.prems(3) by simp
  next
    case 2
    have "\<forall>(k, ts) \<in> set (node_branches d i). \<forall>t \<in> set ts. P t" using Cons.prems(3) by simp
    from node_codes_targets [OF this 2] show ?thesis .
  qed
qed simp

definition shift :: "nat \<Rightarrow> nat list \<Rightarrow> nat list" where
  "shift s = map ((+) s)"

lemma assemble_shift:
  assumes "\<forall>a \<in> set as. targets_in (\<lambda>t. t < length final) a"
  shows "assemble (shift s final) (s + loc) as = assemble final loc as"
  using assms
proof (induction as arbitrary: loc)
  case (Cons a as)
  have "encode (\<lambda>t. int (shift s final ! t) - int (s + loc)) a = encode (\<lambda>t. int (final ! t) - int loc) a"
    using Cons.prems by (cases a) (auto simp: shift_def intro!: arg_cong [where f = concat] map_cong)
  then show ?case using Cons by (simp add: add.assoc)
qed simp

lemma codes_fit_shift:
  assumes "codes_fit final loc as"
    and "\<forall>a \<in> set as. targets_in (\<lambda>t. t < length final \<and> s + final ! t < 2147483647) a"
  shows "codes_fit (shift s final) (s + loc) as"
  using assms
proof (induction as arbitrary: loc)
  case (Cons a as)
  have "code_fits (shift s final) (s + loc) a"
    using Cons.prems by (cases a) (auto simp: shift_def)
  then show ?case using Cons by (simp add: add.assoc)
qed simp

subsection \<open>An automaton in the file\<close>

definition compiled_at :: "byte list \<Rightarrow> dfa \<Rightarrow> nat \<Rightarrow> nat \<Rightarrow> nat list \<Rightarrow> bool" where
  "compiled_at B d start len final \<longleftrightarrow>
     holds B start (le_bytes 4 (int len)) \<and>
     holds B (start + 4) (blank (root_prologue d)) \<and>
     final ! root d = start + 4 + codes_size (root_prologue d) \<and>
     final ! root d \<le> start + len \<and> start + len \<le> length B \<and>
     (\<forall>i. live d i \<longrightarrow> block_at B final d i)"

lemma holds_within:
  assumes "length xs = start"
  shows "holds (xs @ (us @ vs @ ws) @ ys) (start + length us) vs"
  unfolding holds_def using assms
  by (intro exI [where x = "xs @ us"] exI [where x = "ws @ ys"]) simp

lemma program_root:
  assumes "wf_dfa d" "program d start = (as, final)"
  shows "final ! root d = first_block d start" "length final = length (nodes d)"
proof -
  have "root d < length (nodes d)" using assms(1) by (simp add: wf_dfa_def live_def)
  moreover obtain rest where "layout_blocks d (max_offsets d)
      ((replicate (length (nodes d)) u32_max)[root d := first_block d start])
      (first_block d start + codes_size (node_codes d
        ((replicate (length (nodes d)) u32_max)[root d := first_block d start]) (max_offsets d) (root d)
        (first_block d start))) (tl (block_order d)) = (rest, final)"
    using assms(2) unfolding program_def block_order_def list.sel by (rule layout_blocks_Cons)
  ultimately show "final ! root d = first_block d start"
    using layout_blocks_other by (fastforce simp: block_order_def)
  have "length (snd (layout_blocks d maxs starts loc is)) = length starts" for maxs starts loc "is"
    by (induction d maxs starts loc "is" rule: layout_blocks.induct) (auto simp: Let_def split: prod.splits)
  from this [of "max_offsets d" "replicate (length (nodes d)) u32_max" "first_block d start" "block_order d"]
  show "length final = length (nodes d)"
    using assms(2) by (simp add: program_def)
qed

lemma program_at:
  assumes "wf_dfa d" "program d start = (as, final)" "live d i"
  shows "\<exists>before after starts. as = before @ node_codes d starts (max_offsets d) i (final ! i) @ after \<and>
    first_block d start + codes_size before = final ! i"
  using assms set_block_order [of d] distinct_block_order [of d]
  by (intro layout_blocks_at [of d _ "replicate (length (nodes d)) u32_max" _ "block_order d"])
     (auto simp: program_def wf_dfa_def live_def)

lemma program_targets:
  assumes "wf_dfa d" "program d start = (as, final)" "a \<in> set as"
  shows "targets_in (live d) a"
  using assms node_branches_live [OF assms(1)] set_block_order [of d]
  by (intro layout_blocks_targets [of d _ _ _ "block_order d" as final])
     (auto simp: program_def wf_dfa_def)

lemma block_relocated:
  assumes wf: "wf_dfa d" and prog: "program d 0 = (as, final)" and i: "live d i"
    and fit: "codes_fit final (first_block d 0) as"
    and B: "holds B (s + first_block d 0) (assemble final (first_block d 0) as)"
    and len: "length B < 2147483647"
  shows "block_at B (shift s final) d i"
proof -
  have pos: "s + final ! t \<le> length B" "t < length final" if t: "live d t" for t
  proof -
    obtain before after starts where
      "as = before @ node_codes d starts (max_offsets d) t (final ! t) @ after"
      "first_block d 0 + codes_size before = final ! t"
      using program_at [OF wf prog t] by blast
    then show "s + final ! t \<le> length B" using holds_length [OF B] by simp
    show "t < length final" using t program_root(2) [OF wf prog] by (simp add: live_def)
  qed
  have near: "s + final ! t < 2147483647" if "live d t" for t
    using pos(1) [OF that] len by simp
  obtain before after starts where
    as: "as = before @ node_codes d starts (max_offsets d) i (final ! i) @ after"
    and at: "first_block d 0 + codes_size before = final ! i"
    using program_at [OF wf prog i] by blast
  let ?codes = "node_codes d starts (max_offsets d) i (final ! i)"
  have targets: "targets_in (live d) a" if "a \<in> set ?codes" for a
    using program_targets [OF wf prog, of a] that by (simp add: as)
  have below: "\<forall>a \<in> set ?codes. targets_in (\<lambda>t. t < length final) a"
    and room: "\<forall>a \<in> set ?codes. targets_in (\<lambda>t. t < length final \<and> s + final ! t < 2147483647) a"
    using targets pos(2) near by (auto elim!: targets_in.elims dest!: targets)
  have all: "holds B (s + first_block d 0) (assemble final (first_block d 0) before @
      assemble final (final ! i) ?codes @ assemble final (final ! i + codes_size ?codes) after)"
    using B by (simp add: as assemble_append at)
  have "holds B (s + final ! i) (assemble final (final ! i) ?codes)"
    using holds_append(1) [OF holds_append(2) [OF all]] at by (simp add: add.assoc)
  moreover have "codes_fit final (final ! i) ?codes"
    using fit by (simp add: as codes_fit_append at)
  moreover have "shift s final ! i = s + final ! i"
    using pos(2) [OF i] by (simp add: shift_def)
  ultimately show ?thesis
    unfolding block_at_def Let_def using assemble_shift [OF below] codes_fit_shift [OF _ room] by metis
qed

lemma compile_compiled_at:
  assumes wf: "wf_dfa d" and size: "2 * worst_case_size d < 2147483647"
    and bytes: "compile d [] = Some bytes" and len: "length (xs @ bytes @ ys) < 2147483647"
  shows "\<exists>final. compiled_at (xs @ bytes @ ys) d (length xs) (length bytes) final"
proof -
  let ?B = "xs @ bytes @ ys" and ?s = "length xs"
  obtain as final where prog: "program d 0 = (as, final)" by fastforce
  have "length ([] :: byte list) + 2 * worst_case_size d < 2147483647" using size by simp
  note c = compile_program [OF wf this, simplified, OF prog]
  let ?P = "blank (root_prologue d)" and ?A = "assemble final (first_block d 0) as"
  have eq: "bytes = le_bytes 4 (int (4 + codes_size (root_prologue d) + codes_size as)) @ ?P @ ?A"
    using c(1) bytes by simp
  then have total: "length bytes = 4 + codes_size (root_prologue d) + codes_size as" by simp
  define hdr where hdr: "hdr = le_bytes 4 (int (length bytes))"
  have b: "bytes = hdr @ ?P @ ?A" unfolding hdr total by (rule eq)
  have hdr4: "length hdr = 4" by (simp add: hdr)
  have B: "holds ?B (?s + first_block d 0) ?A"
    using holds_within [of xs ?s "hdr @ ?P" ?A "[]" ys] by (simp add: b hdr4 first_block_def add.assoc)
  have "root d < length final"
    using wf program_root(2) [OF wf prog] by (simp add: wf_dfa_def live_def)
  then have root: "shift ?s final ! root d = ?s + 4 + codes_size (root_prologue d)"
    using program_root(1) [OF wf prog] by (simp add: shift_def first_block_def)
  have "holds ?B ?s (le_bytes 4 (int (length bytes)))"
    unfolding hdr [symmetric] using holds_within [of xs ?s "[]" hdr "?P @ ?A" ys] by (simp add: b)
  moreover have "holds ?B (?s + 4) ?P"
    using holds_within [of xs ?s hdr ?P ?A ys] by (simp add: b hdr4)
  moreover have "4 + codes_size (root_prologue d) \<le> length bytes"
    by (simp add: b hdr4)
  ultimately show ?thesis
    using root block_relocated [OF wf prog _ c(2) B len]
    by (intro exI [of _ "shift ?s final"]) (simp add: compiled_at_def)
qed

subsection \<open>The actions on the root\<close>

definition flagged :: "u64 \<Rightarrow> bool" where
  "flagged a \<longleftrightarrow> a AND ActionFlagMask \<noteq> 0"

definition is_append :: "dfa_instruction \<Rightarrow> bool" where
  "is_append i \<longleftrightarrow> i \<in> {AppendAction, AppendActionWithIfCondition, TestFlagsAndAppendAction,
     TestFlagsAndAppendActionWithIfCondition}"

lemma kind_not_append: "\<not> is_append (kind_instruction k)"
  by (cases k) (auto simp: is_append_def)

lemma code_after_entry_instruction:
  assumes "code_after_entry B final d i loc"
  shows "\<exists>ins. getInstruction B loc = Some ins \<and> \<not> is_append ins \<and> loc < length B"
proof -
  obtain starts maxs pos where
    h: "holds B loc (assemble final loc (layout_branches starts maxs i pos (conditional_branches d i)))"
    and last: "case node_fallback d (nodes d ! i) of
        None \<Rightarrow> holds B (loc + codes_size (layout_branches starts maxs i pos (conditional_branches d i)))
                 [instruction_code Terminate]
      | Some t \<Rightarrow> (\<exists>js. branch_at B final
          (loc + codes_size (layout_branches starts maxs i pos (conditional_branches d i))) KJump js [t])"
    using assms by (auto simp: code_after_entry_def Let_def)
  show ?thesis
  proof (cases "conditional_branches d i")
    case Nil
    show ?thesis
    proof (cases "node_fallback d (nodes d ! i)")
      case None
      then have "holds B loc [instruction_code Terminate]" using last Nil by simp
      from getInstruction_byte [OF this] holds_length [OF this] show ?thesis
        by (simp add: is_append_def)
    next
      case (Some t)
      then obtain js where "branch_at B final loc KJump js [t]" using last Nil by auto
      from branch_at_header(1,4) [OF this] show ?thesis
        by (simp add: is_append_def header_size_def)
    qed
  next
    case (Cons b bs)
    obtain k ts where b: "b = (k, ts)" by fastforce
    have "holds B loc (branch_header k (branch_size starts maxs i pos ts))"
      by (rule holds_append(1) [OF holds_append(1) [OF h [unfolded Cons b layout_branches.simps Let_def
        assemble.simps encode.simps]]])
    from getInstruction_branch [OF this] holds_length [OF this] show ?thesis
      using kind_not_append [of k] by (simp add: header_size_def)
  qed
qed

lemma root_actions_prologue:
  assumes "holds B pc (blank (map CAction acts))" "\<forall>a \<in> set acts. wf_action a"
    and "length B < 4294967296" "pc + codes_size (map CAction acts) \<le> len"
    and "getInstruction B (pc + codes_size (map CAction acts)) = Some ins" "\<not> is_append ins"
    and "pc + codes_size (map CAction acts) < length B"
  shows "root_actions B flags topActs len pc found =
    Some (Returned (pc + codes_size (map CAction acts),
      found \<union> {a \<in> collect topActs flags acts. flagged a}))"
  using assms
proof (induction acts arbitrary: pc found)
  case Nil
  then show ?case
    by (subst root_actions.simps) (cases ins, auto simp: is_append_def collect_def)
next
  case (Cons a acts)
  have h: "holds B pc (action_bytes a)" "holds B (pc + appendActionBytecodeSize a) (blank (map CAction acts))"
    using Cons.prems(1) holds_append [of B pc "action_bytes a"] by (auto simp: blank_def)
  let ?found = "if flagged a \<and> accepted topActs flags a then insert a found else found"
  have size: "pc < len" "pc + appendActionBytecodeSize a < 4294967296"
    using Cons.prems holds_length [OF h(2)] by (auto simp: appendActionBytecodeSize_cases split: if_splits)
  have "root_actions B flags topActs len pc found =
      root_actions B flags topActs len (pc + appendActionBytecodeSize a) ?found"
    using getInstruction_action [OF h(1)] interpretTestFlags_action [OF h(1) _ _ Cons.prems(3)]
      Cons.prems(2) size
    by (subst root_actions.simps)
       (cases "a AND IfConditionFlag = 0"; cases "a AND ActionFlagMask = 0";
        simp add: flagged_def appendActionBytecodeSize_cases width_simps)
  also have "\<dots> = Some (Returned (pc + appendActionBytecodeSize a + codes_size (map CAction acts),
      ?found \<union> {a \<in> collect topActs flags acts. flagged a}))"
    using Cons.prems h(2) by (intro Cons.IH) (auto simp: add.assoc)
  finally show ?case
    by (auto simp: collect_Cons add.assoc)
qed

lemma matching_everything_prologue:
  assumes "holds B pc (blank (map CAction acts))" "\<forall>a \<in> set acts. wf_action a"
    and "length B < 4294967296" "pc + codes_size (map CAction acts) \<le> len"
    and "getInstruction B (pc + codes_size (map CAction acts)) = Some ins" "\<not> is_append ins"
    and "pc + codes_size (map CAction acts) < length B"
  shows "matching_everything B topActs len pc found =
    Some (Returned (found \<union> {a \<in> collect topActs flags acts. \<not> flagged a}))"
  using assms
proof (induction acts arbitrary: pc found)
  case Nil
  then show ?case
    by (subst matching_everything.simps) (cases ins, auto simp: is_append_def collect_def)
next
  case (Cons a acts)
  have h: "holds B pc (action_bytes a)" "holds B (pc + appendActionBytecodeSize a) (blank (map CAction acts))"
    using Cons.prems(1) holds_append [of B pc "action_bytes a"] by (auto simp: blank_def)
  let ?found = "if \<not> flagged a \<and> accepted topActs flags a then insert a found else found"
  have size: "pc < len" "pc + appendActionBytecodeSize a < 4294967296"
    using Cons.prems holds_length [OF h(2)] by (auto simp: appendActionBytecodeSize_cases split: if_splits)
  have "matching_everything B topActs len pc found =
      matching_everything B topActs len (pc + appendActionBytecodeSize a) ?found"
    using getInstruction_action [OF h(1)] interpretAppend_action [OF h(1) _ _ Cons.prems(3), where flags = flags]
      Cons.prems(2) size
    by (subst matching_everything.simps)
       (cases "a AND IfConditionFlag = 0"; cases "a AND ActionFlagMask = 0";
        simp add: flagged_def appendActionBytecodeSize_cases width_simps)
  also have "\<dots> = Some (Returned (?found \<union> {a \<in> collect topActs flags acts. \<not> flagged a}))"
    using Cons.prems h(2) by (intro Cons.IH) (auto simp: add.assoc)
  finally show ?case
    by (auto simp: collect_Cons)
qed

subsection \<open>One automaton of the file\<close>

definition blocker_dfa :: "dfa \<Rightarrow> bool" where
  "blocker_dfa d \<longleftrightarrow> wf_dfa d \<and> (\<forall>a \<in> used_actions d. wf_action a) \<and> end_safe d"

lemma blocker_dfaI: "wf_dfa d \<Longrightarrow> end_safe d \<Longrightarrow> \<forall>a \<in> set (dfa_actions d). wf_action a \<Longrightarrow> blocker_dfa d"
  using used_actions_subset by (auto simp: blocker_dfa_def)

definition root_action_list :: "dfa \<Rightarrow> u64 list" where
  "root_action_list d = node_actions d (nodes d ! root d)"

definition visited :: "u64 set option \<Rightarrow> u16 \<Rightarrow> dfa \<Rightarrow> byte list \<Rightarrow> u64 set" where
  "visited topActs flags d url =
     (\<Union>n \<in> set (compiled_trace d (root d) (url_chars url)). collected topActs flags d n)"

definition dfa_result :: "bool \<Rightarrow> u64 set option \<Rightarrow> u16 \<Rightarrow> dfa \<Rightarrow> byte list \<Rightarrow> u64 set" where
  "dfa_result first topActs flags d url =
     {a \<in> collect topActs flags (root_action_list d). first \<longrightarrow> flagged a} \<union> visited topActs flags d url"

lemma root_actions_wf:
  assumes "blocker_dfa d"
  shows "live d (root d)" "\<forall>a \<in> set (root_action_list d). wf_action a"
    and "root_prologue d = map CAction (root_action_list d)"
proof -
  show live: "live d (root d)" using assms by (simp add: blocker_dfa_def wf_dfa_def)
  show "\<forall>a \<in> set (root_action_list d). wf_action a"
    using assms live by (auto simp: blocker_dfa_def root_action_list_def used_actions_def)
qed (simp add: root_prologue_def root_action_list_def)

lemma compiled_at_entry:
  assumes "blocker_dfa d" "compiled_at B d start len final"
  shows "code_after_entry B final d (root d) (start + 4 + codes_size (root_prologue d))"
    and "getBits 4 B start = Some (int len mod 4294967296)"
    and "holds B (start + 4) (assemble final loc (root_prologue d))"
proof -
  have live: "live d (root d)" "wf_dfa d"
    using assms(1) by (auto simp: blocker_dfa_def wf_dfa_def)
  have "block_at B final d (root d)" and eq: "final ! root d = start + 4 + codes_size (root_prologue d)"
    using assms(2) live by (auto simp: compiled_at_def)
  from block_at_parts(2) [OF live(2,1) this(1)] show
    "code_after_entry B final d (root d) (start + 4 + codes_size (root_prologue d))"
    by (simp add: entry_actions_def eq)
  show "getBits 4 B start = Some (int len mod 4294967296)"
    using assms(2) getBits_field [of B start 4] by (simp add: compiled_at_def)
  have "assemble final loc (map CAction acts) = blank (map CAction acts)" for acts loc
    by (induction acts arbitrary: loc) (auto simp: blank_def)
  then show "holds B (start + 4) (assemble final loc (root_prologue d))"
    using assms(2) by (simp add: compiled_at_def root_prologue_def)
qed

lemma run_from_root:
  assumes d: "blocker_dfa d" and at: "compiled_at B d start len final"
    and B: "length B < 2147483647" and url: "ascii_url url"
    and m: "programCounter m = final ! root d" "urlIndex m = 0" "\<not> urlIndexIsAfterEndOfString m"
  shows "\<exists>m'. run B url flags topActs m = Some (Returned m') \<and>
    actions m' = actions m \<union> visited topActs flags d url"
proof -
  have "\<exists>m'. run B url flags topActs m = Some (Returned m') \<and>
    actions m' = actions m \<union> collected topActs flags d (root d) \<union>
      (\<Union>n \<in> set (compiled_trace d (root d) (drop (urlIndex m) (url_chars url))). collected topActs flags d n)"
    using d at B url m by (intro run_url) (auto simp: blocker_dfa_def compiled_at_def wf_dfa_def)
  then show ?thesis using m(2) by (simp add: visited_def collected_def)
qed

lemma interpret_first_dfa:
  assumes d: "blocker_dfa d" and at: "compiled_at B d 0 len final"
    and B: "length B < 2147483647" and url: "ascii_url url"
  shows "interpret_dfas B url flags topActs 0 found =
    interpret_dfas B url flags topActs len (found \<union> dfa_result True topActs flags d url)"
proof -
  let ?first = "4 + codes_size (root_prologue d)"
  let ?flagged = "{a \<in> collect topActs flags (root_action_list d). flagged a}"
  obtain ins where ins: "getInstruction B ?first = Some ins" "\<not> is_append ins" "?first < length B"
    using code_after_entry_instruction [OF compiled_at_entry(1) [OF d at]] by auto
  have len: "?first \<le> len" "len \<le> length B" and root: "final ! root d = ?first"
    and pro: "holds B 4 (blank (map CAction (root_action_list d)))"
    using at root_actions_wf(3) [OF d] by (auto simp: compiled_at_def)
  have "root_actions B flags topActs len 4 found = Some (Returned (?first, found \<union> ?flagged))"
    using root_actions_prologue [OF pro root_actions_wf(2) [OF d]] ins len B
    by (simp add: root_actions_wf(3) [OF d])
  moreover obtain m' where "run B url flags topActs \<lparr>programCounter = ?first, urlIndex = 0,
      urlIndexIsAfterEndOfString = False, actions = found \<union> ?flagged\<rparr> = Some (Returned m')"
    "actions m' = found \<union> ?flagged \<union> visited topActs flags d url"
    using run_from_root [OF d at B url, of "\<lparr>programCounter = ?first, urlIndex = 0,
      urlIndexIsAfterEndOfString = False, actions = found \<union> ?flagged\<rparr>" flags topActs] root by auto
  moreover have "getBits 4 B 0 = Some (int len)"
    using compiled_at_entry(2) [OF d at] len B by simp
  moreover have "B \<noteq> []" using ins(3) by auto
  ultimately show ?thesis
    using ins(3) len B
    by (subst interpret_dfas.simps) (simp add: dfa_result_def width_simps Un_assoc)
qed

lemma interpret_later_dfa:
  assumes d: "blocker_dfa d" and at: "compiled_at B d start len final" and "start \<noteq> 0"
    and B: "length B < 2147483647" and url: "ascii_url url"
  shows "interpret_dfas B url flags topActs start found =
    interpret_dfas B url flags topActs (start + len) (found \<union> dfa_result False topActs flags d url)"
proof -
  let ?all = "collect topActs flags (root_action_list d)"
  let ?m = "\<lparr>programCounter = start + 4, urlIndex = 0, urlIndexIsAfterEndOfString = False,
    actions = found\<rparr>"
  have len: "4 \<le> len" "start + len \<le> length B"
    and root: "final ! root d = start + 4 + codes_size (map CAction (root_action_list d))"
    using at root_actions_wf(3) [OF d] by (auto simp: compiled_at_def)
  have pro: "holds B (programCounter ?m) (assemble final 0 (map CAction (root_action_list d)))"
    using compiled_at_entry(3) [OF d at, of 0] by (simp add: root_actions_wf(3) [OF d])
  define m1 where "m1 = ?m\<lparr>programCounter := final ! root d, actions := found \<union> ?all\<rparr>"
  have "run B url flags topActs ?m = run B url flags topActs m1"
    using run_actions [OF pro root_actions_wf(2) [OF d]] B by (simp add: m1_def root)
  moreover obtain m' where "run B url flags topActs m1 = Some (Returned m')"
    "actions m' = found \<union> ?all \<union> visited topActs flags d url"
    using run_from_root [OF d at B url, of m1 flags topActs] by (auto simp: m1_def)
  moreover have "getBits 4 B start = Some (int len)"
    using compiled_at_entry(2) [OF d at] len B by simp
  ultimately show ?thesis
    using len B \<open>start \<noteq> 0\<close>
    by (subst interpret_dfas.simps) (simp add: dfa_result_def width_simps Un_assoc)
qed

subsection \<open>The file\<close>

text \<open>\<^verbatim>\<open>lowerDFAToBytecode\<close> compiles every automaton into a vector of its own and hands it to the client, which appends it.\<close>

fun compile_file :: "dfa list \<Rightarrow> byte list option" where
  "compile_file [] = Some []"
| "compile_file (d # ds) =
     Option.bind (compile d []) (\<lambda>bytes. Option.bind (compile_file ds) (\<lambda>rest. Some (bytes @ rest)))"

fun file_result :: "bool \<Rightarrow> u64 set option \<Rightarrow> u16 \<Rightarrow> dfa list \<Rightarrow> byte list \<Rightarrow> u64 set" where
  "file_result first topActs flags [] url = {}"
| "file_result first topActs flags (d # ds) url =
     dfa_result first topActs flags d url \<union> file_result False topActs flags ds url"

lemma compile_succeeds:
  assumes "wf_dfa d" "2 * worst_case_size d < 2147483647"
  obtains bytes where "compile d [] = Some bytes" "length bytes \<le> worst_case_size d" "4 \<le> length bytes"
proof -
  obtain as final where prog: "program d 0 = (as, final)" by fastforce
  have "length ([] :: byte list) + 2 * worst_case_size d < 2147483647" using assms(2) by simp
  note c = compile_program(1) [OF assms(1) this, simplified, OF prog]
  have "codes_size as \<le> sum_list (map (block_max d) (block_order d))"
    using layout_blocks_max [of d _ _ "first_block d 0" "block_order d"] prog
    unfolding program_def by (metis fst_conv)
  then show ?thesis
    by (intro that [OF c]) (simp_all add: worst_case_size_def first_block_def)
qed

lemma compile_file_succeeds:
  assumes "\<forall>d \<in> set ds. wf_dfa d" "2 * sum_list (map worst_case_size ds) < 2147483647"
  obtains B where "compile_file ds = Some B" "length B \<le> sum_list (map worst_case_size ds)"
  using assms
proof (induction ds arbitrary: thesis)
  case (Cons d ds)
  obtain bytes where "compile d [] = Some bytes" "length bytes \<le> worst_case_size d"
    using Cons.prems by (auto intro: compile_succeeds [of d])
  moreover obtain rest where "compile_file ds = Some rest"
    "length rest \<le> sum_list (map worst_case_size ds)"
    using Cons.prems by (auto intro: Cons.IH)
  ultimately show ?case by (intro Cons.prems(1) [of "bytes @ rest"]) auto
qed simp

lemma interpret_file_from:
  assumes "\<forall>d \<in> set ds. blocker_dfa d \<and> 2 * worst_case_size d < 2147483647"
    and "compile_file ds = Some bytes" "length (xs @ bytes) < 2147483647" "ascii_url url"
  shows "interpret_dfas (xs @ bytes) url flags topActs (length xs) found =
    Some (Returned (found \<union> file_result (xs = []) topActs flags ds url))"
  using assms
proof (induction ds arbitrary: xs bytes found)
  case Nil
  then show ?case by (subst interpret_dfas.simps) simp
next
  case (Cons d ds)
  let ?B = "xs @ bytes"
  obtain code rest where code: "compile d [] = Some code" and rest: "compile_file ds = Some rest"
    and bytes: "bytes = code @ rest"
    using Cons.prems(2) by (auto simp: bind_eq_Some_conv)
  have d: "blocker_dfa d" "wf_dfa d" "2 * worst_case_size d < 2147483647"
    using Cons.prems(1) by (auto simp: blocker_dfa_def)
  obtain final where at: "compiled_at ?B d (length xs) (length code) final"
    using compile_compiled_at [OF d(2,3) code, of xs rest] Cons.prems(3) by (auto simp: bytes)
  have "code \<noteq> []" using code by (auto intro: compile_succeeds [OF d(2,3)])
  have "interpret_dfas ?B url flags topActs (length xs) found =
      interpret_dfas ?B url flags topActs (length xs + length code)
        (found \<union> dfa_result (xs = []) topActs flags d url)"
  proof (cases "xs = []")
    case True
    then show ?thesis
      using interpret_first_dfa [OF d(1) _ Cons.prems(3,4)] at by simp
  next
    case False
    then show ?thesis
      using interpret_later_dfa [OF d(1) at _ Cons.prems(3,4)] by simp
  qed
  also have "\<dots> = Some (Returned (found \<union> dfa_result (xs = []) topActs flags d url \<union>
      file_result False topActs flags ds url))"
    using Cons.IH [of rest "xs @ code" "found \<union> dfa_result (xs = []) topActs flags d url"]
      Cons.prems rest \<open>code \<noteq> []\<close> by (simp add: bytes)
  finally show ?case by (simp add: Un_assoc)
qed

subsection \<open>The actions the automata select\<close>

text \<open>The terminator's edge is compiled when it does not lead to the fallback target.\<close>

definition keeps_terminator :: "dfa \<Rightarrow> bool" where
  "keeps_terminator d \<longleftrightarrow> (\<forall>i t. live d i \<longrightarrow> dfa_next d i 0 = Some t \<longrightarrow>
     \<not> (canUseFallbackTransition d (nodes d ! i) \<and> bestFallbackTarget d (nodes d ! i) = Some t))"

definition automaton_actions :: "bool \<Rightarrow> u64 set option \<Rightarrow> u16 \<Rightarrow> dfa \<Rightarrow> byte list \<Rightarrow> u64 set" where
  "automaton_actions first topActs flags d url =
     {a. accepted topActs flags a \<and>
        (a \<in> set (node_actions d (nodes d ! root d)) \<and> (first \<longrightarrow> flagged a) \<or>
         (\<exists>n \<in> set (dfa_trace d (root d) (map uint url @ [0])).
            n \<noteq> root d \<and> a \<in> set (node_actions d (nodes d ! n))))}"

fun automata_actions :: "bool \<Rightarrow> u64 set option \<Rightarrow> u16 \<Rightarrow> dfa list \<Rightarrow> byte list \<Rightarrow> u64 set" where
  "automata_actions first topActs flags [] url = {}"
| "automata_actions first topActs flags (d # ds) url =
     automaton_actions first topActs flags d url \<union> automata_actions False topActs flags ds url"

lemma compiled_trace_automaton:
  assumes "wf_dfa d" "keeps_terminator d" "live d i"
  shows "compiled_trace d i cs = dfa_trace d i (map int cs)"
  using assms(3)
proof (induction cs arbitrary: i)
  case (Cons c cs)
  have "compiled_next d i c = dfa_next d i (int c)"
    using assms(2) Cons.prems
    by (auto simp: compiled_next_def keeps_terminator_def node_fallback_def split: option.splits if_splits)
  then show ?case
    using Cons dfa_next_live [OF assms(1) Cons.prems] by (auto split: option.splits)
qed simp

lemma dfa_result_automaton:
  assumes "wf_dfa d" "keeps_terminator d"
  shows "dfa_result first topActs flags d url = automaton_actions first topActs flags d url"
proof -
  have "live d (root d)" using assms(1) by (simp add: wf_dfa_def)
  from compiled_trace_automaton [OF assms this, of "url_chars url"]
  have "compiled_trace d (root d) (url_chars url) = dfa_trace d (root d) (map uint url @ [0])"
    by (simp add: url_chars_def comp_def)
  then show ?thesis
    by (auto simp: dfa_result_def visited_def collected_def collect_def automaton_actions_def
        root_action_list_def split: if_splits)
qed

lemma file_result_automata:
  assumes "\<forall>d \<in> set ds. wf_dfa d \<and> keeps_terminator d"
  shows "file_result first topActs flags ds url = automata_actions first topActs flags ds url"
  using assms by (induction ds arbitrary: first) (auto simp: dfa_result_automaton)

theorem interpret_compiled_file:
  assumes "\<forall>d \<in> set ds. blocker_dfa d" "2 * sum_list (map worst_case_size ds) < 2147483647" "ascii_url url"
  shows "\<exists>B. compile_file ds = Some B \<and> length B \<le> sum_list (map worst_case_size ds) \<and>
    interpret_url B topActs url flags = Some (Returned (file_result True topActs flags ds url))"
proof -
  have "\<forall>d \<in> set ds. wf_dfa d" using assms(1) by (auto simp: blocker_dfa_def)
  then obtain B where B: "compile_file ds = Some B" "length B \<le> sum_list (map worst_case_size ds)"
    using compile_file_succeeds assms(2) by blast
  have "\<forall>d \<in> set ds. blocker_dfa d \<and> 2 * worst_case_size d < 2147483647"
    using assms(1,2) member_le_sum_list [of _ "map worst_case_size ds"] by fastforce
  from interpret_file_from [OF this B(1), of "[]" url flags topActs "{}"] assms(2,3) B
  show ?thesis by (auto simp: interpret_url_def)
qed

lemma matching_everything_first:
  assumes d: "blocker_dfa d" and at: "compiled_at B d 0 len final" and B: "length B < 2147483647"
  shows "actionsMatchingEverything B topActs =
    Some (Returned {a \<in> collect topActs flags (root_action_list d). \<not> flagged a})"
proof -
  let ?first = "4 + codes_size (root_prologue d)"
  obtain ins where ins: "getInstruction B ?first = Some ins" "\<not> is_append ins" "?first < length B"
    using code_after_entry_instruction [OF compiled_at_entry(1) [OF d at]] by auto
  have len: "?first \<le> len" "len \<le> length B"
    and pro: "holds B 4 (blank (map CAction (root_action_list d)))"
    using at root_actions_wf(3) [OF d] by (auto simp: compiled_at_def)
  have "getBits 4 B 0 = Some (int len)"
    using compiled_at_entry(2) [OF d at] len B by simp
  then show ?thesis
    using matching_everything_prologue [OF pro root_actions_wf(2) [OF d], of len ins topActs "{}" flags]
      ins len B
    by (simp add: actionsMatchingEverything_def root_actions_wf(3) [OF d])
qed

end
