(* ===== verification/Bytecode_Size.thy ===== *)
theory Bytecode_Size
  imports Content_Blocker
begin

text \<open>
  A bound on the size of the code in terms of the automaton alone: a node has at most one range
  per character, and folding single-character ranges into a jump table never costs bytes.
\<close>

subsection \<open>At most one range per character\<close>

definition open_ranges :: "range_state \<Rightarrow> nat" where
  "open_ranges s = length (rsRanges s) + (case rsRangeMin s of None \<Rightarrow> 0 | Some _ \<Rightarrow> 1)"

lemma open_ranges_step: "open_ranges (range_step i s) \<le> Suc (open_ranges s)"
  by (auto simp: open_ranges_def range_step_def close_range_def Let_def split: option.splits)

lemma open_ranges_fold: "open_ranges (fold range_step xs s) \<le> open_ranges s + length xs"
proof (induction xs arbitrary: s)
  case (Cons x xs)
  show ?case using Cons.IH [of "range_step x s"] open_ranges_step [of x s] by simp
qed simp

lemma length_find_ranges: "length (find_ranges ds) \<le> 128"
proof -
  define s where "s = fold range_step [0 ..< 128] \<lparr>rsDestinations = ds, rsRangeMin = None, rsRanges = []\<rparr>"
  have "length (find_ranges ds) = open_ranges s"
    unfolding find_ranges_def s_def [symmetric] Let_def
    by (simp add: open_ranges_def split: option.split)
  also have "\<dots> \<le> open_ranges \<lparr>rsDestinations = ds, rsRangeMin = None, rsRanges = []\<rparr> + length [0 ..< 128::nat]"
    unfolding s_def by (rule open_ranges_fold)
  finally show ?thesis unfolding length_upt by (simp add: open_ranges_def)
qed

subsection \<open>Jump tables do not cost bytes\<close>

definition plan_weight :: "jump_table list \<Rightarrow> range list \<Rightarrow> nat" where
  "plan_weight jts rs =
     sum_list (map checkForJumpTableMaxBytecodeSize jts) + sum_list (map checkForRangeMaxBytecodeSize rs)"

lemma extractJumpTable_weight:
  assumes run: "is_run rs m cs b e" and "b < e" "e < length rs"
    and x: "extractJumpTable rs b e = (jt, rs')"
  shows "plan_weight (tables @ [jt]) rs' \<le> plan_weight tables rs"
proof -
  let ?f = checkForRangeMaxBytecodeSize
  have rs': "rs' = take b rs @ drop (Suc e) rs" and jt: "jt = fst (extractJumpTable rs b e)"
    using x by (auto simp: extractJumpTable_def)
  have singles: "?f (rs ! i) = 6" if "b \<le> i" "i \<le> e" for i
    using run that by (simp add: is_run_def checkForRangeMaxBytecodeSize_def)
  have "take (Suc e - b) (drop b rs) = map ((!) rs) [b ..< Suc e]"
    using assms(2,3) by (intro nth_equalityI) (auto simp del: upt_Suc)
  then have "map ?f (take (Suc e - b) (drop b rs)) = map (\<lambda>_. 6) [b ..< Suc e]"
    using singles by (auto simp: less_Suc_eq_le simp del: upt_Suc)
  then have mid: "sum_list (map ?f (take (Suc e - b) (drop b rs))) = 6 * (Suc e - b)"
    by (simp add: map_replicate_const sum_list_replicate del: upt_Suc)
  have "rs = take b rs @ take (Suc e - b) (drop b rs) @ drop (Suc e) rs"
    using \<open>b < e\<close> by (metis append_take_drop_id drop_drop le_SucI le_add_diff_inverse2 less_imp_le)
  then have "sum_list (map ?f rs) =
      sum_list (map ?f (take b rs)) + 6 * (Suc e - b) + sum_list (map ?f (drop (Suc e) rs))"
    using mid by (metis add.assoc map_append sum_list_append)
  moreover have "rangeMin (rs ! b) = m" "rangeMax (rs ! e) = m + (e - b)"
    using run \<open>b < e\<close> by (auto simp: is_run_def)
  then have "checkForJumpTableMaxBytecodeSize jt = 3 + (e - b + 1) * 4"
    by (simp add: jt checkForJumpTableMaxBytecodeSize_def extractJumpTable_def)
  ultimately show ?thesis using \<open>b < e\<close> by (simp add: plan_weight_def rs')
qed

lemma find_jump_tables_weight:
  assumes "scan_inv rs pos base" 
  shows "plan_weight (fst (find_jump_tables rs pos base tables)) (snd (find_jump_tables rs pos base tables))
    \<le> plan_weight tables rs"
  using assms
proof (induction "length rs - pos" arbitrary: rs pos base tables rule: less_induct)
  case less
  let ?w = "\<lambda>res. plan_weight (fst res) (snd res)"
  note step = find_jump_tables.simps [of rs pos base tables]
  have skip: "?w (find_jump_tables rs (pos + 1) base' tables) \<le> plan_weight tables rs"
    if "pos < length rs" "scan_inv rs (pos + 1) base'" for base'
    using that by (intro less.hyps) auto
  show ?case
  proof (cases base)
    case None
    then show ?thesis
      using skip [of None] skip [of "Some pos"]
      by (subst step, subst step) (auto simp: scan_inv_def dest: is_run_single)
  next
    case (Some b)
    obtain m cs where run: "is_run rs m cs b (pos - 1)" and b: "b < pos" "b \<le> pos - 1" "pos \<le> length rs"
      using less.prems Some by (auto simp: scan_inv_def)
    obtain jt rs' where x: "extractJumpTable rs b (pos - 1) = (jt, rs')" by fastforce
    have cut: "plan_weight (tables @ [jt]) rs' \<le> plan_weight tables rs" if "pos - b > 1"
      using that b by (intro extractJumpTable_weight [OF run _ _ x]) auto
    have rec: "?w (find_jump_tables rs' (b + 1) None (tables @ [jt])) \<le> plan_weight (tables @ [jt]) rs'"
      if "pos < length rs"
      using x b that by (intro less.hyps) (auto simp: scan_inv_def extractJumpTable_def)
    let ?stop = "rangeMin (rs ! pos) \<noteq> rangeMax (rs ! pos) \<or> caseSensitive (rs ! b) \<noteq> caseSensitive (rs ! pos)
      \<or> rangeMax (rs ! (pos - 1)) + 1 \<noteq> rangeMin (rs ! pos)"
    consider "\<not> pos < length rs" | "pos < length rs" "?stop" | "pos < length rs" "\<not> ?stop" by blast
    then show ?thesis
    proof cases
      case 1
      then have "length rs = pos" using b by simp
      then show ?thesis using 1 x cut by (subst step, subst step) (simp add: Some)
    next
      case 2
      then show ?thesis
        using x skip [of None] order_trans [OF rec cut]
        by (subst step, subst step) (simp add: Some scan_inv_def)
    next
      case 3
      then have "is_run rs m cs b pos" using is_run_Suc [OF run b(2)] b(1) by simp
      then have "scan_inv rs (pos + 1) base" using 3 b Some by (auto simp: scan_inv_def)
      from skip [OF 3(1) this] show ?thesis using 3 by (subst step, subst step) (simp add: Some)
    qed
  qed
qed

lemma plan_weight_ranges: "plan_weight [] rs \<le> 7 * length rs"
  by (induction rs) (auto simp: plan_weight_def checkForRangeMaxBytecodeSize_def)

lemma nodeTransitionsMaxBytecodeSize_bound: "nodeTransitionsMaxBytecodeSize d n \<le> 901"
proof -
  let ?rs = "find_ranges (fill_destinations (node_transitions d n) (node_fallback d n))"
  have "plan_weight (jumpTables (node_transition_plan d n)) (ranges (node_transition_plan d n)) \<le> plan_weight [] ?rs"
    using find_jump_tables_weight [of ?rs 0 None "[]"] by (simp add: node_transition_plan_unfold scan_inv_def)
  also have "\<dots> \<le> 7 * length ?rs"
    by (rule plan_weight_ranges)
  also have "\<dots> \<le> 896" using length_find_ranges by simp
  finally show ?thesis
    by (simp add: nodeTransitionsMaxBytecodeSize_def plan_weight_def Let_def)
qed

subsection \<open>The size of the code of an automaton\<close>

definition size_bound :: "dfa \<Rightarrow> nat" where
  "size_bound d = 4 + (\<Sum>i < length (nodes d). 7 * m_actionsLength (nodes d ! i) + 901)"

lemma codes_size_actions_bound: "codes_size (map CAction acts) \<le> 7 * length acts"
  by (induction acts) (auto simp: appendActionBytecodeSize_cases)

lemma length_node_actions [simp]: "length (node_actions d n) = m_actionsLength n"
  by (simp add: node_actions_def)

lemma block_max_bound:
  "block_max d i + (if i = root d then codes_size (root_prologue d) else 0)
     \<le> 7 * m_actionsLength (nodes d ! i) + 901"
  using nodeTransitionsMaxBytecodeSize_bound [of d "nodes d ! i"]
    codes_size_actions_bound [of "node_actions d (nodes d ! i)"]
  by (auto simp: block_max_def entry_actions_def root_prologue_def nodeTransitionsMaxBytecodeSize_eq)

lemma worst_case_size_bound:
  assumes "live d (root d)"
  shows "worst_case_size d \<le> size_bound d"
proof -
  let ?f = "\<lambda>i. 7 * m_actionsLength (nodes d ! i) + 901"
  let ?g = "\<lambda>i. block_max d i + (if i = root d then codes_size (root_prologue d) else 0)"
  let ?I = "set (block_order d)"
  have I: "?I \<subseteq> {..< length (nodes d)}" "root d \<in> ?I" "finite ?I"
    using set_block_order [OF assms] assms by (auto simp: live_def)
  have "worst_case_size d = 4 + codes_size (root_prologue d) + (\<Sum>i \<in> ?I. block_max d i)"
    using distinct_block_order [of d]
    by (simp add: worst_case_size_def first_block_def sum_list_distinct_conv_sum_set)
  also have "\<dots> = 4 + (\<Sum>i \<in> ?I. ?g i)"
    using I by (simp add: sum.distrib sum.delta')
  also have "\<dots> \<le> 4 + (\<Sum>i \<in> ?I. ?f i)"
    by (intro add_left_mono sum_mono block_max_bound)
  also have "\<dots> \<le> size_bound d"
    unfolding size_bound_def using I(1) by (intro add_left_mono sum_mono2) auto
  finally show ?thesis .
qed

end
