(* ===== verification/NFA_Closures.thy ===== *)
theory NFA_Closures
  imports NFA_To_DFA
begin

text \<open>
  The epsilon closures: the depth-first loop terminates and collects exactly the other nodes that
  epsilon transitions reach; with them the closure converter only adds converted targets.
\<close>

subsection \<open>Reachability along epsilon transitions\<close>

definition eps :: "nfa \<Rightarrow> (nat \<times> nat) set" where
  "eps a = {(n, m). m \<in> set (epsilon_targets a n)}"

definition eps_closure :: "nfa \<Rightarrow> nat set \<Rightarrow> nat set" where
  "eps_closure a S = (eps a)\<^sup>* `` S"

lemma closure_add_fold:
  "\<exists>ns. distinct ns \<and> set ns = set ts - cs_closure s \<and>
    fold closure_add ts s = s\<lparr>cs_closure := cs_closure s \<union> set ts,
      cs_unprocessed := cs_unprocessed s @ ns, cs_output := cs_output s @ ns\<rparr>"
proof (induction ts arbitrary: s)
  case (Cons t ts)
  show ?case
  proof (cases "t \<in> cs_closure s")
    case True
    then have "closure_add t s = s" "cs_closure s \<union> set (t # ts) = cs_closure s \<union> set ts"
      "set (t # ts) - cs_closure s = set ts - cs_closure s" by (auto simp: closure_add_def)
    then show ?thesis using Cons.IH [of s] by (simp only: fold_simps o_apply)
  next
    case False
    then have c: "closure_add t s = s\<lparr>cs_closure := insert t (cs_closure s),
        cs_unprocessed := cs_unprocessed s @ [t], cs_output := cs_output s @ [t]\<rparr>"
      by (simp add: closure_add_def)
    obtain ns where "distinct ns" "set ns = set ts - cs_closure (closure_add t s)"
      "fold closure_add ts (closure_add t s) = (closure_add t s)\<lparr>cs_closure := cs_closure (closure_add t s) \<union> set ts,
      cs_unprocessed := cs_unprocessed (closure_add t s) @ ns, cs_output := cs_output (closure_add t s) @ ns\<rparr>"
      using Cons.IH by blast
    moreover have "set (t # ns) = set (t # ts) - cs_closure s"
      using False \<open>set ns = _\<close> by (auto simp: c)
    ultimately show ?thesis using False
      by (intro exI [of _ "t # ns"]) (simp add: c)
  qed
qed simp

definition closure_inv :: "nfa \<Rightarrow> nat \<Rightarrow> closure_state \<Rightarrow> bool" where
  "closure_inv a r s \<longleftrightarrow> r \<in> cs_closure s \<and> cs_closure s \<subseteq> {..<length (nfa_nodes a)} \<and>
     cs_closure s \<subseteq> eps_closure a {r} \<and>
     distinct (cs_unprocessed s) \<and> set (cs_unprocessed s) \<subseteq> cs_closure s \<and>
     distinct (cs_output s) \<and> set (cs_output s) = cs_closure s - {r} \<and>
     (\<forall>n \<in> cs_closure s - set (cs_unprocessed s). set (epsilon_targets a n) \<subseteq> cs_closure s)"

definition closure_measure :: "nfa \<Rightarrow> closure_state \<Rightarrow> nat" where
  "closure_measure a s =
     2 * card ({..<length (nfa_nodes a)} - cs_closure s) + length (cs_unprocessed s)"

lemma closure_step_inv:
  assumes w: "\<forall>i < length (nfa_nodes a). closed_nfa_node a i"
    and i: "closure_inv a r s" and b: "cs_unprocessed s \<noteq> []"
  shows "closure_inv a r (closure_step a s) \<and> closure_measure a (closure_step a s) < closure_measure a s"
proof -
  let ?N = "{..<length (nfa_nodes a)}"
  obtain us u where us: "cs_unprocessed s = us @ [u]" using b by (cases "cs_unprocessed s" rule: rev_cases) auto
  let ?ts = "epsilon_targets a u"
  have u: "u \<in> cs_closure s" "u \<in> ?N" using i us by (auto simp: closure_inv_def)
  then have ts: "set ?ts \<subseteq> ?N" using w by (auto simp: closed_nfa_node_def)
  obtain ns where ns: "distinct ns" "set ns = set ?ts - cs_closure s"
    and st: "closure_step a s = s\<lparr>cs_closure := cs_closure s \<union> set ?ts, cs_unprocessed := us @ ns,
      cs_output := cs_output s @ ns\<rparr>"
    using closure_add_fold [of ?ts "s\<lparr>cs_unprocessed := us\<rparr>"] us by (auto simp: closure_step_def)
  have reach: "set ?ts \<subseteq> eps_closure a {r}"
    using i u(1) by (auto simp: closure_inv_def eps_closure_def eps_def intro: rtrancl_into_rtrancl)
  have inv: "closure_inv a r (closure_step a s)"
    unfolding closure_inv_def st
  proof (simp, intro conjI ballI)
    show "r \<in> cs_closure s \<or> r \<in> set ?ts" "cs_closure s \<subseteq> ?N" "cs_closure s \<subseteq> eps_closure a {r}"
      "set us \<subseteq> cs_closure s \<union> set ?ts" "distinct us" "distinct (cs_output s)"
      using i us by (auto simp: closure_inv_def)
    show "set ns \<subseteq> cs_closure s \<union> set ?ts" "set us \<inter> set ns = {}" "set (cs_output s) \<inter> set ns = {}"
      "set (cs_output s) \<union> set ns = cs_closure s \<union> set ?ts - {r}"
      using i us ns(2) by (auto simp: closure_inv_def)
    fix n assume "n \<in> cs_closure s \<union> set ?ts - (set us \<union> set ns)"
    then have "n \<in> cs_closure s - set us" using ns(2) by blast
    then show "set (epsilon_targets a n) \<subseteq> cs_closure s \<union> set ?ts"
      using i us by (cases "n = u") (auto simp: closure_inv_def)
  qed (use ns ts reach in simp_all)
  have "card (?N - (cs_closure s \<union> set ?ts)) + length ns = card (?N - cs_closure s)"
  proof -
    have "?N - cs_closure s = (?N - (cs_closure s \<union> set ?ts)) \<union> set ns" using ns ts by auto
    moreover have "card ((?N - (cs_closure s \<union> set ?ts)) \<union> set ns) =
        card (?N - (cs_closure s \<union> set ?ts)) + card (set ns)"
      by (rule card_Un_disjoint) (use ns in auto)
    ultimately show ?thesis using ns(1) by (simp add: distinct_card)
  qed
  then have "closure_measure a (closure_step a s) < closure_measure a s"
    by (simp add: closure_measure_def st us)
  with inv show ?thesis by simp
qed

lemma epsilonClosureExcludingSelf_reach:
  assumes w: "\<forall>i < length (nfa_nodes a). closed_nfa_node a i" and r: "r < length (nfa_nodes a)"
  shows "\<exists>ns. epsilonClosureExcludingSelf a r = Some ns \<and> distinct ns \<and> set ns = eps_closure a {r} - {r}"
proof -
  let ?s = "\<lparr>cs_closure = {r}, cs_unprocessed = [r], cs_output = []\<rparr>"
  let ?b = "\<lambda>s. cs_unprocessed s \<noteq> []"
  have i: "closure_inv a r ?s" using r by (auto simp: closure_inv_def eps_closure_def)
  obtain t where t: "while_option ?b (closure_step a) ?s = Some t"
    using measure_while_option_Some [of "closure_inv a r" ?b "closure_step a" "closure_measure a", OF _ i]
      closure_step_inv [OF w] by blast
  have inv: "closure_inv a r t"
    by (rule while_option_rule [where P = "closure_inv a r", OF _ t i]) (use closure_step_inv [OF w] in blast)
  have "\<not> ?b t" by (rule while_option_stop [OF t])
  then have all: "set (epsilon_targets a n) \<subseteq> cs_closure t" if "n \<in> cs_closure t" for n
    using that inv by (auto simp: closure_inv_def)
  have "n \<in> cs_closure t" if "(r, n) \<in> (eps a)\<^sup>*" for n
    using that
  proof (induction rule: rtrancl_induct)
    case base
    show ?case using inv by (simp add: closure_inv_def)
  qed (use all in \<open>auto simp: eps_def\<close>)
  then have "cs_closure t = eps_closure a {r}"
    using inv by (auto simp: closure_inv_def eps_closure_def)
  then show ?thesis using t inv by (auto simp: epsilonClosureExcludingSelf_def closure_inv_def)
qed

lemma collect_options_Some:
  "(\<forall>i < length xs. xs ! i = Some (ys ! i)) \<Longrightarrow> length ys = length xs \<Longrightarrow> collect_options xs = Some ys"
proof (induction xs arbitrary: ys)
  case (Cons x xs)
  obtain y zs where ys: "ys = y # zs" using Cons.prems(2) by (cases ys) auto
  have "x = Some y" using Cons.prems(1) ys by force
  moreover have "collect_options xs = Some zs" using Cons.prems ys by (intro Cons.IH) auto
  ultimately show ?case by (simp add: ys)
qed simp

text \<open>A table of closures that is right for the automaton.\<close>

definition closures_of :: "nfa \<Rightarrow> nat list list \<Rightarrow> bool" where
  "closures_of a cl \<longleftrightarrow> length cl = length (nfa_nodes a) \<and>
     (\<forall>i < length cl. set (cl ! i) = eps_closure a {i} - {i})"

lemma resolveEpsilonClosures_closures:
  assumes "\<forall>i < length (nfa_nodes a). closed_nfa_node a i"
  shows "\<exists>cl. resolveEpsilonClosures a = Some (cl, a\<lparr>epsilonTransitionsTargets := []\<rparr>) \<and> closures_of a cl"
proof -
  let ?n = "length (nfa_nodes a)"
  obtain f where f: "\<And>i. i < ?n \<Longrightarrow> epsilonClosureExcludingSelf a i = Some (f i) \<and> set (f i) = eps_closure a {i} - {i}"
    using epsilonClosureExcludingSelf_reach [OF assms] by metis
  have "collect_options (map (epsilonClosureExcludingSelf a) [0..<?n]) = Some (map f [0..<?n])"
    by (rule collect_options_Some) (simp_all add: f)
  then show ?thesis by (auto simp: resolveEpsilonClosures_def closures_of_def f)
qed

subsection \<open>The closure converter\<close>

definition closures_ok :: "nat list list \<Rightarrow> bool" where
  "closures_ok cl \<longleftrightarrow> (\<forall>n < length cl. set (cl ! n) \<subseteq> {..<length cl} \<and>
     (\<forall>m \<in> set (cl ! n). set (cl ! m) \<subseteq> insert n (set (cl ! n))))"

definition closed_set :: "nat list list \<Rightarrow> nat set \<Rightarrow> bool" where
  "closed_set cl d \<longleftrightarrow> closures_ok cl \<and> d \<subseteq> {..<length cl} \<and> (\<forall>n \<in> d. set (cl ! n) \<subseteq> d)"

definition node_list :: "nat list list \<Rightarrow> nat list \<Rightarrow> bool" where
  "node_list cl ts \<longleftrightarrow> ts \<noteq> [] \<and> set ts \<subseteq> {..<length cl}"

lemma closure_convert_eq: "closure_convert cl ts = (\<Union>n \<in> set ts. insert n (set (cl ! n)))"
proof -
  have "fold (\<lambda>n result. insert n result \<union> set (cl ! n)) ts A = A \<union> (\<Union>n \<in> set ts. insert n (set (cl ! n)))" for A
  proof (induction ts arbitrary: A)
    case (Cons t ts)
    have "insert t A \<union> set (cl ! t) \<union> (\<Union>n \<in> set ts. insert n (set (cl ! n))) =
        A \<union> (\<Union>n \<in> set (t # ts). insert n (set (cl ! n)))" by auto
    then show ?case unfolding fold_simps o_apply Cons.IH by simp
  qed simp
  from this [of "{}"] show ?thesis unfolding closure_convert_def by simp
qed

lemma closed_set_insert:
  assumes "closed_set cl d" "n < length cl"
  shows "closed_set cl (insert n d \<union> set (cl ! n))"
proof -
  have n: "set (cl ! n) \<subseteq> {..<length cl}" "\<And>m. m \<in> set (cl ! n) \<Longrightarrow> set (cl ! m) \<subseteq> insert n (set (cl ! n))"
    using assms by (auto simp: closed_set_def closures_ok_def)
  have d: "closures_ok cl" "d \<subseteq> {..<length cl}" "\<And>m. m \<in> d \<Longrightarrow> set (cl ! m) \<subseteq> d"
    using assms by (auto simp: closed_set_def)
  have "set (cl ! m) \<subseteq> insert n d \<union> set (cl ! n)" if "m \<in> insert n d \<union> set (cl ! n)" for m
    using that n(2) [of m] d(3) [of m] by blast
  then show ?thesis using n(1) d(1,2) assms(2) unfolding closed_set_def by simp
qed

lemma closure_extend_eq:
  assumes "closed_set cl d" "set ts \<subseteq> {..<length cl}"
  shows "closure_extend cl d ts = d \<union> closure_convert cl ts \<and> closed_set cl (d \<union> closure_convert cl ts)"
  using assms
proof (induction ts arbitrary: d)
  case (Cons t ts)
  let ?d = "if t \<in> d then d else insert t d \<union> set (cl ! t)"
  have "t \<in> d \<Longrightarrow> set (cl ! t) \<subseteq> d" using Cons.prems(1) by (simp add: closed_set_def)
  then have d: "?d = d \<union> insert t (set (cl ! t))" by (cases "t \<in> d") auto
  have "closed_set cl ?d"
    using Cons.prems(1) closed_set_insert [OF Cons.prems(1), of t] Cons.prems(2) by (cases "t \<in> d") simp_all
  then have "closure_extend cl ?d ts = ?d \<union> closure_convert cl ts \<and> closed_set cl (?d \<union> closure_convert cl ts)"
    using Cons.prems(2) by (intro Cons.IH) simp_all
  moreover have "closure_extend cl d (t # ts) = closure_extend cl ?d ts" by (simp add: closure_extend_def)
  moreover have "?d \<union> closure_convert cl ts = d \<union> closure_convert cl (t # ts)"
    unfolding d by (simp add: closure_convert_eq Un_assoc)
  ultimately show ?case by metis
qed (simp add: closure_extend_def closure_convert_eq)

interpretation closures: target_converter
  "closure_convert cl" "closure_extend cl" "closed_set cl" "node_list cl" for cl
proof unfold_locales
  fix d e
  show "closed_set cl d \<Longrightarrow> node_list cl e \<Longrightarrow> closure_extend cl d e = d \<union> closure_convert cl e"
    "closed_set cl d \<Longrightarrow> node_list cl e \<Longrightarrow> closed_set cl (d \<union> closure_convert cl e)"
    "closed_set cl {} \<Longrightarrow> node_list cl e \<Longrightarrow> closed_set cl (closure_convert cl e)"
    using closure_extend_eq [of cl d e] closure_extend_eq [of cl "{}" e] by (auto simp: node_list_def)
  show "node_list cl e \<Longrightarrow> closure_convert cl e \<noteq> {}"
    by (cases e) (auto simp: node_list_def closure_convert_eq)
qed

lemma closures_of_ok:
  assumes "closures_of a cl" "\<forall>i < length (nfa_nodes a). closed_nfa_node a i"
  shows "closures_ok cl"
proof -
  have step: "m < length cl" if "(n, m) \<in> (eps a)\<^sup>*" "n < length cl" for n m
    using that assms by (induction rule: rtrancl_induct) (auto simp: eps_def closed_nfa_node_def closures_of_def)
  have c: "set (cl ! n) = eps_closure a {n} - {n}" if "n < length cl" for n
    using that assms(1) by (simp add: closures_of_def)
  show ?thesis
    unfolding closures_ok_def
  proof (intro allI impI conjI ballI)
    fix n assume n: "n < length cl"
    show "set (cl ! n) \<subseteq> {..<length cl}" using step [OF _ n] c [OF n] by (auto simp: eps_closure_def)
    fix m assume "m \<in> set (cl ! n)"
    then have "(n, m) \<in> (eps a)\<^sup>*" "m < length cl" using c [OF n] step [OF _ n] by (auto simp: eps_closure_def)
    then show "set (cl ! m) \<subseteq> insert n (set (cl ! n))"
      using c [OF n] c [of m] by (auto simp: eps_closure_def intro: rtrancl_trans)
  qed
qed

lemma closure_convert_closure:
  assumes "closures_of a cl" "set ts \<subseteq> {..<length cl}"
  shows "closure_convert cl ts = eps_closure a (set ts)"
proof -
  have "insert n (set (cl ! n)) = eps_closure a {n}" if "n \<in> set ts" for n
    using that assms by (auto simp: closures_of_def eps_closure_def)
  then have "closure_convert cl ts = (\<Union>n \<in> set ts. eps_closure a {n})"
    unfolding closure_convert_eq by simp
  then show ?thesis by (auto simp: eps_closure_def)
qed

end
