(* ===== verification/NFA_Conversion.thy ===== *)
theory NFA_Conversion
  imports NFA_Closures
begin

text \<open>
  Correctness of the subset construction: every \<^verbatim>\<open>DFA\<close> node stands for a set of nodes of the
  nondeterministic automaton, its transitions lead to the closed set of targets of that set, and it
  carries their actions.
\<close>

subsection \<open>Runs of the nondeterministic automaton\<close>

definition nfa_step :: "nfa \<Rightarrow> nat set \<Rightarrow> int \<Rightarrow> nat set" where
  "nfa_step a S c = eps_closure a (\<Union>n \<in> S. node_targets a n c)"

fun nfa_run :: "nfa \<Rightarrow> nat set \<Rightarrow> int list \<Rightarrow> nat set" where
  "nfa_run a S [] = S"
| "nfa_run a S (c # cs) = nfa_run a (nfa_step a S c) cs"

definition nfa_start :: "nfa \<Rightarrow> nat set" where
  "nfa_start a = eps_closure a {0}"

definition states_actions :: "nfa \<Rightarrow> nat set \<Rightarrow> u64 set" where
  "states_actions a S = (\<Union>n \<in> S. set (nfa_node_actions a n))"

lemma eps_closure_UN: "eps_closure a (\<Union>n \<in> S. f n) = (\<Union>n \<in> S. eps_closure a (f n))"
  by (auto simp: eps_closure_def)

lemma eps_closure_empty [simp]: "eps_closure a {} = {}"
  by (simp add: eps_closure_def)

definition without_eps :: "nfa \<Rightarrow> nfa" where
  "without_eps a = a\<lparr>epsilonTransitionsTargets := []\<rparr>"

lemma without_eps_simps [simp]:
  "transitionsForNode (without_eps a) n = transitionsForNode a n"
  "nfa_node_actions (without_eps a) n = nfa_node_actions a n"
  "nfa_nodes (without_eps a) = nfa_nodes a"
  by (simp_all add: without_eps_def transitionsForNode_def range_targets_def nfa_node_actions_def Let_def)

subsection \<open>Combined transitions\<close>

lemma wf_transitions:
  assumes "wf_nfa a" "closures_of a cl" "n < length (nfa_nodes a)"
  shows "ordered_from 0 (transitionsForNode a n)" "all_data (node_list cl) (transitionsForNode a n)"
proof -
  have w: "wf_nfa_node a n" "closed_nfa_node a n" "length cl = length (nfa_nodes a)"
    using assms by (auto simp: wf_nfa_def closures_of_def)
  show "ordered_from 0 (transitionsForNode a n)" using w(1) by (simp add: wf_nfa_node_def Let_def)
  have "ts \<noteq> []" if "(f, l, ts) \<in> set (transitionsForNode a n)" for f l ts
    using that w(1) by (auto simp: transitionsForNode_def range_targets_def wf_nfa_node_def wf_range_def
        vec_slice_def Let_def)
  then show "all_data (node_list cl) (transitionsForNode a n)"
    using w(2,3) by (fastforce simp: all_data_def node_list_def closed_nfa_node_def)
qed

lemma converted_targets_closure:
  assumes "closures_of a cl" "all_data (node_list cl) (transitionsForNode a n)"
  shows "converted_targets (closure_convert cl) (transitionsForNode a n) c = eps_closure a (node_targets a n c)"
  using all_data_at [OF assms(2), of c] closure_convert_closure [OF assms(1)]
  by (auto simp: converted_targets_def node_targets_def node_list_def split: option.splits)

lemma closed_nodes: "wf_nfa a \<Longrightarrow> \<forall>i < length (nfa_nodes a). closed_nfa_node a i"
  by (simp add: wf_nfa_def)

lemma closed_set_empty: "closures_of a cl \<Longrightarrow> wf_nfa a \<Longrightarrow> closed_set cl {}"
  using closures_of_ok [OF _ closed_nodes] by (simp add: closed_set_def)

lemma combine_transitions_targets:
  assumes "wf_nfa a" "closures_of a cl" "set ns \<subseteq> {..<length (nfa_nodes a)}"
    "represents v xs" "ordered_from 0 xs" "all_data (closures.good cl) xs"
  shows "\<exists>w ys. combine_transitions (without_eps a) cl ns v = Some w \<and> represents w ys \<and> ordered_from 0 ys \<and>
    all_data (closures.good cl) ys \<and>
    (\<forall>c. char_targets ys c = char_targets xs c \<union> (\<Union>n \<in> set ns. eps_closure a (node_targets a n c)))"
  using assms(3-)
proof (induction ns arbitrary: v xs)
  case (Cons n ns)
  have n: "n < length (nfa_nodes a)" "set ns \<subseteq> {..<length (nfa_nodes a)}" using Cons.prems(1) by auto
  note t = wf_transitions [OF assms(1,2) n(1)]
  obtain w ys where w: "range_list_extend (closure_convert cl) (closure_extend cl) (transitionsForNode a n) v = Some w"
    "represents w ys" "ordered_from 0 ys" "all_data (closures.good cl) ys"
    "\<And>c. char_targets ys c = char_targets xs c \<union> eps_closure a (node_targets a n c)"
    using closures.extend_good [OF Cons.prems(2-4) t closed_set_empty [OF assms(2,1)]]
    unfolding converted_targets_closure [OF assms(2) t(2)] by blast
  obtain w2 ys2 where "combine_transitions (without_eps a) cl ns w = Some w2" "represents w2 ys2" "ordered_from 0 ys2"
    "all_data (closures.good cl) ys2"
    "\<And>c. char_targets ys2 c = char_targets ys c \<union> (\<Union>n \<in> set ns. eps_closure a (node_targets a n c))"
    using Cons.IH [OF n(2) w(2-4)] by blast
  then show ?case using w(1,5) by (intro exI [of _ w2] exI [of _ ys2]) (simp add: Un_assoc)
qed auto

lemma createCombinedTransition_targets:
  assumes "wf_nfa a" "closures_of a cl" "set (us_buffer u) \<subseteq> {..<length (nfa_nodes a)}"
  shows "\<exists>w ys. createCombinedTransition u (without_eps a) cl = Some w \<and> iterate w = Some ys \<and> ordered_from 0 ys \<and>
    all_data (closures.good cl) ys \<and> (\<forall>c. char_targets ys c = nfa_step a (set (us_buffer u)) c)"
proof -
  have e: "represents [] []" "ordered_from 0 []" "all_data (closures.good cl) []"
    by (simp_all add: represents_def chain_def all_data_def)
  obtain w ys where "combine_transitions (without_eps a) cl (us_buffer u) [] = Some w" "represents w ys"
    "ordered_from 0 ys" "all_data (closures.good cl) ys"
    "\<And>c. char_targets ys c = char_targets [] c \<union> (\<Union>n \<in> set (us_buffer u). eps_closure a (node_targets a n c))"
    using combine_transitions_targets [OF assms e] by blast
  then show ?thesis
    by (auto simp: createCombinedTransition_def iterate_represents nfa_step_def eps_closure_UN char_targets_def)
qed

subsection \<open>The table\<close>

lemma fold_hash_sum: "fold (\<lambda>n h. h + of_nat n) xs h = h + (\<Sum>n \<leftarrow> xs. of_nat n :: 32 word)"
  by (induction xs arbitrary: h) (simp_all add: add.assoc)

lemma node_set_hash_sum:
  assumes "enumerates order" "finite S"
  shows "node_set_hash order S = intHash (4207445155 + (\<Sum>n \<in> S. of_nat n))"
  using assms by (simp add: node_set_hash_def fold_hash_sum sum_list_distinct_conv_sum_set)

lemma unique_set_equal_iff:
  assumes "distinct (us_buffer u)" "finite S"
  shows "unique_set_equal u S \<longleftrightarrow> set (us_buffer u) = S"
proof
  assume "unique_set_equal u S"
  then have "set (us_buffer u) \<subseteq> S" "card (set (us_buffer u)) = card S"
    using assms(1) by (auto simp: unique_set_equal_def list_all_iff distinct_card)
  then show "set (us_buffer u) = S" using assms(2) by (simp add: card_subset_eq)
next
  assume "set (us_buffer u) = S"
  then show "unique_set_equal u S"
    using assms(1) by (auto simp: unique_set_equal_def list_all_iff distinct_card)
qed

lemma set_actions_eq:
  assumes "enumerates order" "finite S"
  shows "set_actions order (without_eps a) S = states_actions a S"
proof -
  have "fold (\<lambda>n acts. acts \<union> set (nfa_node_actions a n)) xs A =
      A \<union> (\<Union>n \<in> set xs. set (nfa_node_actions a n))" for xs and A :: "u64 set"
    by (induction xs arbitrary: A) (simp_all add: Un_assoc)
  then show ?thesis using assms by (simp add: set_actions_def states_actions_def)
qed

subsection \<open>Invariant of the worklist\<close>

definition label :: "conv_state \<Rightarrow> nat \<Rightarrow> nat set" where
  "label c i = set (us_buffer (conv_table c ! i))"

definition entry_ok :: "(nat set \<Rightarrow> nat list) \<Rightarrow> nat list list \<Rightarrow> unique_set \<Rightarrow> bool" where
  "entry_ok order cl u \<longleftrightarrow> distinct (us_buffer u) \<and> closures.good cl (set (us_buffer u)) \<and>
     us_hash u = node_set_hash order (set (us_buffer u))"

definition node_acts_ok :: "nfa \<Rightarrow> dfa \<Rightarrow> nat set \<Rightarrow> dfa_node \<Rightarrow> bool" where
  "node_acts_ok a d S n \<longleftrightarrow> m_flags n = 0 \<and>
     m_actionsStart n + m_actionsLength n \<le> length (dfa_actions d) \<and>
     set (node_actions d n) = states_actions a S"

text \<open>The transitions of a finished node follow the steps of its set.\<close>

definition node_done :: "nfa \<Rightarrow> conv_state \<Rightarrow> nat \<Rightarrow> bool" where
  "node_done a c i \<longleftrightarrow>
     (let d = conv_dfa c; n = nodes d ! i; ts = node_transitions d n in
      m_transitionsStart n + m_transitionsLength n \<le> length (transitionRanges d) \<and>
      sorted_transitions ts \<and> (\<forall>(r, t) \<in> set ts. t < length (conv_table c)) \<and>
      (\<forall>ch. case find_target ch ts of
               None \<Rightarrow> nfa_step a (label c i) ch = {}
             | Some j \<Rightarrow> j < length (conv_table c) \<and> nfa_step a (label c i) ch = label c j))"

definition conv_inv ::
  "(nat set \<Rightarrow> nat list) \<Rightarrow> nfa \<Rightarrow> nat list list \<Rightarrow> nat set \<Rightarrow> conv_state \<Rightarrow> bool" where
  "conv_inv order a cl Q c \<longleftrightarrow>
     (let d = conv_dfa c; T = conv_table c in
      length T = length (nodes d) \<and> T \<noteq> [] \<and> root d = 0 \<and> label c 0 = nfa_start a \<and>
      length (transitionRanges d) = length (transitionDestinations d) \<and>
      (\<forall>i < length T. us_dfaNodeId (T ! i) = i \<and> entry_ok order cl (T ! i) \<and>
         node_acts_ok a d (label c i) (nodes d ! i)) \<and>
      inj_on (label c) {..<length T} \<and>
      distinct (conv_unprocessed c) \<and> set (conv_unprocessed c) \<subseteq> set T \<and>
      Q \<subseteq> {..<length T} \<and> Q \<inter> us_dfaNodeId ` set (conv_unprocessed c) = {} \<and>
      (\<forall>i < length T. i \<notin> Q \<longrightarrow> i \<notin> us_dfaNodeId ` set (conv_unprocessed c) \<longrightarrow> node_done a c i))"

text \<open>What adding nodes and transitions leaves alone.\<close>

definition conv_grows :: "conv_state \<Rightarrow> conv_state \<Rightarrow> bool" where
  "conv_grows c c' \<longleftrightarrow>
     (\<exists>T. conv_table c' = conv_table c @ T \<and> conv_unprocessed c' = conv_unprocessed c @ T) \<and>
     (\<exists>N. nodes (conv_dfa c') = nodes (conv_dfa c) @ N) \<and>
     (\<exists>A. dfa_actions (conv_dfa c') = dfa_actions (conv_dfa c) @ A) \<and>
     (\<exists>R. transitionRanges (conv_dfa c') = transitionRanges (conv_dfa c) @ R) \<and>
     (\<exists>D. transitionDestinations (conv_dfa c') = transitionDestinations (conv_dfa c) @ D)"

lemma conv_grows_refl: "conv_grows c c"
  by (simp add: conv_grows_def)

lemma conv_grows_trans: "conv_grows c1 c2 \<Longrightarrow> conv_grows c2 c3 \<Longrightarrow> conv_grows c1 c3"
  unfolding conv_grows_def by (elim conjE exE) simp

lemma label_grows: "conv_grows c c' \<Longrightarrow> i < length (conv_table c) \<Longrightarrow> label c' i = label c i"
  by (auto simp: conv_grows_def label_def nth_append)

lemma node_transitions_append:
  assumes "m_transitionsStart n + m_transitionsLength n \<le> length (transitionRanges d)"
    "length (transitionRanges d) = length (transitionDestinations d)"
    "transitionRanges d' = transitionRanges d @ R" "transitionDestinations d' = transitionDestinations d @ D"
  shows "node_transitions d' n = node_transitions d n"
  using assms by (auto simp: node_transitions_def nth_append)

lemma node_done_grows:
  assumes g: "conv_grows c c'" and i: "i < length (conv_table c)" "length (conv_table c) = length (nodes (conv_dfa c))"
    and d: "node_done a c i"
    and l: "length (transitionRanges (conv_dfa c)) = length (transitionDestinations (conv_dfa c))"
  shows "node_done a c' i"
proof -
  let ?n = "nodes (conv_dfa c) ! i"
  have n: "nodes (conv_dfa c') ! i = ?n" using g i by (auto simp: conv_grows_def nth_append)
  have len: "length (conv_table c) \<le> length (conv_table c')"
    "length (transitionRanges (conv_dfa c)) \<le> length (transitionRanges (conv_dfa c'))"
    using g by (auto simp: conv_grows_def)
  have s: "m_transitionsStart ?n + m_transitionsLength ?n \<le> length (transitionRanges (conv_dfa c))"
    using d by (simp add: node_done_def Let_def)
  have ts: "node_transitions (conv_dfa c') ?n = node_transitions (conv_dfa c) ?n"
    using g unfolding conv_grows_def by (elim conjE exE) (rule node_transitions_append [OF s l])
  have t: "case find_target ch (node_transitions (conv_dfa c) ?n) of
         None \<Rightarrow> nfa_step a (label c i) ch = {}
       | Some j \<Rightarrow> j < length (conv_table c) \<and> nfa_step a (label c i) ch = label c j"
    "\<forall>x \<in> set (node_transitions (conv_dfa c) ?n). snd x < length (conv_table c)"
    "sorted_transitions (node_transitions (conv_dfa c) ?n)" for ch
    using d by (auto simp: node_done_def Let_def)
  have "case find_target ch (node_transitions (conv_dfa c) ?n) of
         None \<Rightarrow> nfa_step a (label c' i) ch = {}
       | Some j \<Rightarrow> j < length (conv_table c') \<and> nfa_step a (label c' i) ch = label c' j" for ch
    using t(1) [of ch] len(1) label_grows [OF g]
    by (cases "find_target ch (node_transitions (conv_dfa c) ?n)") (simp_all add: i(1))
  moreover have "snd x < length (conv_table c')" if "x \<in> set (node_transitions (conv_dfa c) ?n)" for x
    using t(2) that len(1) by (meson order_less_le_trans)
  ultimately show ?thesis
    using s len(2) t(3) by (simp add: node_done_def Let_def n ts case_prod_beta)
qed

lemma node_acts_grows:
  assumes "node_acts_ok a d S n" "dfa_actions d' = dfa_actions d @ A"
  shows "node_acts_ok a d' S n"
proof -
  have "node_actions d' n = node_actions d n"
    using assms by (auto simp: node_acts_ok_def node_actions_def nth_append)
  then show ?thesis using assms by (simp add: node_acts_ok_def)
qed

subsection \<open>Adding a node\<close>

lemma good_finite: "closures.good cl S \<Longrightarrow> finite S"
  by (auto simp: closures.good_def closed_set_def intro: finite_subset)

lemma find_in_table:
  assumes "\<And>i. i < length T \<Longrightarrow> entry_ok order cl (T ! i)" "closures.good cl S"
  shows "find (\<lambda>u. us_hash u = node_set_hash order S \<and> unique_set_equal u S) T =
    find (\<lambda>u. set (us_buffer u) = S) T"
proof (rule find_cong [OF refl])
  fix u assume "u \<in> set T"
  then have "entry_ok order cl u" using assms(1) by (auto simp: in_set_conv_nth)
  then show "(us_hash u = node_set_hash order S \<and> unique_set_equal u S) = (set (us_buffer u) = S)"
    using unique_set_equal_iff [of u S] good_finite [OF assms(2)] by (auto simp: entry_ok_def)
qed

definition few_actions :: "nfa \<Rightarrow> bool" where
  "few_actions a \<longleftrightarrow> length (nfa_actions a) \<le> 65535"

lemma states_actions_subset:
  assumes "wf_nfa a" "S \<subseteq> {..<length (nfa_nodes a)}"
  shows "states_actions a S \<subseteq> set (nfa_actions a)"
proof -
  have "set (nfa_node_actions a n) \<subseteq> set (nfa_actions a)" if "n \<in> S" for n
  proof -
    have "actionEnd (nfa_nodes a ! n) \<le> length (nfa_actions a)"
      using that assms by (auto simp: wf_nfa_def wf_nfa_node_def Let_def)
    then show ?thesis unfolding nfa_node_actions_def Let_def by (rule slice_subset)
  qed
  then show ?thesis by (auto simp: states_actions_def)
qed

lemma states_actions_finite: "finite S \<Longrightarrow> finite (states_actions a S)"
  by (simp add: states_actions_def)

lemma length_action_order:
  assumes "wf_nfa a" "few_actions a" "S \<subseteq> {..<length (nfa_nodes a)}" "enumerates actionOrder"
  shows "length (actionOrder (states_actions a S)) \<le> 65535"
proof -
  have fin: "finite (states_actions a S)"
    using states_actions_subset [OF assms(1,3)] by (rule finite_subset) simp
  have "length (actionOrder (states_actions a S)) = card (states_actions a S)"
    using enumeratesD [OF assms(4) fin] by (metis distinct_card)
  also have "\<dots> \<le> card (set (nfa_actions a))"
    by (rule card_mono) (use states_actions_subset [OF assms(1,3)] in simp_all)
  also have "\<dots> \<le> length (nfa_actions a)" by (rule card_length)
  finally show ?thesis using assms(2) by (simp add: few_actions_def)
qed

lemma translate_new:
  fixes d :: dfa
  assumes "wf_nfa a" "few_actions a" "closures_of a cl" "closures.good cl S"
    "enumerates order" "enumerates actionOrder"
  defines "n \<equiv> \<lparr>m_actionsStart = length (dfa_actions d), m_transitionsStart = 0,
     m_actionsLength = length (actionOrder (states_actions a S)), m_transitionsLength = 0, m_flags = 0\<rparr>"
  defines "d' \<equiv> d\<lparr>dfa_actions := dfa_actions d @ actionOrder (states_actions a S), nodes := nodes d @ [n]\<rparr>"
  shows "translate order actionOrder (without_eps a) S (node_set_hash order S) d =
      Inr (\<lparr>us_hash = node_set_hash order S, us_dfaNodeId = length (nodes d), us_buffer = order S\<rparr>, d')"
    and "node_acts_ok a d' S n"
proof -
  have fin: "finite S" by (rule good_finite [OF assms(4)])
  have sub: "S \<subseteq> {..<length (nfa_nodes a)}"
    using assms(3,4) by (auto simp: closures.good_def closed_set_def closures_of_def)
  note len = length_action_order [OF assms(1,2) sub assms(6)]
  show "translate order actionOrder (without_eps a) S (node_set_hash order S) d =
      Inr (\<lparr>us_hash = node_set_hash order S, us_dfaNodeId = length (nodes d), us_buffer = order S\<rparr>, d')"
    using len by (simp add: translate_def Let_def set_actions_eq [OF assms(5) fin] unique_set_new_def
        setActions_def new_node_def n_def d'_def)
  have "node_actions d' n = actionOrder (states_actions a S)"
    by (rule nth_equalityI) (auto simp: node_actions_def d'_def n_def nth_append)
  then show "node_acts_ok a d' S n"
    using enumeratesD [OF assms(6) states_actions_finite [OF fin, of a]]
    by (simp add: node_acts_ok_def) (simp add: n_def d'_def)
qed

lemma conv_invD:
  assumes "conv_inv order a cl Q c"
  shows "length (conv_table c) = length (nodes (conv_dfa c))" "conv_table c \<noteq> []" "root (conv_dfa c) = 0"
    "label c 0 = nfa_start a"
    "length (transitionRanges (conv_dfa c)) = length (transitionDestinations (conv_dfa c))"
    "\<And>i. i < length (conv_table c) \<Longrightarrow> us_dfaNodeId (conv_table c ! i) = i"
    "\<And>i. i < length (conv_table c) \<Longrightarrow> entry_ok order cl (conv_table c ! i)"
    "\<And>i. i < length (conv_table c) \<Longrightarrow> node_acts_ok a (conv_dfa c) (label c i) (nodes (conv_dfa c) ! i)"
    "inj_on (label c) {..<length (conv_table c)}"
    "distinct (conv_unprocessed c)" "set (conv_unprocessed c) \<subseteq> set (conv_table c)"
    "Q \<subseteq> {..<length (conv_table c)}" "Q \<inter> us_dfaNodeId ` set (conv_unprocessed c) = {}"
    "\<And>i. i < length (conv_table c) \<Longrightarrow> i \<notin> Q \<Longrightarrow> i \<notin> us_dfaNodeId ` set (conv_unprocessed c) \<Longrightarrow> node_done a c i"
  using assms unfolding conv_inv_def Let_def by blast+

lemma conv_invI:
  assumes "length (conv_table c) = length (nodes (conv_dfa c))" "conv_table c \<noteq> []" "root (conv_dfa c) = 0"
    "label c 0 = nfa_start a"
    "length (transitionRanges (conv_dfa c)) = length (transitionDestinations (conv_dfa c))"
    "\<And>i. i < length (conv_table c) \<Longrightarrow> us_dfaNodeId (conv_table c ! i) = i \<and> entry_ok order cl (conv_table c ! i) \<and>
       node_acts_ok a (conv_dfa c) (label c i) (nodes (conv_dfa c) ! i)"
    "inj_on (label c) {..<length (conv_table c)}"
    "distinct (conv_unprocessed c)" "set (conv_unprocessed c) \<subseteq> set (conv_table c)"
    "Q \<subseteq> {..<length (conv_table c)}" "Q \<inter> us_dfaNodeId ` set (conv_unprocessed c) = {}"
    "\<And>i. i < length (conv_table c) \<Longrightarrow> i \<notin> Q \<Longrightarrow> i \<notin> us_dfaNodeId ` set (conv_unprocessed c) \<Longrightarrow> node_done a c i"
  shows "conv_inv order a cl Q c"
  unfolding conv_inv_def Let_def using assms by blast

lemma conv_ids: "conv_inv order a cl Q c \<Longrightarrow> u \<in> set (conv_table c) \<Longrightarrow> us_dfaNodeId u < length (conv_table c)"
  using conv_invD(6) by (fastforce simp: in_set_conv_nth)

lemma conv_inv_new_entry:
  assumes inv: "conv_inv order a cl Q c" and u: "us_dfaNodeId u = length (conv_table c)" "entry_ok order cl u"
    and new: "\<forall>v \<in> set (conv_table c). set (us_buffer v) \<noteq> set (us_buffer u)"
    and d: "nodes d = nodes (conv_dfa c) @ [n]" "dfa_actions d = dfa_actions (conv_dfa c) @ A" "root d = root (conv_dfa c)"
      "transitionRanges d = transitionRanges (conv_dfa c)" "transitionDestinations d = transitionDestinations (conv_dfa c)"
    and n: "node_acts_ok a d (set (us_buffer u)) n"
  defines "c' \<equiv> \<lparr>conv_dfa = d, conv_table = conv_table c @ [u], conv_unprocessed = conv_unprocessed c @ [u]\<rparr>"
  shows "conv_inv order a cl Q c'" "conv_grows c c'" "label c' (length (conv_table c)) = set (us_buffer u)"
proof -
  let ?T = "conv_table c"
  note I = conv_invD [OF inv]
  show g: "conv_grows c c'" using d by (auto simp: conv_grows_def c'_def)
  show l: "label c' (length ?T) = set (us_buffer u)" by (simp add: label_def c'_def)
  have tab: "conv_table c' = ?T @ [u]" "conv_dfa c' = d" "conv_unprocessed c' = conv_unprocessed c @ [u]"
    by (simp_all add: c'_def)
  have lab: "i < length ?T \<Longrightarrow> label c' i = label c i" for i by (rule label_grows [OF g])
  have fresh: "length ?T \<notin> us_dfaNodeId ` set (conv_unprocessed c)" "u \<notin> set ?T"
    using conv_ids [OF inv] I(11) u(1) by force+
  show "conv_inv order a cl Q c'"
  proof (rule conv_invI)
    show "length (conv_table c') = length (nodes (conv_dfa c'))" "conv_table c' \<noteq> []" "root (conv_dfa c') = 0"
      "length (transitionRanges (conv_dfa c')) = length (transitionDestinations (conv_dfa c'))"
      using I d by (simp_all add: tab)
    show "label c' 0 = nfa_start a" using I(2,4) lab [of 0] by simp
    show "us_dfaNodeId (conv_table c' ! i) = i \<and> entry_ok order cl (conv_table c' ! i) \<and>
       node_acts_ok a (conv_dfa c') (label c' i) (nodes (conv_dfa c') ! i)" if "i < length (conv_table c')" for i
    proof (cases "i = length ?T")
      case True
      then show ?thesis using u n l I(1) d(1) by (simp add: tab nth_append)
    next
      case False
      then have i: "i < length ?T" using that by (simp add: tab)
      then show ?thesis using I(6,7) [OF i] node_acts_grows [OF I(8) [OF i] d(2)] lab [OF i] I(1) d(1)
        by (simp add: tab nth_append)
    qed
    have "inj_on (label c') {..<length ?T}" using I(9) lab by (simp add: inj_on_def)
    moreover have "label c' (length ?T) \<noteq> label c' i" if "i < length ?T" for i
      using new [rule_format, OF nth_mem [OF that]] l lab [OF that] by (simp add: label_def)
    ultimately show "inj_on (label c') {..<length (conv_table c')}"
      by (auto simp: tab lessThan_Suc image_iff)
    show "distinct (conv_unprocessed c')" "set (conv_unprocessed c') \<subseteq> set (conv_table c')"
      using I(10,11) fresh by (auto simp: tab)
    show "Q \<subseteq> {..<length (conv_table c')}" "Q \<inter> us_dfaNodeId ` set (conv_unprocessed c') = {}"
      using I(12,13) u(1) by (auto simp: tab)
    show "node_done a c' i" if "i < length (conv_table c')" "i \<notin> Q" "i \<notin> us_dfaNodeId ` set (conv_unprocessed c')" for i
      using that u(1) by (intro node_done_grows [OF g _ I(1) I(14) I(5)]) (auto simp: tab less_Suc_eq)
  qed
qed

lemma getOrCreateDFANode_inv:
  assumes w: "wf_nfa a" "few_actions a" "closures_of a cl" and o: "enumerates order" "enumerates actionOrder"
    and inv: "conv_inv order a cl Q c" and S: "closures.good cl S"
  shows "\<exists>j c'. getOrCreateDFANode order actionOrder (without_eps a) S c = Inr (j, c') \<and>
    conv_inv order a cl Q c' \<and> conv_grows c c' \<and>
    transitionRanges (conv_dfa c') = transitionRanges (conv_dfa c) \<and>
    transitionDestinations (conv_dfa c') = transitionDestinations (conv_dfa c) \<and>
    j < length (conv_table c') \<and> label c' j = S"
proof -
  note I = conv_invD [OF inv]
  note find = find_in_table [OF I(7) S]
  show ?thesis
  proof (cases "find (\<lambda>u. set (us_buffer u) = S) (conv_table c)")
    case (Some u)
    then obtain i where i: "i < length (conv_table c)" "conv_table c ! i = u" "set (us_buffer u) = S"
      by (auto simp: find_Some_iff)
    have "getOrCreateDFANode order actionOrder (without_eps a) S c = Inr (i, c)"
      using I(6) [OF i(1)] i(2) by (simp add: getOrCreateDFANode_def table_add_def find Some)
    moreover have "label c i = S" using i by (simp add: label_def)
    ultimately show ?thesis using inv i(1) by (intro exI [of _ i] exI [of _ c]) (simp add: conv_grows_refl)
  next
    case None
    let ?u = "\<lparr>us_hash = node_set_hash order S, us_dfaNodeId = length (nodes (conv_dfa c)), us_buffer = order S\<rparr>"
    note t = translate_new [OF w S o, of "conv_dfa c"]
    have fin: "finite S" by (rule good_finite [OF S])
    have u: "entry_ok order cl ?u" "set (us_buffer ?u) = S"
      using S o(1) fin by (simp_all add: entry_ok_def)
    have new: "\<forall>v \<in> set (conv_table c). set (us_buffer v) \<noteq> set (us_buffer ?u)"
      using None unfolding u(2) by (simp add: find_None_iff)
    obtain d n where d: "translate order actionOrder (without_eps a) S (node_set_hash order S) (conv_dfa c) = Inr (?u, d)"
      "nodes d = nodes (conv_dfa c) @ [n]" "dfa_actions d = dfa_actions (conv_dfa c) @ actionOrder (states_actions a S)"
      "root d = root (conv_dfa c)" "transitionRanges d = transitionRanges (conv_dfa c)"
      "transitionDestinations d = transitionDestinations (conv_dfa c)" "node_acts_ok a d (set (us_buffer ?u)) n"
      using t unfolding u(2) by simp
    let ?c = "\<lparr>conv_dfa = d, conv_table = conv_table c @ [?u], conv_unprocessed = conv_unprocessed c @ [?u]\<rparr>"
    have "us_dfaNodeId ?u = length (conv_table c)" using I(1) by simp
    note n = conv_inv_new_entry [OF inv this u(1) new d(2-7)]
    have "getOrCreateDFANode order actionOrder (without_eps a) S c = Inr (length (nodes (conv_dfa c)), ?c)"
      by (simp add: getOrCreateDFANode_def table_add_def find None d(1) Let_def)
    then show ?thesis using n I(1) d(5,6) u(2)
      by (intro exI [of _ "length (nodes (conv_dfa c))"] exI [of _ ?c]) simp
  qed
qed

subsection \<open>Adding the transitions of a node\<close>

lemma conv_inv_transition:
  fixes r :: char_range and t :: nat
  assumes inv: "conv_inv order a cl Q c"
  defines "c' \<equiv> c\<lparr>conv_dfa := (conv_dfa c)\<lparr>transitionRanges := transitionRanges (conv_dfa c) @ [r],
    transitionDestinations := transitionDestinations (conv_dfa c) @ [t]\<rparr>\<rparr>"
  shows "conv_inv order a cl Q c'" "conv_grows c c'"
proof -
  note I = conv_invD [OF inv]
  show g: "conv_grows c c'" by (auto simp: conv_grows_def c'_def)
  have s: "conv_table c' = conv_table c" "nodes (conv_dfa c') = nodes (conv_dfa c)" "label c' = label c"
    "conv_unprocessed c' = conv_unprocessed c" "dfa_actions (conv_dfa c') = dfa_actions (conv_dfa c) @ []"
    by (auto simp: c'_def label_def)
  show "conv_inv order a cl Q c'"
  proof (rule conv_invI)
    show "root (conv_dfa c') = 0"
      "length (transitionRanges (conv_dfa c')) = length (transitionDestinations (conv_dfa c'))"
      using I(3,5) by (simp_all add: c'_def)
    show "us_dfaNodeId (conv_table c' ! i) = i \<and> entry_ok order cl (conv_table c' ! i) \<and>
       node_acts_ok a (conv_dfa c') (label c' i) (nodes (conv_dfa c') ! i)" if "i < length (conv_table c')" for i
      using that I(6,7) [of i] node_acts_grows [OF I(8) s(5), of i] unfolding s by blast
    show "node_done a c' i" if "i < length (conv_table c')" "i \<notin> Q" "i \<notin> us_dfaNodeId ` set (conv_unprocessed c')" for i
      using that unfolding s by (intro node_done_grows [OF g _ I(1) I(14) I(5)])
  qed (unfold s, (rule I)+)
qed

lemma add_transitions_inv:
  assumes w: "wf_nfa a" "few_actions a" "closures_of a cl" and o: "enumerates order" "enumerates actionOrder"
    and "conv_inv order a cl Q c" "all_data (closures.good cl) xs"
  shows "\<exists>c' js. add_transitions order actionOrder (without_eps a) xs c = Inr c' \<and>
    conv_inv order a cl Q c' \<and> conv_grows c c' \<and>
    transitionRanges (conv_dfa c') = transitionRanges (conv_dfa c) @ map (\<lambda>(f, l, S). \<lparr>crFirst = f, crLast = l\<rparr>) xs \<and>
    transitionDestinations (conv_dfa c') = transitionDestinations (conv_dfa c) @ js \<and>
    list_all2 (\<lambda>(f, l, S) j. j < length (conv_table c') \<and> label c' j = S) xs js"
  using assms(6,7)
proof (induction xs arbitrary: c)
  case Nil
  then show ?case using conv_grows_refl by simp
next
  case (Cons x xs)
  obtain f l S where x: "x = (f, l, S)" by (cases x)
  have S: "closures.good cl S" and xs: "all_data (closures.good cl) xs"
    using Cons.prems(2) by (auto simp: x all_data_def)
  obtain j c1 where c1: "getOrCreateDFANode order actionOrder (without_eps a) S c = Inr (j, c1)"
    "conv_inv order a cl Q c1" "conv_grows c c1"
    "transitionRanges (conv_dfa c1) = transitionRanges (conv_dfa c)"
    "transitionDestinations (conv_dfa c1) = transitionDestinations (conv_dfa c)"
    "j < length (conv_table c1)" "label c1 j = S"
    using getOrCreateDFANode_inv [OF w o Cons.prems(1) S] by blast
  let ?c2 = "c1\<lparr>conv_dfa := (conv_dfa c1)\<lparr>transitionRanges := transitionRanges (conv_dfa c1) @ [\<lparr>crFirst = f, crLast = l\<rparr>],
    transitionDestinations := transitionDestinations (conv_dfa c1) @ [j]\<rparr>\<rparr>"
  note c2 = conv_inv_transition [OF c1(2), where r = "\<lparr>crFirst = f, crLast = l\<rparr>" and t = j]
  obtain c' js where c': "add_transitions order actionOrder (without_eps a) xs ?c2 = Inr c'"
    "conv_inv order a cl Q c'" "conv_grows ?c2 c'"
    "transitionRanges (conv_dfa c') = transitionRanges (conv_dfa ?c2) @ map (\<lambda>(f, l, S). \<lparr>crFirst = f, crLast = l\<rparr>) xs"
    "transitionDestinations (conv_dfa c') = transitionDestinations (conv_dfa ?c2) @ js"
    "list_all2 (\<lambda>(f, l, S) j. j < length (conv_table c') \<and> label c' j = S) xs js"
    using Cons.IH [OF c2(1) xs] by blast
  have g: "conv_grows c1 c'" by (rule conv_grows_trans [OF c2(2) c'(3)])
  have "length (conv_table c1) \<le> length (conv_table c')" using g by (auto simp: conv_grows_def)
  then have j: "j < length (conv_table c')" "label c' j = S"
    using c1(6,7) label_grows [OF g c1(6)] by simp_all
  have "add_transitions order actionOrder (without_eps a) (x # xs) c = Inr c'"
    using c1(1) c'(1) by (simp add: x Let_def)
  then show ?case using c'(2,4-6) c1(4,5) j conv_grows_trans [OF c1(3) g]
    by (intro exI [of _ c'] exI [of _ "j # js"]) (simp add: x)
qed

lemma zip_transitions_target:
  assumes "list_all2 (\<lambda>(f, l, S) j. P S j) xs js"
  shows "case find_target ch (zip (map (\<lambda>(f, l, S). \<lparr>crFirst = f, crLast = l\<rparr>) xs) js) of
      None \<Rightarrow> range_data xs ch = None | Some j \<Rightarrow> (\<exists>S. range_data xs ch = Some S \<and> P S j)"
  using assms by (induction rule: list_all2_induct) (auto simp: in_range_def split: option.splits)

lemma zip_transitions_sorted:
  "ordered_from lo xs \<Longrightarrow> 0 \<le> lo \<Longrightarrow>
   sorted_transitions (zip (map (\<lambda>(f, l, S). \<lparr>crFirst = f, crLast = l\<rparr>) xs) js)"
proof (induction lo xs arbitrary: js rule: ordered_from.induct)
  case (2 lo f l d xs)
  have "l < f'" if "(f', l', d') \<in> set xs" for f' l' d'
    using 2 ordered_from_member [OF _ that, of "l + 1"] by simp
  with 2 show ?case
    by (cases js) (auto simp: sorted_transitions_Cons sorted_transitions_def [of "[]"] dest!: set_zip_leftD)
qed (simp add: sorted_transitions_def)

lemma node_transitions_slice:
  assumes "transitionRanges d = R @ R'" "transitionDestinations d = D @ D'" "length R = length D" "length R' = length D'"
    "m_transitionsStart n = length R" "m_transitionsLength n = length R'"
  shows "node_transitions d n = zip R' D'"
  by (rule nth_equalityI) (use assms in \<open>auto simp: node_transitions_def nth_append\<close>)

lemma conv_inv_pop:
  assumes inv: "conv_inv order a cl {} c" and u: "conv_unprocessed c = us @ [u]"
  shows "conv_inv order a cl {us_dfaNodeId u} (c\<lparr>conv_unprocessed := us\<rparr>)"
    "conv_table c ! us_dfaNodeId u = u" "us_dfaNodeId u < length (conv_table c)"
proof -
  note I = conv_invD [OF inv]
  have uT: "u \<in> set (conv_table c)" "set us \<subseteq> set (conv_table c)" "u \<notin> set us" "distinct us"
    using I(10,11) u by auto
  have id: "conv_table c ! us_dfaNodeId v = v" if "v \<in> set (conv_table c)" for v
    using that I(6) by (auto simp: in_set_conv_nth)
  show "conv_table c ! us_dfaNodeId u = u" by (rule id [OF uT(1)])
  show lt: "us_dfaNodeId u < length (conv_table c)" by (rule conv_ids [OF inv uT(1)])
  have ne: "us_dfaNodeId u \<notin> us_dfaNodeId ` set us"
  proof
    assume "us_dfaNodeId u \<in> us_dfaNodeId ` set us"
    then obtain v where "v \<in> set us" "us_dfaNodeId u = us_dfaNodeId v" by blast
    then show False using id [of v] id [OF uT(1)] uT(2,3) by (metis subsetD)
  qed
  let ?c = "c\<lparr>conv_unprocessed := us\<rparr>"
  have s: "conv_table ?c = conv_table c" "conv_dfa ?c = conv_dfa c" "label ?c = label c" "conv_unprocessed ?c = us"
    by (auto simp: label_def)
  have nd: "node_done a ?c = node_done a c" by (rule ext) (simp only: node_done_def s)
  show "conv_inv order a cl {us_dfaNodeId u} ?c"
  proof (rule conv_invI)
    show "node_done a ?c i" if "i < length (conv_table ?c)" "i \<notin> {us_dfaNodeId u}" "i \<notin> us_dfaNodeId ` set (conv_unprocessed ?c)" for i
      using that I(14) [of i] u unfolding s nd by auto
    show "us_dfaNodeId (conv_table ?c ! i) = i \<and> entry_ok order cl (conv_table ?c ! i) \<and>
       node_acts_ok a (conv_dfa ?c) (label ?c i) (nodes (conv_dfa ?c) ! i)" if "i < length (conv_table ?c)" for i
      using that I(6-8) [of i] unfolding s by blast
  qed (unfold s, (rule I)+, use uT lt ne in simp_all)
qed

lemma conv_inv_finish:
  assumes inv: "conv_inv order a cl {i} c" and i: "i < length (conv_table c)"
    and n: "m_actionsStart n = m_actionsStart (nodes (conv_dfa c) ! i)"
      "m_actionsLength n = m_actionsLength (nodes (conv_dfa c) ! i)" "m_flags n = m_flags (nodes (conv_dfa c) ! i)"
  defines "c' \<equiv> c\<lparr>conv_dfa := (conv_dfa c)\<lparr>nodes := (nodes (conv_dfa c))[i := n]\<rparr>\<rparr>"
  assumes d: "node_done a c' i"
  shows "conv_inv order a cl {} c'"
proof -
  note I = conv_invD [OF inv]
  have s: "conv_table c' = conv_table c" "label c' = label c" "conv_unprocessed c' = conv_unprocessed c"
    "dfa_actions (conv_dfa c') = dfa_actions (conv_dfa c) @ []" "root (conv_dfa c') = root (conv_dfa c)"
    "transitionRanges (conv_dfa c') = transitionRanges (conv_dfa c)"
    "transitionDestinations (conv_dfa c') = transitionDestinations (conv_dfa c)"
    "length (nodes (conv_dfa c')) = length (nodes (conv_dfa c))"
    by (auto simp: c'_def label_def)
  have nd: "nodes (conv_dfa c') ! j = (if j = i then n else nodes (conv_dfa c) ! j)" if "j < length (conv_table c)" for j
    using that i I(1) by (simp add: c'_def nth_list_update)
  have tr: "node_transitions (conv_dfa c') = node_transitions (conv_dfa c)" by (rule ext) (simp add: node_transitions_def s)
  show ?thesis
  proof (rule conv_invI)
    show "us_dfaNodeId (conv_table c' ! j) = j \<and> entry_ok order cl (conv_table c' ! j) \<and>
       node_acts_ok a (conv_dfa c') (label c' j) (nodes (conv_dfa c') ! j)" if "j < length (conv_table c')" for j
    proof -
      have "node_acts_ok a (conv_dfa c') (label c j) (nodes (conv_dfa c) ! j)"
        using that node_acts_grows [OF I(8) s(4)] by (simp add: s)
      then have "node_acts_ok a (conv_dfa c') (label c j) (nodes (conv_dfa c') ! j)"
        using that n by (cases "j = i") (simp_all add: s nd node_acts_ok_def node_actions_def)
      then show ?thesis using that I(6,7) [of j] by (simp add: s)
    qed
    show "node_done a c' j" if "j < length (conv_table c')" "j \<notin> {}" "j \<notin> us_dfaNodeId ` set (conv_unprocessed c')" for j
    proof (cases "j = i")
      case False
      then have nj: "nodes (conv_dfa c') ! j = nodes (conv_dfa c) ! j" using nd that by (simp add: s)
      have "node_done a c j" using that I(14) [of j] False by (simp add: s)
      then show ?thesis unfolding node_done_def Let_def s tr nj .
    qed (use d in simp)
  qed (unfold s, (rule I)+, simp_all)
qed

subsection \<open>One round and the whole loop\<close>

lemma node_doneI:
  assumes "nodes (conv_dfa c) ! i = n" "node_transitions (conv_dfa c) n = ts" "label c i = S"
    "m_transitionsStart n + m_transitionsLength n \<le> length (transitionRanges (conv_dfa c))" "sorted_transitions ts"
    "\<And>r t. (r, t) \<in> set ts \<Longrightarrow> t < length (conv_table c)"
    "\<And>ch. case find_target ch ts of None \<Rightarrow> nfa_step a S ch = {}
       | Some j \<Rightarrow> j < length (conv_table c) \<and> nfa_step a S ch = label c j"
  shows "node_done a c i"
  unfolding node_done_def Let_def assms(1-3) using assms(4-7) by blast

lemma list_all2_target: "list_all2 (\<lambda>(f, l, S) j. P S j) xs js \<Longrightarrow> j \<in> set js \<Longrightarrow> \<exists>S. P S j"
  by (induction rule: list_all2_induct) auto

lemma convert_step_inv:
  assumes w: "wf_nfa a" "few_actions a" "closures_of a cl" and o: "enumerates order" "enumerates actionOrder"
    and inv: "conv_inv order a cl {} c" and ne: "conv_unprocessed c \<noteq> []"
  shows "\<exists>c' T. convert_step order actionOrder (without_eps a) cl c = Some (Inr c') \<and> conv_inv order a cl {} c' \<and>
    conv_table c' = conv_table c @ T \<and> conv_unprocessed c' = butlast (conv_unprocessed c) @ T"
proof -
  obtain us u where u: "conv_unprocessed c = us @ [u]" using ne by (cases "conv_unprocessed c" rule: rev_cases) auto
  let ?i = "us_dfaNodeId u"
  let ?c = "c\<lparr>conv_unprocessed := us\<rparr>"
  note p = conv_inv_pop [OF inv u]
  have good: "closures.good cl (set (us_buffer u))"
    using conv_invD(7) [OF inv p(3)] p(2) by (simp add: entry_ok_def)
  then have sub: "set (us_buffer u) \<subseteq> {..<length (nfa_nodes a)}"
    using w(3) by (auto simp: closures.good_def closed_set_def closures_of_def)
  obtain v ys where v: "createCombinedTransition u (without_eps a) cl = Some v" "iterate v = Some ys"
    "ordered_from 0 ys" "all_data (closures.good cl) ys"
    "\<And>ch. char_targets ys ch = nfa_step a (set (us_buffer u)) ch"
    using createCombinedTransition_targets [OF w(1,3) sub] by blast
  obtain c1 js where c1: "add_transitions order actionOrder (without_eps a) ys ?c = Inr c1"
    "conv_inv order a cl {?i} c1" "conv_grows ?c c1"
    "transitionRanges (conv_dfa c1) = transitionRanges (conv_dfa ?c) @ map (\<lambda>(f, l, S). \<lparr>crFirst = f, crLast = l\<rparr>) ys"
    "transitionDestinations (conv_dfa c1) = transitionDestinations (conv_dfa ?c) @ js"
    "list_all2 (\<lambda>(f, l, S) j. j < length (conv_table c1) \<and> label c1 j = S) ys js"
    using add_transitions_inv [OF w o p(1) v(4)] by blast
  let ?s = "length (transitionRanges (conv_dfa c))"
  let ?n = "setTransitions ?s (length ys) (nodes (conv_dfa c1) ! ?i)"
  let ?c2 = "c1\<lparr>conv_dfa := (conv_dfa c1)\<lparr>nodes := (nodes (conv_dfa c1))[?i := ?n]\<rparr>\<rparr>"
  have step: "convert_step order actionOrder (without_eps a) cl c = Some (Inr ?c2)"
    using v(1,2) c1(1,4) by (simp add: convert_step_def u Let_def)
  obtain T where T: "conv_table c1 = conv_table c @ T" "conv_unprocessed c1 = us @ T"
    using c1(3) by (auto simp: conv_grows_def)
  then have i: "?i < length (conv_table c1)" and lab: "label c1 ?i = set (us_buffer u)"
    using p(2,3) by (simp_all add: label_def nth_append)
  have len: "length ys \<le> 128" using ordered_from_length [OF v(3)] by simp
  have js: "length js = length ys" using c1(6) by (simp add: list_all2_lengthD)
  let ?ts = "zip (map (\<lambda>(f, l, S). \<lparr>crFirst = f, crLast = l\<rparr>) ys) js"
  have nodes2: "nodes (conv_dfa ?c2) ! ?i = ?n" using i conv_invD(1) [OF c1(2)] by simp
  have ts: "node_transitions (conv_dfa ?c2) ?n = ?ts"
    by (rule node_transitions_slice [of _ "transitionRanges (conv_dfa c)" _ "transitionDestinations (conv_dfa c)"])
      (use c1(4,5) conv_invD(5) [OF inv] js len in \<open>simp_all add: setTransitions_def\<close>)
  have tab2: "conv_table ?c2 = conv_table c1" "label ?c2 = label c1" by (simp, rule ext, simp add: label_def)
  have "node_done a ?c2 ?i"
  proof (rule node_doneI [OF nodes2 ts], unfold tab2)
    show "label c1 ?i = set (us_buffer u)" by (rule lab)
    show "m_transitionsStart ?n + m_transitionsLength ?n \<le> length (transitionRanges (conv_dfa ?c2))"
      using c1(4) len by (simp add: setTransitions_def)
    show "sorted_transitions ?ts" by (rule zip_transitions_sorted [OF v(3)]) simp
    show "t < length (conv_table c1)" if "(r, t) \<in> set ?ts" for r t
      using list_all2_target [OF c1(6) set_zip_rightD [OF that]] by blast
    show "case find_target ch ?ts of None \<Rightarrow> nfa_step a (set (us_buffer u)) ch = {}
       | Some j \<Rightarrow> j < length (conv_table c1) \<and> nfa_step a (set (us_buffer u)) ch = label c1 j" for ch
      using zip_transitions_target [OF c1(6), of ch] unfolding v(5) [symmetric] char_targets_def
      by (cases "find_target ch ?ts") auto
  qed
  then have "conv_inv order a cl {} ?c2"
    by (intro conv_inv_finish [OF c1(2) i]) (simp_all add: setTransitions_def)
  then show ?thesis using step T u by (intro exI [of _ ?c2] exI [of _ T]) simp
qed

lemma conv_table_bound:
  assumes "conv_inv order a cl Q c" "closures_of a cl"
  shows "length (conv_table c) \<le> 2 ^ length (nfa_nodes a)"
proof -
  note I = conv_invD [OF assms(1)]
  have "label c ` {..<length (conv_table c)} \<subseteq> Pow {..<length (nfa_nodes a)}"
    using I(7) assms(2) by (auto simp: label_def entry_ok_def closures.good_def closed_set_def closures_of_def)
  then have "card (label c ` {..<length (conv_table c)}) \<le> card (Pow {..<length (nfa_nodes a)})"
    by (rule card_mono [rotated]) simp
  then show ?thesis by (simp add: card_image [OF I(9)] card_Pow)
qed

lemma convert_loop_inv:
  assumes w: "wf_nfa a" "few_actions a" "closures_of a cl" and o: "enumerates order" "enumerates actionOrder"
    and "conv_inv order a cl {} c" "conv_unprocessed c \<noteq> []"
  shows "\<exists>c'. convert_loop order actionOrder (without_eps a) cl c = Some (Inr c') \<and> conv_inv order a cl {} c' \<and>
    conv_unprocessed c' = []"
  using assms(6,7)
proof (induction "(2 ^ length (nfa_nodes a) - length (conv_table c), length (conv_unprocessed c))"
    arbitrary: c rule: wf_induct_rule [OF wf_lex_prod [OF wf_less wf_less]])
  case 1
  obtain c' T where c': "convert_step order actionOrder (without_eps a) cl c = Some (Inr c')" "conv_inv order a cl {} c'"
    "conv_table c' = conv_table c @ T" "conv_unprocessed c' = butlast (conv_unprocessed c) @ T"
    using convert_step_inv [OF w o "1.prems"] by blast
  show ?case
  proof (cases "conv_unprocessed c' = []")
    case True
    then show ?thesis using c' by (subst convert_loop.simps) simp
  next
    case False
    have "length (conv_table c') \<le> 2 ^ length (nfa_nodes a)" by (rule conv_table_bound [OF c'(2) w(3)])
    moreover have "0 < length (conv_unprocessed c)" using "1.prems"(2) by simp
    ultimately have "\<exists>c''. convert_loop order actionOrder (without_eps a) cl c' = Some (Inr c'') \<and>
        conv_inv order a cl {} c'' \<and> conv_unprocessed c'' = []"
      using c' False by (intro "1.hyps") (cases T; auto)+
    then show ?thesis using c'(1) False by (subst convert_loop.simps) simp
  qed
qed

subsection \<open>The converted automaton\<close>

text \<open>What the conversion establishes, by the sets the nodes stand for.\<close>

definition simulates :: "nfa \<Rightarrow> dfa \<Rightarrow> (nat \<Rightarrow> nat set) \<Rightarrow> bool" where
  "simulates a d lab \<longleftrightarrow>
     root d = 0 \<and> nodes d \<noteq> [] \<and> lab 0 = nfa_start a \<and> inj_on lab {..<length (nodes d)} \<and>
     length (transitionRanges d) = length (transitionDestinations d) \<and>
     (\<forall>i < length (nodes d). lab i \<noteq> {} \<and> lab i \<subseteq> {..<length (nfa_nodes a)} \<and>
        node_acts_ok a d (lab i) (nodes d ! i) \<and>
        m_transitionsStart (nodes d ! i) + m_transitionsLength (nodes d ! i) \<le> length (transitionRanges d) \<and>
        sorted_transitions (node_transitions d (nodes d ! i)) \<and>
        (\<forall>(r, t) \<in> set (node_transitions d (nodes d ! i)). t < length (nodes d)) \<and>
        (\<forall>ch. case dfa_next d i ch of
                None \<Rightarrow> nfa_step a (lab i) ch = {}
              | Some j \<Rightarrow> j < length (nodes d) \<and> nfa_step a (lab i) ch = lab j))"

lemma conv_inv_simulates:
  assumes inv: "conv_inv order a cl {} c" "conv_unprocessed c = []" and cl: "closures_of a cl"
  shows "simulates a (conv_dfa c) (label c)"
proof -
  note I = conv_invD [OF inv(1)]
  have "label c i \<noteq> {} \<and> label c i \<subseteq> {..<length (nfa_nodes a)}" if "i < length (nodes (conv_dfa c))" for i
    using I(7) [of i] that I(1) cl
    by (simp add: label_def entry_ok_def closures.good_def closed_set_def closures_of_def)
  moreover have "node_done a c i" if "i < length (nodes (conv_dfa c))" for i
    using I(14) [of i] that I(1) inv(2) by simp
  moreover have "nodes (conv_dfa c) \<noteq> []" using I(1,2) by auto
  ultimately show ?thesis
    using I(2-5,8,9) unfolding simulates_def node_done_def Let_def dfa_next_def I(1) [symmetric] by blast
qed

lemma conv_inv_initial:
  assumes w: "wf_nfa a" "few_actions a" "closures_of a cl" and o: "enumerates order" "enumerates actionOrder"
  defines "S \<equiv> extendSetWithClosure cl 0 {0}"
  shows "\<exists>u c. table_add order actionOrder (without_eps a) S
      \<lparr>conv_dfa = dfa_new, conv_table = [], conv_unprocessed = []\<rparr> = Inr (u, True, c) \<and>
    conv_inv order a cl {} (c\<lparr>conv_unprocessed := [u]\<rparr>)"
proof -
  have n: "0 < length (nfa_nodes a)" using w(1) by (simp add: wf_nfa_def)
  then have "S = closure_convert cl [0]"
    by (simp add: S_def extendSetWithClosure_def closure_convert_eq)
  moreover have nl: "node_list cl [0]" using n w(3) by (simp add: node_list_def closures_of_def)
  moreover have "closure_convert cl [0] = eps_closure a {0}"
    using closure_convert_closure [OF w(3), of "[0]"] nl by (simp add: node_list_def)
  ultimately have S: "closures.good cl S" "S = nfa_start a"
    using closures.convert_keeps [OF closed_set_empty [OF w(3,1)] nl] closures.convert_nonempty [OF nl]
    by (simp_all add: closures.good_def nfa_start_def)
  let ?u = "\<lparr>us_hash = node_set_hash order S, us_dfaNodeId = 0, us_buffer = order S\<rparr>"
  note t = translate_new [OF w S(1) o, of dfa_new]
  obtain d m where d: "translate order actionOrder (without_eps a) S (node_set_hash order S) dfa_new = Inr (?u, d)"
    "nodes d = [m]" "root d = 0" "transitionRanges d = []" "transitionDestinations d = []" "node_acts_ok a d S m"
    using t by (simp add: dfa_new_def)
  have b: "set (order S) = S" "distinct (order S)" using o(1) good_finite [OF S(1)] by simp_all
  let ?c = "\<lparr>conv_dfa = d, conv_table = [?u], conv_unprocessed = [?u]\<rparr>"
  have "label ?c 0 = S" using b by (simp add: label_def)
  then have "conv_inv order a cl {} ?c"
    by (intro conv_invI) (use d b S in \<open>auto simp: entry_ok_def inj_on_def\<close>)
  then show ?thesis using d(1) by (simp add: table_add_def)
qed

lemma NFAToDFA_convert_simulates:
  assumes w: "wf_nfa a" "few_actions a" and o: "enumerates order" "enumerates actionOrder"
  shows "\<exists>d lab. NFAToDFA_convert order actionOrder a = Some (Inr d) \<and> simulates a d lab"
proof -
  obtain cl where cl: "resolveEpsilonClosures a = Some (cl, without_eps a)" "closures_of a cl"
    using resolveEpsilonClosures_closures [OF closed_nodes [OF w(1)]] by (auto simp: without_eps_def)
  obtain u c where c: "table_add order actionOrder (without_eps a) (extendSetWithClosure cl 0 {0})
      \<lparr>conv_dfa = dfa_new, conv_table = [], conv_unprocessed = []\<rparr> = Inr (u, True, c)"
    "conv_inv order a cl {} (c\<lparr>conv_unprocessed := [u]\<rparr>)"
    using conv_inv_initial [OF w cl(2) o] by blast
  obtain c' where c': "convert_loop order actionOrder (without_eps a) cl (c\<lparr>conv_unprocessed := [u]\<rparr>) = Some (Inr c')"
    "conv_inv order a cl {} c'" "conv_unprocessed c' = []"
    using convert_loop_inv [OF w cl(2) o c(2)] by auto
  have "nfa_root (without_eps a) = Some 0" using w(1) by (simp add: nfa_root_def wf_nfa_def)
  then have "NFAToDFA_convert order actionOrder a = Some (Inr (conv_dfa c'))"
    using cl(1) c(1) c'(1) by (simp add: NFAToDFA_convert_def Let_def)
  then show ?thesis using conv_inv_simulates [OF c'(2,3) cl(2)] by blast
qed

lemma simulates_wf_dfa:
  assumes s: "simulates a d lab" and n: "length (nodes d) \<le> u32_max"
  shows "wf_dfa d"
proof -
  have live: "live d i \<longleftrightarrow> i < length (nodes d)" for i
    using s by (auto simp: live_def simulates_def isKilled_def node_acts_ok_def)
  have "wf_node d (nodes d ! i)" if "i < length (nodes d)" for i
    using s that unfolding simulates_def wf_node_def live node_acts_ok_def by blast
  then show ?thesis using s n by (auto simp: wf_dfa_def live simulates_def in_set_conv_nth)
qed

lemma simulates_next:
  assumes "simulates a d lab" "i < length (nodes d)"
  shows "case dfa_next d i ch of None \<Rightarrow> nfa_step a (lab i) ch = {}
     | Some j \<Rightarrow> j < length (nodes d) \<and> nfa_step a (lab i) ch = lab j \<and> lab j \<noteq> {}"
proof -
  have "case dfa_next d i ch of None \<Rightarrow> nfa_step a (lab i) ch = {}
     | Some j \<Rightarrow> j < length (nodes d) \<and> nfa_step a (lab i) ch = lab j"
    "\<And>j. j < length (nodes d) \<Longrightarrow> lab j \<noteq> {}"
    using assms unfolding simulates_def by blast+
  then show ?thesis by (auto split: option.splits)
qed

lemma nfa_run_empty [simp]: "nfa_run a {} w = {}"
  by (induction w) (simp_all add: nfa_step_def)

lemma simulates_trace:
  assumes s: "simulates a d lab"
  shows "i < length (nodes d) \<Longrightarrow> set (dfa_trace d i w) =
    {j. j < length (nodes d) \<and> (\<exists>k. 1 \<le> k \<and> k \<le> length w \<and> lab j = nfa_run a (lab i) (take k w))}"
proof (induction w arbitrary: i)
  case (Cons ch w)
  have all: "(\<exists>k. 1 \<le> k \<and> k \<le> length (ch # w) \<and> P (nfa_run a S (take k (ch # w)))) \<longleftrightarrow>
      P (nfa_step a S ch) \<or> (\<exists>k. 1 \<le> k \<and> k \<le> length w \<and> P (nfa_run a (nfa_step a S ch) (take k w)))"
    (is "?L \<longleftrightarrow> ?R") for P S
  proof
    assume ?L
    then obtain k where k: "1 \<le> k" "k \<le> length (ch # w)" "P (nfa_run a S (take k (ch # w)))" by blast
    then show ?R by (cases k; cases "k = 1") auto
  next
    assume ?R
    then show ?L
    proof
      assume "P (nfa_step a S ch)"
      then show ?L by (intro exI [of _ 1]) simp
    next
      assume "\<exists>k. 1 \<le> k \<and> k \<le> length w \<and> P (nfa_run a (nfa_step a S ch) (take k w))"
      then obtain k where "k \<le> length w" "P (nfa_run a (nfa_step a S ch) (take k w))" by blast
      then show ?L by (intro exI [of _ "Suc k"]) simp
    qed
  qed
  have ne: "lab j \<noteq> {}" if "j < length (nodes d)" for j using s that by (simp add: simulates_def)
  show ?case
  proof (cases "dfa_next d i ch")
    case None
    then have "nfa_step a (lab i) ch = {}" using simulates_next [OF s Cons.prems, of ch] by simp
    then show ?thesis unfolding all [where P = "\<lambda>S. lab j = S" for j] using None ne by auto
  next
    case (Some j)
    then have j: "j < length (nodes d)" "nfa_step a (lab i) ch = lab j"
      using simulates_next [OF s Cons.prems, of ch] by simp_all
    have inj: "lab k = lab j \<longleftrightarrow> k = j" if "k < length (nodes d)" for k
      using s that j(1) by (auto simp: simulates_def inj_on_def)
    show ?thesis unfolding all [where P = "\<lambda>S. lab j = S" for j]
      using Some Cons.IH [OF j(1)] j inj by auto
  qed
qed simp

end
