(* ===== verification/Content_Pipeline.thy ===== *)
theory Content_Pipeline
  imports Bytecode_Size NFA_Conversion
begin

text \<open>
  The two halves of the content blocker's compiler together: the actions a nondeterministic automaton
  selects for a URL are those its converted automaton selects, and those the bytecode returns.
\<close>

lemma compiled_file_automata:
  assumes "\<forall>d \<in> set ds. blocker_dfa d \<and> keeps_terminator d"
    and "2 * sum_list (map size_bound ds) < 2147483647" "ascii_url url"
  shows "\<exists>B. compile_file ds = Some B \<and>
    interpret_url B topActs url flags = Some (Returned (automata_actions True topActs flags ds url))"
proof -
  have wf: "\<forall>d \<in> set ds. wf_dfa d \<and> keeps_terminator d" and b: "\<forall>d \<in> set ds. blocker_dfa d"
    using assms(1) by (auto simp: blocker_dfa_def)
  then have "sum_list (map worst_case_size ds) \<le> sum_list (map size_bound ds)"
    by (intro sum_list_mono worst_case_size_bound) (auto simp: wf_dfa_def)
  then have "2 * sum_list (map worst_case_size ds) < 2147483647" using assms(2) by linarith
  from interpret_compiled_file [OF b this assms(3), of topActs flags] file_result_automata [OF wf]
  show ?thesis by auto
qed

text \<open>
  The actions of the states reached after each prefix of the URL and its terminator.  For the first
  automaton of a file the start states contribute only actions with flags, because
  \<^verbatim>\<open>actionsMatchingEverything\<close> reports the others.
\<close>

definition nfa_selected :: "bool \<Rightarrow> u64 set option \<Rightarrow> u16 \<Rightarrow> nfa \<Rightarrow> byte list \<Rightarrow> u64 set" where
  "nfa_selected first topActs flags a url =
     {x. accepted topActs flags x \<and>
        (x \<in> states_actions a (nfa_start a) \<and> (first \<longrightarrow> flagged x) \<or>
         (\<exists>k. 1 \<le> k \<and> k \<le> Suc (length url) \<and>
            nfa_run a (nfa_start a) (take k (map uint url @ [0])) \<noteq> nfa_start a \<and>
            x \<in> states_actions a (nfa_run a (nfa_start a) (take k (map uint url @ [0])))))}"

lemma simulates_covers:
  assumes s: "simulates a d lab"
  shows "i < length (nodes d) \<Longrightarrow> k \<le> length w \<Longrightarrow> nfa_run a (lab i) (take k w) \<noteq> {} \<Longrightarrow>
    \<exists>j < length (nodes d). lab j = nfa_run a (lab i) (take k w)"
proof (induction w arbitrary: i k)
  case (Cons ch w)
  show ?case
  proof (cases k)
    case 0
    then show ?thesis using Cons.prems by auto
  next
    case (Suc k')
    have ne: "nfa_step a (lab i) ch \<noteq> {}" using Cons.prems(3) by (auto simp: Suc)
    then obtain j where "dfa_next d i ch = Some j" "j < length (nodes d)" "nfa_step a (lab i) ch = lab j"
      using simulates_next [OF s Cons.prems(1), of ch] by (cases "dfa_next d i ch") auto
    then show ?thesis using Cons.IH [of j k'] Cons.prems(2,3) by (simp add: Suc)
  qed
qed auto

lemma states_actions_empty [simp]: "states_actions a {} = {}"
  by (simp add: states_actions_def)

lemma simulates_automaton_actions:
  assumes s: "simulates a d lab"
  shows "automaton_actions first topActs flags d url = nfa_selected first topActs flags a url"
proof -
  let ?w = "map uint url @ [0]"
  have r: "root d = 0" "0 < length (nodes d)" "lab 0 = nfa_start a" "inj_on lab {..<length (nodes d)}"
    using s by (auto simp: simulates_def)
  have acts: "set (node_actions d (nodes d ! j)) = states_actions a (lab j)" if "j < length (nodes d)" for j
    using s that by (simp add: simulates_def node_acts_ok_def)
  have root: "lab j = nfa_start a \<longleftrightarrow> j = 0" if "j < length (nodes d)" for j
    using r that by (metis inj_onD lessThan_iff)
  have tr: "set (dfa_trace d 0 ?w) =
      {j. j < length (nodes d) \<and> (\<exists>k. 1 \<le> k \<and> k \<le> length ?w \<and> lab j = nfa_run a (nfa_start a) (take k ?w))}"
    using simulates_trace [OF s r(2), of ?w] unfolding r(3) .
  have "(\<exists>n \<in> set (dfa_trace d 0 ?w). n \<noteq> 0 \<and> x \<in> set (node_actions d (nodes d ! n))) \<longleftrightarrow>
      (\<exists>k. 1 \<le> k \<and> k \<le> Suc (length url) \<and> nfa_run a (nfa_start a) (take k ?w) \<noteq> nfa_start a \<and>
         x \<in> states_actions a (nfa_run a (nfa_start a) (take k ?w)))" (is "?L \<longleftrightarrow> ?R") for x
  proof
    assume ?L
    then obtain n k where "n < length (nodes d)" "1 \<le> k" "k \<le> length ?w" "lab n = nfa_run a (nfa_start a) (take k ?w)"
      "n \<noteq> 0" "x \<in> set (node_actions d (nodes d ! n))" unfolding tr by blast
    then show ?R using acts [of n] root [of n] by (intro exI [of _ k]) auto
  next
    assume ?R
    then obtain k where k: "1 \<le> k" "k \<le> length ?w" "nfa_run a (nfa_start a) (take k ?w) \<noteq> nfa_start a"
      "x \<in> states_actions a (nfa_run a (nfa_start a) (take k ?w))" by auto
    then have "nfa_run a (lab 0) (take k ?w) \<noteq> {}" unfolding r(3) by auto
    then obtain j where j: "j < length (nodes d)" "lab j = nfa_run a (nfa_start a) (take k ?w)"
      using simulates_covers [OF s r(2) k(2)] unfolding r(3) by blast
    then have "j \<in> set (dfa_trace d 0 ?w)" unfolding tr using k(1,2) by blast
    moreover have "j \<noteq> 0" using j k(3) root by metis
    moreover have "x \<in> set (node_actions d (nodes d ! j))" using acts [OF j(1)] j(2) k(4) by simp
    ultimately show ?L by blast
  qed
  then show ?thesis unfolding automaton_actions_def nfa_selected_def r(1) acts [OF r(2)] r(3) by simp
qed

lemma simulates_size:
  assumes "simulates a d lab"
  shows "length (nodes d) \<le> 2 ^ length (nfa_nodes a)"
proof -
  have "lab ` {..<length (nodes d)} \<subseteq> Pow {..<length (nfa_nodes a)}"
    using assms unfolding simulates_def by blast
  then have "card (lab ` {..<length (nodes d)}) \<le> card (Pow {..<length (nfa_nodes a)})"
    by (rule card_mono [rotated]) simp
  moreover have "inj_on lab {..<length (nodes d)}" using assms by (simp add: simulates_def)
  ultimately show ?thesis by (simp add: card_image card_Pow)
qed

fun nfas_selected :: "bool \<Rightarrow> u64 set option \<Rightarrow> u16 \<Rightarrow> nfa list \<Rightarrow> byte list \<Rightarrow> u64 set" where
  "nfas_selected first topActs flags [] url = {}"
| "nfas_selected first topActs flags (a # as) url =
     nfa_selected first topActs flags a url \<union> nfas_selected False topActs flags as url"

lemma converted_selected:
  assumes "list_all2 (\<lambda>a d. NFAToDFA_convert order actionOrder a = Some (Inr d)) as ds"
    "\<forall>a \<in> set as. wf_nfa a \<and> few_actions a" "enumerates order" "enumerates actionOrder"
  shows "automata_actions first topActs flags ds url = nfas_selected first topActs flags as url"
  using assms(1,2)
proof (induction arbitrary: first rule: list_all2_induct)
  case (Cons a as d ds)
  obtain d' lab where "NFAToDFA_convert order actionOrder a = Some (Inr d')" "simulates a d' lab"
    using NFAToDFA_convert_simulates [of a order actionOrder] Cons.prems assms(3,4) by auto
  then have "automaton_actions first topActs flags d url = nfa_selected first topActs flags a url"
    using Cons.hyps simulates_automaton_actions by simp
  then show ?case using Cons.IH Cons.prems by simp
qed simp

end
