(* ===== verification/NFA_Sample.thy ===== *)
theory NFA_Sample
  imports Content_Pipeline "HOL-Library.Code_Target_Nat"
begin

text \<open>
  A small nondeterministic automaton and the automaton it is converted to, for the theorems that are
  applied at a concrete input: URLs of lower-case letters whose last letter is an \<open>a\<close> select action 7.
\<close>

definition sample_nfa :: nfa where
  "sample_nfa =
     \<lparr>nfa_nodes =
        [\<lparr>rangesStart = 0, rangesEnd = 2, epsilonTransitionTargetsStart = 0, epsilonTransitionTargetsEnd = 0,
          actionStart = 0, actionEnd = 0\<rparr>,
         \<lparr>rangesStart = 2, rangesEnd = 2, epsilonTransitionTargetsStart = 0, epsilonTransitionTargetsEnd = 1,
          actionStart = 0, actionEnd = 0\<rparr>,
         \<lparr>rangesStart = 2, rangesEnd = 2, epsilonTransitionTargetsStart = 1, epsilonTransitionTargetsEnd = 1,
          actionStart = 0, actionEnd = 1\<rparr>],
      nfa_transitions =
        [\<lparr>targetStart = 0, targetEnd = 2, irFirst = 97, irLast = 97\<rparr>,
         \<lparr>targetStart = 2, targetEnd = 3, irFirst = 98, irLast = 122\<rparr>],
      nfa_targets = [0, 1, 0], epsilonTransitionsTargets = [2], nfa_actions = [7]\<rparr>"

definition sample_converted :: dfa where
  "sample_converted =
     \<lparr>nodes =
        [\<lparr>m_actionsStart = 0, m_transitionsStart = 0, m_actionsLength = 0,
          m_transitionsLength = 2, m_flags = 0\<rparr>,
         \<lparr>m_actionsStart = 0, m_transitionsStart = 2, m_actionsLength = 1,
          m_transitionsLength = 2, m_flags = 0\<rparr>],
      dfa_actions = [7],
      transitionRanges =
        [\<lparr>crFirst = 97, crLast = 97\<rparr>, \<lparr>crFirst = 98, crLast = 122\<rparr>,
         \<lparr>crFirst = 97, crLast = 97\<rparr>, \<lparr>crFirst = 98, crLast = 122\<rparr>],
      transitionDestinations = [1, 0, 1, 0],
      root = 0\<rparr>"

lemma sample_nfa_wf: "wf_nfa sample_nfa"
  by code_simp

lemma sample_nfa_few_actions: "few_actions sample_nfa"
  by code_simp

lemma sample_nfa_convert:
  "NFAToDFA_convert sorted_list_of_set sorted_list_of_set sample_nfa = Some (Inr sample_converted)"
  by code_simp

lemma sample_converted_blocker: "blocker_dfa sample_converted" "keeps_terminator sample_converted"
proof -
  obtain lab where s: "simulates sample_nfa sample_converted lab"
    using NFAToDFA_convert_simulates [OF sample_nfa_wf sample_nfa_few_actions, of sorted_list_of_set sorted_list_of_set]
    by (auto simp: sample_nfa_convert)
  have len: "length (nodes sample_converted) = 2" by (simp add: sample_converted_def)
  have none: "dfa_next sample_converted i 0 = None" if "i < 2" for i
  proof -
    have "i = 0 \<or> i = 1" using that by linarith
    then show ?thesis
      by (elim disjE) (simp_all add: dfa_next_def node_transitions_def sample_converted_def in_range_def
          numeral_2_eq_2)
  qed
  have "wf_dfa sample_converted" by (rule simulates_wf_dfa [OF s]) (simp add: len u32_max_def)
  moreover have "end_safe sample_converted" using none by (auto simp: end_safe_def live_def len)
  moreover have "wf_action 7" by (simp add: wf_action_def)
  ultimately show "blocker_dfa sample_converted"
    by (intro blocker_dfaI) (simp_all add: sample_converted_def)
  show "keeps_terminator sample_converted" using none by (auto simp: keeps_terminator_def live_def len)
qed

lemma sample_converted_size: "2 * size_bound sample_converted < 2147483647"
  by (simp add: size_bound_def sample_converted_def numeral_2_eq_2)

end
