(* ===== verification/Partition_Refinement.thy ===== *)
theory Partition_Refinement
  imports DFA_Minimizer
begin

text \<open>
  The partition as a data structure: what a valid partition is, which sets and marks it stands for,
  and that marking, splitting and refining are total on valid partitions and do what their names say.
\<close>

subsection \<open>Reading and writing\<close>

lemma vec_read_Some [simp]: "i < length xs \<Longrightarrow> vec_read xs i = Some (xs ! i)"
  by (simp add: vec_read_def)

lemma vec_write_Some [simp]: "i < length xs \<Longrightarrow> vec_write xs i v = Some (xs[i := v])"
  by (simp add: vec_write_def)

lemma fold_option_append: "fold_option f (xs @ ys) s = Option.bind (fold_option f xs s) (fold_option f ys)"
proof (induction xs arbitrary: s)
  case (Cons x xs)
  then show ?case by (cases "f x s") simp_all
qed simp

subsection \<open>Valid partitions\<close>

abbreviation elementAt :: "Partition \<Rightarrow> nat \<Rightarrow> nat" where
  "elementAt p k \<equiv> m_partitionedElements p ! k"

abbreviation positionOf :: "Partition \<Rightarrow> nat \<Rightarrow> nat" where
  "positionOf p e \<equiv> m_elementPosition p ! e"

abbreviation setOf :: "Partition \<Rightarrow> nat \<Rightarrow> nat" where
  "setOf p e \<equiv> m_elementToSetMap p ! e"

abbreviation descriptor :: "Partition \<Rightarrow> nat \<Rightarrow> set_descriptor" where
  "descriptor p s \<equiv> m_sets p ! s"

definition valid_partition :: "nat \<Rightarrow> Partition \<Rightarrow> bool" where
  "valid_partition n p \<longleftrightarrow>
     length (m_partitionedElements p) = n \<and> length (m_elementPosition p) = n \<and> length (m_elementToSetMap p) = n \<and>
     (\<forall>e<n. positionOf p e < n \<and> elementAt p (positionOf p e) = e) \<and>
     (\<forall>k<n. elementAt p k < n \<and> positionOf p (elementAt p k) = k) \<and>
     (\<forall>e<n. setOf p e < length (m_sets p)) \<and>
     (\<forall>s<length (m_sets p). 0 < sdSize (descriptor p s) \<and> sdMarkedCount (descriptor p s) \<le> sdSize (descriptor p s) \<and>
        sdEnd (descriptor p s) \<le> n) \<and>
     (\<forall>e<n. \<forall>s<length (m_sets p).
        setOf p e = s \<longleftrightarrow> sdStart (descriptor p s) \<le> positionOf p e \<and> positionOf p e < sdEnd (descriptor p s))"

definition is_marked :: "Partition \<Rightarrow> nat \<Rightarrow> bool" where
  "is_marked p e \<longleftrightarrow> positionOf p e < indexAfterMarkedElements (descriptor p (setOf p e))"

text \<open>The sets that still have marks, as the vector of marked sets lists them.\<close>

definition marks_listed :: "Partition \<Rightarrow> nat list \<Rightarrow> bool" where
  "marks_listed p todo \<longleftrightarrow>
     distinct todo \<and> set todo = {s. s < length (m_sets p) \<and> 0 < sdMarkedCount (descriptor p s)}"

lemma valid_partitionD:
  assumes "valid_partition n p"
  shows "length (m_partitionedElements p) = n" "length (m_elementPosition p) = n" "length (m_elementToSetMap p) = n"
    "\<And>e. e < n \<Longrightarrow> positionOf p e < n" "\<And>e. e < n \<Longrightarrow> elementAt p (positionOf p e) = e"
    "\<And>k. k < n \<Longrightarrow> elementAt p k < n" "\<And>k. k < n \<Longrightarrow> positionOf p (elementAt p k) = k"
    "\<And>e. e < n \<Longrightarrow> setOf p e < length (m_sets p)"
    "\<And>s. s < length (m_sets p) \<Longrightarrow> 0 < sdSize (descriptor p s)"
    "\<And>s. s < length (m_sets p) \<Longrightarrow> sdMarkedCount (descriptor p s) \<le> sdSize (descriptor p s)"
    "\<And>s. s < length (m_sets p) \<Longrightarrow> sdEnd (descriptor p s) \<le> n"
    "\<And>e s. e < n \<Longrightarrow> s < length (m_sets p) \<Longrightarrow>
       setOf p e = s \<longleftrightarrow> sdStart (descriptor p s) \<le> positionOf p e \<and> positionOf p e < sdEnd (descriptor p s)"
  using assms unfolding valid_partition_def by blast+

lemma valid_partitionI:
  assumes "length (m_partitionedElements p) = n" "length (m_elementPosition p) = n" "length (m_elementToSetMap p) = n"
    "\<And>e. e < n \<Longrightarrow> positionOf p e < n \<and> elementAt p (positionOf p e) = e"
    "\<And>k. k < n \<Longrightarrow> elementAt p k < n \<and> positionOf p (elementAt p k) = k"
    "\<And>e. e < n \<Longrightarrow> setOf p e < length (m_sets p)"
    "\<And>s. s < length (m_sets p) \<Longrightarrow> 0 < sdSize (descriptor p s) \<and> sdMarkedCount (descriptor p s) \<le> sdSize (descriptor p s) \<and>
       sdEnd (descriptor p s) \<le> n"
    "\<And>e s. e < n \<Longrightarrow> s < length (m_sets p) \<Longrightarrow>
       setOf p e = s \<longleftrightarrow> sdStart (descriptor p s) \<le> positionOf p e \<and> positionOf p e < sdEnd (descriptor p s)"
  shows "valid_partition n p"
  using assms unfolding valid_partition_def by blast

lemma position_in_set:
  assumes "valid_partition n p" "e < n"
  shows "sdStart (descriptor p (setOf p e)) \<le> positionOf p e" "positionOf p e < sdEnd (descriptor p (setOf p e))"
  using valid_partitionD(8,12) [OF assms(1)] assms(2) by blast+

lemma element_in_set:
  assumes "valid_partition n p" "s < length (m_sets p)" "sdStart (descriptor p s) \<le> k" "k < sdEnd (descriptor p s)"
  shows "elementAt p k < n" "setOf p (elementAt p k) = s" "positionOf p (elementAt p k) = k"
proof -
  have k: "k < n" using assms(4) valid_partitionD(11) [OF assms(1,2)] by simp
  then show e: "elementAt p k < n" and q: "positionOf p (elementAt p k) = k" using valid_partitionD(6,7) [OF assms(1)] by auto
  show "setOf p (elementAt p k) = s" using valid_partitionD(12) [OF assms(1) e assms(2)] q assms(3,4) by simp
qed

subsection \<open>Marking\<close>

lemma swapped_positions:
  assumes v: "valid_partition n p" and e: "e < n" and q: "q < n"
  defines "f \<equiv> elementAt p q"
  shows "k < n \<Longrightarrow> (m_partitionedElements p)[q := e, positionOf p e := f] ! k =
      (if k = positionOf p e then f else if k = q then e else elementAt p k)"
    and "x < n \<Longrightarrow> (m_elementPosition p)[e := q, f := positionOf p e] ! x =
      (if x = f then positionOf p e else if x = e then q else positionOf p x)"
  using valid_partitionD(1,2) [OF v] by (simp_all add: nth_list_update)

lemma mark_valid:
  assumes v: "valid_partition n p" and n: "n \<le> u32_max" and e: "e < n" "\<not> is_marked p e" and m: "marks_listed p (m_setsMarked p)"
  shows "\<exists>p'. markElementInCurrentGeneration e p = Some p' \<and> valid_partition n p' \<and> marks_listed p' (m_setsMarked p') \<and>
    m_elementToSetMap p' = m_elementToSetMap p \<and> length (m_sets p') = length (m_sets p) \<and>
    (\<forall>x<n. is_marked p' x \<longleftrightarrow> is_marked p x \<or> x = e)"
proof -
  note V = valid_partitionD [OF v]
  define s where "s = setOf p e"
  define sd where "sd = descriptor p s"
  define q where "q = indexAfterMarkedElements sd"
  define f where "f = elementAt p q"
  have s: "s < length (m_sets p)" using V(8) e by (simp add: s_def)
  have pe: "q \<le> positionOf p e" "positionOf p e < sdEnd sd" "positionOf p e < n"
    using e position_in_set [OF v e(1)] V(4) by (auto simp: is_marked_def q_def sd_def s_def)
  have start: "sdStart sd \<le> q" by (simp add: q_def indexAfterMarkedElements_def)
  have q: "q < n" "q < sdEnd sd" using pe by auto
  have f: "f < n" "setOf p f = s" "positionOf p f = q"
    using element_in_set [OF v s] start q by (simp_all add: f_def sd_def)
  have cnt: "sdMarkedCount sd < sdSize sd" using q(2) by (simp add: q_def indexAfterMarkedElements_def sdEnd_def)
  have "sdSize sd \<le> n" using V(11) [OF s] by (simp add: sd_def sdEnd_def)
  then have wrap: "u32 (Suc (sdMarkedCount sd)) = Suc (sdMarkedCount sd)" "u32 (Suc 0) = Suc 0"
    using cnt n by (simp_all add: u32_def u32_max_def)
  define p' where "p' = p\<lparr>m_partitionedElements := (m_partitionedElements p)[q := e, positionOf p e := f],
    m_elementPosition := (m_elementPosition p)[e := q, f := positionOf p e],
    m_setsMarked := (if sdMarkedCount sd = 0 then m_setsMarked p @ [s] else m_setsMarked p),
    m_sets := (m_sets p)[s := sd\<lparr>sdMarkedCount := sdMarkedCount sd + 1\<rparr>]\<rparr>"
  have run: "markElementInCurrentGeneration e p = Some p'"
    using e(1) V(1-3) s pe(3) q(1) f(1)
    by (simp add: markElementInCurrentGeneration_def s_def [symmetric] sd_def [symmetric] q_def [symmetric] Let_def wrap
        f_def [symmetric] p'_def)
  have el: "elementAt p' k = (if k = positionOf p e then f else if k = q then e else elementAt p k)" if "k < n" for k
    using swapped_positions(1) [OF v e(1) q(1) that] by (simp add: p'_def f_def)
  have po: "positionOf p' x = (if x = f then positionOf p e else if x = e then q else positionOf p x)" if "x < n" for x
    using swapped_positions(2) [OF v e(1) q(1) that] by (simp add: p'_def f_def)
  have so: "m_elementToSetMap p' = m_elementToSetMap p" by (simp add: p'_def)
  have de: "length (m_sets p') = length (m_sets p)" "\<And>t. sdStart (descriptor p' t) = sdStart (descriptor p t)"
    "\<And>t. sdSize (descriptor p' t) = sdSize (descriptor p t)" "\<And>t. sdEnd (descriptor p' t) = sdEnd (descriptor p t)"
    using s by (simp_all add: p'_def nth_list_update sd_def sdEnd_def)
  have mc: "sdMarkedCount (descriptor p' t) = (if t = s then sdMarkedCount sd + 1 else sdMarkedCount (descriptor p t))"
    if "t < length (m_sets p)" for t using that by (simp add: p'_def nth_list_update)
  have po_in: "(sdStart (descriptor p t) \<le> positionOf p' x \<and> positionOf p' x < sdEnd (descriptor p t)) \<longleftrightarrow>
      (sdStart (descriptor p t) \<le> positionOf p x \<and> positionOf p x < sdEnd (descriptor p t))"
    if "x < n" "t < length (m_sets p)" for x t
    using V(12) [OF that] V(12) [OF e(1) that(2)] V(12) [OF f(1) that(2)] f(2,3) by (auto simp: po that s_def)
  have "valid_partition n p'"
  proof (rule valid_partitionI)
    show "positionOf p' x < n \<and> elementAt p' (positionOf p' x) = x" if "x < n" for x
    proof -
      have "positionOf p x \<noteq> positionOf p e" if "x \<noteq> e" using V(5) [OF \<open>x < n\<close>] V(5) [OF e(1)] that by metis
      moreover have "positionOf p x \<noteq> q" if "x \<noteq> f" using V(5) [OF \<open>x < n\<close>] that by (auto simp: f_def)
      ultimately show ?thesis using that V(4,5) [of x] V(5) [OF e(1)] pe(3) q(1) by (auto simp: po el f_def)
    qed
    show "elementAt p' k < n \<and> positionOf p' (elementAt p' k) = k" if "k < n" for k
    proof -
      have "elementAt p k \<noteq> f" if "k \<noteq> q" using V(7) [OF \<open>k < n\<close>] f(3) that by metis
      moreover have "elementAt p k \<noteq> e" if "k \<noteq> positionOf p e" using V(7) [OF \<open>k < n\<close>] that by metis
      ultimately show ?thesis using that V(6,7) [of k] e(1) f(1) f(3) V(5) [OF e(1)] by (auto simp: po el)
    qed
    show "setOf p' x = t \<longleftrightarrow> sdStart (descriptor p' t) \<le> positionOf p' x \<and> positionOf p' x < sdEnd (descriptor p' t)"
      if "x < n" "t < length (m_sets p')" for x t
      using that V(12) [of x t] po_in [of x t] by (simp add: so de)
    show "0 < sdSize (descriptor p' t) \<and> sdMarkedCount (descriptor p' t) \<le> sdSize (descriptor p' t) \<and> sdEnd (descriptor p' t) \<le> n"
      if "t < length (m_sets p')" for t
      using that V(9-11) [of t] mc [of t] cnt by (auto simp: de sd_def)
  qed (use V in \<open>simp_all add: p'_def\<close>)
  moreover have "is_marked p' x \<longleftrightarrow> is_marked p x \<or> x = e" if "x < n" for x
  proof (cases "setOf p x = s")
    case False
    then have "x \<noteq> e" "x \<noteq> f" using f(2) by (auto simp: s_def)
    then show ?thesis using False mc [OF V(8) [OF that]] by (simp add: is_marked_def indexAfterMarkedElements_def so de po that)
  next
    case True
    have m': "is_marked p' x \<longleftrightarrow> positionOf p' x \<le> q" using True mc [OF s]
      by (simp add: is_marked_def indexAfterMarkedElements_def so de q_def sd_def less_Suc_eq_le)
    have m: "is_marked p x \<longleftrightarrow> positionOf p x < q" using True by (simp add: is_marked_def q_def sd_def)
    have "positionOf p x \<noteq> q" if "x \<noteq> f" using V(5) [OF \<open>x < n\<close>] that by (auto simp: f_def)
    moreover have "positionOf p e \<noteq> q" if "f \<noteq> e" using V(5) [OF e(1)] that by (auto simp: f_def)
    ultimately show ?thesis unfolding m' m po [OF that] using pe(1) f(3) by auto
  qed
  moreover have "marks_listed p' (m_setsMarked p')"
  proof -
    have "set (m_setsMarked p') = insert s (set (m_setsMarked p))" "distinct (m_setsMarked p')"
      using m s by (auto simp: p'_def marks_listed_def sd_def)
    moreover have "{t. t < length (m_sets p') \<and> 0 < sdMarkedCount (descriptor p' t)} =
        insert s {t. t < length (m_sets p) \<and> 0 < sdMarkedCount (descriptor p t)}" using s mc by (auto simp: de)
    ultimately show ?thesis using m by (simp add: marks_listed_def)
  qed
  ultimately show ?thesis using run so de(1) by blast
qed

subsection \<open>Marking several elements\<close>

definition adds_marks :: "nat \<Rightarrow> Partition \<Rightarrow> nat set \<Rightarrow> Partition \<Rightarrow> bool" where
  "adds_marks n p M p' \<longleftrightarrow> valid_partition n p' \<and> marks_listed p' (m_setsMarked p') \<and>
     m_elementToSetMap p' = m_elementToSetMap p \<and> length (m_sets p') = length (m_sets p) \<and>
     (\<forall>x<n. is_marked p' x \<longleftrightarrow> is_marked p x \<or> x \<in> M)"

lemma mark_all:
  assumes "valid_partition n p" "n \<le> u32_max" "marks_listed p (m_setsMarked p)"
    "distinct es" "\<And>e. e \<in> set es \<Longrightarrow> e < n \<and> \<not> is_marked p e"
  shows "\<exists>p'. fold_option markElementInCurrentGeneration es p = Some p' \<and> adds_marks n p (set es) p'"
  using assms
proof (induction es arbitrary: p)
  case Nil
  then show ?case by (simp add: adds_marks_def)
next
  case (Cons e es)
  obtain p1 where p1: "markElementInCurrentGeneration e p = Some p1" "valid_partition n p1" "marks_listed p1 (m_setsMarked p1)"
    "m_elementToSetMap p1 = m_elementToSetMap p" "length (m_sets p1) = length (m_sets p)"
    "\<forall>x<n. is_marked p1 x \<longleftrightarrow> is_marked p x \<or> x = e"
    using mark_valid [OF Cons.prems(1,2) _ _ Cons.prems(3), of e] Cons.prems(5) by auto
  have "x < n \<and> \<not> is_marked p1 x" if "x \<in> set es" for x using that Cons.prems(4,5) p1(6) by auto
  then obtain p2 where "fold_option markElementInCurrentGeneration es p1 = Some p2" "adds_marks n p1 (set es) p2"
    using Cons.IH [OF p1(2) Cons.prems(2) p1(3)] Cons.prems(4) by auto
  then show ?case using p1 by (auto simp: adds_marks_def)
qed

text \<open>The loops that mark are loops over one list of elements.\<close>

lemma fold_option_concat: "fold_option (\<lambda>x. fold_option f (g x)) xs s = fold_option f (concat (map g xs)) s"
proof (induction xs arbitrary: s)
  case (Cons x xs)
  then show ?case by (cases "fold_option f (g x) s") (simp_all add: fold_option_append)
qed simp

lemma fold_option_map: "fold_option f (map g xs) s = fold_option (\<lambda>x. f (g x)) xs s"
proof (induction xs arbitrary: s)
  case (Cons x xs)
  then show ?case by (cases "f (g x) s") simp_all
qed simp

lemma fold_option_cong:
  assumes "\<And>x s. x \<in> set xs \<Longrightarrow> f x s = g x s"
  shows "fold_option f xs s = fold_option g xs s"
  using assms
proof (induction xs arbitrary: s)
  case (Cons x xs)
  then show ?case by (cases "g x s") simp_all
qed simp

definition elements_of :: "Partition \<Rightarrow> nat \<Rightarrow> nat list" where
  "elements_of p s = map (elementAt p) [sdStart (descriptor p s) ..< sdEnd (descriptor p s)]"

lemma iterateSet_elements:
  assumes "valid_partition n p" "s < length (m_sets p)"
  shows "iterateSet s p function x = fold_option function (elements_of p s) x"
proof -
  have "i < length (m_partitionedElements p)" if "i < sdEnd (descriptor p s)" for i
    using that valid_partitionD(1,11) [OF assms(1)] assms(2) by (meson order_less_le_trans)
  then show ?thesis using assms(2) unfolding elements_of_def fold_option_map iterateSet_def
    by (auto intro!: fold_option_cong)
qed

lemma elements_of_set:
  assumes "valid_partition n p" "s < length (m_sets p)"
  shows "set (elements_of p s) = {e. e < n \<and> setOf p e = s}" "distinct (elements_of p s)"
proof -
  have "inj_on (elementAt p) {sdStart (descriptor p s) ..< sdEnd (descriptor p s)}"
    by (rule inj_on_inverseI [of _ "\<lambda>e. positionOf p e"]) (simp add: element_in_set(3) [OF assms])
  then show "distinct (elements_of p s)" by (simp add: elements_of_def distinct_map)
  show "set (elements_of p s) = {e. e < n \<and> setOf p e = s}"
  proof
    show "set (elements_of p s) \<subseteq> {e. e < n \<and> setOf p e = s}"
      using element_in_set [OF assms] by (auto simp: elements_of_def)
    show "{e. e < n \<and> setOf p e = s} \<subseteq> set (elements_of p s)"
    proof
      fix e assume "e \<in> {e. e < n \<and> setOf p e = s}"
      then have e: "e < n" "setOf p e = s" by auto
      then show "e \<in> set (elements_of p s)" using position_in_set [OF assms(1) e(1)] valid_partitionD(5) [OF assms(1) e(1)]
        unfolding elements_of_def by (auto intro!: image_eqI [of _ _ "positionOf p e"])
    qed
  qed
qed

subsection \<open>Splitting a set\<close>

lemma relabel_elements:
  assumes "\<And>i. i \<in> set is \<Longrightarrow> i < length els \<and> els ! i < length m"
  shows "fold_option (\<lambda>i m. Option.bind (vec_read els i) (\<lambda>e. vec_write m e v)) is m =
    Some (fold (\<lambda>i m. m[els ! i := v]) is m)"
  using assms by (induction "is" arbitrary: m) auto

lemma split_valid:
  assumes v: "valid_partition n p" and s: "s < length (m_sets p)"
    and mc: "0 < sdMarkedCount (descriptor p s)" "sdMarkedCount (descriptor p s) \<noteq> sdSize (descriptor p s)"
  shows "\<exists>p' X. splitSet s (descriptor p s) p = Some p' \<and> valid_partition n p' \<and> length (m_sets p') = Suc (length (m_sets p)) \<and>
    m_setsMarked p' = m_setsMarked p \<and> (\<forall>todo. marks_listed p (s # todo) \<longrightarrow> marks_listed p' todo) \<and>
    (\<forall>e<n. setOf p' e = (if e \<in> X then length (m_sets p) else setOf p e)) \<and>
    (X = {e. e < n \<and> setOf p e = s \<and> is_marked p e} \<or> X = {e. e < n \<and> setOf p e = s \<and> \<not> is_marked p e}) \<and>
    (\<forall>e<n. is_marked p' e \<longleftrightarrow> is_marked p e \<and> setOf p e \<noteq> s)"
proof -
  note V = valid_partitionD [OF v]
  define sd where "sd = descriptor p s"
  define N where "N = length (m_sets p)"
  define isM where "isM \<longleftrightarrow> u32 (sdMarkedCount sd * 2) \<le> sdSize sd"
  define new where "new = (if isM then \<lparr>sdStart = sdStart sd, sdSize = sdMarkedCount sd, sdMarkedCount = 0\<rparr>
    else \<lparr>sdStart = sdStart sd + sdMarkedCount sd, sdSize = sdSize sd - sdMarkedCount sd, sdMarkedCount = 0\<rparr>)"
  define old where "old = \<lparr>sdStart = (if isM then sdStart sd + sdMarkedCount sd else sdStart sd), sdSize = sdSize sd - sdSize new, sdMarkedCount = 0\<rparr>"
  define ks where "ks = [sdStart new ..< sdEnd new]"
  define setMap where "setMap = fold (\<lambda>i m. m[elementAt p i := N]) ks (m_elementToSetMap p)"
  define p' where "p' = p\<lparr>m_sets := (m_sets p)[s := old] @ [new], m_elementToSetMap := setMap\<rparr>"
  have c: "0 < sdMarkedCount sd" "sdMarkedCount sd < sdSize sd" using mc V(10) [OF s] by (simp_all add: sd_def)
  have ends: "sdEnd sd \<le> n" using V(11) [OF s] by (simp add: sd_def)
  have new_in: "sdStart sd \<le> sdStart new" "sdEnd new \<le> sdEnd sd" "0 < sdSize new" "0 < sdSize old" "sdStart sd \<le> sdStart old" "sdEnd old \<le> sdEnd sd"
    and tile: "\<And>k. (sdStart new \<le> k \<and> k < sdEnd new) \<noteq> (sdStart old \<le> k \<and> k < sdEnd old) \<longleftrightarrow> sdStart sd \<le> k \<and> k < sdEnd sd"
    using c by (auto simp: new_def old_def sdEnd_def)
  have "i < length (m_partitionedElements p) \<and> elementAt p i < length (m_elementToSetMap p)" if "i \<in> set ks" for i
    using that new_in ends V(1,3) V(6) [of i] by (auto simp: ks_def)
  then have "fold_option (\<lambda>i m. Option.bind (vec_read (m_partitionedElements p) i) (\<lambda>e. vec_write m e N)) ks (m_elementToSetMap p) = Some setMap"
    unfolding setMap_def by (rule relabel_elements)
  then have run: "splitSet s sd p = Some p'"
    by (simp add: splitSet_def Let_def isM_def [symmetric] N_def [symmetric] new_def [symmetric] ks_def [symmetric] p'_def)
       (simp add: old_def)
  define X where "X = {e. e < n \<and> sdStart new \<le> positionOf p e \<and> positionOf p e < sdEnd new}"
  have img: "elementAt p ` set ks = X"
  proof
    show "elementAt p ` set ks \<subseteq> X" using new_in ends V(6,7) by (auto simp: X_def ks_def)
    show "X \<subseteq> elementAt p ` set ks"
    proof
      fix e assume "e \<in> X"
      then show "e \<in> elementAt p ` set ks"
        using V(5) [of e] by (intro image_eqI [of _ _ "positionOf p e"]) (simp_all add: X_def ks_def)
    qed
  qed
  have so: "setOf p' e = (if e \<in> X then N else setOf p e)" if "e < n" for e
    using that V(3) by (simp add: p'_def setMap_def nth_fold_update img)
  have in_s: "setOf p e = s \<longleftrightarrow> sdStart sd \<le> positionOf p e \<and> positionOf p e < sdEnd sd" if "e < n" for e
    using V(12) [OF that s] by (simp add: sd_def)
  have X_s: "setOf p e = s" if "e \<in> X" for e using that new_in in_s [of e] by (auto simp: X_def)
  have X_def2: "X = {e. e < n \<and> setOf p e = s \<and> (is_marked p e \<longleftrightarrow> isM)}"
  proof (intro set_eqI iffI)
    have m: "is_marked p e \<longleftrightarrow> positionOf p e < sdStart sd + sdMarkedCount sd" if "setOf p e = s" for e
      using that by (simp add: is_marked_def indexAfterMarkedElements_def sd_def)
    show "e \<in> {e. e < n \<and> setOf p e = s \<and> (is_marked p e \<longleftrightarrow> isM)}" if "e \<in> X" for e
      using that X_s [OF that] m [of e] by (auto simp: X_def new_def sdEnd_def split: if_splits)
    show "e \<in> X" if "e \<in> {e. e < n \<and> setOf p e = s \<and> (is_marked p e \<longleftrightarrow> isM)}" for e
      using that in_s [of e] m [of e] c by (auto simp: X_def new_def sdEnd_def split: if_splits)
  qed
  have de: "descriptor p' t = (if t = N then new else if t = s then old else descriptor p t)" if "t < Suc N" for t
    using that s by (auto simp: p'_def nth_append N_def nth_list_update)
  have len: "length (m_sets p') = Suc N" by (simp add: p'_def N_def)
  have po: "m_elementPosition p' = m_elementPosition p" "m_partitionedElements p' = m_partitionedElements p" by (simp_all add: p'_def)
  have sN: "setOf p e < N" if "e < n" for e using V(8) [OF that] by (simp add: N_def)
  have "valid_partition n p'"
  proof (rule valid_partitionI)
    show "setOf p' e = t \<longleftrightarrow> sdStart (descriptor p' t) \<le> positionOf p' e \<and> positionOf p' e < sdEnd (descriptor p' t)"
      if "e < n" "t < length (m_sets p')" for e t
    proof -
      have "t < Suc N" using that(2) len by simp
      then consider "t = N" | "t = s" "t \<noteq> N" | "t < N" "t \<noteq> s" by linarith
      then show ?thesis
      proof cases
        case 1
        then show ?thesis using sN [OF that(1)] that(1) by (auto simp: so de po X_def)
      next
        case 2
        then show ?thesis using that s tile [of "positionOf p e"] in_s [OF that(1)] X_s [of e]
          by (auto simp: so de po len N_def [symmetric] X_def)
      next
        case 3
        then show ?thesis using that V(12) [OF that(1), of t] X_s [of e] by (auto simp: so de po N_def [symmetric])
      qed
    qed
    show "0 < sdSize (descriptor p' t) \<and> sdMarkedCount (descriptor p' t) \<le> sdSize (descriptor p' t) \<and> sdEnd (descriptor p' t) \<le> n"
      if "t < length (m_sets p')" for t
      using that V(9-11) [of t] new_in ends by (auto simp: len de N_def [symmetric] less_Suc_eq) (auto simp: new_def old_def)
    show "setOf p' e < length (m_sets p')" if "e < n" for e using sN [OF that] by (simp add: so that len)
  qed (use V in \<open>simp_all add: p'_def setMap_def\<close>)
  moreover have "marks_listed p' todo" if "marks_listed p (s # todo)" for todo
  proof -
    have "sdMarkedCount (descriptor p' t) = (if t = N \<or> t = s then 0 else sdMarkedCount (descriptor p t))" if "t < Suc N" for t
      unfolding de [OF that] by (simp add: new_def old_def)
    then have "{t. t < length (m_sets p') \<and> 0 < sdMarkedCount (descriptor p' t)} =
        {t. t < N \<and> 0 < sdMarkedCount (descriptor p t)} - {s}" by (auto simp: len less_Suc_eq split: if_splits)
    also have "\<dots> = set todo" using that by (auto simp: marks_listed_def N_def)
    finally show ?thesis using that by (simp add: marks_listed_def)
  qed
  moreover have "is_marked p' e \<longleftrightarrow> is_marked p e \<and> setOf p e \<noteq> s" if "e < n" for e
  proof (cases "setOf p e = s")
    case True
    have "sdStart (descriptor p' (setOf p' e)) \<le> positionOf p' e"
      using position_in_set(1) [OF \<open>valid_partition n p'\<close> that] .
    moreover have "sdMarkedCount (descriptor p' (setOf p' e)) = 0"
      using True s by (auto simp: so that de N_def) (auto simp: new_def old_def)
    ultimately show ?thesis using True by (simp add: is_marked_def indexAfterMarkedElements_def)
  next
    case False
    then have "e \<notin> X" using X_s by blast
    then show ?thesis using False sN [OF that] by (simp add: is_marked_def so that de po)
  qed
  moreover have "X = {e. e < n \<and> setOf p e = s \<and> is_marked p e} \<or> X = {e. e < n \<and> setOf p e = s \<and> \<not> is_marked p e}"
    unfolding X_def2 by (cases isM) auto
  moreover have "m_setsMarked p' = m_setsMarked p" by (simp add: p'_def)
  ultimately show ?thesis using run len so unfolding N_def sd_def by blast
qed

subsection \<open>Refining\<close>

text \<open>
  A set whose elements are all marked keeps them; only its count is reset.
\<close>

lemma clear_valid:
  assumes v: "valid_partition n p" and s: "s < length (m_sets p)"
    and all: "sdMarkedCount (descriptor p s) = sdSize (descriptor p s)"
  defines "p' \<equiv> p\<lparr>m_sets := (m_sets p)[s := (descriptor p s)\<lparr>sdMarkedCount := 0\<rparr>]\<rparr>"
  shows "valid_partition n p'" "length (m_sets p') = length (m_sets p)" "m_elementToSetMap p' = m_elementToSetMap p"
    "marks_listed p (s # todo) \<Longrightarrow> marks_listed p' todo"
    "e < n \<Longrightarrow> is_marked p' e \<longleftrightarrow> is_marked p e \<and> setOf p e \<noteq> s"
    "e < n \<Longrightarrow> setOf p e = s \<Longrightarrow> is_marked p e"
proof -
  note V = valid_partitionD [OF v]
  have de: "descriptor p' t = (if t = s then (descriptor p s)\<lparr>sdMarkedCount := 0\<rparr> else descriptor p t)" for t
    using s by (simp add: p'_def nth_list_update)
  have f: "length (m_sets p') = length (m_sets p)" "m_elementToSetMap p' = m_elementToSetMap p"
    "m_elementPosition p' = m_elementPosition p" "m_partitionedElements p' = m_partitionedElements p" by (simp_all add: p'_def)
  have de': "sdStart (descriptor p' t) = sdStart (descriptor p t)" "sdEnd (descriptor p' t) = sdEnd (descriptor p t)"
    "sdSize (descriptor p' t) = sdSize (descriptor p t)" for t by (simp_all add: de sdEnd_def)
  show "length (m_sets p') = length (m_sets p)" "m_elementToSetMap p' = m_elementToSetMap p" by (fact f)+
  have mk: "sdMarkedCount (descriptor p' t) = (if t = s then 0 else sdMarkedCount (descriptor p t))" for t by (simp add: de)
  show "valid_partition n p'"
    by (rule valid_partitionI) (use V in \<open>simp_all add: f de' mk\<close>)
  show "marks_listed p' todo" if m: "marks_listed p (s # todo)"
  proof -
    have "{t. t < length (m_sets p') \<and> 0 < sdMarkedCount (descriptor p' t)} =
        {t. t < length (m_sets p) \<and> 0 < sdMarkedCount (descriptor p t)} - {s}" by (auto simp: f mk split: if_splits)
    also have "\<dots> = set todo" using m by (auto simp: marks_listed_def)
    finally show ?thesis using m by (simp add: marks_listed_def)
  qed
  show "is_marked p' e \<longleftrightarrow> is_marked p e \<and> setOf p e \<noteq> s" if "e < n"
    using that position_in_set(1) [OF v that]
    by (cases "setOf p e = s") (auto simp: is_marked_def f indexAfterMarkedElements_def de' mk)
  show "is_marked p e" if "e < n" "setOf p e = s"
    using position_in_set(2) [OF v that(1)] that(2) all by (simp add: is_marked_def indexAfterMarkedElements_def sdEnd_def)
qed

text \<open>
  During a refinement the sets still listed have their marks, and every other set lies inside or
  outside the set \<open>M\<close> of elements that were marked at the beginning.
\<close>

definition refining :: "nat \<Rightarrow> nat set \<Rightarrow> Partition \<Rightarrow> nat list \<Rightarrow> bool" where
  "refining n M p todo \<longleftrightarrow> valid_partition n p \<and> marks_listed p todo \<and>
     (\<forall>e<n. setOf p e \<in> set todo \<longrightarrow> (is_marked p e \<longleftrightarrow> e \<in> M)) \<and>
     (\<forall>e<n. setOf p e \<notin> set todo \<longrightarrow> \<not> is_marked p e) \<and>
     (\<forall>e<n. \<forall>f<n. setOf p e = setOf p f \<longrightarrow> setOf p e \<notin> set todo \<longrightarrow> (e \<in> M \<longleftrightarrow> f \<in> M))"

lemma refiningD:
  assumes "refining n M p todo"
  shows "valid_partition n p" "marks_listed p todo" "\<And>e. e < n \<Longrightarrow> setOf p e \<in> set todo \<Longrightarrow> is_marked p e \<longleftrightarrow> e \<in> M"
    "\<And>e. e < n \<Longrightarrow> setOf p e \<notin> set todo \<Longrightarrow> \<not> is_marked p e"
    "\<And>e f. e < n \<Longrightarrow> f < n \<Longrightarrow> setOf p e = setOf p f \<Longrightarrow> setOf p e \<notin> set todo \<Longrightarrow> e \<in> M \<longleftrightarrow> f \<in> M"
  using assms unfolding refining_def by blast+

lemma refining_start:
  assumes "valid_partition n p" "marks_listed p (m_setsMarked p)" "M = {e. e < n \<and> is_marked p e}"
  shows "refining n M p (m_setsMarked p)"
proof -
  have "\<not> is_marked p e" if "e < n" "setOf p e \<notin> set (m_setsMarked p)" for e
    using that position_in_set(1) [OF assms(1) that(1)] valid_partitionD(8) [OF assms(1) that(1)] assms(2)
    by (auto simp: is_marked_def indexAfterMarkedElements_def marks_listed_def)
  then show ?thesis using assms by (auto simp: refining_def)
qed

definition split_off :: "nat \<Rightarrow> nat set \<Rightarrow> Partition \<Rightarrow> nat set \<Rightarrow> Partition \<Rightarrow> bool" where
  "split_off n M p X p' \<longleftrightarrow> valid_partition n p \<and> valid_partition n p' \<and> length (m_sets p') = Suc (length (m_sets p)) \<and>
     (\<forall>e<n. setOf p' e = (if e \<in> X then length (m_sets p) else setOf p e)) \<and>
     (\<exists>s<length (m_sets p). X = {e. e < n \<and> setOf p e = s \<and> e \<in> M} \<or> X = {e. e < n \<and> setOf p e = s \<and> e \<notin> M})"

lemma refining_split:
  assumes r: "refining n M p (s # todo)" and ne: "sdMarkedCount (descriptor p s) \<noteq> sdSize (descriptor p s)"
  shows "\<exists>p' X. splitSet s (descriptor p s) p = Some p' \<and> refining n M p' todo \<and> split_off n M p X p'"
proof -
  note R = refiningD [OF r]
  have s: "s < length (m_sets p)" "0 < sdMarkedCount (descriptor p s)" "s \<notin> set todo"
    using R(2) by (auto simp: marks_listed_def)
  obtain p' X where p': "splitSet s (descriptor p s) p = Some p'" "valid_partition n p'" "length (m_sets p') = Suc (length (m_sets p))"
    "\<And>todo. marks_listed p (s # todo) \<Longrightarrow> marks_listed p' todo"
    "\<And>e. e < n \<Longrightarrow> setOf p' e = (if e \<in> X then length (m_sets p) else setOf p e)"
    "X = {e. e < n \<and> setOf p e = s \<and> is_marked p e} \<or> X = {e. e < n \<and> setOf p e = s \<and> \<not> is_marked p e}"
    "\<And>e. e < n \<Longrightarrow> is_marked p' e \<longleftrightarrow> is_marked p e \<and> setOf p e \<noteq> s"
    using split_valid [OF R(1) s(1,2) ne] by blast
  have X: "X = {e. e < n \<and> setOf p e = s \<and> e \<in> M} \<or> X = {e. e < n \<and> setOf p e = s \<and> e \<notin> M}" using p'(6) R(3) by auto
  then have Xs: "setOf p e = s" if "e \<in> X" for e using that by auto
  have l: "length (m_sets p) \<notin> set todo" using R(2) by (auto simp: marks_listed_def)
  have lt: "setOf p e < length (m_sets p)" if "e < n" for e using valid_partitionD(8) [OF R(1) that] .
  have "refining n M p' todo"
    unfolding refining_def
  proof (intro conjI allI impI)
    show "valid_partition n p'" "marks_listed p' todo" by (fact p'(2), rule p'(4) [OF R(2)])
    fix e assume e: "e < n"
    show "is_marked p' e \<longleftrightarrow> e \<in> M" if "setOf p' e \<in> set todo"
      using that R(3) [OF e] Xs [of e] s(3) l unfolding p'(5) [OF e] p'(7) [OF e] by (auto split: if_splits)
    show "\<not> is_marked p' e" if "setOf p' e \<notin> set todo"
      using that R(4) [OF e] Xs [of e] unfolding p'(5) [OF e] p'(7) [OF e] by (auto split: if_splits)
    fix f assume f: "f < n" and eq: "setOf p' e = setOf p' f" and nt: "setOf p' e \<notin> set todo"
    show "e \<in> M \<longleftrightarrow> f \<in> M"
    proof (cases "setOf p e = s")
      case True
      then have "setOf p f = s \<and> (e \<in> X \<longleftrightarrow> f \<in> X)"
        using eq lt [OF e] lt [OF f] Xs [of f] unfolding p'(5) [OF e] p'(5) [OF f] by (auto split: if_splits)
      then show ?thesis using X e f True by auto
    next
      case False
      then have "setOf p e = setOf p f \<and> setOf p e \<notin> set (s # todo)"
        using eq nt lt [OF e] lt [OF f] Xs [of e] Xs [of f] unfolding p'(5) [OF e] p'(5) [OF f] by (auto split: if_splits)
      then show ?thesis using R(5) [OF e f] by blast
    qed
  qed
  moreover have "split_off n M p X p'" unfolding split_off_def using R(1) p'(2,3,5) s(1) X by blast
  ultimately show ?thesis using p'(1) by blast
qed

lemma refining_clear:
  assumes r: "refining n M p (s # todo)" and all: "sdMarkedCount (descriptor p s) = sdSize (descriptor p s)"
  shows "refining n M (p\<lparr>m_sets := (m_sets p)[s := (descriptor p s)\<lparr>sdMarkedCount := 0\<rparr>]\<rparr>) todo"
proof -
  note R = refiningD [OF r]
  have s: "s < length (m_sets p)" "s \<notin> set todo" using R(2) by (auto simp: marks_listed_def)
  note C = clear_valid [OF R(1) s(1) all]
  define p' where "p' = p\<lparr>m_sets := (m_sets p)[s := (descriptor p s)\<lparr>sdMarkedCount := 0\<rparr>]\<rparr>"
  show ?thesis unfolding refining_def p'_def [symmetric]
  proof (intro conjI allI impI)
    show "valid_partition n p'" "marks_listed p' todo" using C(1) C(4) [OF R(2)] by (simp_all only: p'_def)
    have so: "setOf p' e = setOf p e" for e by (simp add: p'_def)
    fix e assume e: "e < n"
    show "is_marked p' e \<longleftrightarrow> e \<in> M" if "setOf p' e \<in> set todo"
      using that C(5) [OF e] R(3) [OF e] s(2) unfolding so p'_def [symmetric] by auto
    show "\<not> is_marked p' e" if "setOf p' e \<notin> set todo"
      using that C(5) [OF e] R(4) [OF e] unfolding so p'_def [symmetric] by auto
    fix f assume f: "f < n" and eq: "setOf p' e = setOf p' f" and nt: "setOf p' e \<notin> set todo"
    show "e \<in> M \<longleftrightarrow> f \<in> M"
    proof (cases "setOf p e = s")
      case True
      then show ?thesis using eq C(6) [OF e] C(6) [OF f] R(3) [OF e] R(3) [OF f] by (simp add: so)
    next
      case False
      then show ?thesis using eq nt R(5) [OF e f] by (simp add: so)
    qed
  qed
qed

text \<open>The rule for refinement loops: an invariant of the sets and of the caller's state.\<close>

lemma refine_sets_rule:
  assumes "refining n M p todo" "Inv (m_elementToSetMap p) (length (m_sets p)) x"
    and step: "\<And>p X p' x. split_off n M p X p' \<Longrightarrow> Inv (m_elementToSetMap p) (length (m_sets p)) x \<Longrightarrow>
      \<exists>x'. callback (length (m_sets p)) p' x = Some x' \<and> Inv (m_elementToSetMap p') (length (m_sets p')) x'"
  shows "\<exists>p' x'. refine_sets callback todo p x = Some (p', x') \<and> refining n M p' [] \<and>
    Inv (m_elementToSetMap p') (length (m_sets p')) x'"
  using assms(1,2)
proof (induction todo arbitrary: p x)
  case (Cons s todo)
  have s: "s < length (m_sets p)" using refiningD(2) [OF Cons.prems(1)] by (auto simp: marks_listed_def)
  show ?case
  proof (cases "sdMarkedCount (descriptor p s) = sdSize (descriptor p s)")
    case True
    show ?thesis using Cons.IH [OF refining_clear [OF Cons.prems(1) True], of x] Cons.prems(2) s True by simp
  next
    case False
    obtain p1 X where p1: "splitSet s (descriptor p s) p = Some p1" "refining n M p1 todo" "split_off n M p X p1"
      using refining_split [OF Cons.prems(1) False] by blast
    obtain x1 where "callback (length (m_sets p)) p1 x = Some x1" "Inv (m_elementToSetMap p1) (length (m_sets p1)) x1"
      using step [OF p1(3) Cons.prems(2)] by blast
    then show ?thesis using Cons.IH [OF p1(2), of x1] p1(1) s False by simp
  qed
qed auto

definition unmarked :: "nat \<Rightarrow> Partition \<Rightarrow> bool" where
  "unmarked n p \<longleftrightarrow> valid_partition n p \<and> marks_listed p (m_setsMarked p) \<and> (\<forall>e<n. \<not> is_marked p e)"

lemma refineGeneration_rule:
  assumes "valid_partition n p" "marks_listed p (m_setsMarked p)" "M = {e. e < n \<and> is_marked p e}"
    and "Inv (m_elementToSetMap p) (length (m_sets p)) x"
    and step: "\<And>p X p' x. split_off n M p X p' \<Longrightarrow> Inv (m_elementToSetMap p) (length (m_sets p)) x \<Longrightarrow>
      \<exists>x'. callback (length (m_sets p)) p' x = Some x' \<and> Inv (m_elementToSetMap p') (length (m_sets p')) x'"
  shows "\<exists>p' x'. refineGeneration callback p x = Some (p', x') \<and> unmarked n p' \<and>
    (\<forall>e<n. \<forall>f<n. setOf p' e = setOf p' f \<longrightarrow> (e \<in> M \<longleftrightarrow> f \<in> M)) \<and> Inv (m_elementToSetMap p') (length (m_sets p')) x'"
proof -
  have "\<exists>p' x'. refine_sets callback (m_setsMarked p) p x = Some (p', x') \<and> refining n M p' [] \<and>
      Inv (m_elementToSetMap p') (length (m_sets p')) x'"
    by (rule refine_sets_rule [where Inv = Inv, OF refining_start [OF assms(1-3)] assms(4)], erule (1) step)
  then obtain p1 x1 where p1: "refine_sets callback (m_setsMarked p) p x = Some (p1, x1)" "refining n M p1 []"
    "Inv (m_elementToSetMap p1) (length (m_sets p1)) x1" by (elim exE conjE)
  define p' where "p' = p1\<lparr>m_setsMarked := []\<rparr>"
  have f: "m_elementToSetMap p' = m_elementToSetMap p1" "m_sets p' = m_sets p1" "m_elementPosition p' = m_elementPosition p1"
    "m_partitionedElements p' = m_partitionedElements p1" "m_setsMarked p' = []" by (simp_all add: p'_def)
  note R = refiningD [OF p1(2)]
  have "valid_partition n p'" using R(1) unfolding valid_partition_def f .
  moreover have "marks_listed p' (m_setsMarked p')" using R(2) unfolding marks_listed_def f .
  moreover have "\<not> is_marked p' e" if "e < n" for e using R(4) [OF that] unfolding is_marked_def f by simp
  ultimately have "unmarked n p'" by (simp add: unmarked_def)
  moreover have "refineGeneration callback p x = Some (p', x1)" using p1(1) by (simp add: refineGeneration_def p'_def)
  moreover have "\<forall>e<n. \<forall>f<n. setOf p' e = setOf p' f \<longrightarrow> (e \<in> M \<longleftrightarrow> f \<in> M)"
    unfolding f by (intro allI impI R(5)) simp_all
  moreover have "Inv (m_elementToSetMap p') (length (m_sets p')) x1" using p1(3) unfolding f .
  ultimately show ?thesis by (intro exI [of _ p'] exI [of _ x1] conjI)
qed

end
