(* ===== verification/Graph_Refinement.thy ===== *)
theory Graph_Refinement
  imports Partition_Refinement
begin

text \<open>
  Refining the nodes and the transitions of a graph against each other.  The invariant of the loop
  of \<^verbatim>\<open>splitByUniqueTransitions\<close> has two halves.  The transitions of one set have the same symbol and
  lead into the same set of nodes, and two nodes of one set that agree on the sets still to be
  processed agree on all of them: this is why the smaller part of a split set is enough.  On the other
  hand, nodes related by a bisimulation are never separated.
\<close>

subsection \<open>Graphs\<close>

record graph =
  gNodes :: nat
  gCount :: nat
  gSource :: "nat \<Rightarrow> nat"
  gTarget :: "nat \<Rightarrow> nat"
  gSymbol :: "nat \<Rightarrow> nat"

definition graph_ok :: "graph \<Rightarrow> full_graph \<Rightarrow> bool" where
  "graph_ok G g \<longleftrightarrow>
     gNodes G \<le> u32_max \<and> gCount G \<le> u32_max \<and>
     length (fgStartOffset g) = gNodes G \<and> length (fgSizePerNode g) = gNodes G \<and> length (fgTransitions g) = gCount G \<and>
     (\<forall>x<gCount G. fgTransitions g ! x = gSource G x \<and> gSource G x < gNodes G \<and> gTarget G x < gNodes G) \<and>
     (\<forall>v<gNodes G. \<forall>x. fgStartOffset g ! v \<le> x \<and> x < fgStartOffset g ! v + fgSizePerNode g ! v \<longleftrightarrow>
        x < gCount G \<and> gTarget G x = v) \<and>
     (\<forall>x<gCount G. \<forall>y<gCount G. gSource G x = gSource G y \<longrightarrow> gSymbol G x = gSymbol G y \<longrightarrow> x = y)"

lemma graph_okD:
  assumes "graph_ok G g"
  shows "gNodes G \<le> u32_max" "gCount G \<le> u32_max"
    "length (fgStartOffset g) = gNodes G" "length (fgSizePerNode g) = gNodes G" "length (fgTransitions g) = gCount G"
    "\<And>x. x < gCount G \<Longrightarrow> fgTransitions g ! x = gSource G x" "\<And>x. x < gCount G \<Longrightarrow> gSource G x < gNodes G"
    "\<And>x. x < gCount G \<Longrightarrow> gTarget G x < gNodes G"
    "\<And>v x. v < gNodes G \<Longrightarrow> fgStartOffset g ! v \<le> x \<and> x < fgStartOffset g ! v + fgSizePerNode g ! v \<longleftrightarrow> x < gCount G \<and> gTarget G x = v"
    "\<And>x y. x < gCount G \<Longrightarrow> y < gCount G \<Longrightarrow> gSource G x = gSource G y \<Longrightarrow> gSymbol G x = gSymbol G y \<Longrightarrow> x = y"
  using assms unfolding graph_ok_def by blast+

subsection \<open>Splitting the transitions into a set of nodes\<close>

definition refined_by :: "nat \<Rightarrow> nat set \<Rightarrow> nat list \<Rightarrow> nat \<Rightarrow> nat list \<Rightarrow> bool" where
  "refined_by n M S len S' \<longleftrightarrow>
     (\<forall>x<n. \<forall>y<n. S' ! x = S' ! y \<longleftrightarrow> S ! x = S ! y \<and> (x \<in> M \<longleftrightarrow> y \<in> M)) \<and>
     (\<forall>x<n. S' ! x \<noteq> S ! x \<longrightarrow> len \<le> S' ! x)"

lemma split_off_sets:
  assumes "split_off n M p X p'" "e < n" "f < n"
  shows "setOf p' e = setOf p' f \<longleftrightarrow> setOf p e = setOf p f \<and> (e \<in> X \<longleftrightarrow> f \<in> X)"
    "setOf p e = setOf p f \<Longrightarrow> (e \<in> M \<longleftrightarrow> f \<in> M) \<Longrightarrow> e \<in> X \<longleftrightarrow> f \<in> X"
    "e \<in> X \<Longrightarrow> f \<in> X \<Longrightarrow> setOf p e = setOf p f"
proof -
  have lt: "setOf p e < length (m_sets p)" "setOf p f < length (m_sets p)"
    using assms valid_partitionD(8) [of n p] by (auto simp: split_off_def)
  have so: "setOf p' e = (if e \<in> X then length (m_sets p) else setOf p e)" "setOf p' f = (if f \<in> X then length (m_sets p) else setOf p f)"
    using assms by (auto simp: split_off_def)
  obtain s where X: "X = {e. e < n \<and> setOf p e = s \<and> e \<in> M} \<or> X = {e. e < n \<and> setOf p e = s \<and> e \<notin> M}"
    using assms(1) unfolding split_off_def by blast
  show same: "e \<in> X \<Longrightarrow> f \<in> X \<Longrightarrow> setOf p e = setOf p f" using X by auto
  show "setOf p e = setOf p f \<Longrightarrow> (e \<in> M \<longleftrightarrow> f \<in> M) \<Longrightarrow> e \<in> X \<longleftrightarrow> f \<in> X" using X assms(2,3) by auto
  show "setOf p' e = setOf p' f \<longleftrightarrow> setOf p e = setOf p f \<and> (e \<in> X \<longleftrightarrow> f \<in> X)"
    using lt same unfolding so by auto
qed

text \<open>A refinement that calls nothing splits every set by the marks.\<close>

definition plain_inv :: "nat \<Rightarrow> nat set \<Rightarrow> nat list \<Rightarrow> nat \<Rightarrow> nat list \<Rightarrow> nat \<Rightarrow> bool" where
  "plain_inv n M S len S' l \<longleftrightarrow> len \<le> l \<and> (\<forall>x<n. \<forall>y<n. S' ! x = S' ! y \<longrightarrow> S ! x = S ! y) \<and>
     (\<forall>x<n. \<forall>y<n. S ! x = S ! y \<longrightarrow> (x \<in> M \<longleftrightarrow> y \<in> M) \<longrightarrow> S' ! x = S' ! y) \<and>
     (\<forall>x<n. S' ! x \<noteq> S ! x \<longrightarrow> len \<le> S' ! x)"

lemma plain_invD:
  assumes "plain_inv n M S len S' l"
  shows "len \<le> l" "\<And>x y. x < n \<Longrightarrow> y < n \<Longrightarrow> S' ! x = S' ! y \<Longrightarrow> S ! x = S ! y"
    "\<And>x y. x < n \<Longrightarrow> y < n \<Longrightarrow> S ! x = S ! y \<Longrightarrow> (x \<in> M \<longleftrightarrow> y \<in> M) \<Longrightarrow> S' ! x = S' ! y"
    "\<And>x. x < n \<Longrightarrow> S' ! x \<noteq> S ! x \<Longrightarrow> len \<le> S' ! x"
  using assms unfolding plain_inv_def by blast+

lemma plain_inv_step:
  assumes o: "split_off n M q X q'" and I: "plain_inv n M S len (m_elementToSetMap q) (length (m_sets q))"
  shows "plain_inv n M S len (m_elementToSetMap q') (length (m_sets q'))"
  unfolding plain_inv_def
proof (intro conjI allI impI)
  note D = plain_invD [OF I]
  show "len \<le> length (m_sets q')" using o D(1) by (simp add: split_off_def)
  fix x assume x: "x < n"
  have so: "setOf q' x = (if x \<in> X then length (m_sets q) else setOf q x)" using o x unfolding split_off_def by blast
  show "len \<le> setOf q' x" if "setOf q' x \<noteq> S ! x" using that D(1) D(4) [OF x] unfolding so by (cases "x \<in> X") simp_all
  fix y assume y: "y < n"
  show "S ! x = S ! y" if "setOf q' x = setOf q' y" using split_off_sets(1) [OF o x y] that D(2) [OF x y] by simp
  show "setOf q' x = setOf q' y" if "S ! x = S ! y" "x \<in> M \<longleftrightarrow> y \<in> M"
    using split_off_sets(1,2) [OF o x y] D(3) [OF x y that] that(2) by simp
qed

lemma refine_plain:
  assumes v: "valid_partition n p" "marks_listed p (m_setsMarked p)" and M: "\<And>e. e < n \<Longrightarrow> is_marked p e \<longleftrightarrow> e \<in> M"
  shows "\<exists>p'. map_option fst (refineGeneration (\<lambda>i q x. Some x) p ()) = Some p' \<and> unmarked n p' \<and>
    length (m_sets p) \<le> length (m_sets p') \<and> refined_by n M (m_elementToSetMap p) (length (m_sets p)) (m_elementToSetMap p')"
proof -
  define S where "S = m_elementToSetMap p"
  define len where "len = length (m_sets p)"
  define M' where "M' = {e. e < n \<and> is_marked p e}"
  have "plain_inv n M' S len (m_elementToSetMap p) (length (m_sets p))" by (simp add: plain_inv_def S_def len_def)
  then have "\<exists>p' x'. refineGeneration (\<lambda>i q x. Some x) p () = Some (p', x') \<and> unmarked n p' \<and>
      (\<forall>e<n. \<forall>f<n. setOf p' e = setOf p' f \<longrightarrow> (e \<in> M' \<longleftrightarrow> f \<in> M')) \<and>
      plain_inv n M' S len (m_elementToSetMap p') (length (m_sets p'))"
    by (rule refineGeneration_rule [OF v M'_def, where Inv = "\<lambda>S' l x. plain_inv n M' S len S' l"])
       (auto intro: plain_inv_step)
  then obtain p' where p': "refineGeneration (\<lambda>i q x. Some x) p () = Some (p', ())" "unmarked n p'"
    "\<And>e f. e < n \<Longrightarrow> f < n \<Longrightarrow> setOf p' e = setOf p' f \<Longrightarrow> e \<in> M' \<longleftrightarrow> f \<in> M'"
    "plain_inv n M' S len (m_elementToSetMap p') (length (m_sets p'))" by (metis (full_types) unit.exhaust)
  note D = plain_invD [OF p'(4)]
  have eq: "e \<in> M' \<longleftrightarrow> e \<in> M" if "e < n" for e using that M by (simp add: M'_def)
  have "setOf p' x = setOf p' y \<longleftrightarrow> S ! x = S ! y \<and> (x \<in> M \<longleftrightarrow> y \<in> M)" if "x < n" "y < n" for x y
    using p'(3) [OF that] D(2) [OF that] D(3) [OF that] eq [OF that(1)] eq [OF that(2)] by metis
  then have "refined_by n M S len (m_elementToSetMap p')" unfolding refined_by_def using D(4) by blast
  then show ?thesis using p'(1,2) D(1) by (simp add: S_def len_def)
qed

lemma mark_incoming_list:
  assumes "graph_ok G g" "v < gNodes G"
  shows "mark_incoming g v p = fold_option markElementInCurrentGeneration (map (\<lambda>i. fgStartOffset g ! v + i) [0 ..< fgSizePerNode g ! v]) p"
  using graph_okD(3,4) [OF assms(1)] assms(2) by (simp add: mark_incoming_def fold_option_map)

lemma incoming_list:
  assumes "graph_ok G g" "v < gNodes G"
  shows "set (map (\<lambda>i. fgStartOffset g ! v + i) [0 ..< fgSizePerNode g ! v]) = {x. x < gCount G \<and> gTarget G x = v}"
proof -
  have "(\<lambda>i. fgStartOffset g ! v + i) ` {0 ..< fgSizePerNode g ! v} = {fgStartOffset g ! v ..< fgStartOffset g ! v + fgSizePerNode g ! v}"
    using image_add_atLeastLessThan [of "fgStartOffset g ! v" 0 "fgSizePerNode g ! v"] by (simp add: add.commute)
  also have "\<dots> = {x. x < gCount G \<and> gTarget G x = v}"
    by (intro set_eqI) (simp only: atLeastLessThan_iff mem_Collect_eq graph_okD(9) [OF assms])
  finally show ?thesis by simp
qed

lemma distinct_concat_incoming:
  assumes "graph_ok G g" "distinct vs" "set vs \<subseteq> {..<gNodes G}"
  shows "distinct (concat (map (\<lambda>v. map (\<lambda>i. fgStartOffset g ! v + i) [0 ..< fgSizePerNode g ! v]) vs))"
  using assms(2,3)
proof (induction vs)
  case (Cons v vs)
  let ?in = "\<lambda>v. map (\<lambda>i. fgStartOffset g ! v + i) [0 ..< fgSizePerNode g ! v]"
  have in_set: "set (?in u) = {x. x < gCount G \<and> gTarget G x = u}" if "u \<in> set (v # vs)" for u
    using that Cons.prems(2) by (intro incoming_list [OF assms(1)]) auto
  have "set (?in v) \<inter> (\<Union>u\<in>set vs. set (?in u)) = {}" using in_set Cons.prems(1) by auto
  then show ?case using Cons by (auto simp: distinct_map inj_on_def)
qed simp

lemma split_transitions_refines:
  assumes g: "graph_ok G g" and o: "split_off (gNodes G) M p X p'" and q: "unmarked (gCount G) q"
  shows "\<exists>q'. split_transitions g (length (m_sets p)) p' q = Some q' \<and> unmarked (gCount G) q' \<and>
    length (m_sets q) \<le> length (m_sets q') \<and> refined_by (gCount G) {x. gTarget G x \<in> X} (m_elementToSetMap q) (length (m_sets q)) (m_elementToSetMap q')"
proof -
  let ?in = "\<lambda>v. map (\<lambda>i. fgStartOffset g ! v + i) [0 ..< fgSizePerNode g ! v]"
  define vs where "vs = elements_of p' (length (m_sets p))"
  have p': "valid_partition (gNodes G) p'" "length (m_sets p) < length (m_sets p')" using o by (simp_all add: split_off_def)
  have XN: "X \<subseteq> {..<gNodes G}" using o unfolding split_off_def by blast
  have lt: "setOf p e < length (m_sets p)" if "e < gNodes G" for e
    using o that valid_partitionD(8) by (auto simp: split_off_def)
  have so: "setOf p' e = (if e \<in> X then length (m_sets p) else setOf p e)" if "e < gNodes G" for e
    using o that by (simp add: split_off_def)
  have "setOf p' e = length (m_sets p) \<longleftrightarrow> e \<in> X" if "e < gNodes G" for e using so [OF that] lt [OF that] by simp
  then have vs: "set vs = X" "distinct vs" using elements_of_set [OF p'] XN by (auto simp: vs_def)
  have in_set: "set (?in v) = {x. x < gCount G \<and> gTarget G x = v}" if "v \<in> X" for v
    using that XN by (intro incoming_list [OF g]) auto
  define es where "es = concat (map ?in vs)"
  have es: "set es = {x. x < gCount G \<and> gTarget G x \<in> X}" "distinct es"
    using in_set vs(1) distinct_concat_incoming [OF g vs(2)] XN by (auto simp: es_def)
  have "fold_option (mark_incoming g) vs q = fold_option (\<lambda>v. fold_option markElementInCurrentGeneration (?in v)) vs q"
    using mark_incoming_list [OF g] vs(1) XN by (intro fold_option_cong) auto
  also have "\<dots> = fold_option markElementInCurrentGeneration es q" unfolding es_def by (rule fold_option_concat)
  finally have it: "iterateSet (length (m_sets p)) p' (mark_incoming g) q = fold_option markElementInCurrentGeneration es q"
    unfolding vs_def by (simp add: iterateSet_elements [OF p'])
  obtain q1 where q1: "fold_option markElementInCurrentGeneration es q = Some q1" "adds_marks (gCount G) q (set es) q1"
    using mark_all [OF _ graph_okD(2) [OF g], of q es] q es by (auto simp: unmarked_def)
  have "is_marked q1 e \<longleftrightarrow> e \<in> {x. gTarget G x \<in> X}" if "e < gCount G" for e
    using q1(2) q that by (simp add: adds_marks_def unmarked_def es(1))
  then show ?thesis using refine_plain [of "gCount G" q1 "{x. gTarget G x \<in> X}"] q1
    by (auto simp: split_transitions_def it adds_marks_def)
qed

subsection \<open>The invariant\<close>

definition agree :: "graph \<Rightarrow> nat list \<Rightarrow> nat \<Rightarrow> nat \<Rightarrow> nat \<Rightarrow> bool" where
  "agree G T j u v \<longleftrightarrow>
     (\<exists>x<gCount G. T ! x = j \<and> gSource G x = u) = (\<exists>x<gCount G. T ! x = j \<and> gSource G x = v)"

definition graph_bisim :: "graph \<Rightarrow> (nat \<Rightarrow> nat \<Rightarrow> bool) \<Rightarrow> bool" where
  "graph_bisim G E \<longleftrightarrow>
     (\<forall>u v. E u v \<longrightarrow> u < gNodes G \<and> v < gNodes G \<and> E v u) \<and>
     (\<forall>u v x. E u v \<longrightarrow> x < gCount G \<longrightarrow> gSource G x = u \<longrightarrow>
        (\<exists>y<gCount G. gSource G y = v \<and> gSymbol G y = gSymbol G x \<and> E (gTarget G x) (gTarget G y)))"

definition class_closed :: "(nat \<Rightarrow> nat \<Rightarrow> bool) \<Rightarrow> nat set \<Rightarrow> bool" where
  "class_closed E M \<longleftrightarrow> (\<forall>u v. E u v \<longrightarrow> (u \<in> M \<longleftrightarrow> v \<in> M))"

definition ginv :: "graph \<Rightarrow> (nat \<Rightarrow> nat \<Rightarrow> bool) \<Rightarrow> nat \<Rightarrow> nat set \<Rightarrow> nat list \<Rightarrow> nat list \<Rightarrow> bool" where
  "ginv G E k M N T \<longleftrightarrow>
     (\<forall>u v. E u v \<longrightarrow> N ! u = N ! v) \<and>
     (\<forall>x<gCount G. \<forall>y<gCount G. gSymbol G x = gSymbol G y \<longrightarrow> E (gTarget G x) (gTarget G y) \<longrightarrow> T ! x = T ! y) \<and>
     (\<forall>x<gCount G. \<forall>y<gCount G. T ! x = T ! y \<longrightarrow> gSymbol G x = gSymbol G y \<and> N ! gTarget G x = N ! gTarget G y) \<and>
     (\<forall>u<gNodes G. \<forall>v<gNodes G. N ! u = N ! v \<longrightarrow> (u \<in> M \<longleftrightarrow> v \<in> M) \<longrightarrow> (\<forall>j\<ge>k. agree G T j u v) \<longrightarrow> (\<forall>j. agree G T j u v))"

lemma ginvD:
  assumes "ginv G E k M N T"
  shows "\<And>u v. E u v \<Longrightarrow> N ! u = N ! v"
    "\<And>x y. x < gCount G \<Longrightarrow> y < gCount G \<Longrightarrow> gSymbol G x = gSymbol G y \<Longrightarrow> E (gTarget G x) (gTarget G y) \<Longrightarrow> T ! x = T ! y"
    "\<And>x y. x < gCount G \<Longrightarrow> y < gCount G \<Longrightarrow> T ! x = T ! y \<Longrightarrow> gSymbol G x = gSymbol G y"
    "\<And>x y. x < gCount G \<Longrightarrow> y < gCount G \<Longrightarrow> T ! x = T ! y \<Longrightarrow> N ! gTarget G x = N ! gTarget G y"
    "\<And>u v j. u < gNodes G \<Longrightarrow> v < gNodes G \<Longrightarrow> N ! u = N ! v \<Longrightarrow> (u \<in> M \<longleftrightarrow> v \<in> M) \<Longrightarrow>
       (\<And>j. k \<le> j \<Longrightarrow> agree G T j u v) \<Longrightarrow> agree G T j u v"
  using assms unfolding ginv_def by blast+

lemma agree_commute: "agree G T j u v \<longleftrightarrow> agree G T j v u"
  by (auto simp: agree_def)

lemma refined_byD:
  assumes "refined_by n M S len S'" "x < n" "y < n"
  shows "S' ! x = S' ! y \<longleftrightarrow> S ! x = S ! y \<and> (x \<in> M \<longleftrightarrow> y \<in> M)" "S' ! x \<noteq> S ! x \<Longrightarrow> len \<le> S' ! x"
  using assms unfolding refined_by_def by blast+

text \<open>Agreement on the unprocessed sets after a refinement implies it before.\<close>

lemma agree_coarser:
  assumes r: "refined_by (gCount G) M T len T'" and k: "k \<le> j" "k \<le> len"
    and ag: "\<And>j. k \<le> j \<Longrightarrow> agree G T' j u v"
  shows "agree G T j u v"
proof -
  have half: "\<exists>y<gCount G. T ! y = j \<and> gSource G y = v'"
    if x: "x < gCount G" "T ! x = j" "gSource G x = u'" and ag': "\<And>j. k \<le> j \<Longrightarrow> agree G T' j u' v'" for x u' v'
  proof -
    have "k \<le> T' ! x" using refined_byD(2) [OF r x(1) x(1)] x(2) k by (cases "T' ! x = T ! x") auto
    then obtain y where y: "y < gCount G" "T' ! y = T' ! x" "gSource G y = v'"
      using ag' [of "T' ! x"] x unfolding agree_def by blast
    then show ?thesis using refined_byD(1) [OF r y(1) x(1)] x(2) by blast
  qed
  have ag2: "\<And>j. k \<le> j \<Longrightarrow> agree G T' j v u" using ag agree_commute by blast
  show ?thesis unfolding agree_def using half [OF _ _ _ ag] half [OF _ _ _ ag2] by blast
qed

text \<open>
  A processed set that loses a part keeps its sources apart from those of the part, because a node
  has at most one transition for a symbol.
\<close>

lemma agree_finer:
  assumes g: "graph_ok G g" and r: "refined_by (gCount G) M T len T'" and k: "k \<le> len"
    and sym: "\<And>x y. x < gCount G \<Longrightarrow> y < gCount G \<Longrightarrow> T ! x = T ! y \<Longrightarrow> gSymbol G x = gSymbol G y"
    and ag: "\<And>j. k \<le> j \<Longrightarrow> agree G T' j u v" and old: "\<And>j. agree G T j u v"
  shows "agree G T' j u v"
proof -
  have half: "\<exists>y<gCount G. T' ! y = j \<and> gSource G y = v'"
    if x: "x < gCount G" "T' ! x = j" "gSource G x = u'" "j < k"
      and ag': "\<And>j. k \<le> j \<Longrightarrow> agree G T' j v' u'" and old': "\<And>j. agree G T j u' v'" for x u' v'
  proof -
    have j: "T ! x = j" using refined_byD(2) [OF r x(1) x(1)] x(2,4) k by (cases "T' ! x = T ! x") auto
    obtain y where y: "y < gCount G" "T ! y = j" "gSource G y = v'"
      using old' [of j] x(1,3) j unfolding agree_def by blast
    show ?thesis
    proof (cases "T' ! y = j")
      case False
      then have "k \<le> T' ! y" using refined_byD(2) [OF r y(1) y(1)] y(2) k by (cases "T' ! y = T ! y") auto
      then obtain z where z: "z < gCount G" "T' ! z = T' ! y" "gSource G z = u'"
        using ag' [of "T' ! y"] y unfolding agree_def by blast
      then have "T ! z = j" using refined_byD(1) [OF r z(1) y(1)] y(2) by blast
      then have "z = x" using graph_okD(10) [OF g z(1) x(1)] sym [OF z(1) x(1)] z(3) x(3) j by simp
      then show ?thesis using z(2) x(2) False by simp
    qed (use y in blast)
  qed
  have ag2: "\<And>j. k \<le> j \<Longrightarrow> agree G T' j v u" and old2: "\<And>j. agree G T j v u" using ag old agree_commute by blast+
  show ?thesis
  proof (cases "k \<le> j")
    case False
    then have lt: "j < k" by simp
    show ?thesis unfolding agree_def
    proof
      assume "\<exists>x<gCount G. T' ! x = j \<and> gSource G x = u"
      then show "\<exists>x<gCount G. T' ! x = j \<and> gSource G x = v" using half [OF _ _ _ lt ag2 old] by blast
    next
      assume "\<exists>x<gCount G. T' ! x = j \<and> gSource G x = v"
      then show "\<exists>x<gCount G. T' ! x = j \<and> gSource G x = u" using half [OF _ _ _ lt ag old2] by blast
    qed
  qed (rule ag)
qed

lemma ginv_split:
  assumes g: "graph_ok G g" and I: "ginv G E k M N T" and k: "k \<le> len"
    and N: "\<And>u v. u < gNodes G \<Longrightarrow> v < gNodes G \<Longrightarrow> N' ! u = N' ! v \<longleftrightarrow> N ! u = N ! v \<and> (u \<in> X \<longleftrightarrow> v \<in> X)"
    and E: "class_closed E X" "\<And>u v. E u v \<Longrightarrow> u < gNodes G \<and> v < gNodes G"
    and r: "refined_by (gCount G) {x. gTarget G x \<in> X} T len T'"
  shows "ginv G E k M N' T'"
  unfolding ginv_def
proof (intro conjI allI impI)
  note D = ginvD [OF I]
  show "N' ! u = N' ! v" if "E u v" for u v
    using N E(2) [OF that] D(1) [OF that] E(1) that unfolding class_closed_def by blast
  fix x y assume x: "x < gCount G" and y: "y < gCount G"
  show "T' ! x = T' ! y" if "gSymbol G x = gSymbol G y" "E (gTarget G x) (gTarget G y)"
    using refined_byD(1) [OF r x y] D(2) [OF x y that] E(1) that(2) unfolding class_closed_def by blast
  show "gSymbol G x = gSymbol G y" if "T' ! x = T' ! y"
    using refined_byD(1) [OF r x y] D(3) [OF x y] that by blast
  show "N' ! gTarget G x = N' ! gTarget G y" if "T' ! x = T' ! y"
    using refined_byD(1) [OF r x y] D(4) [OF x y] that N [OF graph_okD(8) [OF g x] graph_okD(8) [OF g y]] by simp
next
  note D = ginvD [OF I]
  fix u v j assume u: "u < gNodes G" "v < gNodes G" and eq: "N' ! u = N' ! v" and M: "u \<in> M \<longleftrightarrow> v \<in> M"
    and ag: "\<forall>j\<ge>k. agree G T' j u v"
  have eq': "N ! u = N ! v" using eq N [OF u] by blast
  have "agree G T j u v" if "k \<le> j" for j using agree_coarser [OF r that k] ag by blast
  then have old: "agree G T j u v" for j using D(5) [OF u eq' M] by blast
  show "agree G T' j u v" by (rule agree_finer [OF g r k D(3) _ old]) (use ag in auto)
qed

subsection \<open>One refinement of both partitions\<close>

lemma split_off_closed:
  assumes o: "split_off (gNodes G) M p X p'" and E: "class_closed E M" "\<And>u v. E u v \<Longrightarrow> u < gNodes G \<and> v < gNodes G"
    and N: "\<And>u v. E u v \<Longrightarrow> setOf p u = setOf p v"
  shows "class_closed E X"
  unfolding class_closed_def
proof (intro allI impI)
  fix u v assume e: "E u v"
  show "u \<in> X \<longleftrightarrow> v \<in> X"
    using split_off_sets(2) [OF o, of u v] E(2) [OF e] N [OF e] E(1) e unfolding class_closed_def by blast
qed

definition pair_inv :: "graph \<Rightarrow> (nat \<Rightarrow> nat \<Rightarrow> bool) \<Rightarrow> nat \<Rightarrow> nat set \<Rightarrow> nat list \<Rightarrow> nat \<Rightarrow> nat list \<Rightarrow> nat \<Rightarrow> Partition \<Rightarrow> bool" where
  "pair_inv G E k M N0 len0 N l q \<longleftrightarrow> unmarked (gCount G) q \<and> k \<le> length (m_sets q) \<and> len0 \<le> length (m_sets q) \<and>
     ginv G E k M N (m_elementToSetMap q) \<and> (\<forall>u<gNodes G. \<forall>v<gNodes G. N ! u = N ! v \<longrightarrow> N0 ! u = N0 ! v)"

lemma pair_inv_step:
  assumes g: "graph_ok G g" and b: "graph_bisim G E" and M: "class_closed E M"
    and o: "split_off (gNodes G) M p X p'" and I: "pair_inv G E k M N0 len0 (m_elementToSetMap p) (length (m_sets p)) q"
  shows "\<exists>q'. split_transitions g (length (m_sets p)) p' q = Some q' \<and>
    pair_inv G E k M N0 len0 (m_elementToSetMap p') (length (m_sets p')) q'"
proof -
  have q: "unmarked (gCount G) q" "k \<le> length (m_sets q)" "len0 \<le> length (m_sets q)" "ginv G E k M (m_elementToSetMap p) (m_elementToSetMap q)"
    "\<And>u v. u < gNodes G \<Longrightarrow> v < gNodes G \<Longrightarrow> setOf p u = setOf p v \<Longrightarrow> N0 ! u = N0 ! v"
    using I unfolding pair_inv_def by blast+
  obtain q' where q': "split_transitions g (length (m_sets p)) p' q = Some q'" "unmarked (gCount G) q'" "length (m_sets q) \<le> length (m_sets q')"
    "refined_by (gCount G) {x. gTarget G x \<in> X} (m_elementToSetMap q) (length (m_sets q)) (m_elementToSetMap q')"
    using split_transitions_refines [OF g o q(1)] by blast
  have E: "u < gNodes G \<and> v < gNodes G" if "E u v" for u v using b that unfolding graph_bisim_def by blast
  have "class_closed E X" by (rule split_off_closed [OF o M E ginvD(1) [OF q(4)]])
  then have "ginv G E k M (m_elementToSetMap p') (m_elementToSetMap q')"
    using split_off_sets(1) [OF o] E by (intro ginv_split [OF g q(4,2) _ _ _ q'(4)])
  moreover have "N0 ! u = N0 ! v" if "u < gNodes G" "v < gNodes G" "setOf p' u = setOf p' v" for u v
    using split_off_sets(1) [OF o that(1,2)] q(5) that by blast
  ultimately show ?thesis using q(2,3) q'(1-3) unfolding pair_inv_def by (meson order_trans)
qed

lemma ginv_marks_used:
  assumes "ginv G E k M N T" "\<And>u v. u < gNodes G \<Longrightarrow> v < gNodes G \<Longrightarrow> N ! u = N ! v \<Longrightarrow> u \<in> M \<longleftrightarrow> v \<in> M"
  shows "ginv G E k {} N T"
  using assms unfolding ginv_def by blast

lemma refinePartitions_inv:
  assumes g: "graph_ok G g" and b: "graph_bisim G E" and M: "class_closed E M"
    and p: "valid_partition (gNodes G) (fgNodePartition g)" "marks_listed (fgNodePartition g) (m_setsMarked (fgNodePartition g))"
      "M = {u. u < gNodes G \<and> is_marked (fgNodePartition g) u}"
    and q: "unmarked (gCount G) (fgTransitionPartition g)" "k \<le> length (m_sets (fgTransitionPartition g))"
    and I: "ginv G E k M (m_elementToSetMap (fgNodePartition g)) (m_elementToSetMap (fgTransitionPartition g))"
  shows "\<exists>p' q'. refinePartitions g = Some (g\<lparr>fgNodePartition := p', fgTransitionPartition := q'\<rparr>) \<and>
    unmarked (gNodes G) p' \<and> unmarked (gCount G) q' \<and> length (m_sets (fgTransitionPartition g)) \<le> length (m_sets q') \<and>
    ginv G E k {} (m_elementToSetMap p') (m_elementToSetMap q') \<and>
    (\<forall>u<gNodes G. \<forall>v<gNodes G. setOf p' u = setOf p' v \<longrightarrow> setOf (fgNodePartition g) u = setOf (fgNodePartition g) v \<and> (u \<in> M \<longleftrightarrow> v \<in> M))"
proof -
  define N0 where "N0 = m_elementToSetMap (fgNodePartition g)"
  define len0 where "len0 = length (m_sets (fgTransitionPartition g))"
  have "pair_inv G E k M N0 len0 (m_elementToSetMap (fgNodePartition g)) (length (m_sets (fgNodePartition g))) (fgTransitionPartition g)"
    using q I unfolding pair_inv_def N0_def len0_def by simp
  then have "\<exists>p' q'. refineGeneration (split_transitions g) (fgNodePartition g) (fgTransitionPartition g) = Some (p', q') \<and>
      unmarked (gNodes G) p' \<and> (\<forall>u<gNodes G. \<forall>v<gNodes G. setOf p' u = setOf p' v \<longrightarrow> (u \<in> M \<longleftrightarrow> v \<in> M)) \<and>
      pair_inv G E k M N0 len0 (m_elementToSetMap p') (length (m_sets p')) q'"
    by (rule refineGeneration_rule [OF p, where Inv = "pair_inv G E k M N0 len0"]) (rule pair_inv_step [OF g b M])
  then obtain p' q' where r: "refineGeneration (split_transitions g) (fgNodePartition g) (fgTransitionPartition g) = Some (p', q')"
    "unmarked (gNodes G) p'" "\<And>u v. u < gNodes G \<Longrightarrow> v < gNodes G \<Longrightarrow> setOf p' u = setOf p' v \<Longrightarrow> u \<in> M \<longleftrightarrow> v \<in> M"
    and P: "pair_inv G E k M N0 len0 (m_elementToSetMap p') (length (m_sets p')) q'" by blast
  have P': "unmarked (gCount G) q'" "len0 \<le> length (m_sets q')" "ginv G E k M (m_elementToSetMap p') (m_elementToSetMap q')"
    "\<And>u v. u < gNodes G \<Longrightarrow> v < gNodes G \<Longrightarrow> setOf p' u = setOf p' v \<Longrightarrow> N0 ! u = N0 ! v"
    using P unfolding pair_inv_def by blast+
  have "ginv G E k {} (m_elementToSetMap p') (m_elementToSetMap q')" by (rule ginv_marks_used [OF P'(3) r(3)])
  moreover have "refinePartitions g = Some (g\<lparr>fgNodePartition := p', fgTransitionPartition := q'\<rparr>)"
    by (simp add: refinePartitions_def r(1))
  ultimately show ?thesis using r(2,3) P'(1,2,4) unfolding N0_def len0_def by blast
qed

subsection \<open>The loop over the splitters\<close>

definition graph_state :: "graph \<Rightarrow> (nat \<Rightarrow> nat \<Rightarrow> bool) \<Rightarrow> full_graph \<Rightarrow> bool" where
  "graph_state G E g \<longleftrightarrow> graph_ok G g \<and> unmarked (gNodes G) (fgNodePartition g) \<and> unmarked (gCount G) (fgTransitionPartition g) \<and>
     fgNextTransitionSet g \<le> length (m_sets (fgTransitionPartition g)) \<and>
     ginv G E (fgNextTransitionSet g) {} (m_elementToSetMap (fgNodePartition g)) (m_elementToSetMap (fgTransitionPartition g))"

definition finer :: "graph \<Rightarrow> full_graph \<Rightarrow> full_graph \<Rightarrow> bool" where
  "finer G g g' \<longleftrightarrow> (\<forall>u<gNodes G. \<forall>v<gNodes G.
     setOf (fgNodePartition g') u = setOf (fgNodePartition g') v \<longrightarrow> setOf (fgNodePartition g) u = setOf (fgNodePartition g) v)"

lemma finer_next: "finer G g (g'\<lparr>fgNextTransitionSet := k\<rparr>) = finer G g g'"
  by (simp add: finer_def)

lemma finer_refl: "finer G g g"
  by (simp add: finer_def)

lemma graph_ok_partitions [simp]:
  "graph_ok G (g\<lparr>fgNodePartition := p\<rparr>) = graph_ok G g" "graph_ok G (g\<lparr>fgTransitionPartition := q\<rparr>) = graph_ok G g"
  "graph_ok G (g\<lparr>fgNextTransitionSet := k\<rparr>) = graph_ok G g"
  by (simp_all add: graph_ok_def)

lemma mark_and_refine:
  assumes s: "graph_state G E g" and b: "graph_bisim G E" and es: "distinct es" "set es \<subseteq> {..<gNodes G}" "class_closed E (set es)"
    and k: "k \<le> length (m_sets (fgTransitionPartition g))"
      "ginv G E k (set es) (m_elementToSetMap (fgNodePartition g)) (m_elementToSetMap (fgTransitionPartition g))"
  shows "\<exists>p g'. fold_option markElementInCurrentGeneration es (fgNodePartition g) = Some p \<and>
    refinePartitions (g\<lparr>fgNodePartition := p\<rparr>) = Some g' \<and> graph_state G E (g'\<lparr>fgNextTransitionSet := k\<rparr>) \<and> finer G g g' \<and>
    fgNextTransitionSet g' = fgNextTransitionSet g \<and>
    (\<forall>u<gNodes G. \<forall>v<gNodes G. setOf (fgNodePartition g') u = setOf (fgNodePartition g') v \<longrightarrow> (u \<in> set es \<longleftrightarrow> v \<in> set es))"
proof -
  have S: "graph_ok G g" "unmarked (gNodes G) (fgNodePartition g)" "unmarked (gCount G) (fgTransitionPartition g)"
    using s by (simp_all add: graph_state_def)
  obtain p where p: "fold_option markElementInCurrentGeneration es (fgNodePartition g) = Some p" "adds_marks (gNodes G) (fgNodePartition g) (set es) p"
    using mark_all [OF _ graph_okD(1) [OF S(1)] _ es(1), of "fgNodePartition g"] S(2) es(2) by (auto simp: unmarked_def)
  have sets: "m_elementToSetMap p = m_elementToSetMap (fgNodePartition g)" "valid_partition (gNodes G) p" "marks_listed p (m_setsMarked p)"
    and marks: "set es = {u. u < gNodes G \<and> is_marked p u}"
    using p(2) S(2) es(2) by (auto simp: adds_marks_def unmarked_def)
  define h where "h = g\<lparr>fgNodePartition := p\<rparr>"
  have h: "fgNodePartition h = p" "fgTransitionPartition h = fgTransitionPartition g" "graph_ok G h = graph_ok G g"
    "\<And>p' q'. h\<lparr>fgNodePartition := p', fgTransitionPartition := q'\<rparr> = g\<lparr>fgNodePartition := p', fgTransitionPartition := q'\<rparr>"
    by (simp_all add: h_def)
  obtain p' q' where r: "refinePartitions (g\<lparr>fgNodePartition := p\<rparr>) = Some (g\<lparr>fgNodePartition := p', fgTransitionPartition := q'\<rparr>)"
    "unmarked (gNodes G) p'" "unmarked (gCount G) q'" "length (m_sets (fgTransitionPartition g)) \<le> length (m_sets q')"
    "ginv G E k {} (m_elementToSetMap p') (m_elementToSetMap q')"
    "\<forall>u<gNodes G. \<forall>v<gNodes G. setOf p' u = setOf p' v \<longrightarrow> setOf (fgNodePartition g) u = setOf (fgNodePartition g) v \<and> (u \<in> set es \<longleftrightarrow> v \<in> set es)"
    using refinePartitions_inv [of G h E "set es" k, unfolded h sets(1), OF S(1) b es(3) sets(2,3) marks S(3) k] unfolding h_def by blast
  define g' where "g' = g\<lparr>fgNodePartition := p', fgTransitionPartition := q'\<rparr>"
  have "graph_state G E (g'\<lparr>fgNextTransitionSet := k\<rparr>)" using S(1) r(2-5) k(1) by (simp add: graph_state_def g'_def)
  moreover have f: "fgNodePartition g' = p'" by (simp add: g'_def)
  have "finer G g g'" "\<forall>u<gNodes G. \<forall>v<gNodes G. setOf (fgNodePartition g') u = setOf (fgNodePartition g') v \<longrightarrow> (u \<in> set es \<longleftrightarrow> v \<in> set es)"
    unfolding finer_def f using r(6) by blast+
  moreover have "fgNextTransitionSet g' = fgNextTransitionSet g" by (simp add: g'_def)
  ultimately show ?thesis using p(1) r(1) [folded g'_def] by (intro exI [of _ p] exI [of _ g'] conjI)
qed

lemma split_step_inv:
  assumes s: "graph_state G E g" and b: "graph_bisim G E" and k: "fgNextTransitionSet g < length (m_sets (fgTransitionPartition g))"
  shows "\<exists>g'. split_step g = Some g' \<and> graph_state G E g' \<and> finer G g g' \<and> fgNextTransitionSet g' = Suc (fgNextTransitionSet g)"
proof -
  define j where "j = fgNextTransitionSet g"
  define q where "q = fgTransitionPartition g"
  define xs where "xs = elements_of q j"
  define es where "es = map (gSource G) xs"
  have S: "graph_ok G g" "unmarked (gCount G) q" "ginv G E j {} (m_elementToSetMap (fgNodePartition g)) (m_elementToSetMap q)"
    using s by (simp_all add: graph_state_def q_def j_def)
  have v: "valid_partition (gCount G) q" "j < length (m_sets q)" using S(2) k by (simp_all add: unmarked_def q_def j_def)
  have xs: "set xs = {x. x < gCount G \<and> setOf q x = j}" "distinct xs" unfolding xs_def by (rule elements_of_set [OF v])+
  have "inj_on (gSource G) (set xs)"
  proof (rule inj_onI)
    fix x y assume "x \<in> set xs" "y \<in> set xs" and eq: "gSource G x = gSource G y"
    then have xy: "x < gCount G" "y < gCount G" "setOf q x = setOf q y" unfolding xs(1) by simp_all
    show "x = y" by (rule graph_okD(10) [OF S(1) xy(1,2) eq ginvD(3) [OF S(3) xy]])
  qed
  then have es: "distinct es" "set es \<subseteq> {..<gNodes G}" using xs graph_okD(7) [OF S(1)] by (auto simp: es_def distinct_map)
  have mem: "u \<in> set es \<longleftrightarrow> (\<exists>x<gCount G. setOf q x = j \<and> gSource G x = u)" for u by (auto simp: es_def xs(1))
  have "\<exists>y<gCount G. setOf q y = j \<and> gSource G y = v" if uv: "E u v" and x: "x < gCount G" "setOf q x = j" "gSource G x = u" for u v x
  proof -
    obtain y where "y < gCount G" "gSource G y = v" "gSymbol G y = gSymbol G x" "E (gTarget G x) (gTarget G y)"
      using b uv x(1,3) unfolding graph_bisim_def by blast
    then show ?thesis using ginvD(2) [OF S(3) x(1), of y] x(2) by auto
  qed
  moreover have "E v u" if "E u v" for u v using b that unfolding graph_bisim_def by blast
  ultimately have cl: "class_closed E (set es)" unfolding class_closed_def mem by blast
  have "agree G (m_elementToSetMap q) i u v"
    if "u \<in> set es \<longleftrightarrow> v \<in> set es" "\<forall>i\<ge>Suc j. agree G (m_elementToSetMap q) i u v" "j \<le> i" for u v i
  proof (cases "i = j")
    case True
    then show ?thesis using that(1) unfolding mem agree_def by (simp only:)
  next
    case False
    then have "Suc j \<le> i" using that(3) by simp
    then show ?thesis using that(2) by blast
  qed
  then have gi: "ginv G E (Suc j) (set es) (m_elementToSetMap (fgNodePartition g)) (m_elementToSetMap q)"
    using S(3) unfolding ginv_def by blast
  have "Suc j \<le> length (m_sets q)" using v(2) by simp
  then obtain p g' where r: "fold_option markElementInCurrentGeneration es (fgNodePartition g) = Some p"
    "refinePartitions (g\<lparr>fgNodePartition := p\<rparr>) = Some g'" "graph_state G E (g'\<lparr>fgNextTransitionSet := Suc j\<rparr>)" "finer G g g'"
    "fgNextTransitionSet g' = j"
    using mark_and_refine [OF s b es cl, folded q_def, OF _ gi] unfolding j_def by blast
  have "iterateSet j q (mark_source g) (fgNodePartition g) = fold_option (mark_source g) xs (fgNodePartition g)"
    unfolding xs_def by (rule iterateSet_elements [OF v])
  also have "\<dots> = fold_option (\<lambda>x. markElementInCurrentGeneration (gSource G x)) xs (fgNodePartition g)"
    using graph_okD(5,6) [OF S(1)] xs(1) by (intro fold_option_cong) (auto simp: mark_source_def)
  also have "\<dots> = Some p" using r(1) unfolding es_def fold_option_map .
  finally have "split_step g = Some (g'\<lparr>fgNextTransitionSet := Suc j\<rparr>)" using r(2,5) unfolding split_step_def j_def q_def by simp
  moreover have "finer G g (g'\<lparr>fgNextTransitionSet := Suc j\<rparr>)" using r(4) unfolding finer_next .
  moreover have "fgNextTransitionSet (g'\<lparr>fgNextTransitionSet := Suc j\<rparr>) = Suc j" by simp
  ultimately show ?thesis using r(3) unfolding j_def by blast
qed

lemma sets_bounded:
  assumes "valid_partition n p"
  shows "length (m_sets p) \<le> n"
proof -
  note V = valid_partitionD [OF assms]
  have "inj_on (\<lambda>s. elementAt p (sdStart (descriptor p s))) {..<length (m_sets p)}"
    by (rule inj_on_inverseI [of _ "\<lambda>e. setOf p e"]) (use V(9) in \<open>simp add: element_in_set(2) [OF assms] sdEnd_def\<close>)
  moreover have "(\<lambda>s. elementAt p (sdStart (descriptor p s))) ` {..<length (m_sets p)} \<subseteq> {..<n}"
    using V(9) element_in_set(1) [OF assms] by (auto simp: sdEnd_def)
  ultimately have "card {..<length (m_sets p)} \<le> card {..<n}" by (rule card_inj_on_le) simp
  then show ?thesis by simp
qed

lemma finer_trans: "finer G g1 g2 \<Longrightarrow> finer G g2 g3 \<Longrightarrow> finer G g1 g3"
  unfolding finer_def by blast

lemma splitByUniqueTransitions_inv:
  assumes b: "graph_bisim G E" and "graph_state G E g"
  shows "\<exists>g'. splitByUniqueTransitions g = Some g' \<and> graph_state G E g' \<and> finer G g g' \<and>
    fgNextTransitionSet g' = length (m_sets (fgTransitionPartition g'))"
  using assms(2)
proof (induction "gCount G - fgNextTransitionSet g" arbitrary: g rule: less_induct)
  case less
  show ?case
  proof (cases "fgNextTransitionSet g < length (m_sets (fgTransitionPartition g))")
    case True
    obtain g1 where g1: "split_step g = Some g1" "graph_state G E g1" "finer G g g1" "fgNextTransitionSet g1 = Suc (fgNextTransitionSet g)"
      using split_step_inv [OF less.prems b True] by blast
    have "length (m_sets (fgTransitionPartition g)) \<le> gCount G"
      using less.prems sets_bounded by (auto simp: graph_state_def unmarked_def)
    then have "gCount G - fgNextTransitionSet g1 < gCount G - fgNextTransitionSet g" using True g1(4) by linarith
    then obtain g2 where "splitByUniqueTransitions g1 = Some g2" "graph_state G E g2" "finer G g1 g2"
      "fgNextTransitionSet g2 = length (m_sets (fgTransitionPartition g2))" using less.hyps [OF _ g1(2)] by blast
    then show ?thesis using True g1(1) finer_trans [OF g1(3)] by (subst splitByUniqueTransitions.simps) auto
  next
    case False
    then show ?thesis using less.prems finer_refl by (subst splitByUniqueTransitions.simps) (auto simp: graph_state_def)
  qed
qed

text \<open>When every splitter has been used, nodes of one set have the same transitions between sets.\<close>

lemma graph_state_stable:
  assumes s: "graph_state G E g" and k: "fgNextTransitionSet g = length (m_sets (fgTransitionPartition g))"
    and u: "u < gNodes G" "v < gNodes G" "setOf (fgNodePartition g) u = setOf (fgNodePartition g) v"
    and x: "x < gCount G" "gSource G x = u"
  shows "\<exists>y<gCount G. gSource G y = v \<and> gSymbol G y = gSymbol G x \<and>
    setOf (fgNodePartition g) (gTarget G y) = setOf (fgNodePartition g) (gTarget G x)"
proof -
  let ?T = "m_elementToSetMap (fgTransitionPartition g)"
  note I = ginvD [OF s [unfolded graph_state_def, THEN conjunct2, THEN conjunct2, THEN conjunct2, THEN conjunct2]]
  have "?T ! x' < fgNextTransitionSet g" if "x' < gCount G" for x'
    using s that valid_partitionD(8) [of "gCount G" "fgTransitionPartition g"] unfolding k by (auto simp: graph_state_def unmarked_def)
  then have "agree G ?T j u v" if "fgNextTransitionSet g \<le> j" for j using that unfolding agree_def by (meson leD)
  then have "agree G ?T (?T ! x) u v" using I(5) [OF u] by blast
  then obtain y where y: "y < gCount G" "?T ! y = ?T ! x" "gSource G y = v" using x unfolding agree_def by blast
  then show ?thesis using I(3,4) [OF y(1) x(1) y(2)] by blast
qed

end
