(* ===== verification/Transition_Layout.thy ===== *)
theory Transition_Layout
  imports Graph_Refinement
begin

text \<open>
  The constructor of \<^verbatim>\<open>FullGraphPartition\<close>.  The singular ranges cut every transition at common
  boundaries, so a transition is a run of them.  The pieces are laid out twice by counting: by
  target node in the flattened transitions and by singular range in the partition.
\<close>

subsection \<open>Positions by counting\<close>

definition offset_of :: "nat list \<Rightarrow> nat \<Rightarrow> nat" where
  "offset_of ks v = length (filter (\<lambda>k. k < v) ks)"

definition rank_of :: "nat list \<Rightarrow> nat \<Rightarrow> nat" where
  "rank_of ks m = offset_of ks (ks ! m) + count_list (take m ks) (ks ! m)"

lemma offset_of_Suc: "offset_of ks (Suc v) = offset_of ks v + count_list ks v"
  by (induction ks) (auto simp: offset_of_def less_Suc_eq)

lemma offset_of_0 [simp]: "offset_of ks 0 = 0"
  by (simp add: offset_of_def)

lemma offset_of_mono: "u \<le> v \<Longrightarrow> offset_of ks u \<le> offset_of ks v"
  by (induction ks) (auto simp: offset_of_def)

lemma offset_of_le: "offset_of ks v \<le> length ks"
  by (simp add: offset_of_def)

lemma offset_of_all: "\<forall>k\<in>set ks. k < n \<Longrightarrow> offset_of ks n = length ks"
  by (simp add: offset_of_def)

lemma count_take_less:
  assumes "m < m'" "m' \<le> length ks"
  shows "count_list (take m ks) (ks ! m) < count_list (take m' ks) (ks ! m)"
proof -
  have "take m' ks = take m ks @ ks ! m # drop (Suc m) (take m' ks)"
    using assms id_take_nth_drop [of m "take m' ks"] by (simp add: min_absorb1)
  then have "count_list (take m' ks) (ks ! m) = count_list (take m ks @ ks ! m # drop (Suc m) (take m' ks)) (ks ! m)" by (rule arg_cong)
  also have "\<dots> = Suc (count_list (take m ks) (ks ! m) + count_list (drop (Suc m) (take m' ks)) (ks ! m))" by simp
  finally show ?thesis by simp
qed

lemma rank_of_slot:
  assumes "m < length ks"
  shows "offset_of ks (ks ! m) \<le> rank_of ks m" "rank_of ks m < offset_of ks (Suc (ks ! m))" "rank_of ks m < length ks"
proof -
  show "offset_of ks (ks ! m) \<le> rank_of ks m" by (simp add: rank_of_def)
  show lt: "rank_of ks m < offset_of ks (Suc (ks ! m))"
    using count_take_less [OF assms order_refl] by (simp add: rank_of_def offset_of_Suc)
  show "rank_of ks m < length ks" using lt offset_of_le [of ks "Suc (ks ! m)"] by simp
qed

lemma rank_of_key:
  assumes "m < length ks"
  shows "offset_of ks v \<le> rank_of ks m \<and> rank_of ks m < offset_of ks (Suc v) \<longleftrightarrow> ks ! m = v"
proof
  assume v: "offset_of ks v \<le> rank_of ks m \<and> rank_of ks m < offset_of ks (Suc v)"
  show "ks ! m = v"
  proof (rule ccontr)
    assume "ks ! m \<noteq> v"
    then consider "Suc (ks ! m) \<le> v" | "Suc v \<le> ks ! m" by linarith
    then show False using v rank_of_slot [OF assms] offset_of_mono [of "Suc (ks ! m)" v ks] offset_of_mono [of "Suc v" "ks ! m" ks]
      by cases linarith+
  qed
qed (use rank_of_slot [OF assms] in blast)

lemma rank_of_inj: "inj_on (rank_of ks) {..<length ks}"
proof (rule inj_onI, rule ccontr)
  fix m m' assume "m \<in> {..<length ks}" "m' \<in> {..<length ks}" and eq: "rank_of ks m = rank_of ks m'" and ne: "m \<noteq> m'"
  then have l: "m < length ks" "m' < length ks" by auto
  have k: "ks ! m = ks ! m'" using rank_of_key [OF l(1), of "ks ! m'"] rank_of_slot [OF l(2)] eq by simp
  from ne consider "m < m'" | "m' < m" by linarith
  then show False using count_take_less [of m m' ks] count_take_less [of m' m ks] l eq k by cases (auto simp: rank_of_def)
qed

lemma rank_of_bij: "bij_betw (rank_of ks) {..<length ks} {..<length ks}"
proof -
  have "rank_of ks ` {..<length ks} \<subseteq> {..<length ks}" using rank_of_slot(3) by auto
  moreover have "card (rank_of ks ` {..<length ks}) = card {..<length ks}" by (rule card_image [OF rank_of_inj])
  ultimately have "rank_of ks ` {..<length ks} = {..<length ks}" by (intro card_subset_eq) simp_all
  then show ?thesis using rank_of_inj by (simp add: bij_betw_def)
qed

subsection \<open>Ranges are cut at common boundaries\<close>

definition uncut :: "int \<Rightarrow> int \<Rightarrow> 'd char_data list \<Rightarrow> bool" where
  "uncut f l xs \<longleftrightarrow> (\<forall>(sf, sl, d)\<in>set xs. sf \<le> f \<and> l \<le> sl \<or> l < sf \<or> sl < f)"

lemma uncut_simps [simp]:
  "uncut f l []" "uncut f l ((sf, sl, d) # xs) \<longleftrightarrow> (sf \<le> f \<and> l \<le> sl \<or> l < sf \<or> sl < f) \<and> uncut f l xs"
  by (auto simp: uncut_def)

lemma uncut_below: "ordered_from lo xs \<Longrightarrow> l < lo \<Longrightarrow> uncut f l xs"
  by (induction lo xs rule: ordered_from.induct) auto

lemma merge_ranges_uncut:
  "ordered_from lo self \<Longrightarrow> ordered_from lo (skip_chars off os) \<Longrightarrow> (f, l, d) \<in> set (merge_ranges convert ext self off os) \<Longrightarrow>
   lo \<le> f \<and> f \<le> l \<and> uncut f l self \<and> uncut f l (skip_chars off os)"
proof (induction convert ext self off os arbitrary: lo f l d rule: merge_ranges.induct)
  case (1 convert ext self off)
  then show ?case
  proof (induction lo self rule: ordered_from.induct)
    case (2 lo f' l' d' xs)
    then show ?case by (auto intro: uncut_below ordered_from_mono)
  qed simp
next
  case (2 convert ext off f' l' e os)
  then show ?case by (fastforce intro: uncut_below)
next
  case (3 convert ext sf sl sd ss off f' l' e os)
  have o: "lo \<le> sf" "sf \<le> sl" "sl \<le> 127" "ordered_from (sl + 1) ss" "lo \<le> f' + off" "f' + off \<le> l'" "l' \<le> 127"
    "ordered_from (l' + 1) os" using "3.prems" by auto
  have below: "c \<le> sl \<Longrightarrow> uncut b c ss" "c \<le> l' \<Longrightarrow> uncut b c os" for b c using o uncut_below by force+
  consider "sl < f' + off" | "\<not> sl < f' + off" "l' < sf" | "\<not> sl < f' + off" "\<not> l' < sf" "sl = l'"
    | "\<not> sl < f' + off" "\<not> l' < sf" "l' < sl" | "\<not> sl < f' + off" "\<not> l' < sf" "sl < l'" by linarith
  then show ?case
  proof cases
    case 1
    then show ?thesis using "3.IH"(1) [of "sl + 1" f l d] o below "3.prems"(3) by auto
  next
    case 2
    then show ?thesis using "3.IH"(2) [of "l' + 1" f l d] o below "3.prems"(3) by auto
  next
    case 3
    then show ?thesis using "3.IH"(3) [of "l' + 1" f l d] o below "3.prems"(3) by (auto simp: max_def split: if_splits)
  next
    case 4
    then show ?thesis using "3.IH"(4) [of "l' + 1" f l d] o below "3.prems"(3) by (auto simp: max_def split: if_splits)
  next
    case 5
    then show ?thesis using "3.IH"(5) [of "sl + 1" f l d] o below "3.prems"(3) by (auto simp: max_def split: if_splits)
  qed
qed

subsection \<open>The transitions of a node as a list of ranges\<close>

lemma range_data_items: "range_data (map (\<lambda>(r, t). (crFirst r, crLast r, t)) ts) c = find_target c ts"
  by (induction ts) (auto simp: in_range_def)

lemma ordered_items:
  "sorted_transitions ts \<Longrightarrow> (\<forall>(r, t)\<in>set ts. lo \<le> crFirst r) \<Longrightarrow> ordered_from lo (map (\<lambda>(r, t). (crFirst r, crLast r, t)) ts)"
proof (induction ts arbitrary: lo)
  case (Cons x ts)
  obtain r t where x: "x = (r, t)" by (cases x)
  have "\<forall>(r', t')\<in>set ts. crLast r + 1 \<le> crFirst r'" using Cons.prems(1) by (auto simp: x sorted_transitions_Cons)
  then show ?case using Cons.IH [of "crLast r + 1"] Cons.prems by (simp add: x sorted_transitions_Cons)
qed simp

lemma transition_items:
  assumes "wf_dfa d" "live d i"
  shows "ordered_from 0 (transition_items d (nodes d ! i))" "range_data (transition_items d (nodes d ! i)) c = dfa_next d i c"
proof -
  have s: "sorted_transitions (node_transitions d (nodes d ! i))"
    using wf_dfa_node [OF assms] by (simp add: wf_node_def)
  then have "\<forall>(r, t)\<in>set (node_transitions d (nodes d ! i)). 0 \<le> crFirst r" by (auto simp: sorted_transitions_def)
  then show "ordered_from 0 (transition_items d (nodes d ! i))" unfolding transition_items_def by (rule ordered_items [OF s])
  show "range_data (transition_items d (nodes d ! i)) c = dfa_next d i c"
    by (simp add: transition_items_def range_data_items dfa_next_def)
qed

subsection \<open>The loop over the singular ranges\<close>

lemma skip_firsts_found:
  assumes "sorted_wrt (<) firsts" "i \<le> k" "k < length firsts" "firsts ! k = c"
  shows "skip_firsts firsts c i = k"
  using assms(2)
proof (induction "k - i" arbitrary: i)
  case 0
  then show ?case using assms(3,4) by (subst skip_firsts.simps) simp
next
  case (Suc d)
  then have "i < k" by simp
  then have "firsts ! i < c" using assms sorted_wrt_nth_less by blast
  then show ?case using Suc assms(3) \<open>i < k\<close> by (subst skip_firsts.simps) simp
qed

lemma pass_firsts_spec:
  assumes "sorted_wrt (<) firsts" "i \<le> length firsts"
  shows "i \<le> pass_firsts firsts l i" "pass_firsts firsts l i \<le> length firsts"
    "\<And>k. i \<le> k \<Longrightarrow> k < length firsts \<Longrightarrow> k < pass_firsts firsts l i \<longleftrightarrow> firsts ! k \<le> l"
proof -
  have "i \<le> pass_firsts firsts l i \<and> pass_firsts firsts l i \<le> length firsts \<and>
      (\<forall>k. i \<le> k \<longrightarrow> k < length firsts \<longrightarrow> (k < pass_firsts firsts l i \<longleftrightarrow> firsts ! k \<le> l))"
    using assms
  proof (induction firsts l i rule: pass_firsts.induct)
    case (1 fs l i)
    show ?case
    proof (cases "i < length fs \<and> fs ! i \<le> l")
      case True
      then have IH: "i + 1 \<le> pass_firsts fs l (i + 1)" "pass_firsts fs l (i + 1) \<le> length fs"
        "\<forall>k. i + 1 \<le> k \<longrightarrow> k < length fs \<longrightarrow> (k < pass_firsts fs l (i + 1) \<longleftrightarrow> fs ! k \<le> l)" using 1 by auto
      have "pass_firsts fs l i = pass_firsts fs l (i + 1)" using True by (subst pass_firsts.simps) simp
      moreover have "k < pass_firsts fs l (i + 1) \<longleftrightarrow> fs ! k \<le> l" if "i \<le> k" "k < length fs" for k
        using that IH True by (cases "k = i") auto
      ultimately show ?thesis using IH(1,2) by simp
    next
      case False
      then have e: "pass_firsts fs l i = i" by (subst pass_firsts.simps) (simp only: if_False)
      have "\<not> fs ! k \<le> l" if "i \<le> k" "k < length fs" for k
        using that False sorted_wrt_nth_less [OF 1(2), of i k] by (cases "k = i") auto
      then show ?thesis using 1(3) unfolding e by auto
    qed
  qed
  then show "i \<le> pass_firsts firsts l i" "pass_firsts firsts l i \<le> length firsts"
    "\<And>k. i \<le> k \<Longrightarrow> k < length firsts \<Longrightarrow> k < pass_firsts firsts l i \<longleftrightarrow> firsts ! k \<le> l" by blast+
qed

lemma iterateIntersections_calls:
  assumes s: "sorted_wrt (<) firsts"
  shows "ordered_from lo ts \<Longrightarrow> (\<forall>(f, l, t)\<in>set ts. f \<in> set firsts) \<Longrightarrow> i \<le> length firsts \<Longrightarrow> (\<forall>k<i. firsts ! k < lo) \<Longrightarrow>
    set (iterateIntersections firsts ts i) =
      {(k, t). k < length firsts \<and> (\<exists>f l. (f, l, t) \<in> set ts \<and> f \<le> firsts ! k \<and> firsts ! k \<le> l)} \<and>
    distinct (map fst (iterateIntersections firsts ts i))"
proof (induction lo ts arbitrary: i rule: ordered_from.induct)
  case (2 lo f l t ts)
  obtain k where k: "k < length firsts" "firsts ! k = f" using "2.prems"(2) by (auto simp: in_set_conv_nth)
  have lo: "lo \<le> f" "f \<le> l" "ordered_from (l + 1) ts" using "2.prems"(1) by simp_all
  have ik: "i \<le> k" using "2.prems"(4) k lo(1) by (metis leI linorder_not_less)
  define j where "j = pass_firsts firsts l (k + 1)"
  have sk: "skip_firsts firsts f i = k" by (rule skip_firsts_found [OF s ik k])
  have j: "k + 1 \<le> j" "j \<le> length firsts" "\<And>m. k + 1 \<le> m \<Longrightarrow> m < length firsts \<Longrightarrow> m < j \<longleftrightarrow> firsts ! m \<le> l"
    using pass_firsts_spec [OF s, where i = "k + 1" and l = l] k(1) by (simp_all add: j_def)
  have lt: "firsts ! m < firsts ! m'" if "m < m'" "m' < length firsts" for m m' using sorted_wrt_nth_less [OF s that] .
  have run: "k \<le> m \<and> m < j \<longleftrightarrow> f \<le> firsts ! m \<and> firsts ! m \<le> l" if m: "m < length firsts" for m
  proof -
    consider "m < k" | "m = k" | "k < m" by linarith
    then show ?thesis
    proof cases
      case 1
      then show ?thesis using lt [OF 1 k(1)] k(2) by simp
    next
      case 2
      then show ?thesis using j(1) k(2) lo(2) by simp
    next
      case 3
      then show ?thesis using lt [OF 3 m] k(2) j(3) [of m] m by simp
    qed
  qed
  have low: "\<forall>m<j. firsts ! m < l + 1"
  proof (intro allI impI)
    fix m assume m: "m < j"
    show "firsts ! m < l + 1"
    proof (cases "m < k")
      case True
      then show ?thesis using lt [OF True k(1)] k(2) lo(2) by simp
    next
      case False
      then show ?thesis using run [of m] m j(2) by simp
    qed
  qed
  have "\<forall>(f, l, t)\<in>set ts. f \<in> set firsts" using "2.prems"(2) by auto
  then have IH: "set (iterateIntersections firsts ts j) =
      {(k, t). k < length firsts \<and> (\<exists>f l. (f, l, t) \<in> set ts \<and> f \<le> firsts ! k \<and> firsts ! k \<le> l)}"
    "distinct (map fst (iterateIntersections firsts ts j))"
    using "2.IH" [OF lo(3) _ j(2) low] by blast+
  have e: "iterateIntersections firsts ((f, l, t) # ts) i = map (\<lambda>m. (m, t)) [k ..< j] @ iterateIntersections firsts ts j"
    by (simp add: sk j_def Let_def)
  have apart: "j \<le> m" if m: "(m, t') \<in> set (iterateIntersections firsts ts j)" for m t'
  proof -
    obtain f' l' where "(f', l', t') \<in> set ts" "f' \<le> firsts ! m" using m unfolding IH(1) by blast
    then have "\<not> firsts ! m < l + 1" using ordered_from_member [OF lo(3)] by fastforce
    then show ?thesis using low by (meson not_le)
  qed
  have "set (map (\<lambda>m. (m, t)) [k ..< j]) = {(m, t'). m < length firsts \<and> t' = t \<and> f \<le> firsts ! m \<and> firsts ! m \<le> l}"
  proof (intro set_eqI, clarify)
    fix m t' show "(m, t') \<in> set (map (\<lambda>m. (m, t)) [k ..< j]) \<longleftrightarrow>
        (m, t') \<in> {(m, t'). m < length firsts \<and> t' = t \<and> f \<le> firsts ! m \<and> firsts ! m \<le> l}"
      using run [of m] j(2) by (cases "m < length firsts") auto
  qed
  then have "set (iterateIntersections firsts ((f, l, t) # ts) i) =
      {(k, t'). k < length firsts \<and> (\<exists>f' l'. (f', l', t') \<in> set ((f, l, t) # ts) \<and> f' \<le> firsts ! k \<and> firsts ! k \<le> l')}"
    unfolding e set_append IH(1) set_simps by blast
  moreover have "distinct (map fst (iterateIntersections firsts ((f, l, t) # ts) i))"
    unfolding e using IH(2) apart by (fastforce simp: comp_def)
  ultimately show ?case by blast
qed simp

lemma ordered_firsts: "ordered_from lo xs \<Longrightarrow> sorted_wrt (<) (map fst xs) \<and> (\<forall>f\<in>set (map fst xs). lo \<le> f)"
proof (induction lo xs rule: ordered_from.induct)
  case (2 lo f l d xs)
  then show ?case by fastforce
qed simp

subsection \<open>The singular ranges\<close>

definition readers :: "dfa \<Rightarrow> nat list \<Rightarrow> int \<Rightarrow> nat" where
  "readers d is c = length (filter (\<lambda>i. dfa_next d i c \<noteq> None) is)"

definition singular_for :: "dfa \<Rightarrow> nat list \<Rightarrow> nat char_data list \<Rightarrow> bool" where
  "singular_for d is xs \<longleftrightarrow> ordered_from 0 xs \<and>
     (\<forall>c. range_data xs c = (if readers d is c = 0 then None else Some (readers d is c))) \<and>
     (\<forall>(f, l, n)\<in>set xs. \<forall>i\<in>set is. uncut f l (transition_items d (nodes d ! i)))"

lemma uncut_trans:
  assumes "uncut f l xs" "f \<le> l" "\<forall>(f, l, n)\<in>set xs. uncut f l ts" "\<And>c. range_data ts c \<noteq> None \<Longrightarrow> range_data xs c \<noteq> None"
    "ordered_from lo ts"
  shows "uncut f l ts"
proof -
  have "tf \<le> f \<and> l \<le> tl" if t: "(tf, tl, t) \<in> set ts" and "\<not> tl < f" "\<not> l < tf" for tf tl t
  proof -
    define c where "c = max f tf"
    have "tf \<le> tl" using ordered_from_member [OF assms(5) t] by simp
    then have c: "f \<le> c" "c \<le> l" "tf \<le> c" "c \<le> tl" using \<open>\<not> tl < f\<close> \<open>\<not> l < tf\<close> assms(2) by (auto simp: c_def)
    then have "range_data ts c \<noteq> None" using member_range_data [OF assms(5) t] by simp
    then obtain xf xl n where x: "(xf, xl, n) \<in> set xs" "xf \<le> c" "c \<le> xl"
      using assms(4) range_data_member [of xs c] by blast
    then have "xf \<le> f \<and> l \<le> xl" using assms(1) c unfolding uncut_def by fastforce
    moreover have "tf \<le> xf \<and> xl \<le> tl" using assms(3) x c t unfolding uncut_def by fastforce
    ultimately show ?thesis by simp
  qed
  then show ?thesis unfolding uncut_def by blast
qed

lemma singular_step:
  assumes w: "wf_dfa d" "live d i" and v: "represents v xs" "singular_for d is xs" and n: "length is < u32_max"
    and live: "\<And>i. i \<in> set is \<Longrightarrow> live d i"
  shows "\<exists>w ys. range_list_extend counter_convert counter_extend (transition_items d (nodes d ! i)) v = Some w \<and>
    represents w ys \<and> singular_for d (is @ [i]) ys"
proof -
  let ?ts = "transition_items d (nodes d ! i)"
  define ys where "ys = merge_ranges counter_convert counter_extend xs 0 ?ts"
  note t = transition_items [OF w]
  have x: "ordered_from 0 xs" "\<And>c. range_data xs c = (if readers d is c = 0 then None else Some (readers d is c))"
    "\<And>f l n i. (f, l, n) \<in> set xs \<Longrightarrow> i \<in> set is \<Longrightarrow> uncut f l (transition_items d (nodes d ! i))"
    using v(2) unfolding singular_for_def by blast+
  obtain w' where w': "range_list_extend counter_convert counter_extend ?ts v = Some w'" "represents w' ys"
    using extend_represents [OF v(1), of ?ts counter_convert counter_extend] ordered_from_bounded x(1) t(1) by (auto simp: ys_def)
  have oy: "ordered_from 0 ys" unfolding ys_def using x(1) t(1) by (intro merge_ranges_ordered) simp_all
  have dy: "range_data ys c = combine_data counter_convert counter_extend (range_data xs c) (dfa_next d i c)" for c
    unfolding ys_def using merge_ranges_data [of 0 xs 0 ?ts counter_convert counter_extend c] x(1) t by simp
  have le: "readers d is c < u32_max" for c unfolding readers_def by (rule order.strict_trans1 [OF length_filter_le n])
  have "u32 (Suc (readers d is c)) = Suc (readers d is c)" for c using le [of c] by (simp add: u32_def u32_max_def)
  then have "range_data ys c = (if readers d (is @ [i]) c = 0 then None else Some (readers d (is @ [i]) c))" for c
    unfolding dy x(2) by (cases "dfa_next d i c") (auto simp: readers_def counter_convert_def counter_extend_def)
  moreover have "uncut f l (transition_items d (nodes d ! j))" if m: "(f, l, k) \<in> set ys" and j: "j \<in> set (is @ [i])" for f l k j
  proof -
    have u: "f \<le> l" "uncut f l xs" "uncut f l ?ts"
      using merge_ranges_uncut [of 0 xs 0 ?ts f l k counter_convert counter_extend] x(1) t(1) m by (auto simp: ys_def)
    show ?thesis
    proof (cases "j \<in> set is")
      case True
      note tj = transition_items [OF w(1) live [OF True]]
      have "range_data xs c \<noteq> None" if "range_data (transition_items d (nodes d ! j)) c \<noteq> None" for c
        using that True unfolding tj(2) x(2) by (auto simp: readers_def filter_empty_conv)
      then show ?thesis using uncut_trans [OF u(2,1) _ _ tj(1)] x(3) True by blast
    next
      case False
      then show ?thesis using j u(3) by simp
    qed
  qed
  ultimately have "singular_for d (is @ [i]) ys" unfolding singular_for_def using oy by blast
  then show ?thesis using w' by blast
qed

lemma singular_transitions_spec:
  assumes w: "wf_dfa d"
  shows "\<exists>v xs. singular_transitions d = Some v \<and> iterate v = Some xs \<and> singular_for d (live_indices d) xs"
proof -
  have len: "length (live_indices d) \<le> u32_max"
    using w length_filter_le [of _ "[0..<length (nodes d)]"] unfolding live_indices_def wf_dfa_def by (metis diff_zero length_upt order_trans)
  have "length is \<le> u32_max \<Longrightarrow> \<forall>i\<in>set is. live d i \<Longrightarrow> \<exists>v xs.
      fold_option (\<lambda>i ranges. range_list_extend counter_convert counter_extend (transition_items d (nodes d ! i)) ranges) is [] = Some v \<and>
      represents v xs \<and> singular_for d is xs" for "is"
  proof (induction "is" rule: rev_induct)
    case Nil
    then show ?case by (auto simp: represents_def chain_def singular_for_def readers_def intro!: exI [of _ "[]"])
  next
    case (snoc i "is")
    then obtain v xs where v: "fold_option (\<lambda>i ranges. range_list_extend counter_convert counter_extend (transition_items d (nodes d ! i)) ranges) is [] = Some v"
      "represents v xs" "singular_for d is xs" by auto
    have "live d i" "length is < u32_max" "\<And>i. i \<in> set is \<Longrightarrow> live d i" using snoc.prems by auto
    from singular_step [OF w this(1) v(2,3) this(2,3)] show ?case using v(1) by (auto simp: fold_option_append)
  qed
  moreover have "\<forall>i\<in>set (live_indices d). live d i" by (auto simp: live_indices_def live_def)
  ultimately show ?thesis using len iterate_represents unfolding singular_transitions_def by blast
qed

subsection \<open>The pieces of all transitions\<close>

definition sourceOf :: "nat \<times> nat \<times> nat \<Rightarrow> nat" where
  "sourceOf e = fst e"

definition symbolOf :: "nat \<times> nat \<times> nat \<Rightarrow> nat" where
  "symbolOf e = fst (snd e)"

definition targetOf :: "nat \<times> nat \<times> nat \<Rightarrow> nat" where
  "targetOf e = snd (snd e)"

lemma piece_simps [simp]: "sourceOf (i, k, t) = i" "symbolOf (i, k, t) = k" "targetOf (i, k, t) = t"
  by (simp_all add: sourceOf_def symbolOf_def targetOf_def)

lemma live_indices_set: "set (live_indices d) = {i. live d i}" "distinct (live_indices d)"
  by (auto simp: live_indices_def live_def)

lemma singular_firsts:
  assumes "singular_for d is xs"
  shows "sorted_wrt (<) (map fst xs)" "\<And>k. k < length xs \<Longrightarrow> range_data xs (map fst xs ! k) = Some (snd (snd (xs ! k)))"
proof -
  have o: "ordered_from 0 xs" using assms by (simp add: singular_for_def)
  show "sorted_wrt (<) (map fst xs)" using ordered_firsts [OF o] by blast
  show "range_data xs (map fst xs ! k) = Some (snd (snd (xs ! k)))" if "k < length xs" for k
  proof -
    obtain f l n where x: "xs ! k = (f, l, n)" by (cases "xs ! k")
    then have "(f, l, n) \<in> set xs" using nth_mem [OF that] by simp
    then show ?thesis using ordered_range_data [OF o] that x by simp
  qed
qed

lemma transition_starts_piece:
  assumes w: "wf_dfa d" "live d i" and s: "singular_for d (live_indices d) xs" and t: "(f, l, t) \<in> set (transition_items d (nodes d ! i))"
  shows "f \<in> set (map fst xs)"
proof -
  note ti = transition_items [OF w]
  have fl: "f \<le> l" using ordered_from_member [OF ti(1) t] by simp
  have i: "i \<in> set (live_indices d)" using w(2) by (simp add: live_indices_set)
  have "dfa_next d i f = Some t" using member_range_data [OF ti(1) t, of f] fl ti(2) by simp
  then have "readers d (live_indices d) f \<noteq> 0" using i by (auto simp: readers_def filter_empty_conv)
  then have "range_data xs f \<noteq> None" using s by (simp add: singular_for_def)
  then obtain xf xl n where x: "(xf, xl, n) \<in> set xs" "xf \<le> f" "f \<le> xl" using range_data_member [of xs f] by blast
  then have "uncut xf xl (transition_items d (nodes d ! i))" using s i unfolding singular_for_def by blast
  then have "f \<le> xf" using t x fl unfolding uncut_def by fastforce
  then show ?thesis using x by force
qed

lemma node_pieces:
  assumes w: "wf_dfa d" "live d i" and s: "singular_for d (live_indices d) xs"
  shows "set (iterateIntersections (map fst xs) (transition_items d (nodes d ! i)) 0) =
      {(k, t). k < length xs \<and> dfa_next d i (map fst xs ! k) = Some t}"
    "distinct (map fst (iterateIntersections (map fst xs) (transition_items d (nodes d ! i)) 0))"
proof -
  let ?ts = "transition_items d (nodes d ! i)"
  note ti = transition_items [OF w]
  have "\<forall>(f, l, t)\<in>set ?ts. f \<in> set (map fst xs)" using transition_starts_piece [OF w s] by blast
  from iterateIntersections_calls [OF singular_firsts(1) [OF s] ti(1) this, of 0]
  have I: "set (iterateIntersections (map fst xs) ?ts 0) =
      {(k, t). k < length xs \<and> (\<exists>f l. (f, l, t) \<in> set ?ts \<and> f \<le> map fst xs ! k \<and> map fst xs ! k \<le> l)}"
    "distinct (map fst (iterateIntersections (map fst xs) ?ts 0))" by simp_all
  have "(\<exists>f l. (f, l, t) \<in> set ?ts \<and> f \<le> c \<and> c \<le> l) \<longleftrightarrow> dfa_next d i c = Some t" for c t
    using member_range_data [OF ti(1)] range_data_member [of ?ts c t] unfolding ti(2) [symmetric] by blast
  then show "set (iterateIntersections (map fst xs) ?ts 0) = {(k, t). k < length xs \<and> dfa_next d i (map fst xs ! k) = Some t}"
    unfolding I(1) by simp
  show "distinct (map fst (iterateIntersections (map fst xs) ?ts 0))" by (rule I(2))
qed

lemma count_list_distinct: "distinct xs \<Longrightarrow> count_list xs k = (if k \<in> set xs then 1 else 0)"
  by (induction xs) auto

lemma count_list_concat: "count_list (concat xss) k = sum_list (map (\<lambda>xs. count_list xs k) xss)"
  by (induction xss) auto

lemma sum_list_indicator: "sum_list (map (\<lambda>i. if P i then 1 else 0) is) = length (filter P is)"
  by (induction "is") auto

definition pieces :: "dfa \<Rightarrow> nat char_data list \<Rightarrow> (nat \<times> nat \<times> nat) list" where
  "pieces d xs = intersections d (map fst xs)"

lemma pieces_spec:
  assumes w: "wf_dfa d" and s: "singular_for d (live_indices d) xs"
  shows "(i, k, t) \<in> set (pieces d xs) \<longleftrightarrow> live d i \<and> k < length xs \<and> dfa_next d i (map fst xs ! k) = Some t"
    and "distinct (map (\<lambda>e. (sourceOf e, symbolOf e)) (pieces d xs))"
    and "k < length xs \<Longrightarrow> count_list (map symbolOf (pieces d xs)) k = snd (snd (xs ! k)) \<and> 0 < snd (snd (xs ! k))"
proof -
  let ?it = "\<lambda>i. iterateIntersections (map fst xs) (transition_items d (nodes d ! i)) 0"
  have live: "i \<in> set (live_indices d) \<longleftrightarrow> live d i" for i by (simp add: live_indices_set)
  have P: "pieces d xs = concat (map (\<lambda>i. map (\<lambda>(k, t). (i, k, t)) (?it i)) (live_indices d))"
    by (simp add: pieces_def intersections_def)
  show "(i, k, t) \<in> set (pieces d xs) \<longleftrightarrow> live d i \<and> k < length xs \<and> dfa_next d i (map fst xs ! k) = Some t"
  proof -
    have "(i, k, t) \<in> set (pieces d xs) \<longleftrightarrow> live d i \<and> (k, t) \<in> set (?it i)" unfolding P using live [of i] by force
    then show ?thesis using node_pieces(1) [OF w _ s, of i] by auto
  qed
  have "map (\<lambda>e. (sourceOf e, symbolOf e)) (pieces d xs) = concat (map (\<lambda>i. map (Pair i) (map fst (?it i))) (live_indices d))"
    unfolding P map_concat by (simp add: comp_def case_prod_unfold sourceOf_def symbolOf_def)
  moreover have "distinct (concat (map (\<lambda>i. map (Pair i) (map fst (?it i))) is))"
    if "distinct is" "\<forall>i\<in>set is. live d i" for "is" using that
  proof (induction "is")
    case (Cons i "is")
    then show ?case using node_pieces(2) [OF w _ s, of i] by (auto simp: distinct_map inj_on_def)
  qed simp
  ultimately show "distinct (map (\<lambda>e. (sourceOf e, symbolOf e)) (pieces d xs))" using live_indices_set(2) live by simp
  show "count_list (map symbolOf (pieces d xs)) k = snd (snd (xs ! k)) \<and> 0 < snd (snd (xs ! k))" if k: "k < length xs"
  proof -
    have "map symbolOf (pieces d xs) = concat (map (\<lambda>i. map fst (?it i)) (live_indices d))"
      unfolding P map_concat by (simp add: comp_def case_prod_unfold sourceOf_def symbolOf_def)
    then have "count_list (map symbolOf (pieces d xs)) k = sum_list (map (\<lambda>i. count_list (map fst (?it i)) k) (live_indices d))"
      by (simp add: count_list_concat comp_def)
    also have "\<dots> = sum_list (map (\<lambda>i. if dfa_next d i (map fst xs ! k) \<noteq> None then 1 else 0) (live_indices d))"
    proof (rule arg_cong [of _ _ sum_list], rule map_cong [OF refl])
      fix i assume "i \<in> set (live_indices d)"
      then have "live d i" by (simp add: live)
      note n = node_pieces [OF w this s]
      have "k \<in> set (map fst (?it i)) \<longleftrightarrow> dfa_next d i (map fst xs ! k) \<noteq> None" unfolding set_map n(1) using k by force
      then show "count_list (map fst (?it i)) k = (if dfa_next d i (map fst xs ! k) \<noteq> None then 1 else 0)"
        unfolding count_list_distinct [OF n(2)] by simp
    qed
    also have "\<dots> = readers d (live_indices d) (map fst xs ! k)" unfolding sum_list_indicator readers_def ..
    finally have c: "count_list (map symbolOf (pieces d xs)) k = readers d (live_indices d) (map fst xs ! k)" .
    have "range_data xs (map fst xs ! k) = (if readers d (live_indices d) (map fst xs ! k) = 0 then None
        else Some (readers d (live_indices d) (map fst xs ! k)))" using s by (simp add: singular_for_def)
    then show ?thesis using singular_firsts(2) [OF s k] c by (simp split: if_splits)
  qed
qed

text \<open>Every character a node reads lies in a piece on which the node does not change its target.\<close>

lemma piece_of_char:
  assumes w: "wf_dfa d" and s: "singular_for d (live_indices d) xs" and "live d i" "dfa_next d i c = Some t"
  shows "\<exists>k<length xs. \<forall>j. live d j \<longrightarrow> dfa_next d j (map fst xs ! k) = dfa_next d j c"
proof -
  have "readers d (live_indices d) c \<noteq> 0" using assms(3,4) by (auto simp: readers_def filter_empty_conv live_indices_set)
  then have "range_data xs c \<noteq> None" using s by (simp add: singular_for_def)
  then obtain f l n where x: "(f, l, n) \<in> set xs" "f \<le> c" "c \<le> l" using range_data_member [of xs c] by blast
  then obtain k where k: "k < length xs" "xs ! k = (f, l, n)" by (metis in_set_conv_nth)
  have "dfa_next d j f = dfa_next d j c" if j: "live d j" for j
  proof -
    note tj = transition_items [OF w j]
    have u: "uncut f l (transition_items d (nodes d ! j))" using s x(1) j unfolding singular_for_def live_indices_set by blast
    have "range_data (transition_items d (nodes d ! j)) a = Some t \<Longrightarrow> f \<le> a \<Longrightarrow> a \<le> l \<Longrightarrow> f \<le> b \<Longrightarrow> b \<le> l \<Longrightarrow>
        range_data (transition_items d (nodes d ! j)) b = Some t" for a b t
      using u range_data_member [of _ a t] member_range_data [OF tj(1), of _ _ t b] unfolding uncut_def by fastforce
    then have "range_data (transition_items d (nodes d ! j)) f = range_data (transition_items d (nodes d ! j)) c"
      using x(2,3) by (metis (no_types, opaque_lifting) option.exhaust order_refl order_trans)
    then show ?thesis by (simp add: tj(2))
  qed
  then show ?thesis using k by auto
qed

end
