(* ===== verification/Node_Spans.thy ===== *)
theory Node_Spans
  imports NFA_To_DFA
begin

text \<open>
  The entries of the vectors of an automaton that a node owns.  Killing a node overwrites the entries
  it owned, so minimizing relies on nodes that share none.  Conversion and merging build such automata:
  a new node gets the actions just appended, and a processed node the transitions appended since its
  processing began.
\<close>

subsection \<open>Entries owned by a node\<close>

definition transition_span :: "dfa_node \<Rightarrow> nat set" where
  "transition_span n = {m_transitionsStart n ..< m_transitionsStart n + m_transitionsLength n}"

definition action_span :: "dfa_node \<Rightarrow> nat set" where
  "action_span n = {m_actionsStart n ..< m_actionsStart n + m_actionsLength n}"

definition separate :: "dfa \<Rightarrow> bool" where
  "separate d \<longleftrightarrow> (\<forall>i<length (nodes d). \<forall>j<length (nodes d). i \<noteq> j \<longrightarrow>
     transition_span (nodes d ! i) \<inter> transition_span (nodes d ! j) = {} \<and>
     action_span (nodes d ! i) \<inter> action_span (nodes d ! j) = {})"

definition all_live :: "dfa \<Rightarrow> bool" where
  "all_live d \<longleftrightarrow> (\<forall>n\<in>set (nodes d). \<not> isKilled n)"

lemma all_live_iff: "all_live d \<Longrightarrow> live d i \<longleftrightarrow> i < length (nodes d)"
  by (auto simp: all_live_def live_def)

subsection \<open>Growing automata\<close>

text \<open>Nodes under construction own transitions below \<open>st\<close> only.\<close>

definition spans_below :: "nat \<Rightarrow> dfa \<Rightarrow> bool" where
  "spans_below st d \<longleftrightarrow> all_live d \<and> separate d \<and> st \<le> length (transitionRanges d) \<and>
     (\<forall>i<length (nodes d). transition_span (nodes d ! i) \<subseteq> {..<st} \<and> action_span (nodes d ! i) \<subseteq> {..<length (dfa_actions d)})"

lemma spans_below_new: "spans_below 0 dfa_new"
  by (simp add: spans_below_def dfa_new_def all_live_def separate_def)

lemma spans_below_node:
  assumes "spans_below st d" "k \<le> length A"
    "nodes d' = nodes d @ [setActions (length (dfa_actions d)) k new_node]" "dfa_actions d' = dfa_actions d @ A" "transitionRanges d' = transitionRanges d"
  shows "spans_below st d'"
proof -
  let ?n = "setActions (length (dfa_actions d)) k new_node"
  have n: "transition_span ?n = {}" "action_span ?n = {length (dfa_actions d) ..< length (dfa_actions d) + k}" "\<not> isKilled ?n"
    by (simp_all add: transition_span_def action_span_def setActions_def new_node_def isKilled_def)
  have old: "transition_span (nodes d ! i) \<subseteq> {..<st}" "action_span (nodes d ! i) \<subseteq> {..<length (dfa_actions d)}" if "i < length (nodes d)" for i
    using assms(1) that by (simp_all add: spans_below_def)
  then have disj: "action_span (nodes d ! i) \<inter> action_span ?n = {}" if "i < length (nodes d)" for i using that unfolding n(2) by fastforce
  have "separate d'" unfolding separate_def
  proof (intro allI impI)
    fix i j assume ij: "i < length (nodes d')" "j < length (nodes d')" "i \<noteq> j"
    have s: "transition_span (nodes d ! i) \<inter> transition_span (nodes d ! j) = {} \<and> action_span (nodes d ! i) \<inter> action_span (nodes d ! j) = {}"
      if "i < length (nodes d)" "j < length (nodes d)" using assms(1) ij(3) that by (simp add: spans_below_def separate_def)
    show "transition_span (nodes d' ! i) \<inter> transition_span (nodes d' ! j) = {} \<and> action_span (nodes d' ! i) \<inter> action_span (nodes d' ! j) = {}"
      using ij s disj [of i] disj [of j] n(1) assms(3) by (auto simp: nth_append less_Suc_eq)
  qed
  moreover have "all_live d'" using assms(1,3) n(3) by (simp add: spans_below_def all_live_def)
  moreover have "transition_span (nodes d' ! i) \<subseteq> {..<st} \<and> action_span (nodes d' ! i) \<subseteq> {..<length (dfa_actions d')}" if "i < length (nodes d')" for i
    using old [of i] that n(1,2) assms(2-4) by (fastforce simp: nth_append less_Suc_eq)
  ultimately show ?thesis using assms(1,5) by (simp add: spans_below_def)
qed

lemma spans_below_transition:
  assumes "spans_below st d" "nodes d' = nodes d" "dfa_actions d' = dfa_actions d" "length (transitionRanges d) \<le> length (transitionRanges d')"
  shows "spans_below st d'"
  using assms unfolding spans_below_def all_live_def separate_def by simp

lemma spans_below_process:
  assumes "spans_below st d" "st + l \<le> length (transitionRanges d)"
    "nodes d' = (nodes d)[i := setTransitions st l (nodes d ! i)]" "dfa_actions d' = dfa_actions d" "transitionRanges d' = transitionRanges d"
  shows "spans_below (length (transitionRanges d')) d'"
proof -
  let ?n = "setTransitions st l (nodes d ! i)"
  have "l mod 256 \<le> l" by simp
  then have n: "transition_span ?n \<subseteq> {st..<length (transitionRanges d)}" "action_span ?n = action_span (nodes d ! i)" "isKilled ?n = isKilled (nodes d ! i)"
    using assms(2) by (auto simp: transition_span_def action_span_def setTransitions_def isKilled_def)
  have nd: "nodes d' ! j = (if j = i then ?n else nodes d ! j)" if "j < length (nodes d)" for j using that assms(3) by auto
  have old: "transition_span (nodes d ! j) \<subseteq> {..<st}" "action_span (nodes d ! j) \<subseteq> {..<length (dfa_actions d)}" if "j < length (nodes d)" for j
    using assms(1) that by (simp_all add: spans_below_def)
  have len: "length (nodes d') = length (nodes d)" using assms(3) by simp
  have disj: "transition_span (nodes d ! j) \<inter> transition_span ?n = {}" if "j < length (nodes d)" for j
  proof -
    have "{..<st} \<inter> {st..<length (transitionRanges d)} = {}" by auto
    then show ?thesis using old(1) [OF that] n(1) by blast
  qed
  have sep: "transition_span (nodes d ! j) \<inter> transition_span (nodes d ! k) = {} \<and> action_span (nodes d ! j) \<inter> action_span (nodes d ! k) = {}"
    if "j < length (nodes d)" "k < length (nodes d)" "j \<noteq> k" for j k using assms(1) that by (simp add: spans_below_def separate_def)
  have "separate d'" unfolding separate_def len
  proof (intro allI impI)
    fix j k assume jk: "j < length (nodes d)" "k < length (nodes d)" "j \<noteq> k"
    show "transition_span (nodes d' ! j) \<inter> transition_span (nodes d' ! k) = {} \<and> action_span (nodes d' ! j) \<inter> action_span (nodes d' ! k) = {}"
      using sep [OF jk] disj [OF jk(1)] disj [OF jk(2)] jk n(2) unfolding nd [OF jk(1)] nd [OF jk(2)] by (auto simp: Int_commute)
  qed
  moreover have "transition_span (nodes d' ! j) \<subseteq> {..<length (transitionRanges d')} \<and> action_span (nodes d' ! j) \<subseteq> {..<length (dfa_actions d')}"
    if j: "j < length (nodes d')" for j
  proof -
    have "{..<st} \<subseteq> {..<length (transitionRanges d)}" "{st..<length (transitionRanges d)} \<subseteq> {..<length (transitionRanges d)}" using assms(2) by auto
    then show ?thesis using old [of j] n(1,2) nd [of j] j len assms(4,5) by (cases "j = i") auto
  qed
  moreover have "all_live d'" using assms(1) n(3) nd len unfolding spans_below_def all_live_def by (metis in_set_conv_nth)
  ultimately show ?thesis by (simp add: spans_below_def)
qed

subsection \<open>Converted automata\<close>

lemma getOrCreateDFANode_spans:
  assumes "getOrCreateDFANode order actionOrder a s c = Inr (i, c')" "spans_below st (conv_dfa c)"
  shows "spans_below st (conv_dfa c')"
proof -
  let ?A = "actionOrder (set_actions order a s)"
  have "spans_below st d" if t: "translate order actionOrder a s h (conv_dfa c) = Inr (u, d)" for h u d
    by (rule spans_below_node [OF assms(2), of "length ?A" ?A]) (use t in \<open>auto simp: translate_def Let_def split: if_splits\<close>)
  then have "spans_below st (conv_dfa c2)" if "table_add order actionOrder a s c = Inr (u, n, c2)" for u n c2
    using that assms(2) by (auto simp: table_add_def Let_def split: option.splits sum.splits)
  then show ?thesis using assms(1) by (auto simp: getOrCreateDFANode_def split: sum.splits if_splits)
qed

lemma add_transitions_spans:
  "add_transitions order actionOrder a xs c = Inr c' \<Longrightarrow> spans_below st (conv_dfa c) \<Longrightarrow> spans_below st (conv_dfa c')"
proof (induction xs arbitrary: c)
  case (Cons x xs)
  obtain f l s where x: "x = (f, l, s)" by (cases x)
  obtain i c1 where c1: "getOrCreateDFANode order actionOrder a s c = Inr (i, c1)" using Cons.prems(1) by (auto simp: x split: sum.splits)
  have s1: "spans_below st (conv_dfa c1)" by (rule getOrCreateDFANode_spans [OF c1 Cons.prems(2)])
  let ?c = "c1\<lparr>conv_dfa := (conv_dfa c1)\<lparr>transitionRanges := transitionRanges (conv_dfa c1) @ [\<lparr>crFirst = f, crLast = l\<rparr>],
    transitionDestinations := transitionDestinations (conv_dfa c1) @ [i]\<rparr>\<rparr>"
  have "add_transitions order actionOrder a xs ?c = Inr c'" using Cons.prems(1) c1 by (simp add: x Let_def)
  moreover have "spans_below st (conv_dfa ?c)" by (rule spans_below_transition [OF s1]) simp_all
  ultimately show ?case by (rule Cons.IH)
qed simp

definition all_spans_below :: "dfa \<Rightarrow> bool" where
  "all_spans_below d \<longleftrightarrow> spans_below (length (transitionRanges d)) d"

lemma convert_step_spans:
  assumes "convert_step order actionOrder a closures c = Some (Inr c')" "all_spans_below (conv_dfa c)"
  shows "all_spans_below (conv_dfa c')"
proof -
  let ?c = "c\<lparr>conv_unprocessed := butlast (conv_unprocessed c)\<rparr>" and ?st = "length (transitionRanges (conv_dfa c))"
  obtain cs ranges where r: "createCombinedTransition (last (conv_unprocessed c)) a closures = Some cs" "iterate cs = Some ranges"
    using assms(1) by (auto simp: convert_step_def Let_def bind_eq_Some_conv)
  obtain c1 where c1: "add_transitions order actionOrder a ranges ?c = Inr c1"
    and c': "conv_dfa c' = (conv_dfa c1)\<lparr>nodes := (nodes (conv_dfa c1))[us_dfaNodeId (last (conv_unprocessed c)) :=
      setTransitions ?st (length (transitionRanges (conv_dfa c1)) - ?st) (nodes (conv_dfa c1) ! us_dfaNodeId (last (conv_unprocessed c)))]\<rparr>"
    using assms(1) by (cases "add_transitions order actionOrder a ranges ?c") (auto simp: convert_step_def Let_def r)
  have s: "spans_below ?st (conv_dfa c1)" using assms(2) by (intro add_transitions_spans [OF c1]) (simp add: all_spans_below_def)
  then have "?st \<le> length (transitionRanges (conv_dfa c1))" by (simp add: spans_below_def)
  then show ?thesis unfolding all_spans_below_def
    by (intro spans_below_process [OF s, of "length (transitionRanges (conv_dfa c1)) - ?st"]) (simp_all add: c')
qed

lemma convert_loop_spans:
  assumes "convert_loop order actionOrder a closures c = Some r"
  shows "all_spans_below (conv_dfa c) \<longrightarrow> (\<forall>c'. r = Inr c' \<longrightarrow> all_spans_below (conv_dfa c'))"
proof (rule convert_loop.raw_induct [of "\<lambda>order actionOrder a closures c r. all_spans_below (conv_dfa c) \<longrightarrow>
    (\<forall>c'. r = Inr c' \<longrightarrow> all_spans_below (conv_dfa c'))", OF _ assms])
  fix loop order actionOrder a closures c r
  assume hyp: "\<And>order actionOrder a closures c r. loop order actionOrder a closures c = Some r \<Longrightarrow> all_spans_below (conv_dfa c) \<longrightarrow>
      (\<forall>c'. r = Inr c' \<longrightarrow> all_spans_below (conv_dfa c'))"
    and body: "Option.bind (convert_step order actionOrder a closures c) (\<lambda>r. case r of Inl e \<Rightarrow> Some (Inl e)
      | Inr c' \<Rightarrow> if conv_unprocessed c' = [] then Some (Inr c') else loop order actionOrder a closures c') = Some r"
  obtain q where q: "convert_step order actionOrder a closures c = Some q" using body by (auto simp: bind_eq_Some_conv)
  show "all_spans_below (conv_dfa c) \<longrightarrow> (\<forall>c'. r = Inr c' \<longrightarrow> all_spans_below (conv_dfa c'))"
  proof (cases q)
    case (Inl e)
    then show ?thesis using q body by auto
  next
    case (Inr c1)
    have "all_spans_below (conv_dfa c1)" if "all_spans_below (conv_dfa c)" using convert_step_spans q Inr that by blast
    moreover have "r = Inr c1 \<or> loop order actionOrder a closures c1 = Some r" using q body Inr by (auto split: if_splits)
    ultimately show ?thesis using hyp [of order actionOrder a closures c1 r] by blast
  qed
qed

lemma convert_spans:
  assumes "NFAToDFA_convert order actionOrder a = Some (Inr d)"
  shows "all_live d" "separate d"
proof -
  let ?c0 = "\<lparr>conv_dfa = dfa_new, conv_table = [], conv_unprocessed = []\<rparr> :: conv_state"
  obtain closures a' r where r: "resolveEpsilonClosures a = Some (closures, a')" "nfa_root a' = Some r"
    using assms by (auto simp: NFAToDFA_convert_def bind_eq_Some_conv split: option.splits)
  obtain u n c where c: "table_add order actionOrder a' (extendSetWithClosure closures r {r}) ?c0 = Inr (u, n, c)"
    using assms by (cases "table_add order actionOrder a' (extendSetWithClosure closures r {r}) ?c0") (auto simp: NFAToDFA_convert_def r Let_def)
  obtain q where q: "convert_loop order actionOrder a' closures (c\<lparr>conv_unprocessed := [u]\<rparr>) = Some q"
    "(case q of Inl e \<Rightarrow> Some (Inl e) | Inr c \<Rightarrow> Some (Inr (conv_dfa c))) = Some (Inr d)"
    using assms by (auto simp: NFAToDFA_convert_def r c Let_def bind_eq_Some_conv)
  obtain c' where l: "q = Inr c'" "d = conv_dfa c'" using q(2) by (cases q) auto
  obtain i c2 where c2: "getOrCreateDFANode order actionOrder a' (extendSetWithClosure closures r {r}) ?c0 = Inr (i, c2)" "conv_dfa c2 = conv_dfa c"
    using c by (simp add: getOrCreateDFANode_def)
  have "spans_below 0 (conv_dfa c)" using getOrCreateDFANode_spans [OF c2(1)] spans_below_new c2(2) by simp
  moreover have "transitionRanges (conv_dfa c) = []" using c by (auto simp: table_add_def translate_def Let_def dfa_new_def split: if_splits sum.splits)
  ultimately have "all_spans_below d" using convert_loop_spans [OF q(1)] l by (simp add: all_spans_below_def)
  then show "all_live d" "separate d" by (simp_all add: all_spans_below_def spans_below_def)
qed

end
