(* ===== verification/DFA_Merge.thy ===== *)
theory DFA_Merge
  imports DFA_Combiner NFA_Conversion Transition_Layout Node_Spans
begin

text \<open>
  The product construction terminates and its result selects, on every input, the actions of both
  automata.  The invariant of the worklist names the nodes by pairs of indices, one of which may be
  the marker for an automaton that has stopped.
\<close>

unbundle bit_operations_syntax

subsection \<open>Signatures name pairs\<close>

lemma mask_32: "(0xffffffff :: u64) = mask 32"
  by (simp add: mask_eq_exp_minus_1)

lemma mask_64: "(0xffffffffffffffff :: u64) = mask 64"
  by (simp add: mask_eq_exp_minus_1)

lemma bit_index: "(v :: nat) < 4294967296 \<Longrightarrow> bit v n \<Longrightarrow> n < 32"
proof -
  assume "v < 4294967296"
  then have "take_bit 32 v = v" by (simp add: take_bit_nat_eq_self)
  then show "bit v n \<Longrightarrow> n < 32" by (metis bit_take_bit_iff)
qed

lemma half_bits:
  "bit (setHalfSignature WhichA s v) n \<longleftrightarrow> n < 64 \<and> (if n < 32 then bit s n else bit v (n - 32))"
  "v < 4294967296 \<Longrightarrow> bit (setHalfSignature WhichB s v) n \<longleftrightarrow> n < 64 \<and> (if n < 32 then bit v n else bit s n)"
  unfolding setHalfSignature_def mask_32 Let_def
  by (auto simp: bit_and_iff bit_or_iff bit_push_bit_iff bit_mask_iff bit_of_nat_iff possible_bit_def dest: bit_index bit_imp_le_length)

lemma extract_eqI:
  "(\<And>n. n < 32 \<Longrightarrow> bit s (n + 32) = bit t (n + 32)) \<Longrightarrow> extractIndexA s = extractIndexA t"
  "(\<And>n. n < 32 \<Longrightarrow> bit s n = bit t n) \<Longrightarrow> extractIndexB s = extractIndexB t"
  unfolding extractIndexA_def extractIndexB_def
  by (rule arg_cong [of _ _ unat], rule bit_word_eqI, simp add: bit_ucast_iff bit_drop_bit_eq add.commute)+

lemma extract_index:
  assumes "v < 4294967296"
  shows "(\<And>n. n < 32 \<Longrightarrow> bit s (n + 32) = bit v n) \<Longrightarrow> extractIndexA s = v"
    "(\<And>n. n < 32 \<Longrightarrow> bit s n = bit v n) \<Longrightarrow> extractIndexB s = v"
proof -
  have v: "unat (of_nat v :: 32 word) = v" using assms by (simp add: unsigned_of_nat take_bit_nat_eq_self)
  show "(\<And>n. n < 32 \<Longrightarrow> bit s (n + 32) = bit v n) \<Longrightarrow> extractIndexA s = v"
    unfolding extractIndexA_def by (subst v [symmetric], rule arg_cong [of _ _ unat], rule bit_word_eqI)
      (simp add: bit_ucast_iff bit_drop_bit_eq add.commute bit_of_nat_iff possible_bit_def)
  show "(\<And>n. n < 32 \<Longrightarrow> bit s n = bit v n) \<Longrightarrow> extractIndexB s = v"
    unfolding extractIndexB_def by (subst v [symmetric], rule arg_cong [of _ _ unat], rule bit_word_eqI)
      (simp add: bit_ucast_iff bit_of_nat_iff possible_bit_def)
qed

lemma extract_halves:
  assumes "v < 4294967296"
  shows "extractIndexA (setHalfSignature WhichA s v) = v" "extractIndexB (setHalfSignature WhichA s v) = extractIndexB s"
    "extractIndexB (setHalfSignature WhichB s v) = v" "extractIndexA (setHalfSignature WhichB s v) = extractIndexA s"
  using assms by (auto intro!: extract_index extract_eqI simp: half_bits)

definition pair_of :: "u64 \<Rightarrow> nat \<times> nat" where
  "pair_of s = (extractIndexA s, extractIndexB s)"

lemma pair_of_inj: "pair_of s = pair_of t \<Longrightarrow> s = t"
proof (rule bit_word_eqI)
  fix n assume p: "pair_of s = pair_of t" and n: "n < LENGTH(64)"
  have a: "unat (ucast (drop_bit 32 s) :: 32 word) = unat (ucast (drop_bit 32 t) :: 32 word)" and b: "unat (ucast s :: 32 word) = unat (ucast t :: 32 word)"
    using p unfolding pair_of_def extractIndexA_def extractIndexB_def by (metis prod.inject)+
  have a: "(ucast (drop_bit 32 s) :: 32 word) = ucast (drop_bit 32 t)" and b: "(ucast s :: 32 word) = ucast t"
    using a b by (metis unsigned_word_eqI)+
  show "bit s n = bit t n"
  proof (cases "n < 32")
    case True
    then show ?thesis using arg_cong [OF b, of "\<lambda>w. bit w n"] by (simp add: bit_ucast_iff)
  next
    case False
    then have "n - 32 < 32" "32 + (n - 32) = n" using n by simp_all
    then show ?thesis using arg_cong [OF a, of "\<lambda>w. bit w (n - 32)"] by (simp add: bit_ucast_iff bit_drop_bit_eq)
  qed
qed

lemma pair_of_signature:
  assumes "i < 4294967296" "j < 4294967296"
  shows "pair_of (signatureForIndices i j) = (i, j)"
proof -
  have b: "bit (signatureForIndices i j) n \<longleftrightarrow> n < 64 \<and> (if n < 32 then bit j n else bit i (n - 32))" for n
    using bit_index [OF assms(2), of n]
    by (auto simp: signatureForIndices_def bit_or_iff bit_push_bit_iff bit_of_nat_iff possible_bit_def)
  show ?thesis unfolding pair_of_def using assms by (auto intro!: extract_index simp: b)
qed

lemma pair_of_convert:
  assumes "v < 4294967296"
  shows "pair_of (merger_convert WhichA v) = (v, invalidNodeIndex)" "pair_of (merger_convert WhichB v) = (invalidNodeIndex, v)"
    "pair_of (merger_extend WhichB s v) = (extractIndexA s, v)"
proof -
  have "invalidNodeIndex = mask 32" by (simp add: invalidNodeIndex_def mask_eq_exp_minus_1)
  then have b: "bit invalidNodeIndex n \<longleftrightarrow> n < 32" for n by (metis bit_mask_iff possible_bit_nat)
  have i: "invalidNodeIndex < 4294967296" by (simp add: invalidNodeIndex_def)
  have "extractIndexA (mask 64) = invalidNodeIndex" "extractIndexB (mask 64) = invalidNodeIndex"
    by (rule extract_index [OF i], simp add: bit_mask_iff b)+
  then show "pair_of (merger_convert WhichA v) = (v, invalidNodeIndex)" "pair_of (merger_convert WhichB v) = (invalidNodeIndex, v)"
    "pair_of (merger_extend WhichB s v) = (extractIndexA s, v)"
    using extract_halves [OF assms] unfolding pair_of_def merger_convert_def merger_extend_def mask_64 by simp_all
qed

subsection \<open>Steps of a pair\<close>

definition index_ok :: "dfa \<Rightarrow> nat \<Rightarrow> bool" where
  "index_ok d i \<longleftrightarrow> i = invalidNodeIndex \<or> live d i"

definition index_next :: "dfa \<Rightarrow> nat \<Rightarrow> int \<Rightarrow> nat" where
  "index_next d i c =
     (if i = invalidNodeIndex then invalidNodeIndex
      else case dfa_next d i c of None \<Rightarrow> invalidNodeIndex | Some j \<Rightarrow> j)"

definition pair_next :: "dfa \<Rightarrow> dfa \<Rightarrow> nat \<times> nat \<Rightarrow> int \<Rightarrow> nat \<times> nat" where
  "pair_next a b p c = (index_next a (fst p) c, index_next b (snd p) c)"

abbreviation stopped :: "nat \<times> nat" where
  "stopped \<equiv> (invalidNodeIndex, invalidNodeIndex)"

lemma live_index: "wf_dfa d \<Longrightarrow> live d i \<Longrightarrow> i < invalidNodeIndex \<and> i < length (nodes d)"
  by (auto simp: wf_dfa_def live_def u32_max_def invalidNodeIndex_def)

lemma index_next_ok: "wf_dfa d \<Longrightarrow> index_ok d i \<Longrightarrow> index_ok d (index_next d i c)"
  using dfa_next_live by (auto simp: index_ok_def index_next_def split: option.split)

lemma index_ok_less: "wf_dfa d \<Longrightarrow> index_ok d i \<Longrightarrow> i < 4294967296"
  using live_index [of d i] by (auto simp: index_ok_def invalidNodeIndex_def)

lemma extend_combined_data:
  assumes "wf_dfa d" "index_ok d i" "represents v xs" "ordered_from 0 xs"
  shows "\<exists>w ys. extend_combined which d i v = Some w \<and> represents w ys \<and> ordered_from 0 ys \<and>
    (\<forall>c. range_data ys c = combine_data (merger_convert which) (merger_extend which) (range_data xs c)
       (if index_next d i c = invalidNodeIndex then None else Some (index_next d i c)))"
proof (cases "i = invalidNodeIndex")
  case True
  have "combine_data f g (range_data xs c) None = range_data xs c" for c and f :: "nat \<Rightarrow> u64" and g
    by (cases "range_data xs c") simp_all
  then show ?thesis using True assms(3,4) by (auto simp: extend_combined_def index_next_def)
next
  case False
  then have l: "live d i" using assms(2) by (simp add: index_ok_def)
  have "(if index_next d i c = invalidNodeIndex then None else Some (index_next d i c)) = dfa_next d i c" for c
    using dfa_next_live [OF assms(1) l, of c] live_index [OF assms(1)] False
    by (auto simp: index_next_def split: option.split)
  then show ?thesis using range_list_extend_data [OF assms(3,4) transition_items(1) [OF assms(1) l]] False live_index [OF assms(1) l]
    by (simp add: extend_combined_def transition_items(2) [OF assms(1) l])
qed

lemma combined_data:
  assumes "wf_dfa a" "wf_dfa b" "index_ok a i" "index_ok b j"
  shows "\<exists>v w ys. extend_combined WhichA a i [] = Some v \<and> extend_combined WhichB b j v = Some w \<and> iterate w = Some ys \<and>
    ordered_from 0 ys \<and>
    (\<forall>c. case range_data ys c of None \<Rightarrow> pair_next a b (i, j) c = stopped
       | Some s \<Rightarrow> pair_of s = pair_next a b (i, j) c \<and> pair_next a b (i, j) c \<noteq> stopped)"
proof -
  have e: "represents ([] :: u64 range_vector) []" "ordered_from 0 ([] :: u64 char_data list)" by (simp_all add: represents_def chain_def)
  obtain v xs where v: "extend_combined WhichA a i [] = Some v" "represents v xs" "ordered_from 0 xs"
    "\<And>c. range_data xs c = combine_data (merger_convert WhichA) (merger_extend WhichA) None
       (if index_next a i c = invalidNodeIndex then None else Some (index_next a i c))"
    using extend_combined_data [OF assms(1,3) e, of WhichA] by auto
  obtain w ys where w: "extend_combined WhichB b j v = Some w" "represents w ys" "ordered_from 0 ys"
    "\<And>c. range_data ys c = combine_data (merger_convert WhichB) (merger_extend WhichB) (range_data xs c)
       (if index_next b j c = invalidNodeIndex then None else Some (index_next b j c))"
    using extend_combined_data [OF assms(2,4) v(2,3), of WhichB] by auto
  have "case range_data ys c of None \<Rightarrow> pair_next a b (i, j) c = stopped
       | Some s \<Rightarrow> pair_of s = pair_next a b (i, j) c \<and> pair_next a b (i, j) c \<noteq> stopped" for c
  proof -
    have "index_next a i c < 4294967296" "index_next b j c < 4294967296"
      using index_ok_less index_next_ok assms by blast+
    note p = pair_of_convert [OF this(1)] pair_of_convert [OF this(2)]
    have "extractIndexA (merger_convert WhichA (index_next a i c)) = index_next a i c" using p(1) by (simp add: pair_of_def)
    then show ?thesis using p unfolding w(4) v(4) by (auto simp: pair_next_def)
  qed
  then show ?thesis using v(1) w iterate_represents by blast
qed

subsection \<open>The invariant of the worklist\<close>

definition index_acts :: "dfa \<Rightarrow> nat \<Rightarrow> u64 set" where
  "index_acts d i = (if i = invalidNodeIndex then {} else set (node_actions d (nodes d ! i)))"

definition pair_ok :: "dfa \<Rightarrow> dfa \<Rightarrow> nat \<times> nat \<Rightarrow> bool" where
  "pair_ok a b p \<longleftrightarrow> index_ok a (fst p) \<and> index_ok b (snd p) \<and> p \<noteq> stopped"

definition merged_acts :: "dfa \<Rightarrow> dfa \<Rightarrow> dfa \<Rightarrow> nat \<times> nat \<Rightarrow> dfa_node \<Rightarrow> bool" where
  "merged_acts a b d p n \<longleftrightarrow>
     m_actionsStart n + m_actionsLength n \<le> length (dfa_actions d) \<and> m_flags n = 0 \<and>
     set (node_actions d n) = index_acts a (fst p) \<union> index_acts b (snd p)"

definition mkey :: "merge_state \<Rightarrow> nat \<Rightarrow> u64" where
  "mkey s i = fst (mg_nodeMapping s ! i)"

definition merged_node :: "dfa \<Rightarrow> dfa \<Rightarrow> merge_state \<Rightarrow> nat \<Rightarrow> bool" where
  "merged_node a b s i \<longleftrightarrow>
     (let d = mg_output s; n = nodes d ! i; ts = node_transitions d n in
      m_transitionsStart n + m_transitionsLength n \<le> length (transitionRanges d) \<and> sorted_transitions ts \<and>
      (\<forall>x\<in>set ts. snd x < length (mg_nodeMapping s)) \<and>
      (\<forall>c. case find_target c ts of None \<Rightarrow> pair_next a b (pair_of (mkey s i)) c = stopped
         | Some j \<Rightarrow> j < length (mg_nodeMapping s) \<and> pair_of (mkey s j) = pair_next a b (pair_of (mkey s i)) c))"

definition keys :: "merge_state \<Rightarrow> u64 list" where
  "keys s = map fst (mg_nodeMapping s)"

definition minv :: "dfa \<Rightarrow> dfa \<Rightarrow> u64 set \<Rightarrow> merge_state \<Rightarrow> bool" where
  "minv a b Q s \<longleftrightarrow>
     length (nodes (mg_output s)) = length (mg_nodeMapping s) \<and> mg_nodeMapping s \<noteq> [] \<and> root (mg_output s) = 0 \<and>
     pair_of (mkey s 0) = (root a, root b) \<and>
     map snd (mg_nodeMapping s) = [0 ..< length (mg_nodeMapping s)] \<and> distinct (keys s) \<and>
     length (transitionRanges (mg_output s)) = length (transitionDestinations (mg_output s)) \<and>
     (\<forall>i < length (mg_nodeMapping s). pair_ok a b (pair_of (mkey s i)) \<and> merged_acts a b (mg_output s) (pair_of (mkey s i)) (nodes (mg_output s) ! i)) \<and>
     set (dfa_actions (mg_output s)) \<subseteq> used_actions a \<union> used_actions b \<and>
     distinct (mg_unprocessedNodes s) \<and> set (mg_unprocessedNodes s) \<subseteq> set (keys s) \<and>
     Q \<subseteq> set (keys s) \<and> Q \<inter> set (mg_unprocessedNodes s) = {} \<and>
     (\<forall>i < length (mg_nodeMapping s). mkey s i \<notin> Q \<longrightarrow> mkey s i \<notin> set (mg_unprocessedNodes s) \<longrightarrow> merged_node a b s i)"

lemma minvD:
  assumes "minv a b Q s"
  shows "length (nodes (mg_output s)) = length (mg_nodeMapping s)" "mg_nodeMapping s \<noteq> []" "root (mg_output s) = 0"
    "pair_of (mkey s 0) = (root a, root b)"
    "map snd (mg_nodeMapping s) = [0 ..< length (mg_nodeMapping s)]" "distinct (keys s)"
    "length (transitionRanges (mg_output s)) = length (transitionDestinations (mg_output s))"
    "\<And>i. i < length (mg_nodeMapping s) \<Longrightarrow> pair_ok a b (pair_of (mkey s i))"
    "\<And>i. i < length (mg_nodeMapping s) \<Longrightarrow> merged_acts a b (mg_output s) (pair_of (mkey s i)) (nodes (mg_output s) ! i)"
    "set (dfa_actions (mg_output s)) \<subseteq> used_actions a \<union> used_actions b"
    "distinct (mg_unprocessedNodes s)" "set (mg_unprocessedNodes s) \<subseteq> set (keys s)"
    "Q \<subseteq> set (keys s)" "Q \<inter> set (mg_unprocessedNodes s) = {}"
    "\<And>i. i < length (mg_nodeMapping s) \<Longrightarrow> mkey s i \<notin> Q \<Longrightarrow> mkey s i \<notin> set (mg_unprocessedNodes s) \<Longrightarrow> merged_node a b s i"
  using assms unfolding minv_def by blast+

lemma minvI:
  assumes "length (nodes (mg_output s)) = length (mg_nodeMapping s)" "mg_nodeMapping s \<noteq> []" "root (mg_output s) = 0"
    "pair_of (mkey s 0) = (root a, root b)"
    "map snd (mg_nodeMapping s) = [0 ..< length (mg_nodeMapping s)]" "distinct (keys s)"
    "length (transitionRanges (mg_output s)) = length (transitionDestinations (mg_output s))"
    "\<And>i. i < length (mg_nodeMapping s) \<Longrightarrow> pair_ok a b (pair_of (mkey s i)) \<and> merged_acts a b (mg_output s) (pair_of (mkey s i)) (nodes (mg_output s) ! i)"
    "set (dfa_actions (mg_output s)) \<subseteq> used_actions a \<union> used_actions b"
    "distinct (mg_unprocessedNodes s)" "set (mg_unprocessedNodes s) \<subseteq> set (keys s)"
    "Q \<subseteq> set (keys s)" "Q \<inter> set (mg_unprocessedNodes s) = {}"
    "\<And>i. i < length (mg_nodeMapping s) \<Longrightarrow> mkey s i \<notin> Q \<Longrightarrow> mkey s i \<notin> set (mg_unprocessedNodes s) \<Longrightarrow> merged_node a b s i"
  shows "minv a b Q s"
  using assms unfolding minv_def by blast

definition mgrows :: "merge_state \<Rightarrow> merge_state \<Rightarrow> bool" where
  "mgrows s s' \<longleftrightarrow>
     (\<exists>M. mg_nodeMapping s' = mg_nodeMapping s @ M \<and> mg_unprocessedNodes s' = mg_unprocessedNodes s @ map fst M) \<and>
     (\<exists>N. nodes (mg_output s') = nodes (mg_output s) @ N) \<and>
     (\<exists>A. dfa_actions (mg_output s') = dfa_actions (mg_output s) @ A) \<and>
     (\<exists>R. transitionRanges (mg_output s') = transitionRanges (mg_output s) @ R) \<and>
     (\<exists>D. transitionDestinations (mg_output s') = transitionDestinations (mg_output s) @ D)"

lemma mgrows_refl: "mgrows s s"
  by (simp add: mgrows_def)

lemma mgrows_trans: "mgrows s1 s2 \<Longrightarrow> mgrows s2 s3 \<Longrightarrow> mgrows s1 s3"
  unfolding mgrows_def by (elim conjE exE) simp

lemma mkey_grows: "mgrows s s' \<Longrightarrow> i < length (mg_nodeMapping s) \<Longrightarrow> mkey s' i = mkey s i"
  by (auto simp: mgrows_def mkey_def nth_append)

lemma mapping_lookup:
  assumes "map snd M = [0 ..< length M]"
  shows "map_of M k = Some i \<Longrightarrow> i < length M \<and> fst (M ! i) = k"
    and "map_of M k = None \<longleftrightarrow> k \<notin> set (map fst M)"
proof -
  assume "map_of M k = Some i"
  then obtain m where m: "m < length M" "M ! m = (k, i)" by (auto dest!: map_of_SomeD simp: in_set_conv_nth)
  have "map snd M ! m = m" using m(1) unfolding assms by simp
  then show "i < length M \<and> fst (M ! i) = k" using m by simp
qed (simp add: map_of_eq_None_iff)

lemma mapping_found:
  assumes "map snd M = [0 ..< length M]" "distinct (map fst M)" "i < length M"
  shows "map_of M (fst (M ! i)) = Some i"
proof -
  have "snd (M ! i) = map snd M ! i" using assms(3) by simp
  also have "\<dots> = i" unfolding assms(1) using assms(3) by simp
  finally have "(fst (M ! i), i) \<in> set M" using assms(3) nth_mem [OF assms(3)] by (metis prod.collapse)
  then show ?thesis using assms(2) by simp
qed

lemma merged_acts_grows:
  assumes "merged_acts a b d p n" "dfa_actions d' = dfa_actions d @ A"
  shows "merged_acts a b d' p n"
proof -
  have "node_actions d' n = node_actions d n"
    using assms by (auto simp: merged_acts_def node_actions_def nth_append)
  then show ?thesis using assms by (simp add: merged_acts_def)
qed

lemma merged_node_grows:
  assumes g: "mgrows s s'" and i: "i < length (mg_nodeMapping s)" and len: "length (nodes (mg_output s)) = length (mg_nodeMapping s)"
    and d: "merged_node a b s i" and l: "length (transitionRanges (mg_output s)) = length (transitionDestinations (mg_output s))"
  shows "merged_node a b s' i"
proof -
  let ?n = "nodes (mg_output s) ! i"
  let ?ts = "node_transitions (mg_output s) ?n"
  have n: "nodes (mg_output s') ! i = ?n" using g i len by (auto simp: mgrows_def nth_append)
  have le: "length (mg_nodeMapping s) \<le> length (mg_nodeMapping s')"
    "length (transitionRanges (mg_output s)) \<le> length (transitionRanges (mg_output s'))" using g by (auto simp: mgrows_def)
  have st: "m_transitionsStart ?n + m_transitionsLength ?n \<le> length (transitionRanges (mg_output s))"
    using d by (simp add: merged_node_def Let_def)
  have ts: "node_transitions (mg_output s') ?n = ?ts"
    using g unfolding mgrows_def by (elim conjE exE) (rule node_transitions_append [OF st l])
  have t: "case find_target c ?ts of None \<Rightarrow> pair_next a b (pair_of (mkey s i)) c = stopped
         | Some j \<Rightarrow> j < length (mg_nodeMapping s) \<and> pair_of (mkey s j) = pair_next a b (pair_of (mkey s i)) c"
    "\<forall>x\<in>set ?ts. snd x < length (mg_nodeMapping s)" "sorted_transitions ?ts" for c
    using d by (auto simp: merged_node_def Let_def)
  have "case find_target c ?ts of None \<Rightarrow> pair_next a b (pair_of (mkey s' i)) c = stopped
         | Some j \<Rightarrow> j < length (mg_nodeMapping s') \<and> pair_of (mkey s' j) = pair_next a b (pair_of (mkey s' i)) c" for c
    using t(1) [of c] le(1) mkey_grows [OF g] by (cases "find_target c ?ts") (simp_all add: i)
  moreover have "snd x < length (mg_nodeMapping s')" if "x \<in> set ?ts" for x
    using t(2) that le(1) by (meson order_less_le_trans)
  ultimately show ?thesis using st le(2) t(3) by (simp add: merged_node_def Let_def n ts)
qed

subsection \<open>Adding a node\<close>

definition few_merged_actions :: "dfa \<Rightarrow> dfa \<Rightarrow> bool" where
  "few_merged_actions a b \<longleftrightarrow> card (used_actions a \<union> used_actions b) \<le> 65535"

lemma index_acts_subset: "index_ok d i \<Longrightarrow> index_acts d i \<subseteq> used_actions d"
  by (auto simp: index_acts_def index_ok_def used_actions_def)

lemma index_actions_ok: "wf_dfa d \<Longrightarrow> index_ok d i \<Longrightarrow> index_actions d i = Some (index_acts d i)"
  using live_index [of d i] by (auto simp: index_actions_def index_acts_def index_ok_def)

lemma minv_new_node:
  assumes inv: "minv a b Q s" and k: "pair_ok a b (pair_of k)" "k \<notin> set (keys s)"
    and d: "nodes d = nodes (mg_output s) @ [n]" "dfa_actions d = dfa_actions (mg_output s) @ A" "root d = root (mg_output s)"
      "transitionRanges d = transitionRanges (mg_output s)" "transitionDestinations d = transitionDestinations (mg_output s)"
    and n: "merged_acts a b d (pair_of k) n" and A: "set A \<subseteq> used_actions a \<union> used_actions b"
  defines "s' \<equiv> \<lparr>mg_output = d, mg_nodeMapping = mg_nodeMapping s @ [(k, length (nodes (mg_output s)))],
    mg_unprocessedNodes = mg_unprocessedNodes s @ [k]\<rparr>"
  shows "minv a b Q s'" "mgrows s s'" "mkey s' (length (mg_nodeMapping s)) = k"
proof -
  let ?m = "length (mg_nodeMapping s)"
  note I = minvD [OF inv]
  show g: "mgrows s s'" using d by (auto simp: mgrows_def s'_def)
  show m: "mkey s' ?m = k" by (simp add: mkey_def s'_def)
  have f: "mg_nodeMapping s' = mg_nodeMapping s @ [(k, ?m)]" "mg_output s' = d" "mg_unprocessedNodes s' = mg_unprocessedNodes s @ [k]"
    "keys s' = keys s @ [k]" using I(1) by (simp_all add: s'_def keys_def)
  have old: "i < ?m \<Longrightarrow> mkey s' i = mkey s i" for i by (rule mkey_grows [OF g])
  have ku: "k \<notin> set (mg_unprocessedNodes s)" "k \<notin> Q" using I(12,13) k(2) by auto
  show "minv a b Q s'"
  proof (rule minvI)
    show "pair_of (mkey s' 0) = (root a, root b)" using I(2,4) old [of 0] by simp
    show "pair_ok a b (pair_of (mkey s' i)) \<and> merged_acts a b (mg_output s') (pair_of (mkey s' i)) (nodes (mg_output s') ! i)"
      if "i < length (mg_nodeMapping s')" for i
    proof (cases "i = ?m")
      case True
      then show ?thesis using m k(1) n d(1) I(1) by (simp add: f nth_append)
    next
      case False
      then have i: "i < ?m" using that by (simp add: f)
      then show ?thesis using I(8) [OF i] merged_acts_grows [OF I(9) [OF i] d(2)] old [OF i] d(1) I(1) by (simp add: f nth_append)
    qed
    show "set (mg_unprocessedNodes s') \<subseteq> set (keys s')" "Q \<subseteq> set (keys s')" "Q \<inter> set (mg_unprocessedNodes s') = {}"
      "distinct (mg_unprocessedNodes s')" "distinct (keys s')"
      using I(6,11-14) k(2) ku by (auto simp: f)
    show "set (dfa_actions (mg_output s')) \<subseteq> used_actions a \<union> used_actions b" using I(10) A d(2) by (auto simp: f)
    show "merged_node a b s' i" if "i < length (mg_nodeMapping s')" "mkey s' i \<notin> Q" "mkey s' i \<notin> set (mg_unprocessedNodes s')" for i
    proof -
      have i: "i < ?m" using that m by (auto simp: f less_Suc_eq)
      then show ?thesis using that old [OF i] by (intro merged_node_grows [OF g i I(1) I(15) I(7)]) (auto simp: f)
    qed
  qed (use I d in \<open>simp_all add: f\<close>)
qed

lemma getOrCreateCombinedNode_inv:
  assumes w: "wf_dfa a" "wf_dfa b" "few_merged_actions a b" "enumerates actionOrder"
    and inv: "minv a b Q s" and k: "pair_ok a b (pair_of k)"
  shows "\<exists>j s'. getOrCreateCombinedNode actionOrder a b k s = Some (j, s') \<and> minv a b Q s' \<and> mgrows s s' \<and>
    transitionRanges (mg_output s') = transitionRanges (mg_output s) \<and>
    transitionDestinations (mg_output s') = transitionDestinations (mg_output s) \<and>
    j < length (mg_nodeMapping s') \<and> mkey s' j = k"
proof (cases "map_of (mg_nodeMapping s) k")
  case (Some i)
  then show ?thesis using mapping_lookup(1) [OF minvD(5) [OF inv] Some] inv mgrows_refl
    by (intro exI [of _ i] exI [of _ s]) (simp add: getOrCreateCombinedNode_def mkey_def)
next
  case None
  note I = minvD [OF inv]
  define acts where "acts = index_acts a (extractIndexA k) \<union> index_acts b (extractIndexB k)"
  have ok: "index_ok a (extractIndexA k)" "index_ok b (extractIndexB k)" using k by (simp_all add: pair_ok_def pair_of_def)
  have sub: "acts \<subseteq> used_actions a \<union> used_actions b"
    using index_acts_subset [OF ok(1)] index_acts_subset [OF ok(2)] by (auto simp: acts_def)
  then have fin: "finite acts" by (rule finite_subset) simp
  have e: "set (actionOrder acts) = acts" "distinct (actionOrder acts)" using w(4) fin unfolding enumerates_def by blast+
  have "length (actionOrder acts) = card acts" using e by (metis distinct_card)
  also have "\<dots> \<le> card (used_actions a \<union> used_actions b)" by (rule card_mono [OF _ sub]) simp
  finally have len: "length (actionOrder acts) < 65536" using w(3) by (simp add: few_merged_actions_def)
  define n where "n = setActions (length (dfa_actions (mg_output s))) (length (actionOrder acts)) new_node"
  define d where "d = (mg_output s)\<lparr>nodes := nodes (mg_output s) @ [n], dfa_actions := dfa_actions (mg_output s) @ actionOrder acts\<rparr>"
  have "node_actions d n = actionOrder acts"
    by (rule nth_equalityI) (auto simp: node_actions_def d_def n_def setActions_def nth_append)
  then have n: "merged_acts a b d (pair_of k) n" using e(1)
    by (simp add: merged_acts_def pair_of_def acts_def) (simp add: n_def d_def setActions_def new_node_def)
  have kn: "k \<notin> set (keys s)" using None mapping_lookup(2) [OF I(5)] by (simp add: keys_def)
  have d: "nodes d = nodes (mg_output s) @ [n]" "dfa_actions d = dfa_actions (mg_output s) @ actionOrder acts" "root d = root (mg_output s)"
    "transitionRanges d = transitionRanges (mg_output s)" "transitionDestinations d = transitionDestinations (mg_output s)"
    by (simp_all add: d_def)
  define s' where "s' = \<lparr>mg_output = d, mg_nodeMapping = mg_nodeMapping s @ [(k, length (nodes (mg_output s)))],
    mg_unprocessedNodes = mg_unprocessedNodes s @ [k]\<rparr>"
  note new = minv_new_node [OF inv k kn d n, unfolded e(1), OF sub, folded s'_def]
  have s': "getOrCreateCombinedNode actionOrder a b k s = Some (length (mg_nodeMapping s), s')"
    using None len index_actions_ok [OF w(1) ok(1)] index_actions_ok [OF w(2) ok(2)] I(1)
    by (simp add: getOrCreateCombinedNode_def Let_def d_def n_def acts_def s'_def)
  have "mg_output s' = d" "length (mg_nodeMapping s) < length (mg_nodeMapping s')" by (simp_all add: s'_def)
  then show ?thesis using s' new d(4,5) by metis
qed

subsection \<open>Processing a node\<close>

lemma minv_transition:
  fixes r :: char_range and t :: nat
  assumes inv: "minv a b Q s"
  defines "s' \<equiv> s\<lparr>mg_output := (mg_output s)\<lparr>transitionRanges := transitionRanges (mg_output s) @ [r],
    transitionDestinations := transitionDestinations (mg_output s) @ [t]\<rparr>\<rparr>"
  shows "minv a b Q s'" "mgrows s s'"
proof -
  note I = minvD [OF inv]
  show g: "mgrows s s'" by (simp add: mgrows_def s'_def)
  have f: "mg_nodeMapping s' = mg_nodeMapping s" "nodes (mg_output s') = nodes (mg_output s)" "mkey s' = mkey s" "keys s' = keys s"
    "mg_unprocessedNodes s' = mg_unprocessedNodes s" "dfa_actions (mg_output s') = dfa_actions (mg_output s)" "root (mg_output s') = root (mg_output s)"
    by (auto simp: s'_def mkey_def keys_def)
  have f2: "dfa_actions (mg_output s') = dfa_actions (mg_output s) @ []" by (simp add: f)
  show "minv a b Q s'"
  proof (rule minvI)
    show "length (transitionRanges (mg_output s')) = length (transitionDestinations (mg_output s'))" using I(7) by (simp add: s'_def)
    show "pair_ok a b (pair_of (mkey s' i)) \<and> merged_acts a b (mg_output s') (pair_of (mkey s' i)) (nodes (mg_output s') ! i)"
      if "i < length (mg_nodeMapping s')" for i
      using that I(8) [of i] merged_acts_grows [OF I(9) f2, of i] unfolding f by blast
    show "merged_node a b s' i" if "i < length (mg_nodeMapping s')" "mkey s' i \<notin> Q" "mkey s' i \<notin> set (mg_unprocessedNodes s')" for i
      using that unfolding f by (intro merged_node_grows [OF g _ I(1) I(15) I(7)])
  qed (unfold f, (rule I)+)
qed

lemma add_combined_inv:
  assumes w: "wf_dfa a" "wf_dfa b" "few_merged_actions a b" "enumerates actionOrder"
    and "minv a b Q s" "all_data (\<lambda>k. pair_ok a b (pair_of k)) xs"
  shows "\<exists>s' js. add_combined actionOrder a b xs s = Some s' \<and> minv a b Q s' \<and> mgrows s s' \<and>
    transitionRanges (mg_output s') = transitionRanges (mg_output s) @ map (\<lambda>(f, l, k). \<lparr>crFirst = f, crLast = l\<rparr>) xs \<and>
    transitionDestinations (mg_output s') = transitionDestinations (mg_output s) @ js \<and>
    list_all2 (\<lambda>(f, l, k) j. j < length (mg_nodeMapping s') \<and> mkey s' j = k) xs js"
  using assms(5,6)
proof (induction xs arbitrary: s)
  case Nil
  then show ?case using mgrows_refl by simp
next
  case (Cons x xs)
  obtain f l k where x: "x = (f, l, k)" by (cases x)
  have k: "pair_ok a b (pair_of k)" and xs: "all_data (\<lambda>k. pair_ok a b (pair_of k)) xs"
    using Cons.prems(2) by (auto simp: x all_data_def)
  obtain j s1 where s1: "getOrCreateCombinedNode actionOrder a b k s = Some (j, s1)" "minv a b Q s1" "mgrows s s1"
    "transitionRanges (mg_output s1) = transitionRanges (mg_output s)"
    "transitionDestinations (mg_output s1) = transitionDestinations (mg_output s)"
    "j < length (mg_nodeMapping s1)" "mkey s1 j = k"
    using getOrCreateCombinedNode_inv [OF w Cons.prems(1) k] by blast
  define s2 where "s2 = s1\<lparr>mg_output := (mg_output s1)\<lparr>transitionRanges := transitionRanges (mg_output s1) @ [\<lparr>crFirst = f, crLast = l\<rparr>],
    transitionDestinations := transitionDestinations (mg_output s1) @ [j]\<rparr>\<rparr>"
  note i2 = minv_transition [OF s1(2), where r = "\<lparr>crFirst = f, crLast = l\<rparr>" and t = j, folded s2_def]
  have r2: "transitionRanges (mg_output s2) = transitionRanges (mg_output s1) @ [\<lparr>crFirst = f, crLast = l\<rparr>]"
    "transitionDestinations (mg_output s2) = transitionDestinations (mg_output s1) @ [j]" by (simp_all add: s2_def)
  obtain s' js where s': "add_combined actionOrder a b xs s2 = Some s'" "minv a b Q s'" "mgrows s2 s'"
    "transitionRanges (mg_output s') = transitionRanges (mg_output s2) @ map (\<lambda>(f, l, k). \<lparr>crFirst = f, crLast = l\<rparr>) xs"
    "transitionDestinations (mg_output s') = transitionDestinations (mg_output s2) @ js"
    "list_all2 (\<lambda>(f, l, k) j. j < length (mg_nodeMapping s') \<and> mkey s' j = k) xs js"
    using Cons.IH [OF i2(1) xs] by blast
  have g: "mgrows s1 s'" by (rule mgrows_trans [OF i2(2) s'(3)])
  have "length (mg_nodeMapping s1) \<le> length (mg_nodeMapping s')" using g by (auto simp: mgrows_def)
  then have j: "j < length (mg_nodeMapping s')" "mkey s' j = k" using s1(6,7) mkey_grows [OF g s1(6)] by simp_all
  have "add_combined actionOrder a b (x # xs) s = Some s'" using s1(1) s'(1) by (simp add: x Let_def s2_def)
  then show ?case using s'(2,4-6) s1(4,5) j mgrows_trans [OF s1(3) g] r2
    by (intro exI [of _ s'] exI [of _ "j # js"]) (simp add: x)
qed

lemma minv_pop:
  assumes inv: "minv a b {} s" and u: "mg_unprocessedNodes s = us @ [k]"
  shows "minv a b {k} (s\<lparr>mg_unprocessedNodes := us\<rparr>)"
proof -
  let ?s = "s\<lparr>mg_unprocessedNodes := us\<rparr>"
  note I = minvD [OF inv]
  have f: "mg_nodeMapping ?s = mg_nodeMapping s" "mg_output ?s = mg_output s" "mkey ?s = mkey s" "keys ?s = keys s" "mg_unprocessedNodes ?s = us"
    by (auto simp: mkey_def keys_def)
  have nd: "merged_node a b ?s = merged_node a b s" by (rule ext) (simp only: merged_node_def f)
  show ?thesis
  proof (rule minvI)
    show "merged_node a b ?s i" if "i < length (mg_nodeMapping ?s)" "mkey ?s i \<notin> {k}" "mkey ?s i \<notin> set (mg_unprocessedNodes ?s)" for i
      using that I(15) [of i] u unfolding f nd by auto
    show "pair_ok a b (pair_of (mkey ?s i)) \<and> merged_acts a b (mg_output ?s) (pair_of (mkey ?s i)) (nodes (mg_output ?s) ! i)"
      if "i < length (mg_nodeMapping ?s)" for i using that I(8,9) [of i] unfolding f by blast
  qed (unfold f, (rule I)+, use I(11,12) u in auto)
qed

lemma minv_finish:
  assumes inv: "minv a b {k} s" and i: "i < length (mg_nodeMapping s)" "mkey s i = k"
    and n: "m_actionsStart n = m_actionsStart (nodes (mg_output s) ! i)"
      "m_actionsLength n = m_actionsLength (nodes (mg_output s) ! i)" "m_flags n = m_flags (nodes (mg_output s) ! i)"
  defines "s' \<equiv> s\<lparr>mg_output := (mg_output s)\<lparr>nodes := (nodes (mg_output s))[i := n]\<rparr>\<rparr>"
  assumes d: "merged_node a b s' i"
  shows "minv a b {} s'"
proof -
  note I = minvD [OF inv]
  have f: "mg_nodeMapping s' = mg_nodeMapping s" "mkey s' = mkey s" "keys s' = keys s" "mg_unprocessedNodes s' = mg_unprocessedNodes s"
    "dfa_actions (mg_output s') = dfa_actions (mg_output s)" "root (mg_output s') = root (mg_output s)"
    "transitionRanges (mg_output s') = transitionRanges (mg_output s)"
    "transitionDestinations (mg_output s') = transitionDestinations (mg_output s)"
    "length (nodes (mg_output s')) = length (nodes (mg_output s))"
    by (auto simp: s'_def mkey_def keys_def)
  have nd: "nodes (mg_output s') ! j = (if j = i then n else nodes (mg_output s) ! j)" if "j < length (mg_nodeMapping s)" for j
    using that i I(1) by (simp add: s'_def nth_list_update)
  have acts: "merged_acts a b (mg_output s') p n \<longleftrightarrow> merged_acts a b (mg_output s) p (nodes (mg_output s) ! i)"
    "merged_acts a b (mg_output s') p m \<longleftrightarrow> merged_acts a b (mg_output s) p m" for p m
    by (simp_all add: merged_acts_def node_actions_def f n)
  have tr: "node_transitions (mg_output s') = node_transitions (mg_output s)" by (rule ext) (simp add: node_transitions_def f)
  show ?thesis
  proof (rule minvI)
    show "pair_ok a b (pair_of (mkey s' j)) \<and> merged_acts a b (mg_output s') (pair_of (mkey s' j)) (nodes (mg_output s') ! j)"
      if "j < length (mg_nodeMapping s')" for j
      using that I(8,9) [of j] nd [of j] unfolding f by (cases "j = i") (simp add: acts(1), simp add: acts(2))
    show "merged_node a b s' j" if "j < length (mg_nodeMapping s')" "mkey s' j \<notin> {}" "mkey s' j \<notin> set (mg_unprocessedNodes s')" for j
    proof (cases "j = i")
      case False
      then have "mkey s j \<noteq> k" using that(1) i I(6) unfolding f
        by (metis (no_types, lifting) keys_def length_map mkey_def nth_eq_iff_index_eq nth_map)
      then have "merged_node a b s j" using that I(15) [of j] unfolding f by simp
      then show ?thesis using that(1) nd [of j] False unfolding merged_node_def Let_def f tr by simp
    qed (use d in simp)
  qed (use I in \<open>simp_all add: f\<close>)
qed

lemma merge_step_inv:
  assumes w: "wf_dfa a" "wf_dfa b" "few_merged_actions a b" "enumerates actionOrder"
    and inv: "minv a b {} s" and ne: "mg_unprocessedNodes s \<noteq> []"
  shows "\<exists>s' M. merge_step actionOrder a b s = Some s' \<and> minv a b {} s' \<and>
    mg_nodeMapping s' = mg_nodeMapping s @ M \<and> mg_unprocessedNodes s' = butlast (mg_unprocessedNodes s) @ map fst M"
proof -
  obtain us k where u: "mg_unprocessedNodes s = us @ [k]" using ne by (cases "mg_unprocessedNodes s" rule: rev_cases) auto
  define s0 where "s0 = s\<lparr>mg_unprocessedNodes := us\<rparr>"
  have i0: "minv a b {k} s0" unfolding s0_def by (rule minv_pop [OF inv u])
  have "k \<in> set (keys s0)" using minvD(13) [OF i0] by simp
  then obtain i where i: "i < length (mg_nodeMapping s0)" "mkey s0 i = k" by (auto simp: keys_def mkey_def in_set_conv_nth)
  define p where "p = pair_of k"
  have p: "p = (extractIndexA k, extractIndexB k)" "pair_ok a b p" using minvD(8) [OF i0 i(1)] i(2) by (simp_all add: p_def pair_of_def)
  then obtain v1 v2 ys where v: "extend_combined WhichA a (extractIndexA k) [] = Some v1" "extend_combined WhichB b (extractIndexB k) v1 = Some v2"
    "iterate v2 = Some ys" "ordered_from 0 ys"
    "\<And>c. case range_data ys c of None \<Rightarrow> pair_next a b p c = stopped
       | Some t \<Rightarrow> pair_of t = pair_next a b p c \<and> pair_next a b p c \<noteq> stopped"
    using combined_data [OF w(1,2), of "extractIndexA k" "extractIndexB k"] by (auto simp: pair_ok_def)
  have next_ok: "index_ok a (fst (pair_next a b p c)) \<and> index_ok b (snd (pair_next a b p c))" for c
    using p(2) index_next_ok [OF w(1)] index_next_ok [OF w(2)] by (simp add: pair_next_def pair_ok_def)
  have good: "all_data (\<lambda>k. pair_ok a b (pair_of k)) ys"
  proof (rule all_dataI [OF v(4)])
    show "pair_ok a b (pair_of t)" if "range_data ys c = Some t" for c t
      using v(5) [of c] that next_ok [of c] by (simp add: pair_ok_def)
  qed
  obtain s1 js where s1: "add_combined actionOrder a b ys s0 = Some s1" "minv a b {k} s1" "mgrows s0 s1"
    "transitionRanges (mg_output s1) = transitionRanges (mg_output s0) @ map (\<lambda>(f, l, k). \<lparr>crFirst = f, crLast = l\<rparr>) ys"
    "transitionDestinations (mg_output s1) = transitionDestinations (mg_output s0) @ js"
    "list_all2 (\<lambda>(f, l, k) j. j < length (mg_nodeMapping s1) \<and> mkey s1 j = k) ys js"
    using add_combined_inv [OF w i0 good] by blast
  note I1 = minvD [OF s1(2)]
  have i1: "i < length (mg_nodeMapping s1)" "mkey s1 i = k" using i s1(3) mkey_grows [OF s1(3) i(1)] by (auto simp: mgrows_def)
  let ?st = "length (transitionRanges (mg_output s0))"
  let ?n = "setTransitions ?st (length ys) (nodes (mg_output s1) ! i)"
  define s2 where "s2 = s1\<lparr>mg_output := (mg_output s1)\<lparr>nodes := (nodes (mg_output s1))[i := ?n]\<rparr>\<rparr>"
  have "map_of (mg_nodeMapping s1) k = Some i"
    using mapping_found [OF I1(5) _ i1(1)] I1(6) i1(2) by (simp add: keys_def mkey_def)
  then have step: "merge_step actionOrder a b s = Some s2"
    using v(1-3) s1(1,4) u by (simp add: merge_step_def Let_def s0_def [symmetric] s2_def)
  have len: "length ys \<le> 128" using ordered_from_length [OF v(4)] by simp
  have js: "length js = length ys" using s1(6) by (simp add: list_all2_lengthD)
  let ?ts = "zip (map (\<lambda>(f, l, k). \<lparr>crFirst = f, crLast = l\<rparr>) ys) js"
  have f2: "nodes (mg_output s2) ! i = ?n" "mg_nodeMapping s2 = mg_nodeMapping s1" "mkey s2 = mkey s1"
    "transitionRanges (mg_output s2) = transitionRanges (mg_output s1)"
    "transitionDestinations (mg_output s2) = transitionDestinations (mg_output s1)"
    using i1(1) I1(1) by (auto simp: s2_def mkey_def)
  have ts: "node_transitions (mg_output s2) ?n = ?ts"
    by (rule node_transitions_slice [of _ "transitionRanges (mg_output s0)" _ "transitionDestinations (mg_output s0)"])
      (use f2 s1(4,5) minvD(7) [OF i0] js len in \<open>simp_all add: setTransitions_def\<close>)
  have "merged_node a b s2 i"
    unfolding merged_node_def Let_def f2 ts i1(2) p_def [symmetric]
  proof (intro conjI allI ballI)
    show "m_transitionsStart ?n + m_transitionsLength ?n \<le> length (transitionRanges (mg_output s1))"
      using s1(4) len by (simp add: setTransitions_def)
    show "sorted_transitions ?ts" by (rule zip_transitions_sorted [OF v(4)]) simp
    show "snd x < length (mg_nodeMapping s1)" if "x \<in> set ?ts" for x
      using list_all2_target [OF s1(6)] set_zip_rightD [of "fst x" "snd x"] that by (metis prod.collapse)
    show "case find_target c ?ts of None \<Rightarrow> pair_next a b p c = stopped
      | Some j \<Rightarrow> j < length (mg_nodeMapping s1) \<and> pair_of (mkey s1 j) = pair_next a b p c" for c
      using zip_transitions_target [OF s1(6), of c] v(5) [of c] by (cases "find_target c ?ts") auto
  qed
  then have "minv a b {} s2" unfolding s2_def by (intro minv_finish [OF s1(2) i1]) (simp_all add: setTransitions_def)
  moreover obtain M where "mg_nodeMapping s1 = mg_nodeMapping s @ M" "mg_unprocessedNodes s1 = us @ map fst M"
    using s1(3) by (auto simp: mgrows_def s0_def)
  ultimately show ?thesis using step u by (intro exI [of _ s2] exI [of _ M]) (simp add: s2_def)
qed

lemma graphSize_card: "graphSize d = card {i. live d i}"
  by (simp add: graphSize_def length_filter_conv_card live_def)

lemma finite_live [simp]: "finite {i. live d i}"
  by (simp add: live_def)

lemma mapping_bound:
  assumes "minv a b Q s" "wf_dfa a" "wf_dfa b"
  shows "length (mg_nodeMapping s) < Suc (graphSize a) * Suc (graphSize b)"
proof -
  note I = minvD [OF assms(1)]
  let ?A = "insert invalidNodeIndex {i. live a i}"
  let ?B = "insert invalidNodeIndex {i. live b i}"
  have "pair_of ` set (keys s) \<subseteq> ?A \<times> ?B - {stopped}"
  proof
    fix q assume "q \<in> pair_of ` set (keys s)"
    then obtain i where "i < length (mg_nodeMapping s)" "q = pair_of (mkey s i)" by (auto simp: keys_def mkey_def in_set_conv_nth)
    then have "pair_ok a b q" using I(8) by simp
    then show "q \<in> ?A \<times> ?B - {stopped}" by (cases q) (auto simp: pair_ok_def index_ok_def)
  qed
  then have "card (pair_of ` set (keys s)) \<le> card (?A \<times> ?B - {stopped})" by (rule card_mono [rotated]) simp
  also have "\<dots> < card (?A \<times> ?B)" by (rule psubset_card_mono) auto
  also have "\<dots> \<le> Suc (graphSize a) * Suc (graphSize b)"
    unfolding card_cartesian_product graphSize_card by (rule mult_le_mono) (simp_all add: card_insert_if)
  finally have "card (pair_of ` set (keys s)) < Suc (graphSize a) * Suc (graphSize b)" .
  moreover have "card (pair_of ` set (keys s)) = card (set (keys s))" by (rule card_image) (simp add: inj_on_def pair_of_inj)
  moreover have "card (set (keys s)) = length (mg_nodeMapping s)" using I(6) by (metis distinct_card keys_def length_map)
  ultimately show ?thesis by simp
qed

lemma merge_loop_inv:
  assumes w: "wf_dfa a" "wf_dfa b" "few_merged_actions a b" "enumerates actionOrder" and "minv a b {} s"
  shows "\<exists>s'. merge_loop actionOrder a b s = Some s' \<and> minv a b {} s' \<and> mg_unprocessedNodes s' = []"
  using assms(5)
proof (induction "(Suc (graphSize a) * Suc (graphSize b) - length (mg_nodeMapping s), length (mg_unprocessedNodes s))"
    arbitrary: s rule: wf_induct_rule [OF wf_lex_prod [OF wf_less wf_less]])
  case 1
  show ?case
  proof (cases "mg_unprocessedNodes s = []")
    case True
    then show ?thesis using "1.prems" by (subst merge_loop.simps) simp
  next
    case False
    obtain s1 M where s1: "merge_step actionOrder a b s = Some s1" "minv a b {} s1"
      "mg_nodeMapping s1 = mg_nodeMapping s @ M" "mg_unprocessedNodes s1 = butlast (mg_unprocessedNodes s) @ map fst M"
      using merge_step_inv [OF w "1.prems" False] by blast
    have "length (mg_nodeMapping s1) < Suc (graphSize a) * Suc (graphSize b)" by (rule mapping_bound [OF s1(2) w(1,2)])
    moreover have "0 < length (mg_unprocessedNodes s)" using False by simp
    ultimately have "\<exists>s'. merge_loop actionOrder a b s1 = Some s' \<and> minv a b {} s' \<and> mg_unprocessedNodes s' = []"
      using s1 by (intro "1.hyps") (cases M; auto)+
    then show ?thesis using s1(1) False by (subst merge_loop.simps) simp
  qed
qed

subsection \<open>The merged automaton\<close>

lemma merge_initial:
  assumes w: "wf_dfa a" "wf_dfa b" "few_merged_actions a b" "enumerates actionOrder"
  shows "\<exists>i s. getOrCreateCombinedNode actionOrder a b (signatureForIndices (root a) (root b)) merge_state_new = Some (i, s) \<and> minv a b {} s"
proof -
  define k where "k = signatureForIndices (root a) (root b)"
  have l: "live a (root a)" "live b (root b)" using w(1,2) by (simp_all add: wf_dfa_def)
  then have lt: "root a < invalidNodeIndex" "root b < invalidNodeIndex" using live_index w(1,2) by blast+
  then have p: "pair_of k = (root a, root b)" unfolding k_def by (intro pair_of_signature) (simp_all add: invalidNodeIndex_def)
  then have e: "extractIndexA k = root a" "extractIndexB k = root b" by (simp_all add: pair_of_def)
  have ok: "index_ok a (root a)" "index_ok b (root b)" "pair_ok a b (root a, root b)" using l lt by (auto simp: index_ok_def pair_ok_def)
  define acts where "acts = index_acts a (root a) \<union> index_acts b (root b)"
  have sub: "acts \<subseteq> used_actions a \<union> used_actions b"
    using index_acts_subset [OF ok(1)] index_acts_subset [OF ok(2)] by (auto simp: acts_def)
  then have fin: "finite acts" by (rule finite_subset) simp
  have o: "set (actionOrder acts) = acts" "distinct (actionOrder acts)" using w(4) fin unfolding enumerates_def by blast+
  have "length (actionOrder acts) = card acts" using o by (metis distinct_card)
  also have "\<dots> \<le> card (used_actions a \<union> used_actions b)" by (rule card_mono [OF _ sub]) simp
  finally have len: "length (actionOrder acts) < 65536" using w(3) by (simp add: few_merged_actions_def)
  define n where "n = setActions 0 (length (actionOrder acts)) new_node"
  define d where "d = dfa_new\<lparr>nodes := [n], dfa_actions := actionOrder acts\<rparr>"
  define s where "s = \<lparr>mg_output = d, mg_nodeMapping = [(k, 0)], mg_unprocessedNodes = [k]\<rparr>"
  have "node_actions d n = actionOrder acts"
    by (rule nth_equalityI) (auto simp: node_actions_def d_def n_def setActions_def dfa_new_def)
  then have "merged_acts a b d (root a, root b) n" using o(1)
    by (simp add: merged_acts_def acts_def) (simp add: n_def d_def setActions_def new_node_def)
  then have "minv a b {} s" using ok(3) p sub o(1)
    by (intro minvI) (auto simp: s_def d_def dfa_new_def mkey_def keys_def)
  moreover have "getOrCreateCombinedNode actionOrder a b k merge_state_new = Some (0, s)"
    using len index_actions_ok [OF w(1) ok(1)] index_actions_ok [OF w(2) ok(2)]
    by (simp add: getOrCreateCombinedNode_def merge_state_new_def Let_def e s_def d_def n_def acts_def dfa_new_def)
  ultimately show ?thesis unfolding k_def by blast
qed

definition selected_from :: "dfa \<Rightarrow> nat \<Rightarrow> int list \<Rightarrow> u64 set" where
  "selected_from d i w = (if i = invalidNodeIndex then {} else (\<Union>n\<in>set (i # dfa_trace d i w). set (node_actions d (nodes d ! n))))"

lemma selected_from_step: "selected_from d i w = (case w of [] \<Rightarrow> index_acts d i | c # cs \<Rightarrow> index_acts d i \<union> selected_from d (index_next d i c) cs)"
  if "wf_dfa d" "index_ok d i"
proof (cases w)
  case (Cons c cs)
  have "j \<noteq> invalidNodeIndex" if "i \<noteq> invalidNodeIndex" "dfa_next d i c = Some j" for j
    using \<open>index_ok d i\<close> dfa_next_live [OF \<open>wf_dfa d\<close> _ that(2)] live_index [OF \<open>wf_dfa d\<close>] that(1) by (auto simp: index_ok_def)
  then show ?thesis
    by (auto simp: Cons selected_from_def index_acts_def index_next_def split: option.split)
qed (simp add: selected_from_def index_acts_def)

lemma merged_selected:
  assumes inv: "minv a b {} s" "mg_unprocessedNodes s = []" and w: "wf_dfa a" "wf_dfa b"
    and i: "i < length (mg_nodeMapping s)" "pair_of (mkey s i) = p" and small: "length (mg_nodeMapping s) \<le> u32_max"
  shows "selected_from (mg_output s) i cs = selected_from a (fst p) cs \<union> selected_from b (snd p) cs"
  using i
proof (induction cs arbitrary: i p)
  case Nil
  then have "pair_ok a b p" "merged_acts a b (mg_output s) p (nodes (mg_output s) ! i)" "i \<noteq> invalidNodeIndex"
    using minvD(8,9) [OF inv(1)] small by (auto simp: u32_max_def invalidNodeIndex_def)
  then show ?case using selected_from_step [OF w(1), of "fst p" "[]"] selected_from_step [OF w(2), of "snd p" "[]"]
    by (simp add: pair_ok_def merged_acts_def selected_from_def)
next
  case (Cons c cs)
  let ?d = "mg_output s"
  have p: "pair_ok a b p" "merged_acts a b ?d p (nodes ?d ! i)" "i \<noteq> invalidNodeIndex"
    using minvD(8,9) [OF inv(1)] Cons.prems small by (auto simp: u32_max_def invalidNodeIndex_def)
  have "merged_node a b s i" using minvD(15) [OF inv(1)] Cons.prems inv(2) by simp
  then have t: "case dfa_next ?d i c of None \<Rightarrow> pair_next a b p c = stopped
         | Some j \<Rightarrow> j < length (mg_nodeMapping s) \<and> pair_of (mkey s j) = pair_next a b p c"
    unfolding merged_node_def Let_def dfa_next_def Cons.prems(2) by blast
  have rest: "selected_from a (fst p) (c # cs) \<union> selected_from b (snd p) (c # cs) =
    set (node_actions ?d (nodes ?d ! i)) \<union> (selected_from a (fst (pair_next a b p c)) cs \<union> selected_from b (snd (pair_next a b p c)) cs)"
    using p selected_from_step [OF w(1), of "fst p" "c # cs"] selected_from_step [OF w(2), of "snd p" "c # cs"]
    by (auto simp: pair_ok_def merged_acts_def pair_next_def)
  show ?case
  proof (cases "dfa_next ?d i c")
    case None
    then have "pair_next a b p c = stopped" using t by simp
    then show ?thesis unfolding rest using None p(3) by (simp add: selected_from_def)
  next
    case (Some j)
    then have j: "j < length (mg_nodeMapping s)" "pair_of (mkey s j) = pair_next a b p c" using t by simp_all
    then have "j \<noteq> invalidNodeIndex" using small by (auto simp: u32_max_def invalidNodeIndex_def)
    then show ?thesis unfolding rest Cons.IH [OF j, symmetric] using Some p(3) by (simp add: selected_from_def)
  qed
qed

lemma minv_wf:
  assumes inv: "minv a b {} s" "mg_unprocessedNodes s = []" and small: "length (mg_nodeMapping s) \<le> u32_max"
  shows "wf_dfa (mg_output s)"
proof -
  let ?d = "mg_output s"
  note I = minvD [OF inv(1)]
  have live: "live ?d i \<longleftrightarrow> i < length (mg_nodeMapping s)" for i
    using I(1,9) by (auto simp: live_def isKilled_def merged_acts_def)
  have "wf_node ?d (nodes ?d ! i)" if "i < length (mg_nodeMapping s)" for i
    using I(9,15) [OF that] inv(2) by (auto simp: wf_node_def merged_acts_def merged_node_def Let_def live)
  then have "wf_node ?d n" if "n \<in> set (nodes ?d)" for n using that I(1) by (auto simp: in_set_conv_nth)
  then show ?thesis using I small live by (auto simp: wf_dfa_def)
qed

subsection \<open>The entries of the merged nodes\<close>

lemma getOrCreateCombinedNode_spans:
  assumes "getOrCreateCombinedNode actionOrder a b k s = Some (i, s')" "spans_below st (mg_output s)"
  shows "spans_below st (mg_output s')"
proof (cases "map_of (mg_nodeMapping s) k")
  case (Some j)
  then show ?thesis using assms by (simp add: getOrCreateCombinedNode_def)
next
  case None
  then obtain x y where xy: "index_actions a (extractIndexA k) = Some x" "index_actions b (extractIndexB k) = Some y"
    using assms(1) by (auto simp: getOrCreateCombinedNode_def bind_eq_Some_conv)
  let ?A = "actionOrder (x \<union> y)"
  show ?thesis by (rule spans_below_node [OF assms(2), of "length ?A mod 65536" ?A])
    (use assms(1) in \<open>auto simp: getOrCreateCombinedNode_def None xy Let_def\<close>)
qed

lemma add_combined_spans:
  "add_combined actionOrder a b xs s = Some s' \<Longrightarrow> spans_below st (mg_output s) \<Longrightarrow> spans_below st (mg_output s')"
proof (induction xs arbitrary: s)
  case (Cons x xs)
  obtain f l k where x: "x = (f, l, k)" by (cases x)
  obtain i s1 where s1: "getOrCreateCombinedNode actionOrder a b k s = Some (i, s1)" using Cons.prems(1) by (auto simp: x bind_eq_Some_conv)
  have b1: "spans_below st (mg_output s1)" by (rule getOrCreateCombinedNode_spans [OF s1 Cons.prems(2)])
  let ?s = "s1\<lparr>mg_output := (mg_output s1)\<lparr>transitionRanges := transitionRanges (mg_output s1) @ [\<lparr>crFirst = f, crLast = l\<rparr>],
    transitionDestinations := transitionDestinations (mg_output s1) @ [i]\<rparr>\<rparr>"
  have "add_combined actionOrder a b xs ?s = Some s'" using Cons.prems(1) s1 by (simp add: x Let_def)
  moreover have "spans_below st (mg_output ?s)" by (rule spans_below_transition [OF b1]) simp_all
  ultimately show ?case by (rule Cons.IH)
qed simp

lemma merge_step_spans:
  assumes "merge_step actionOrder a b s = Some s'" "all_spans_below (mg_output s)"
  shows "all_spans_below (mg_output s')"
proof -
  let ?k = "last (mg_unprocessedNodes s)" and ?st = "length (transitionRanges (mg_output s))"
  obtain v1 v2 ys s1 i where v: "extend_combined WhichA a (extractIndexA ?k) [] = Some v1" "extend_combined WhichB b (extractIndexB ?k) v1 = Some v2"
    "iterate v2 = Some ys" and s1: "add_combined actionOrder a b ys (s\<lparr>mg_unprocessedNodes := butlast (mg_unprocessedNodes s)\<rparr>) = Some s1"
    and i: "map_of (mg_nodeMapping s1) ?k = Some i"
    using assms(1) by (auto simp: merge_step_def Let_def bind_eq_Some_conv)
  have s': "mg_output s' = (mg_output s1)\<lparr>nodes := (nodes (mg_output s1))[i :=
      setTransitions ?st (length (transitionRanges (mg_output s1)) - ?st) (nodes (mg_output s1) ! i)]\<rparr>"
    using assms(1) by (auto simp: merge_step_def Let_def v s1 i)
  have b: "spans_below ?st (mg_output s1)" using assms(2) by (intro add_combined_spans [OF s1]) (simp add: all_spans_below_def)
  then have "?st \<le> length (transitionRanges (mg_output s1))" by (simp add: spans_below_def)
  then show ?thesis unfolding all_spans_below_def
    by (intro spans_below_process [OF b, of "length (transitionRanges (mg_output s1)) - ?st"]) (simp_all add: s')
qed

lemma merge_loop_spans:
  assumes "merge_loop actionOrder a b s = Some s'"
  shows "all_spans_below (mg_output s) \<longrightarrow> all_spans_below (mg_output s')"
proof (rule merge_loop.raw_induct [of "\<lambda>actionOrder a b s s'. all_spans_below (mg_output s) \<longrightarrow> all_spans_below (mg_output s')", OF _ assms])
  fix loop actionOrder a b s s'
  assume hyp: "\<And>actionOrder a b s s'. loop actionOrder a b s = Some s' \<Longrightarrow> all_spans_below (mg_output s) \<longrightarrow> all_spans_below (mg_output s')"
    and body: "(if mg_unprocessedNodes s = [] then Some s else Option.bind (merge_step actionOrder a b s) (loop actionOrder a b)) = Some s'"
  show "all_spans_below (mg_output s) \<longrightarrow> all_spans_below (mg_output s')"
  proof (cases "mg_unprocessedNodes s = []")
    case False
    then obtain s1 where "merge_step actionOrder a b s = Some s1" "loop actionOrder a b s1 = Some s'" using body by (auto simp: bind_eq_Some_conv)
    then show ?thesis using hyp [of actionOrder a b s1 s'] merge_step_spans by blast
  qed (use body in simp)
qed

lemma merge_initial_spans:
  assumes "getOrCreateCombinedNode actionOrder a b k merge_state_new = Some (i, s)"
  shows "all_spans_below (mg_output s)"
proof -
  have "transitionRanges (mg_output s) = []"
    using assms by (auto simp: getOrCreateCombinedNode_def merge_state_new_def Let_def bind_eq_Some_conv dfa_new_def)
  moreover have "spans_below 0 (mg_output s)" using spans_below_new by (intro getOrCreateCombinedNode_spans [OF assms]) (simp add: merge_state_new_def)
  ultimately show ?thesis by (simp add: all_spans_below_def)
qed

lemma merge_dfas_selected:
  assumes w: "wf_dfa a" "wf_dfa b" "few_merged_actions a b" "enumerates actionOrder"
    and small: "Suc (graphSize a) * Suc (graphSize b) \<le> u32_max"
  shows "\<exists>c. merge_dfas actionOrder a b = Some c \<and> wf_dfa c \<and> (\<forall>w. selected c w = selected a w \<union> selected b w) \<and>
    Suc (length (nodes c)) \<le> Suc (graphSize a) * Suc (graphSize b) \<and>
    used_actions c \<subseteq> used_actions a \<union> used_actions b \<and> all_live c \<and> separate c"
proof -
  obtain i s0 where s0: "getOrCreateCombinedNode actionOrder a b (signatureForIndices (root a) (root b)) merge_state_new = Some (i, s0)" "minv a b {} s0"
    using merge_initial [OF w] by blast
  obtain s where s: "merge_loop actionOrder a b s0 = Some s" "minv a b {} s" "mg_unprocessedNodes s = []"
    using merge_loop_inv [OF w s0(2)] by blast
  note I = minvD [OF s(2)]
  have b: "length (mg_nodeMapping s) < Suc (graphSize a) * Suc (graphSize b)" by (rule mapping_bound [OF s(2) w(1,2)])
  then have u: "length (mg_nodeMapping s) \<le> u32_max" using small by simp
  have m: "merge_dfas actionOrder a b = Some (mg_output s)"
    using s0(1) s(1) by (simp add: merge_dfas_def DFAMerger_merge_def) (simp add: merge_state_new_def)
  have "live a (root a)" "live b (root b)" using w(1,2) by (simp_all add: wf_dfa_def)
  then have "root a \<noteq> invalidNodeIndex" "root b \<noteq> invalidNodeIndex" using live_index w(1,2) by force+
  then have "selected_from a (root a) w = selected a w" "selected_from b (root b) w = selected b w" for w
    by (simp_all add: selected_from_def selected_def)
  moreover have "selected_from (mg_output s) 0 w = selected (mg_output s) w" for w
    using I(3) by (simp add: selected_from_def selected_def invalidNodeIndex_def)
  ultimately have "selected (mg_output s) w = selected a w \<union> selected b w" for w
    using merged_selected [OF s(2,3) w(1,2) _ I(4) u, of w] I(2) by simp
  moreover have "all_live (mg_output s) \<and> separate (mg_output s)"
    using merge_loop_spans [OF s(1)] merge_initial_spans [OF s0(1)] by (simp add: all_spans_below_def spans_below_def)
  moreover have "used_actions (mg_output s) \<subseteq> set (dfa_actions (mg_output s))"
    by (rule used_actions_subset [OF minv_wf [OF s(2,3) u]])
  ultimately show ?thesis using m minv_wf [OF s(2,3) u] I(1,10) b by (intro exI [of _ "mg_output s"]) auto
qed

end
