(* ===== verification/Graph_Construction.thy ===== *)
theory Graph_Construction
  imports Transition_Layout
begin

text \<open>
  The constructor of \<^verbatim>\<open>FullGraphPartition\<close> is total on well-formed automata and yields the graph of
  the pieces of the transitions, with one set of nodes and one set of transitions per singular range.
\<close>

subsection \<open>Counters\<close>

lemma bump_count:
  assumes "\<forall>e\<in>set es. key e < length cs" "\<forall>v<length cs. cs ! v + length es \<le> u32_max"
  shows "\<exists>cs'. fold_option (\<lambda>e. bump (key e)) es cs = Some cs' \<and> length cs' = length cs \<and>
    (\<forall>v<length cs. cs' ! v = cs ! v + count_list (map key es) v)"
  using assms
proof (induction es arbitrary: cs)
  case (Cons e es)
  define c where "c = cs[key e := Suc (cs ! key e)]"
  have k: "key e < length cs" "cs ! key e + length (e # es) \<le> u32_max" using Cons.prems by auto
  then have "u32 (Suc (cs ! key e)) = Suc (cs ! key e)" by (simp add: u32_def u32_max_def)
  then have b: "bump (key e) cs = Some c" using k(1) by (simp add: bump_def c_def)
  have c: "length c = length cs" "\<And>v. v < length cs \<Longrightarrow> c ! v = (if v = key e then Suc (cs ! v) else cs ! v)"
    by (simp_all add: c_def nth_list_update)
  have "c ! v + length es \<le> u32_max" if "v < length c" for v
    using that Cons.prems(2) by (auto simp: c)
  then obtain cs' where "fold_option (\<lambda>e. bump (key e)) es c = Some cs'" "length cs' = length c"
    "\<forall>v<length c. cs' ! v = c ! v + count_list (map key es) v" using Cons.IH [of c] Cons.prems(1) c(1) by auto
  then show ?case using b c by auto
qed simp

lemma accumulate_spec:
  "a + sum_list cs \<le> u32_max \<Longrightarrow>
   fst (accumulate a cs) = a + sum_list cs \<and> length (snd (accumulate a cs)) = length cs \<and>
   (\<forall>v<length cs. snd (accumulate a cs) ! v = a + sum_list (take v cs))"
proof (induction a cs rule: accumulate.induct)
  case (2 a c cs)
  have "u32 (a + c) = a + c" using "2.prems" by (simp add: u32_def u32_max_def)
  then have IH: "fst (accumulate (a + c) cs) = a + c + sum_list cs" "length (snd (accumulate (a + c) cs)) = length cs"
    "\<forall>v<length cs. snd (accumulate (a + c) cs) ! v = a + c + sum_list (take v cs)" using 2 by auto
  have e: "accumulate a (c # cs) = (fst (accumulate (a + c) cs), a # snd (accumulate (a + c) cs))"
    using \<open>u32 (a + c) = a + c\<close> by (simp add: case_prod_unfold Let_def)
  have "(a # snd (accumulate (a + c) cs)) ! v = a + sum_list (take v (c # cs))" if "v < length (c # cs)" for v
    using that IH(3) by (cases v) auto
  then show ?case unfolding e using IH(1,2) by simp
qed simp

lemma add_sets_spec:
  "a + sum_list (map (snd \<circ> snd) rs) \<le> u32_max \<Longrightarrow>
   \<exists>p'. add_sets rs a p = (a + sum_list (map (snd \<circ> snd) rs), p') \<and>
     p' = p\<lparr>m_sets := m_sets p @ map (\<lambda>k. \<lparr>sdStart = a + sum_list (take k (map (snd \<circ> snd) rs)),
       sdSize = snd (snd (rs ! k)), sdMarkedCount = 0\<rparr>) [0 ..< length rs]\<rparr>"
proof (induction rs a p rule: add_sets.induct)
  case (2 f l c rs a p)
  have u: "u32 (a + c) = a + c" using "2.prems" by (simp add: u32_def u32_max_def)
  have "[0 ..< length ((f, l, c) # rs)] = 0 # map Suc [0 ..< length rs]" by (simp add: upt_conv_Cons map_Suc_upt del: upt_Suc)
  then show ?case using 2 u by (simp add: addSetUnchecked_def comp_def add.assoc)
qed simp

lemma sum_counts: "\<forall>k\<in>set ks. k < n \<Longrightarrow> v \<le> n \<Longrightarrow> sum_list (take v (map (count_list ks) [0 ..< n])) = offset_of ks v"
proof (induction v)
  case (Suc v)
  then show ?case by (simp add: take_Suc_conv_app_nth offset_of_Suc)
qed simp

lemma offsets_are_ranks:
  assumes "\<forall>k\<in>set ks. k < length cs" "\<forall>v<length cs. cs ! v = count_list ks v" "v \<le> length cs"
  shows "sum_list (take v cs) = offset_of ks v" "sum_list cs = length ks"
proof -
  have cs: "cs = map (count_list ks) [0 ..< length cs]" using assms(2) by (intro nth_equalityI) auto
  show "sum_list (take v cs) = offset_of ks v" by (subst cs) (rule sum_counts [OF assms(1,3)])
  have "sum_list (take (length cs) cs) = offset_of ks (length cs)" by (subst cs) (rule sum_counts [OF assms(1)], simp)
  then show "sum_list cs = length ks" using offset_of_all [OF assms(1)] by simp
qed

subsection \<open>Filling the tables\<close>

record layout =
  loPieces :: "(nat \<times> nat \<times> nat) list"
  loNodes :: nat
  loSets :: "set_descriptor list"

abbreviation targetRank :: "layout \<Rightarrow> nat \<Rightarrow> nat" where
  "targetRank lo \<equiv> rank_of (map targetOf (loPieces lo))"

abbreviation symbolRank :: "layout \<Rightarrow> nat \<Rightarrow> nat" where
  "symbolRank lo \<equiv> rank_of (map symbolOf (loPieces lo))"

definition layout_ok :: "layout \<Rightarrow> nat list \<Rightarrow> bool" where
  "layout_ok lo starts \<longleftrightarrow> length (loPieces lo) \<le> u32_max \<and>
     (\<forall>e\<in>set (loPieces lo). targetOf e < loNodes lo \<and> symbolOf e < length (loSets lo)) \<and>
     length starts = loNodes lo \<and> (\<forall>v<loNodes lo. starts ! v = offset_of (map targetOf (loPieces lo)) v) \<and>
     (\<forall>k<length (loSets lo). loSets lo ! k = \<lparr>sdStart = offset_of (map symbolOf (loPieces lo)) k,
        sdSize = count_list (map symbolOf (loPieces lo)) k, sdMarkedCount = 0\<rparr>)"

definition filled :: "layout \<Rightarrow> nat \<Rightarrow> fill_state \<Rightarrow> bool" where
  "filled lo m s \<longleftrightarrow>
     length (flSizes s) = loNodes lo \<and> (\<forall>v<loNodes lo. flSizes s ! v = count_list (map targetOf (take m (loPieces lo))) v) \<and>
     length (flRangeOffsets s) = length (loSets lo) \<and>
     (\<forall>k<length (loSets lo). flRangeOffsets s ! k = count_list (map symbolOf (take m (loPieces lo))) k) \<and>
     length (flTransitions s) = length (loPieces lo) \<and>
     (\<forall>j<m. flTransitions s ! targetRank lo j = sourceOf (loPieces lo ! j)) \<and>
     m_sets (flPartition s) = loSets lo \<and> m_setsMarked (flPartition s) = [] \<and>
     length (m_partitionedElements (flPartition s)) = length (loPieces lo) \<and>
     length (m_elementPosition (flPartition s)) = length (loPieces lo) \<and>
     length (m_elementToSetMap (flPartition s)) = length (loPieces lo) \<and>
     (\<forall>j<m. elementAt (flPartition s) (symbolRank lo j) = targetRank lo j \<and>
        positionOf (flPartition s) (targetRank lo j) = symbolRank lo j \<and>
        setOf (flPartition s) (targetRank lo j) = symbolOf (loPieces lo ! j))"

lemma rank_of_neq: "i < j \<Longrightarrow> j < length ks \<Longrightarrow> rank_of ks i \<noteq> rank_of ks j"
  using rank_of_inj [of ks] unfolding inj_on_def by (metis lessThan_iff less_trans nat_neq_iff)

lemma bump_Some: "v < length cs \<Longrightarrow> cs ! v < u32_max \<Longrightarrow> bump v cs = Some (cs[v := Suc (cs ! v)])"
  by (simp add: bump_def u32_def u32_max_def)

lemma count_take_Suc:
  assumes "m < length es"
  shows "count_list (map key (take (Suc m) es)) v = (if v = key (es ! m) then 1 else 0) + count_list (map key (take m es)) v"
  using assms by (simp add: take_Suc_conv_app_nth)

lemma count_bound: "m < length es \<Longrightarrow> length es \<le> u32_max \<Longrightarrow> count_list (map key (take m es)) v < u32_max"
  using count_le_length [of "map key (take m es)" v] by simp

lemma fill_step:
  assumes ok: "layout_ok lo starts" and m: "m < length (loPieces lo)" and f: "filled lo m s"
  shows "\<exists>s'. fill_transition starts (loPieces lo ! m) s = Some s' \<and> filled lo (Suc m) s'"
proof -
  obtain i k t where e: "loPieces lo ! m = (i, k, t)" by (cases "loPieces lo ! m")
  have mem: "(i, k, t) \<in> set (loPieces lo)" using nth_mem [OF m] e by simp
  have k: "k < length (loSets lo)" "t < loNodes lo" using ok mem unfolding layout_ok_def by fastforce+
  have st: "length starts = loNodes lo" "starts ! t = offset_of (map targetOf (loPieces lo)) t" "sdStart (loSets lo ! k) = offset_of (map symbolOf (loPieces lo)) k"
    and le: "length (loPieces lo) \<le> u32_max"
    using ok k unfolding layout_ok_def by simp_all
  define x where "x = targetRank lo m"
  define y where "y = symbolRank lo m"
  have xy: "x < length (loPieces lo)" "y < length (loPieces lo)"
    using rank_of_slot(3) [of m "map targetOf (loPieces lo)"] rank_of_slot(3) [of m "map symbolOf (loPieces lo)"] m by (simp_all add: x_def y_def)
  have ne: "targetRank lo j \<noteq> x" "symbolRank lo j \<noteq> y" if "j < m" for j
    using rank_of_neq [OF that] m by (simp_all add: x_def y_def)
  have F: "length (flSizes s) = loNodes lo" "\<And>v. v < loNodes lo \<Longrightarrow> flSizes s ! v = count_list (map targetOf (take m (loPieces lo))) v"
    "length (flRangeOffsets s) = length (loSets lo)"
    "\<And>k. k < length (loSets lo) \<Longrightarrow> flRangeOffsets s ! k = count_list (map symbolOf (take m (loPieces lo))) k"
    "length (flTransitions s) = length (loPieces lo)" "m_sets (flPartition s) = loSets lo" "m_setsMarked (flPartition s) = []"
    "length (m_partitionedElements (flPartition s)) = length (loPieces lo)"
    "length (m_elementPosition (flPartition s)) = length (loPieces lo)" "length (m_elementToSetMap (flPartition s)) = length (loPieces lo)"
    using f unfolding filled_def by blast+
  have G: "flTransitions s ! targetRank lo j = sourceOf (loPieces lo ! j)" "elementAt (flPartition s) (symbolRank lo j) = targetRank lo j"
    "positionOf (flPartition s) (targetRank lo j) = symbolRank lo j" "setOf (flPartition s) (targetRank lo j) = symbolOf (loPieces lo ! j)"
    if "j < m" for j using f that unfolding filled_def by blast+
  have x: "starts ! t + flSizes s ! t = x" using k m st(2) e by (simp add: F(2) x_def rank_of_def take_map)
  have y: "sdStart (loSets lo ! k) + flRangeOffsets s ! k = y" using k m st(3) e by (simp add: F(4) y_def rank_of_def take_map)
  have b: "bump t (flSizes s) = Some ((flSizes s)[t := Suc (flSizes s ! t)])"
    "bump k (flRangeOffsets s) = Some ((flRangeOffsets s)[k := Suc (flRangeOffsets s ! k)])"
    using bump_Some [of t "flSizes s"] bump_Some [of k "flRangeOffsets s"] k F(1-4)
      count_bound [OF m le, of targetOf t] count_bound [OF m le, of symbolOf k] by simp_all
  define p where "p = (flPartition s)\<lparr>m_partitionedElements := (m_partitionedElements (flPartition s))[y := x],
    m_elementPosition := (m_elementPosition (flPartition s))[x := y], m_elementToSetMap := (m_elementToSetMap (flPartition s))[x := k]\<rparr>"
  define s' where "s' = \<lparr>flSizes = (flSizes s)[t := Suc (flSizes s ! t)], flTransitions = (flTransitions s)[x := i],
    flRangeOffsets = (flRangeOffsets s)[k := Suc (flRangeOffsets s ! k)], flPartition = p\<rparr>"
  have "fill_transition starts (loPieces lo ! m) s = Some s'"
    using k xy F(1,3,5,6,8-10) st(1) x y b
    by (simp add: e fill_transition_def Let_def startOffsetOfSet_def setElementUnchecked_def s'_def p_def)
  moreover have "filled lo (Suc m) s'"
    unfolding filled_def
  proof (intro conjI allI impI)
    show "flSizes s' ! v = count_list (map targetOf (take (Suc m) (loPieces lo))) v" if "v < loNodes lo" for v
      unfolding count_take_Suc [OF m] using that F(1,2) e by (simp add: s'_def nth_list_update)
    show "flRangeOffsets s' ! v = count_list (map symbolOf (take (Suc m) (loPieces lo))) v" if "v < length (loSets lo)" for v
      unfolding count_take_Suc [OF m] using that F(3,4) e by (simp add: s'_def nth_list_update)
    fix j assume "j < Suc m"
    then have j: "j = m \<or> j < m \<and> targetRank lo j \<noteq> x \<and> symbolRank lo j \<noteq> y" using ne by (auto simp: less_Suc_eq)
    show "flTransitions s' ! targetRank lo j = sourceOf (loPieces lo ! j)"
      using j xy F(5) G(1) [of j] e by (elim disjE) (simp_all add: s'_def x_def [symmetric] nth_list_update)
    show "elementAt (flPartition s') (symbolRank lo j) = targetRank lo j"
      using j xy F(8) G(2) [of j] e by (elim disjE) (simp_all add: s'_def p_def x_def [symmetric] y_def [symmetric] nth_list_update)
    show "positionOf (flPartition s') (targetRank lo j) = symbolRank lo j"
      using j xy F(9) G(3) [of j] e by (elim disjE) (simp_all add: s'_def p_def x_def [symmetric] y_def [symmetric] nth_list_update)
    show "setOf (flPartition s') (targetRank lo j) = symbolOf (loPieces lo ! j)"
      using j xy F(10) G(4) [of j] e by (elim disjE) (simp_all add: s'_def p_def x_def [symmetric] nth_list_update)
  qed (use F in \<open>simp_all add: s'_def p_def\<close>)
  ultimately show ?thesis by blast
qed

lemma fill_all:
  assumes ok: "layout_ok lo starts" and f: "filled lo 0 s"
  shows "\<exists>s'. fold_option (fill_transition starts) (loPieces lo) s = Some s' \<and> filled lo (length (loPieces lo)) s'"
proof -
  have "m \<le> length (loPieces lo) \<Longrightarrow> \<exists>s'. fold_option (fill_transition starts) (take m (loPieces lo)) s = Some s' \<and> filled lo m s'" for m
  proof (induction m)
    case (Suc m)
    then obtain s1 where s1: "fold_option (fill_transition starts) (take m (loPieces lo)) s = Some s1" "filled lo m s1" by auto
    obtain s2 where "fill_transition starts (loPieces lo ! m) s1 = Some s2" "filled lo (Suc m) s2"
      using fill_step [OF ok _ s1(2)] Suc.prems by auto
    then show ?case using s1(1) Suc.prems by (auto simp: take_Suc_conv_app_nth fold_option_append)
  qed (use f in simp)
  from this [of "length (loPieces lo)"] show ?thesis by simp
qed

subsection \<open>The filled partition\<close>

lemma filled_bij:
  assumes "x < length (loPieces lo)"
  shows "\<exists>j<length (loPieces lo). x = targetRank lo j" "\<exists>j<length (loPieces lo). x = symbolRank lo j"
  using rank_of_bij [of "map targetOf (loPieces lo)"] rank_of_bij [of "map symbolOf (loPieces lo)"] assms
  unfolding bij_betw_def by (auto simp: image_iff dest!: equalityD2)

lemma filled_valid:
  assumes ok: "layout_ok lo starts" and f: "filled lo (length (loPieces lo)) s" and pos: "\<forall>k<length (loSets lo). 0 < sdSize (loSets lo ! k)"
  shows "unmarked (length (loPieces lo)) (flPartition s)"
proof -
  let ?n = "length (loPieces lo)" and ?p = "flPartition s" and ?ks = "map symbolOf (loPieces lo)"
  have G: "elementAt ?p (symbolRank lo j) = targetRank lo j" "positionOf ?p (targetRank lo j) = symbolRank lo j"
    "setOf ?p (targetRank lo j) = symbolOf (loPieces lo ! j)" if "j < ?n" for j using f that unfolding filled_def by blast+
  have F: "m_sets ?p = loSets lo" "m_setsMarked ?p = []" "length (m_partitionedElements ?p) = ?n" "length (m_elementPosition ?p) = ?n"
    "length (m_elementToSetMap ?p) = ?n" using f unfolding filled_def by blast+
  have D: "loSets lo ! k = \<lparr>sdStart = offset_of ?ks k, sdSize = count_list ?ks k, sdMarkedCount = 0\<rparr>" if "k < length (loSets lo)" for k
    using ok that unfolding layout_ok_def by blast
  then have E: "sdStart (loSets lo ! k) = offset_of ?ks k" "sdEnd (loSets lo ! k) = offset_of ?ks (Suc k)" "sdMarkedCount (loSets lo ! k) = 0"
    if "k < length (loSets lo)" for k using that by (simp_all add: sdEnd_def offset_of_Suc)
  have R: "targetRank lo j < ?n" "symbolRank lo j < ?n" if "j < ?n" for j
    using rank_of_slot(3) [of j "map targetOf (loPieces lo)"] rank_of_slot(3) [of j ?ks] that by simp_all
  have sy: "symbolOf (loPieces lo ! j) < length (loSets lo)" if "j < ?n" for j using ok nth_mem [OF that] unfolding layout_ok_def by blast
  have v: "valid_partition ?n ?p"
  proof (rule valid_partitionI)
    fix x assume "x < ?n"
    then obtain j where j: "j < ?n" "x = targetRank lo j" using filled_bij(1) by blast
    show "positionOf ?p x < ?n \<and> elementAt ?p (positionOf ?p x) = x" using j G R by simp
    show "setOf ?p x < length (m_sets ?p)" using j G(3) sy F(1) by simp
    fix k assume k: "k < length (m_sets ?p)"
    show "setOf ?p x = k \<longleftrightarrow> sdStart (descriptor ?p k) \<le> positionOf ?p x \<and> positionOf ?p x < sdEnd (descriptor ?p k)"
      using rank_of_key [of j ?ks k] j G k E [of k] by (simp add: F(1))
  next
    fix x assume "x < ?n"
    then obtain j where j: "j < ?n" "x = symbolRank lo j" using filled_bij(2) by blast
    then show "elementAt ?p x < ?n \<and> positionOf ?p (elementAt ?p x) = x" using G R by simp
  next
    fix k assume "k < length (m_sets ?p)"
    then show "0 < sdSize (descriptor ?p k) \<and> sdMarkedCount (descriptor ?p k) \<le> sdSize (descriptor ?p k) \<and> sdEnd (descriptor ?p k) \<le> ?n"
      using pos E [of k] offset_of_le [of ?ks "Suc k"] by (simp add: F(1))
  qed (use F in simp_all)
  moreover have "marks_listed ?p (m_setsMarked ?p)" using E(3) F by (auto simp: marks_listed_def)
  moreover have "\<not> is_marked ?p x" if "x < ?n" for x
    using position_in_set(1) [OF v that] valid_partitionD(8) [OF v that] E(3) F(1)
    by (simp add: is_marked_def indexAfterMarkedElements_def)
  ultimately show ?thesis by (simp add: unmarked_def)
qed

subsection \<open>The graph of an automaton\<close>

definition piece_at :: "layout \<Rightarrow> nat \<Rightarrow> nat \<times> nat \<times> nat" where
  "piece_at lo x = loPieces lo ! inv_into {..<length (loPieces lo)} (targetRank lo) x"

definition layout_graph :: "layout \<Rightarrow> graph" where
  "layout_graph lo = \<lparr>gNodes = loNodes lo, gCount = length (loPieces lo), gSource = \<lambda>x. sourceOf (piece_at lo x),
     gTarget = \<lambda>x. targetOf (piece_at lo x), gSymbol = \<lambda>x. symbolOf (piece_at lo x)\<rparr>"

lemma piece_at_rank:
  assumes "j < length (loPieces lo)"
  shows "piece_at lo (targetRank lo j) = loPieces lo ! j"
  using inv_into_f_f [OF rank_of_inj [of "map targetOf (loPieces lo)"], of j] assms by (simp add: piece_at_def)

lemma piece_at_mem: "(\<exists>x<length (loPieces lo). piece_at lo x = e) \<longleftrightarrow> e \<in> set (loPieces lo)"
proof
  assume "e \<in> set (loPieces lo)"
  then obtain j where "j < length (loPieces lo)" "loPieces lo ! j = e" by (auto simp: in_set_conv_nth)
  then show "\<exists>x<length (loPieces lo). piece_at lo x = e"
    using piece_at_rank [of j lo] rank_of_slot(3) [of j "map targetOf (loPieces lo)"] by auto
next
  assume "\<exists>x<length (loPieces lo). piece_at lo x = e"
  then obtain x where "x < length (loPieces lo)" "piece_at lo x = e" by blast
  then obtain j where "j < length (loPieces lo)" "x = targetRank lo j" using filled_bij(1) by blast
  then show "e \<in> set (loPieces lo)" using piece_at_rank [of j lo] \<open>piece_at lo x = e\<close> nth_mem [of j "loPieces lo"] by simp
qed

lemma layout_graph_ok:
  assumes ok: "layout_ok lo starts" and f: "filled lo (length (loPieces lo)) s" and n: "loNodes lo \<le> u32_max"
    and src: "\<forall>e\<in>set (loPieces lo). sourceOf e < loNodes lo" and d: "distinct (map (\<lambda>e. (sourceOf e, symbolOf e)) (loPieces lo))"
  shows "graph_ok (layout_graph lo) \<lparr>fgStartOffset = starts, fgSizePerNode = flSizes s, fgTransitions = flTransitions s,
    fgNodePartition = np, fgTransitionPartition = tp, fgNextTransitionSet = k\<rparr>"
proof -
  let ?n = "length (loPieces lo)" and ?ts = "map targetOf (loPieces lo)"
  have F: "length (flSizes s) = loNodes lo" "\<And>v. v < loNodes lo \<Longrightarrow> flSizes s ! v = count_list ?ts v" "length (flTransitions s) = ?n"
    "\<And>j. j < ?n \<Longrightarrow> flTransitions s ! targetRank lo j = sourceOf (loPieces lo ! j)"
    using f unfolding filled_def by auto
  have O: "?n \<le> u32_max" "length starts = loNodes lo" "\<And>v. v < loNodes lo \<Longrightarrow> starts ! v = offset_of ?ts v"
    "\<And>e. e \<in> set (loPieces lo) \<Longrightarrow> targetOf e < loNodes lo" using ok unfolding layout_ok_def by blast+
  have x: "\<exists>j<?n. x = targetRank lo j \<and> piece_at lo x = loPieces lo ! j" if "x < ?n" for x
    using filled_bij(1) [OF that] piece_at_rank by blast
  have "flTransitions s ! x = sourceOf (piece_at lo x) \<and> sourceOf (piece_at lo x) < loNodes lo \<and> targetOf (piece_at lo x) < loNodes lo"
    if xn: "x < ?n" for x
  proof -
    obtain j where "j < ?n" "x = targetRank lo j" "piece_at lo x = loPieces lo ! j" using x [OF xn] by blast
    then show ?thesis using F(4) src O(4) [of "loPieces lo ! j"] by simp
  qed
  moreover have "starts ! v \<le> x \<and> x < starts ! v + flSizes s ! v \<longleftrightarrow> x < ?n \<and> targetOf (piece_at lo x) = v" if v: "v < loNodes lo" for v x
  proof -
    have e: "starts ! v + flSizes s ! v = offset_of ?ts (Suc v)" "starts ! v = offset_of ?ts v" using v O(3) F(2) by (simp_all add: offset_of_Suc)
    show ?thesis unfolding e(1) unfolding e(2)
    proof (cases "x < ?n")
      case True
      then obtain j where j: "j < ?n" "x = targetRank lo j" "piece_at lo x = loPieces lo ! j" using x by blast
      then show "offset_of ?ts v \<le> x \<and> x < offset_of ?ts (Suc v) \<longleftrightarrow> x < ?n \<and> targetOf (piece_at lo x) = v"
        using rank_of_key [of j ?ts v] True by simp
    next
      case False
      then show "offset_of ?ts v \<le> x \<and> x < offset_of ?ts (Suc v) \<longleftrightarrow> x < ?n \<and> targetOf (piece_at lo x) = v"
        using offset_of_le [of ?ts "Suc v"] by simp
    qed
  qed
  moreover have "x = y" if xy: "x < ?n" "y < ?n" "sourceOf (piece_at lo x) = sourceOf (piece_at lo y)" "symbolOf (piece_at lo x) = symbolOf (piece_at lo y)" for x y
  proof -
    obtain i where i: "i < ?n" "x = targetRank lo i" "piece_at lo x = loPieces lo ! i" using x [OF xy(1)] by blast
    obtain j where j: "j < ?n" "y = targetRank lo j" "piece_at lo y = loPieces lo ! j" using x [OF xy(2)] by blast
    with i have "map (\<lambda>e. (sourceOf e, symbolOf e)) (loPieces lo) ! i = map (\<lambda>e. (sourceOf e, symbolOf e)) (loPieces lo) ! j" using xy(3,4) by simp
    then have "i = j" using nth_eq_iff_index_eq [OF d] i(1) j(1) by simp
    then show ?thesis using i j by simp
  qed
  ultimately show ?thesis using n O(1,2) F(1,3) unfolding graph_ok_def layout_graph_def by (simp del: of_nat_simps)
qed

definition describes :: "dfa \<Rightarrow> int list \<Rightarrow> graph \<Rightarrow> bool" where
  "describes d firsts G \<longleftrightarrow> gNodes G = length (nodes d) \<and>
     (\<forall>i k t. (\<exists>x<gCount G. gSource G x = i \<and> gSymbol G x = k \<and> gTarget G x = t) \<longleftrightarrow>
        live d i \<and> k < length firsts \<and> dfa_next d i (firsts ! k) = Some t) \<and>
     (\<forall>i c t. live d i \<longrightarrow> dfa_next d i c = Some t \<longrightarrow>
        (\<exists>k<length firsts. \<forall>j. live d j \<longrightarrow> dfa_next d j (firsts ! k) = dfa_next d j c))"

lemma initialize_unmarked:
  assumes "0 < n"
  shows "unmarked n (Partition_initialize n Partition_new)" "u < n \<Longrightarrow> setOf (Partition_initialize n Partition_new) u = 0"
proof -
  have p: "Partition_initialize n Partition_new = \<lparr>m_sets = [\<lparr>sdStart = 0, sdSize = n, sdMarkedCount = 0\<rparr>], m_partitionedElements = [0 ..< n],
      m_elementPosition = [0 ..< n], m_elementToSetMap = replicate n 0, m_setsMarked = []\<rparr>"
    using assms by (simp add: Partition_initialize_def Partition_new_def)
  show "u < n \<Longrightarrow> setOf (Partition_initialize n Partition_new) u = 0" by (simp add: p)
  show "unmarked n (Partition_initialize n Partition_new)"
    using assms unfolding p unmarked_def valid_partition_def marks_listed_def is_marked_def
    by (auto simp: indexAfterMarkedElements_def sdEnd_def) (rule gr0I, simp)
qed

lemma pieces_length:
  assumes w: "wf_dfa d" and s: "singular_for d (live_indices d) xs"
  shows "length (pieces d xs) \<le> 128 * length (nodes d)"
proof -
  have "length xs \<le> 128" using ordered_from_length [of 0 xs] s by (simp add: singular_for_def)
  let ?f = "\<lambda>e. (sourceOf e, symbolOf e)"
  have "set (map ?f (pieces d xs)) \<subseteq> {..<length (nodes d)} \<times> {..<length xs}"
    using pieces_spec(1) [OF w s] by (auto simp: live_def)
  then have "card (set (map ?f (pieces d xs))) \<le> card ({..<length (nodes d)} \<times> {..<length xs})" by (intro card_mono) auto
  also have "\<dots> \<le> length (nodes d) * 128" using \<open>length xs \<le> 128\<close> by (simp add: card_cartesian_product)
  finally show ?thesis using distinct_card [OF pieces_spec(2) [OF w s]] by simp
qed

lemma pieces_layout:
  fixes d xs
  defines "lo \<equiv> \<lparr>loPieces = pieces d xs, loNodes = length (nodes d),
    loSets = map (\<lambda>k. \<lparr>sdStart = sum_list (take k (map (snd \<circ> snd) xs)), sdSize = snd (snd (xs ! k)), sdMarkedCount = 0\<rparr>) [0 ..< length xs]\<rparr>"
  assumes w: "wf_dfa d" "128 * length (nodes d) \<le> u32_max" and s: "singular_for d (live_indices d) xs"
    and st: "length starts = length (nodes d)" "\<forall>v<length (nodes d). starts ! v = offset_of (map targetOf (pieces d xs)) v"
  shows "layout_ok lo starts" "\<forall>k<length (loSets lo). 0 < sdSize (loSets lo ! k)"
    "\<forall>e\<in>set (loPieces lo). sourceOf e < loNodes lo" "sum_list (map (snd \<circ> snd) xs) = length (pieces d xs)"
proof -
  note P = pieces_spec [OF w(1) s]
  have le: "length (pieces d xs) \<le> u32_max" using pieces_length [OF w(1) s] w(2) by simp
  have e: "sourceOf e < length (nodes d)" "targetOf e < length (nodes d)" "symbolOf e < length xs" if "e \<in> set (pieces d xs)" for e
  proof -
    obtain i k t where x: "e = (i, k, t)" by (cases e)
    then have "live d i" "k < length xs" "dfa_next d i (map fst xs ! k) = Some t" using that unfolding x P(1) by blast+
    moreover from this have "live d t" using dfa_next_live [OF w(1)] by blast
    ultimately show "sourceOf e < length (nodes d)" "targetOf e < length (nodes d)" "symbolOf e < length xs"
      using x by (simp_all add: live_def)
  qed
  have sy: "\<forall>k\<in>set (map symbolOf (pieces d xs)). k < length (map (snd \<circ> snd) xs)" using e(3) by auto
  have c: "\<forall>k<length (map (snd \<circ> snd) xs). map (snd \<circ> snd) xs ! k = count_list (map symbolOf (pieces d xs)) k" using P(3) by simp
  note off = offsets_are_ranks [OF sy c]
  show "sum_list (map (snd \<circ> snd) xs) = length (pieces d xs)" using off(2) [of 0] by simp
  show "\<forall>k<length (loSets lo). 0 < sdSize (loSets lo ! k)" using P(3) by (simp add: lo_def)
  show "\<forall>e\<in>set (loPieces lo). sourceOf e < loNodes lo" using e(1) by (simp add: lo_def)
  have "sum_list (take k (map (snd \<circ> snd) xs)) = offset_of (map symbolOf (pieces d xs)) k" if "k < length xs" for k using off(1) [of k] that by simp
  then have sets: "\<forall>k<length (loSets lo). loSets lo ! k = \<lparr>sdStart = offset_of (map symbolOf (pieces d xs)) k,
      sdSize = count_list (map symbolOf (pieces d xs)) k, sdMarkedCount = 0\<rparr>" using P(3) by (simp add: lo_def)
  have f: "loPieces lo = pieces d xs" "loNodes lo = length (nodes d)" "length (loSets lo) = length xs" by (simp_all add: lo_def)
  show "layout_ok lo starts" unfolding layout_ok_def f(1,2) using le e st sets unfolding f(3) by blast
qed

lemma filled_start:
  assumes "length (m_partitionedElements p) = 0" "length (m_elementPosition p) = 0" "length (m_elementToSetMap p) = 0" "m_setsMarked p = []"
    "m_sets p = loSets lo" "n = length (loPieces lo)"
  shows "filled lo 0 \<lparr>flSizes = replicate (loNodes lo) 0, flTransitions = vec_resize memory n [],
    flRangeOffsets = replicate (length (m_sets (reserveUninitializedCapacity memory n p))) 0,
    flPartition = reserveUninitializedCapacity memory n p\<rparr>"
  using assms by (simp add: filled_def reserveUninitializedCapacity_def vec_resize_def)

lemma FullGraphPartition_spec:
  assumes w: "wf_dfa d" "128 * length (nodes d) \<le> u32_max"
  shows "\<exists>g G firsts. FullGraphPartition memory d = Some g \<and> fgNextTransitionSet g = 0 \<and> describes d firsts G \<and> (\<forall>E. graph_bisim G E \<longrightarrow> graph_state G E g)"
proof -
  obtain v xs where v: "singular_transitions d = Some v" "iterate v = Some xs" "singular_for d (live_indices d) xs"
    using singular_transitions_spec [OF w(1)] by blast
  let ?n = "length (nodes d)" and ?P = "pieces d xs"
  have n: "0 < ?n" "?n \<le> u32_max" using w by (auto simp: wf_dfa_def live_def)
  note P = pieces_spec [OF w(1) v(3)]
  have le: "length ?P \<le> u32_max" using pieces_length [OF w(1) v(3)] w(2) by simp
  have tgt: "\<forall>e\<in>set ?P. targetOf e < ?n"
  proof clarify
    fix i k t assume "(i, k, t) \<in> set ?P"
    then have "live d t" unfolding P(1) using dfa_next_live [OF w(1)] by blast
    then show "targetOf (i, k, t) < ?n" by (simp add: live_def)
  qed
  obtain cs where cs: "fold_option (\<lambda>e. bump (targetOf e)) ?P (replicate ?n 0) = Some cs" "length cs = ?n"
    "\<forall>v<?n. cs ! v = count_list (map targetOf ?P) v"
    using bump_count [of ?P targetOf "replicate ?n 0"] tgt le by auto
  have off: "sum_list (take v cs) = offset_of (map targetOf ?P) v" "sum_list cs = length ?P" if "v \<le> ?n" for v
    using offsets_are_ranks [of "map targetOf ?P" cs v] tgt cs(2,3) that by auto
  define starts where "starts = snd (accumulate 0 cs)"
  have acc: "accumulate 0 cs = (length ?P, starts)" "length starts = ?n" "\<forall>v<?n. starts ! v = offset_of (map targetOf ?P) v"
    using accumulate_spec [of 0 cs] off(1) off(2) [OF le0] le cs(2) by (auto simp: starts_def prod_eq_iff)
  define lo where "lo = \<lparr>loPieces = ?P, loNodes = ?n,
    loSets = map (\<lambda>k. \<lparr>sdStart = sum_list (take k (map (snd \<circ> snd) xs)), sdSize = snd (snd (xs ! k)), sdMarkedCount = 0\<rparr>) [0 ..< length xs]\<rparr>"
  note L = pieces_layout [OF w v(3) acc(2,3), folded lo_def]
  have lo: "loPieces lo = ?P" "loNodes lo = ?n" by (simp_all add: lo_def)
  define tp where "tp = Partition_new\<lparr>m_sets := loSets lo\<rparr>"
  have add: "add_sets xs 0 Partition_new = (length ?P, tp)"
    using add_sets_spec [of 0 xs Partition_new] L(4) le by (simp add: tp_def lo_def Partition_new_def)
  obtain s where s: "fold_option (fill_transition starts) ?P \<lparr>flSizes = replicate ?n 0, flTransitions = vec_resize memory (length ?P) [],
      flRangeOffsets = replicate (length (m_sets (reserveUninitializedCapacity memory (length ?P) tp))) 0,
      flPartition = reserveUninitializedCapacity memory (length ?P) tp\<rparr> = Some s" "filled lo (length ?P) s"
    using fill_all [OF L(1) filled_start [of tp lo "length ?P" memory]] unfolding lo by (auto simp: tp_def Partition_new_def)
  define g where "g = \<lparr>fgStartOffset = starts, fgSizePerNode = flSizes s, fgTransitions = flTransitions s,
    fgNodePartition = Partition_initialize ?n Partition_new, fgTransitionPartition = flPartition s, fgNextTransitionSet = 0\<rparr>"
  have key: "(\<lambda>(i, k, t). bump t) = (\<lambda>e. bump (targetOf e))" by (auto simp: targetOf_def)
  have "FullGraphPartition memory d = Some g"
    using v(1,2) cs(1) acc(1) s(1)
    by (simp add: FullGraphPartition_def add count_incoming_def key pieces_def [symmetric] g_def)
  moreover have "fgNextTransitionSet g = 0" by (simp add: g_def)
  moreover have ok: "graph_ok (layout_graph lo) g" unfolding g_def using layout_graph_ok [OF L(1) _ _ L(3)] s(2) n(2) P(2) unfolding lo by blast
  have "describes d (map fst xs) (layout_graph lo)"
    unfolding describes_def
  proof (intro conjI allI impI)
    show "gNodes (layout_graph lo) = ?n" by (simp add: layout_graph_def lo)
    show "(\<exists>x<gCount (layout_graph lo). gSource (layout_graph lo) x = i \<and> gSymbol (layout_graph lo) x = k \<and> gTarget (layout_graph lo) x = t) \<longleftrightarrow>
        live d i \<and> k < length (map fst xs) \<and> dfa_next d i (map fst xs ! k) = Some t" for i k t
      using piece_at_mem [of lo "(i, k, t)"] P(1) [of i k t] unfolding layout_graph_def lo
      by (auto simp: sourceOf_def symbolOf_def targetOf_def prod_eq_iff)
    show "\<exists>k<length (map fst xs). \<forall>j. live d j \<longrightarrow> dfa_next d j (map fst xs ! k) = dfa_next d j c"
      if "live d i" "dfa_next d i c = Some t" for i c t using piece_of_char [OF w(1) v(3) that] by simp
  qed
  moreover have "graph_state (layout_graph lo) E g" if b: "graph_bisim (layout_graph lo) E" for E
  proof -
    have sym: "setOf (flPartition s) x = symbolOf (piece_at lo x)" if xn: "x < length ?P" for x
    proof -
      obtain j where "j < length ?P" "x = targetRank lo j" using filled_bij(1) [of x lo] xn unfolding lo by blast
      then show ?thesis using s(2) piece_at_rank [of j lo] unfolding filled_def lo by simp
    qed
    have zero: "setOf (Partition_initialize ?n Partition_new) u = 0" if "u < ?n" for u by (rule initialize_unmarked(2) [OF n(1) that])
    have tl: "targetOf (piece_at lo x) < ?n" if "x < length ?P" for x using graph_okD(8) [OF ok, of x] that by (simp add: layout_graph_def lo)
    have eq: "E u v \<Longrightarrow> u < ?n \<and> v < ?n" for u v using b by (simp add: graph_bisim_def layout_graph_def lo)
    have "ginv (layout_graph lo) E 0 {} (m_elementToSetMap (Partition_initialize ?n Partition_new)) (m_elementToSetMap (flPartition s))"
      unfolding ginv_def using zero sym tl eq by (simp add: layout_graph_def lo)
    moreover have "unmarked (length ?P) (flPartition s)" using filled_valid [OF L(1) _ L(2)] s(2) unfolding lo by blast
    ultimately show ?thesis using ok initialize_unmarked(1) [OF n(1)] unfolding graph_state_def by (simp add: g_def layout_graph_def lo)
  qed
  ultimately show ?thesis by blast
qed

end
