(* ===== verification/Node_Classes.thy ===== *)
theory Node_Classes
  imports Graph_Construction Node_Spans
begin

text \<open>
  The sets of nodes \<^verbatim>\<open>DFAMinimizer::minimize\<close> arrives at: two nodes are in the same set exactly when
  they are equivalent, that is, when every input makes them pass nodes with the same lists of
  actions and stop at the same point.
\<close>

subsection \<open>Equivalent nodes\<close>

definition node_acts :: "dfa \<Rightarrow> nat \<Rightarrow> u64 list" where
  "node_acts d i = node_actions d (nodes d ! i)"

definition equivalent :: "dfa \<Rightarrow> nat \<Rightarrow> nat \<Rightarrow> bool" where
  "equivalent d u v \<longleftrightarrow> live d u \<and> live d v \<and>
     (\<forall>w. map (node_acts d) (u # dfa_trace d u w) = map (node_acts d) (v # dfa_trace d v w))"

lemma equivalent_acts: "equivalent d u v \<Longrightarrow> node_acts d u = node_acts d v"
  unfolding equivalent_def by (metis list.map(2) list.inject)

lemma equivalent_next:
  assumes w: "wf_dfa d" and e: "equivalent d u v" and t: "dfa_next d u c = Some t"
  shows "\<exists>t'. dfa_next d v c = Some t' \<and> equivalent d t t'"
proof -
  have E: "live d u" "live d v" "\<And>w. map (node_acts d) (u # dfa_trace d u w) = map (node_acts d) (v # dfa_trace d v w)"
    using e by (simp_all add: equivalent_def)
  obtain t' where t': "dfa_next d v c = Some t'" using E(3) [of "[c]"] t by (cases "dfa_next d v c") auto
  have "map (node_acts d) (t # dfa_trace d t cs) = map (node_acts d) (t' # dfa_trace d t' cs)" for cs
    using E(3) [of "c # cs"] t t' by simp
  then show ?thesis using t' dfa_next_live [OF w E(1) t] dfa_next_live [OF w E(2) t'] by (simp add: equivalent_def)
qed

lemma equivalent_bisim:
  assumes w: "wf_dfa d" and D: "describes d firsts G"
  shows "graph_bisim G (equivalent d)"
  unfolding graph_bisim_def
proof (intro conjI allI impI)
  have G: "gNodes G = length (nodes d)" "\<And>i k t. (\<exists>x<gCount G. gSource G x = i \<and> gSymbol G x = k \<and> gTarget G x = t) \<longleftrightarrow>
      live d i \<and> k < length firsts \<and> dfa_next d i (firsts ! k) = Some t"
    using D unfolding describes_def by blast+
  fix u v assume e: "equivalent d u v"
  then have l: "live d u" "live d v" by (simp_all add: equivalent_def)
  then show "u < gNodes G" "v < gNodes G" using G(1) by (simp_all add: live_def)
  show "equivalent d v u" using e by (simp add: equivalent_def)
  fix x assume x: "x < gCount G" "gSource G x = u"
  have k: "gSymbol G x < length firsts" "dfa_next d u (firsts ! gSymbol G x) = Some (gTarget G x)"
    using G(2) [of u "gSymbol G x" "gTarget G x"] x by blast+
  obtain t' where t': "dfa_next d v (firsts ! gSymbol G x) = Some t'" "equivalent d (gTarget G x) t'"
    using equivalent_next [OF w e k(2)] by blast
  then show "\<exists>y<gCount G. gSource G y = v \<and> gSymbol G y = gSymbol G x \<and> equivalent d (gTarget G x) (gTarget G y)"
    using G(2) [of v "gSymbol G x" t'] l(2) k(1) by blast
qed

subsection \<open>Final states\<close>

definition lists_slots :: "((u64 list \<times> nat list) list \<Rightarrow> (u64 list \<times> nat list) list) \<Rightarrow> bool" where
  "lists_slots slotOrder \<longleftrightarrow> (\<forall>slots. set (slotOrder slots) = set slots \<and> length (slotOrder slots) = length slots)"

definition slots_for :: "dfa \<Rightarrow> nat list \<Rightarrow> (u64 list \<times> nat list) list \<Rightarrow> bool" where
  "slots_for d is slots \<longleftrightarrow> distinct (map fst slots) \<and>
     (\<forall>(key, slot)\<in>set slots. distinct slot \<and> key \<noteq> [] \<and> set slot = {i \<in> set is. node_acts d i = key}) \<and>
     (\<forall>i\<in>set is. node_acts d i \<noteq> [] \<longrightarrow> node_acts d i \<in> fst ` set slots)"

lemma final_add_keys: "set (map fst (final_add key i slots)) = insert key (set (map fst slots))"
  by (induction key i slots rule: final_add.induct) auto

lemma final_add_distinct: "distinct (map fst slots) \<Longrightarrow> distinct (map fst (final_add key i slots))"
proof (induction key i slots rule: final_add.induct)
  case (2 key i key' slot slots)
  then show ?case using final_add_keys [of key i slots] by auto
qed simp

lemma final_add_member:
  "distinct (map fst slots) \<Longrightarrow> (k, slot) \<in> set (final_add key i slots) \<Longrightarrow>
   (k \<noteq> key \<and> (k, slot) \<in> set slots) \<or> (k = key \<and> (\<exists>s. (key, s) \<in> set slots \<and> slot = s @ [i])) \<or>
   (k = key \<and> key \<notin> set (map fst slots) \<and> slot = [i])"
proof (induction key i slots rule: final_add.induct)
  case (2 key i key' slot' slots)
  show ?case
  proof (cases "key' = key")
    case True
    then show ?thesis using "2.prems" by (auto simp: image_iff)
  next
    case False
    then show ?thesis using 2 by auto
  qed
qed simp

lemma slots_for_add:
  assumes "slots_for d is slots" "i \<notin> set is" "node_acts d i \<noteq> []"
  shows "slots_for d (is @ [i]) (final_add (node_acts d i) i slots)"
proof -
  have S: "distinct (map fst slots)" "\<And>key slot. (key, slot) \<in> set slots \<Longrightarrow> distinct slot \<and> key \<noteq> [] \<and> set slot = {i \<in> set is. node_acts d i = key}"
    "\<And>i. i \<in> set is \<Longrightarrow> node_acts d i \<noteq> [] \<Longrightarrow> node_acts d i \<in> fst ` set slots"
    using assms(1) unfolding slots_for_def by blast+
  have "distinct slot \<and> key \<noteq> [] \<and> set slot = {j \<in> set (is @ [i]). node_acts d j = key}"
    if m: "(key, slot) \<in> set (final_add (node_acts d i) i slots)" for key slot
  proof -
    consider "key \<noteq> node_acts d i" "(key, slot) \<in> set slots" | s where "key = node_acts d i" "(key, s) \<in> set slots" "slot = s @ [i]"
      | "key = node_acts d i" "key \<notin> set (map fst slots)" "slot = [i]"
      using final_add_member [OF S(1) m] by blast
    then show ?thesis
    proof cases
      case 1
      then show ?thesis using S(2) [OF 1(2)] by auto
    next
      case 2
      then show ?thesis using S(2) [OF 2(2)] assms(2) by auto
    next
      case 3
      then have "node_acts d j \<noteq> key" if "j \<in> set is" for j using S(3) [OF that] assms(3) by auto
      then show ?thesis using 3 assms(3) by auto
    qed
  qed
  moreover have "node_acts d j \<in> fst ` set (final_add (node_acts d i) i slots)" if "j \<in> set (is @ [i])" "node_acts d j \<noteq> []" for j
    using that S(3) [of j] final_add_keys [of "node_acts d i" i slots] by auto
  ultimately show ?thesis unfolding slots_for_def using final_add_distinct [OF S(1)] by blast
qed

lemma slots_for_skip:
  assumes "slots_for d is slots" "node_acts d i = []"
  shows "slots_for d (is @ [i]) slots"
  using assms unfolding slots_for_def by fastforce

lemma node_acts_Nil: "node_acts d i = [] \<longleftrightarrow> m_actionsLength (nodes d ! i) = 0"
  by (auto simp: node_acts_def node_actions_def)

lemma finalStates_spec: "slots_for d [0 ..< length (nodes d)] (finalStates d)"
proof -
  have "m \<le> length (nodes d) \<Longrightarrow> slots_for d [0 ..< m] (fold (\<lambda>i slots. if m_actionsLength (nodes d ! i) \<noteq> 0
      then final_add (node_actions d (nodes d ! i)) i slots else slots) [0 ..< m] [])" for m
  proof (induction m)
    case (Suc m)
    then show ?case using slots_for_add [of d "[0 ..< m]" _ m] slots_for_skip [of d "[0 ..< m]" _ m]
      by (auto simp: node_acts_Nil) (auto simp: node_acts_def)
  qed (simp add: slots_for_def)
  then show ?thesis by (simp add: finalStates_def)
qed

subsection \<open>Partitioning by actions\<close>

lemma fold_markNode:
  "fold_option markNode es g = map_option (\<lambda>p. g\<lparr>fgNodePartition := p\<rparr>) (fold_option markElementInCurrentGeneration es (fgNodePartition g))"
proof (induction es arbitrary: g)
  case (Cons e es)
  then show ?case by (cases "markElementInCurrentGeneration e (fgNodePartition g)") (simp_all add: markNode_def)
qed simp

lemma ginv_start: "ginv G E 0 M N T \<longleftrightarrow> ginv G E 0 {} N T"
  unfolding ginv_def by blast

lemma partition_final_inv:
  assumes s: "graph_state G E g" "fgNextTransitionSet g = 0" and b: "graph_bisim G E"
    and slot: "distinct slot" "set slot \<subseteq> {..<gNodes G}" "class_closed E (set slot)"
  shows "\<exists>g'. partition_final (key, slot) g = Some g' \<and> graph_state G E g' \<and> fgNextTransitionSet g' = 0 \<and> finer G g g' \<and>
    (\<forall>u<gNodes G. \<forall>v<gNodes G. setOf (fgNodePartition g') u = setOf (fgNodePartition g') v \<longrightarrow> (u \<in> set slot \<longleftrightarrow> v \<in> set slot))"
proof -
  have "ginv G E 0 (set slot) (m_elementToSetMap (fgNodePartition g)) (m_elementToSetMap (fgTransitionPartition g))"
    using s(1) unfolding graph_state_def s(2) ginv_start [of _ _ "set slot"] by blast
  then obtain p g' where r: "fold_option markElementInCurrentGeneration slot (fgNodePartition g) = Some p"
    "refinePartitions (g\<lparr>fgNodePartition := p\<rparr>) = Some g'" "graph_state G E (g'\<lparr>fgNextTransitionSet := 0\<rparr>)" "finer G g g'"
    "fgNextTransitionSet g' = fgNextTransitionSet g"
    "\<forall>u<gNodes G. \<forall>v<gNodes G. setOf (fgNodePartition g') u = setOf (fgNodePartition g') v \<longrightarrow> (u \<in> set slot \<longleftrightarrow> v \<in> set slot)"
    using mark_and_refine [OF s(1) b slot, of 0] by blast
  have "g'\<lparr>fgNextTransitionSet := 0\<rparr> = g'" using r(5) s(2) by simp
  then have "graph_state G E g'" using r(3) by simp
  moreover have "partition_final (key, slot) g = Some g'" using r(1,2) by (simp add: partition_final_def fold_markNode)
  moreover have "fgNextTransitionSet g' = 0" using r(5) s(2) by simp
  ultimately show ?thesis using r(4,6) by blast
qed

lemma partition_finals_inv:
  assumes b: "graph_bisim G E" and "graph_state G E g" "fgNextTransitionSet g = 0"
    and "\<forall>(key, slot)\<in>set slots. distinct slot \<and> set slot \<subseteq> {..<gNodes G} \<and> class_closed E (set slot)"
  shows "\<exists>g'. fold_option partition_final slots g = Some g' \<and> graph_state G E g' \<and> finer G g g' \<and>
    (\<forall>u<gNodes G. \<forall>v<gNodes G. setOf (fgNodePartition g') u = setOf (fgNodePartition g') v \<longrightarrow>
       (\<forall>(key, slot)\<in>set slots. u \<in> set slot \<longleftrightarrow> v \<in> set slot))"
  using assms(2-4)
proof (induction slots arbitrary: g)
  case Nil
  then show ?case using finer_refl by auto
next
  case (Cons x slots)
  obtain key slot where x: "x = (key, slot)" by (cases x)
  have sl: "distinct slot" "set slot \<subseteq> {..<gNodes G}" "class_closed E (set slot)"
    and rest: "\<forall>(key, slot)\<in>set slots. distinct slot \<and> set slot \<subseteq> {..<gNodes G} \<and> class_closed E (set slot)"
    using Cons.prems(3) by (simp_all add: x)
  obtain g1 where g1: "partition_final (key, slot) g = Some g1" "graph_state G E g1" "fgNextTransitionSet g1 = 0" "finer G g g1"
    "\<forall>u<gNodes G. \<forall>v<gNodes G. setOf (fgNodePartition g1) u = setOf (fgNodePartition g1) v \<longrightarrow> (u \<in> set slot \<longleftrightarrow> v \<in> set slot)"
    using partition_final_inv [OF Cons.prems(1,2) b sl] by blast
  obtain g2 where g2: "fold_option partition_final slots g1 = Some g2" "graph_state G E g2" "finer G g1 g2"
    "\<forall>u<gNodes G. \<forall>v<gNodes G. setOf (fgNodePartition g2) u = setOf (fgNodePartition g2) v \<longrightarrow>
       (\<forall>(key, slot)\<in>set slots. u \<in> set slot \<longleftrightarrow> v \<in> set slot)"
    using Cons.IH [OF g1(2,3) rest] by blast
  have "\<forall>(key, slot)\<in>set (x # slots). u \<in> set slot \<longleftrightarrow> v \<in> set slot"
    if "u < gNodes G" "v < gNodes G" "setOf (fgNodePartition g2) u = setOf (fgNodePartition g2) v" for u v
  proof -
    have "u \<in> set slot \<longleftrightarrow> v \<in> set slot" using that g1(5) g2(3) unfolding finer_def by blast
    moreover have "\<forall>(key, slot)\<in>set slots. u \<in> set slot \<longleftrightarrow> v \<in> set slot" using that g2(4) by blast
    ultimately show ?thesis by (simp add: x)
  qed
  moreover have "fold_option partition_final (x # slots) g = Some g2" using g1(1) g2(1) by (simp add: x)
  ultimately show ?case using g2(2) finer_trans [OF g1(4) g2(3)] by blast
qed

subsection \<open>The sets are the classes of equivalent nodes\<close>

definition congruence :: "dfa \<Rightarrow> (nat \<Rightarrow> nat) \<Rightarrow> bool" where
  "congruence d f \<longleftrightarrow> (\<forall>u v. live d u \<longrightarrow> live d v \<longrightarrow> f u = f v \<longrightarrow> node_acts d u = node_acts d v \<and>
     (\<forall>c t. dfa_next d u c = Some t \<longrightarrow> (\<exists>t'. dfa_next d v c = Some t' \<and> f t' = f t)))"

lemma congruence_trace:
  assumes w: "wf_dfa d" and c: "congruence d f"
  shows "live d u \<Longrightarrow> live d v \<Longrightarrow> f u = f v \<Longrightarrow> map (node_acts d) (u # dfa_trace d u w) = map (node_acts d) (v # dfa_trace d v w)"
proof (induction w arbitrary: u v)
  case Nil
  then have "node_acts d u = node_acts d v" using c unfolding congruence_def by blast
  then show ?case by simp
next
  case (Cons ch w)
  have a: "node_acts d u = node_acts d v" using c Cons.prems unfolding congruence_def by blast
  show ?case
  proof (cases "dfa_next d u ch")
    case None
    have "\<exists>t'. dfa_next d u ch = Some t'" if "dfa_next d v ch = Some t" for t
      using c Cons.prems(1,2) Cons.prems(3) [symmetric] that unfolding congruence_def by blast
    then have "dfa_next d v ch = None" using None by (cases "dfa_next d v ch") auto
    then show ?thesis using None a by simp
  next
    case (Some t)
    then obtain t' where t': "dfa_next d v ch = Some t'" "f t' = f t" using c Cons.prems unfolding congruence_def by blast
    have "map (node_acts d) (t # dfa_trace d t w) = map (node_acts d) (t' # dfa_trace d t' w)"
      by (rule Cons.IH [OF dfa_next_live [OF w Cons.prems(1) Some] dfa_next_live [OF w Cons.prems(2) t'(1)] t'(2) [symmetric]])
    then show ?thesis using Some t'(1) a by simp
  qed
qed

lemma stable_congruence:
  assumes D: "describes d firsts G" and s: "graph_state G E g" "fgNextTransitionSet g = length (m_sets (fgTransitionPartition g))"
    and w: "wf_dfa d" and acts: "\<And>u v. live d u \<Longrightarrow> live d v \<Longrightarrow> setOf (fgNodePartition g) u = setOf (fgNodePartition g) v \<Longrightarrow> node_acts d u = node_acts d v"
  shows "congruence d (\<lambda>u. setOf (fgNodePartition g) u)"
  unfolding congruence_def
proof (intro allI impI conjI acts)
  have G: "gNodes G = length (nodes d)" "\<And>i k t. (\<exists>x<gCount G. gSource G x = i \<and> gSymbol G x = k \<and> gTarget G x = t) \<longleftrightarrow>
      live d i \<and> k < length firsts \<and> dfa_next d i (firsts ! k) = Some t"
    "\<And>i c t. live d i \<Longrightarrow> dfa_next d i c = Some t \<Longrightarrow> \<exists>k<length firsts. \<forall>j. live d j \<longrightarrow> dfa_next d j (firsts ! k) = dfa_next d j c"
    using D unfolding describes_def by blast+
  fix u v c t assume l: "live d u" "live d v" and eq: "setOf (fgNodePartition g) u = setOf (fgNodePartition g) v" and t: "dfa_next d u c = Some t"
  have n: "u < gNodes G" "v < gNodes G" using l G(1) by (simp_all add: live_def)
  obtain k where k: "k < length firsts" "\<And>j. live d j \<Longrightarrow> dfa_next d j (firsts ! k) = dfa_next d j c" using G(3) [OF l(1) t] by blast
  then have "dfa_next d u (firsts ! k) = Some t" using l(1) t by simp
  then obtain x where x: "x < gCount G" "gSource G x = u" "gSymbol G x = k" "gTarget G x = t" using G(2) [of u k t] l(1) k(1) by blast
  obtain y where y: "y < gCount G" "gSource G y = v" "gSymbol G y = k" "setOf (fgNodePartition g) (gTarget G y) = setOf (fgNodePartition g) t"
    using graph_state_stable [OF s n eq x(1,2)] x(3,4) by auto
  have "dfa_next d v (firsts ! k) = Some (gTarget G y)" using G(2) [of v k "gTarget G y"] y(1-3) by blast
  then show "\<exists>t'. dfa_next d v c = Some t' \<and> setOf (fgNodePartition g) t' = setOf (fgNodePartition g) t" using k(2) [OF l(2)] y(4) by auto
qed auto

lemma slots_forD:
  assumes "slots_for d [0 ..< n] slots"
  shows "(key, slot) \<in> set slots \<Longrightarrow> distinct slot" "(key, slot) \<in> set slots \<Longrightarrow> set slot = {i. i < n \<and> node_acts d i = key}"
    "i < n \<Longrightarrow> node_acts d i \<noteq> [] \<Longrightarrow> \<exists>slot. (node_acts d i, slot) \<in> set slots"
proof -
  have S: "\<forall>(key, slot)\<in>set slots. distinct slot \<and> key \<noteq> [] \<and> set slot = {i \<in> set [0 ..< n]. node_acts d i = key}"
    "\<forall>i\<in>set [0 ..< n]. node_acts d i \<noteq> [] \<longrightarrow> node_acts d i \<in> fst ` set slots"
    using assms unfolding slots_for_def by blast+
  show "(key, slot) \<in> set slots \<Longrightarrow> distinct slot" using bspec [OF S(1), of "(key, slot)"] by simp
  show "(key, slot) \<in> set slots \<Longrightarrow> set slot = {i. i < n \<and> node_acts d i = key}" using bspec [OF S(1), of "(key, slot)"] by simp
  show "\<exists>slot. (node_acts d i, slot) \<in> set slots" if "i < n" "node_acts d i \<noteq> []"
    using bspec [OF S(2), of i] that by force
qed

lemma slots_closed:
  assumes "slots_for d [0 ..< length (nodes d)] slots" "(key, slot) \<in> set slots"
  shows "distinct slot" "set slot \<subseteq> {..<length (nodes d)}" "class_closed (equivalent d) (set slot)"
proof -
  have S: "distinct slot" "set slot = {i. i < length (nodes d) \<and> node_acts d i = key}"
    using slots_forD(1,2) [OF assms] by blast+
  then show "distinct slot" "set slot \<subseteq> {..<length (nodes d)}" by auto
  have "u < length (nodes d) \<and> v < length (nodes d) \<and> node_acts d u = node_acts d v" if "equivalent d u v" for u v
    using that equivalent_acts [OF that] by (simp add: equivalent_def live_def)
  then show "class_closed (equivalent d) (set slot)" unfolding class_closed_def S(2) by auto
qed

lemma slots_separate:
  assumes S: "slots_for d [0 ..< length (nodes d)] slots" and u: "u < length (nodes d)" "v < length (nodes d)"
    and agree: "\<forall>(key, slot)\<in>set slots. u \<in> set slot \<longleftrightarrow> v \<in> set slot"
  shows "node_acts d u = node_acts d v"
proof -
  have half: "node_acts d b = node_acts d a"
    if a: "a < length (nodes d)" "b < length (nodes d)" "node_acts d a \<noteq> []" "\<forall>(key, slot)\<in>set slots. a \<in> set slot \<longleftrightarrow> b \<in> set slot" for a b
  proof -
    obtain slot where s: "(node_acts d a, slot) \<in> set slots" using slots_forD(3) [OF S a(1,3)] by blast
    then have "set slot = {i. i < length (nodes d) \<and> node_acts d i = node_acts d a}" by (rule slots_forD(2) [OF S])
    then show ?thesis using a(1,4) s by blast
  qed
  have agree': "\<forall>(key, slot)\<in>set slots. v \<in> set slot \<longleftrightarrow> u \<in> set slot" using agree by (simp only: eq_commute)
  consider "node_acts d u \<noteq> []" | "node_acts d v \<noteq> []" | "node_acts d u = []" "node_acts d v = []" by blast
  then show ?thesis
  proof cases
    case 1
    then show ?thesis by (rule half [OF u _ agree, symmetric])
  next
    case 2
    then show ?thesis by (rule half [OF u(2,1) _ agree'])
  qed simp
qed

lemma minimize_classes:
  assumes w: "wf_dfa d" "128 * length (nodes d) \<le> u32_max" "all_live d" and o: "lists_slots slotOrder"
  shows "\<exists>g0 g1 g. FullGraphPartition memory d = Some g0 \<and> fold_option partition_final (slotOrder (finalStates d)) g0 = Some g1 \<and>
    splitByUniqueTransitions g1 = Some g \<and> valid_partition (length (nodes d)) (fgNodePartition g) \<and>
    (\<forall>u<length (nodes d). \<forall>v<length (nodes d). setOf (fgNodePartition g) u = setOf (fgNodePartition g) v \<longleftrightarrow> equivalent d u v)"
proof -
  obtain g0 G firsts where g0: "FullGraphPartition memory d = Some g0" "fgNextTransitionSet g0 = 0" "describes d firsts G"
    "\<And>E. graph_bisim G E \<Longrightarrow> graph_state G E g0" using FullGraphPartition_spec [OF w(1,2)] by blast
  have n: "gNodes G = length (nodes d)" using g0(3) by (simp add: describes_def)
  note b = equivalent_bisim [OF w(1) g0(3)]
  let ?slots = "slotOrder (finalStates d)"
  have sl: "set ?slots = set (finalStates d)" using o by (simp add: lists_slots_def)
  have "\<forall>(key, slot)\<in>set ?slots. distinct slot \<and> set slot \<subseteq> {..<gNodes G} \<and> class_closed (equivalent d) (set slot)"
    using slots_closed [OF finalStates_spec, of _ _ d] unfolding sl n by fast
  from partition_finals_inv [OF b g0(4) [OF b] g0(2) this]
  obtain g1 where g1: "fold_option partition_final ?slots g0 = Some g1" "graph_state G (equivalent d) g1"
    and separate: "\<forall>u<gNodes G. \<forall>v<gNodes G. setOf (fgNodePartition g1) u = setOf (fgNodePartition g1) v \<longrightarrow>
       (\<forall>(key, slot)\<in>set ?slots. u \<in> set slot \<longleftrightarrow> v \<in> set slot)" by (elim exE conjE)
  obtain g where g: "splitByUniqueTransitions g1 = Some g" "graph_state G (equivalent d) g" "finer G g1 g"
    "fgNextTransitionSet g = length (m_sets (fgTransitionPartition g))" using splitByUniqueTransitions_inv [OF b g1(2)] by blast
  have acts: "node_acts d u = node_acts d v"
    if "live d u" "live d v" "setOf (fgNodePartition g) u = setOf (fgNodePartition g) v" for u v
  proof (rule slots_separate [OF finalStates_spec])
    show l: "u < length (nodes d)" "v < length (nodes d)" using that(1,2) by (simp_all add: live_def)
    then have "setOf (fgNodePartition g1) u = setOf (fgNodePartition g1) v" using g(3) that(3) unfolding n finer_def by blast
    then show "\<forall>(key, slot)\<in>set (finalStates d). u \<in> set slot \<longleftrightarrow> v \<in> set slot" using separate [unfolded n sl, rule_format, OF l] by blast
  qed
  have c: "congruence d (\<lambda>u. setOf (fgNodePartition g) u)" by (rule stable_congruence [OF g0(3) g(2,4) w(1) acts])
  have inv: "ginv G (equivalent d) (fgNextTransitionSet g) {} (m_elementToSetMap (fgNodePartition g)) (m_elementToSetMap (fgTransitionPartition g))"
    using g(2) unfolding graph_state_def by blast
  have "setOf (fgNodePartition g) u = setOf (fgNodePartition g) v \<longleftrightarrow> equivalent d u v" if "u < length (nodes d)" "v < length (nodes d)" for u v
  proof
    have l: "live d u" "live d v" using that by (simp_all add: all_live_iff [OF w(3)])
    assume "setOf (fgNodePartition g) u = setOf (fgNodePartition g) v"
    then show "equivalent d u v" unfolding equivalent_def using l congruence_trace [OF w(1) c l] by blast
  next
    assume "equivalent d u v"
    then show "setOf (fgNodePartition g) u = setOf (fgNodePartition g) v" by (rule ginvD(1) [OF inv])
  qed
  moreover have "valid_partition (length (nodes d)) (fgNodePartition g)" using g(2) n by (simp add: graph_state_def unmarked_def)
  ultimately show ?thesis using g0(1) g1(1) g(1) by blast
qed

end
