(* ===== verification/DFA_Minimization.thy ===== *)
theory DFA_Minimization
  imports Node_Classes
begin

text \<open>
  The last part of \<^verbatim>\<open>DFAMinimizer::minimize\<close>: nodes that are not the first of their set are killed and
  the transitions into them redirected.  Killing a node overwrites the entries it owned, so nodes
  must not share entries; the automata \<^verbatim>\<open>NFAToDFA\<close> and \<^verbatim>\<open>DFAMerger\<close> build do not.
\<close>

subsection \<open>Killing\<close>

lemma length_overwrite [simp]: "length (overwrite s l v xs) = length xs"
  unfolding overwrite_def by (rule length_fold_update)

lemma nth_overwrite: "k < length xs \<Longrightarrow> overwrite s l v xs ! k = (if s \<le> k \<and> k < s + l then v else xs ! k)"
  unfolding overwrite_def by (subst nth_fold_update [where f = "\<lambda>i. i"]) auto

definition killed_node :: dfa_node where
  "killed_node = \<lparr>m_actionsStart = 0, m_transitionsStart = 0, m_actionsLength = 0, m_transitionsLength = 0, m_flags = IsKilled\<rparr>"

lemma killed_node_killed [simp]: "isKilled killed_node"
  by (simp add: isKilled_def killed_node_def IsKilled_def)

text \<open>The state of the loop before node \<open>m\<close>, when \<open>r\<close> gives the first node of the set of a node.\<close>

definition relocated :: "dfa \<Rightarrow> (nat \<Rightarrow> nat) \<Rightarrow> nat \<Rightarrow> dfa \<times> nat list \<Rightarrow> bool" where
  "relocated d r m s \<longleftrightarrow> (case s of (d', rel) \<Rightarrow>
     rel = map (\<lambda>i. if i < m then r i else i) [0 ..< length (nodes d)] \<and> root d' = root d \<and>
     nodes d' = map (\<lambda>i. if i < m \<and> r i \<noteq> i then killed_node else nodes d ! i) [0 ..< length (nodes d)] \<and>
     length (transitionRanges d') = length (transitionRanges d) \<and> length (transitionDestinations d') = length (transitionDestinations d) \<and>
     length (dfa_actions d') = length (dfa_actions d) \<and>
     (\<forall>i<length (nodes d). \<not> (i < m \<and> r i \<noteq> i) \<longrightarrow>
        (\<forall>k\<in>transition_span (nodes d ! i). transitionRanges d' ! k = transitionRanges d ! k \<and>
           transitionDestinations d' ! k = transitionDestinations d ! k) \<and>
        (\<forall>k\<in>action_span (nodes d ! i). dfa_actions d' ! k = dfa_actions d ! k)))"

lemma spans_in_bounds:
  assumes "wf_dfa d" "live d i"
  shows "k \<in> transition_span (nodes d ! i) \<Longrightarrow> k < length (transitionRanges d) \<and> k < length (transitionDestinations d)"
    "k \<in> action_span (nodes d ! i) \<Longrightarrow> k < length (dfa_actions d)"
  using wf_dfa_node [OF assms] assms(1) by (auto simp: transition_span_def action_span_def wf_node_def wf_dfa_def)

lemma relocate_step:
  assumes w: "wf_dfa d" "all_live d" "separate d" and m: "m < length (nodes d)" and s: "relocated d r m (d', rel)"
    and r: "nodeReplacement g m = Some (r m)"
  shows "\<exists>s'. relocate_node g m (d', rel) = Some s' \<and> relocated d r (Suc m) s'"
proof -
  let ?n = "length (nodes d)"
  have S: "rel = map (\<lambda>i. if i < m then r i else i) [0 ..< ?n]" "root d' = root d"
    "nodes d' = map (\<lambda>i. if i < m \<and> r i \<noteq> i then killed_node else nodes d ! i) [0 ..< ?n]"
    "length (transitionRanges d') = length (transitionRanges d)" "length (transitionDestinations d') = length (transitionDestinations d)"
    "length (dfa_actions d') = length (dfa_actions d)"
    and mem: "\<And>i k. i < ?n \<Longrightarrow> \<not> (i < m \<and> r i \<noteq> i) \<Longrightarrow> k \<in> transition_span (nodes d ! i) \<Longrightarrow>
      transitionRanges d' ! k = transitionRanges d ! k \<and> transitionDestinations d' ! k = transitionDestinations d ! k"
      "\<And>i k. i < ?n \<Longrightarrow> \<not> (i < m \<and> r i \<noteq> i) \<Longrightarrow> k \<in> action_span (nodes d ! i) \<Longrightarrow> dfa_actions d' ! k = dfa_actions d ! k"
    using s unfolding relocated_def prod.case by blast+
  show ?thesis
  proof (cases "r m = m")
    case True
    have e: "(i < Suc m \<and> r i \<noteq> i) = (i < m \<and> r i \<noteq> i)" "(if i < Suc m then r i else i) = (if i < m then r i else i)" for i
      using True by (auto simp: less_Suc_eq)
    have "relocated d r (Suc m) (d', rel)" using s unfolding relocated_def e .
    then show ?thesis using r True by (simp add: relocate_node_def)
  next
    case False
    define d2 where "d2 = kill m d'"
    have nm: "nodes d' ! m = nodes d ! m" using m by (simp add: S(3))
    have d2: "root d2 = root d" "nodes d2 = (nodes d')[m := killed_node]"
      "transitionRanges d2 = overwrite (m_transitionsStart (nodes d ! m)) (m_transitionsLength (nodes d ! m)) \<lparr>crFirst = -1, crLast = -1\<rparr> (transitionRanges d')"
      "transitionDestinations d2 = overwrite (m_transitionsStart (nodes d ! m)) (m_transitionsLength (nodes d ! m)) u32_max (transitionDestinations d')"
      "dfa_actions d2 = overwrite (m_actionsStart (nodes d ! m)) (m_actionsLength (nodes d ! m)) (- 1) (dfa_actions d')"
      by (simp_all add: d2_def kill_def Let_def nm S(2) killed_node_def)
    have "relocated d r (Suc m) (d2, rel[m := r m])"
      unfolding relocated_def prod.case
    proof (intro conjI allI impI ballI)
      show "rel[m := r m] = map (\<lambda>i. if i < Suc m then r i else i) [0 ..< ?n]"
        unfolding S(1) by (rule nth_equalityI) (auto simp: nth_list_update less_Suc_eq)
      show "nodes d2 = map (\<lambda>i. if i < Suc m \<and> r i \<noteq> i then killed_node else nodes d ! i) [0 ..< ?n]"
        (is "_ = ?ns")
      proof (rule nth_equalityI)
        show "length (nodes d2) = length ?ns" by (simp add: d2(2) S(3))
        show "nodes d2 ! i = ?ns ! i" if "i < length (nodes d2)" for i
          using that False m by (cases "i = m") (auto simp: d2(2) S(3) less_Suc_eq)
      qed
      fix i assume i: "i < ?n" and ni: "\<not> (i < Suc m \<and> r i \<noteq> i)"
      have im: "i \<noteq> m" "\<not> (i < m \<and> r i \<noteq> i)" using ni False by (auto simp: less_Suc_eq)
      have live: "live d i" using i all_live_iff [OF w(2)] by simp
      have dis: "transition_span (nodes d ! i) \<inter> transition_span (nodes d ! m) = {}" "action_span (nodes d ! i) \<inter> action_span (nodes d ! m) = {}"
        using w(3) i m im(1) unfolding separate_def by blast+
      show "transitionRanges d2 ! k = transitionRanges d ! k" "transitionDestinations d2 ! k = transitionDestinations d ! k"
        if k: "k \<in> transition_span (nodes d ! i)" for k
      proof -
        have "\<not> (m_transitionsStart (nodes d ! m) \<le> k \<and> k < m_transitionsStart (nodes d ! m) + m_transitionsLength (nodes d ! m))"
          using dis(1) k unfolding transition_span_def by auto
        then show "transitionRanges d2 ! k = transitionRanges d ! k" "transitionDestinations d2 ! k = transitionDestinations d ! k"
          using spans_in_bounds(1) [OF w(1) live k] mem(1) [OF i im(2) k] S(4,5) unfolding d2(3,4) by (auto simp: nth_overwrite)
      qed
      show "dfa_actions d2 ! k = dfa_actions d ! k" if k: "k \<in> action_span (nodes d ! i)" for k
      proof -
        have "\<not> (m_actionsStart (nodes d ! m) \<le> k \<and> k < m_actionsStart (nodes d ! m) + m_actionsLength (nodes d ! m))"
          using dis(2) k unfolding action_span_def by auto
        then show ?thesis using spans_in_bounds(2) [OF w(1) live k] mem(2) [OF i im(2) k] S(6) unfolding d2(5) by (auto simp: nth_overwrite)
      qed
    qed (use S in \<open>simp_all add: d2\<close>)
    then show ?thesis using r False by (simp add: relocate_node_def d2_def)
  qed
qed

lemma relocate_all:
  assumes w: "wf_dfa d" "all_live d" "separate d" and r: "\<And>i. i < length (nodes d) \<Longrightarrow> nodeReplacement g i = Some (r i)"
  shows "\<exists>s. fold_option (relocate_node g) [0 ..< length (nodes d)] (d, [0 ..< length (nodes d)]) = Some s \<and> relocated d r (length (nodes d)) s"
proof -
  have "m \<le> length (nodes d) \<Longrightarrow> \<exists>s. fold_option (relocate_node g) [0 ..< m] (d, [0 ..< length (nodes d)]) = Some s \<and> relocated d r m s" for m
  proof (induction m)
    case 0
    have "relocated d r 0 (d, [0 ..< length (nodes d)])" unfolding relocated_def by (auto simp: map_nth)
    then show ?case by simp
  next
    case (Suc m)
    then obtain d' rel where s: "fold_option (relocate_node g) [0 ..< m] (d, [0 ..< length (nodes d)]) = Some (d', rel)" "relocated d r m (d', rel)"
      by (metis Suc_leD surj_pair)
    obtain s' where "relocate_node g m (d', rel) = Some s'" "relocated d r (Suc m) s'"
      using relocate_step [OF w _ s(2) r] Suc.prems by auto
    then show ?case using s(1) by (simp add: fold_option_append)
  qed
  then show ?thesis by blast
qed

subsection \<open>Redirecting\<close>

lemma reset_all:
  assumes "distinct ps" "\<forall>p\<in>set ps. p < length dests \<and> dests ! p < length rel"
  shows "\<exists>dests'. fold_option (reset_target rel) ps dests = Some dests' \<and> length dests' = length dests \<and>
    (\<forall>p<length dests. dests' ! p = (if p \<in> set ps then rel ! (dests ! p) else dests ! p))"
  using assms
proof (induction ps arbitrary: dests)
  case (Cons p ps)
  define e where "e = dests[p := rel ! (dests ! p)]"
  have p: "p < length dests" "dests ! p < length rel" "p \<notin> set ps" using Cons.prems by auto
  have step: "reset_target rel p dests = Some e"
    using p(1,2) by (cases "dests ! p = rel ! (dests ! p)") (simp_all add: reset_target_def e_def)
  have e: "length e = length dests" "\<And>q. q < length dests \<Longrightarrow> e ! q = (if q = p then rel ! (dests ! p) else dests ! q)"
    by (simp_all add: e_def nth_list_update)
  have "\<forall>q\<in>set ps. q < length e \<and> e ! q < length rel" using Cons.prems(2) p(3) e by auto
  then obtain f where f: "fold_option (reset_target rel) ps e = Some f" "length f = length e"
    "\<And>q. q < length e \<Longrightarrow> f ! q = (if q \<in> set ps then rel ! (e ! q) else e ! q)" using Cons.IH [of e] Cons.prems(1) by auto
  have "f ! q = (if q \<in> set (p # ps) then rel ! (dests ! q) else dests ! q)" if "q < length dests" for q
    using f(3) [of q] e that p(3) by auto
  then show ?case using step f(1,2) e(1) by (intro exI [of _ f]) simp
qed simp

definition span_list :: "dfa_node \<Rightarrow> nat list" where
  "span_list n = (if isKilled n then [] else [m_transitionsStart n ..< m_transitionsStart n + m_transitionsLength n])"

lemma reset_targets_list: "reset_targets rel n = fold_option (reset_target rel) (span_list n)"
  by (rule ext) (simp add: reset_targets_def span_list_def)

lemma distinct_spans:
  assumes "distinct is" "\<And>i j. i \<in> set is \<Longrightarrow> j \<in> set is \<Longrightarrow> i \<noteq> j \<Longrightarrow> set (f i) \<inter> set (f j) = {}" "\<And>i. i \<in> set is \<Longrightarrow> distinct (f i)"
  shows "distinct (concat (map f is))"
  using assms
proof (induction "is")
  case (Cons i "is")
  have "set (f i) \<inter> set (f j) = {}" if "j \<in> set is" for j using Cons.prems(1,2) that by auto
  then show ?case using Cons by fastforce
qed simp

subsection \<open>The quotient\<close>

definition quotient_of :: "dfa \<Rightarrow> (nat \<Rightarrow> nat) \<Rightarrow> dfa \<Rightarrow> bool" where
  "quotient_of d r q \<longleftrightarrow> length (nodes q) = length (nodes d) \<and> root q = r (root d) \<and>
     length (transitionRanges q) = length (transitionDestinations q) \<and>
     (\<forall>i<length (nodes d). if r i = i then \<not> isKilled (nodes q ! i) \<and> node_acts q i = node_acts d i \<and>
        m_actionsStart (nodes q ! i) + m_actionsLength (nodes q ! i) \<le> length (dfa_actions q) \<and>
        m_transitionsStart (nodes q ! i) + m_transitionsLength (nodes q ! i) \<le> length (transitionRanges q) \<and>
        node_transitions q (nodes q ! i) = map (\<lambda>(rg, t). (rg, r t)) (node_transitions d (nodes d ! i))
      else isKilled (nodes q ! i))"

lemma redirect_spec:
  assumes w: "wf_dfa d" "all_live d" "separate d" and r: "\<And>i. i < length (nodes d) \<Longrightarrow> r i < length (nodes d)"
    and s: "relocated d r (length (nodes d)) (d', rel)"
  shows "\<exists>dests. fold_option (reset_targets rel) (nodes d') (transitionDestinations d') = Some dests \<and>
    vec_read rel (root d') = Some (r (root d)) \<and> quotient_of d r (d'\<lparr>root := r (root d), transitionDestinations := dests\<rparr>)"
proof -
  let ?n = "length (nodes d)"
  have S: "rel = map (\<lambda>i. if i < ?n then r i else i) [0 ..< ?n]" "root d' = root d"
    "nodes d' = map (\<lambda>i. if i < ?n \<and> r i \<noteq> i then killed_node else nodes d ! i) [0 ..< ?n]"
    "length (transitionRanges d') = length (transitionRanges d)" "length (transitionDestinations d') = length (transitionDestinations d)"
    "length (dfa_actions d') = length (dfa_actions d)"
    and mem: "\<And>i k. i < ?n \<Longrightarrow> r i = i \<Longrightarrow> k \<in> transition_span (nodes d ! i) \<Longrightarrow>
      transitionRanges d' ! k = transitionRanges d ! k \<and> transitionDestinations d' ! k = transitionDestinations d ! k"
      "\<And>i k. i < ?n \<Longrightarrow> r i = i \<Longrightarrow> k \<in> action_span (nodes d ! i) \<Longrightarrow> dfa_actions d' ! k = dfa_actions d ! k"
    using s unfolding relocated_def prod.case by blast+
  have live: "live d i \<longleftrightarrow> i < ?n" for i by (rule all_live_iff [OF w(2)])
  have nk: "nodes d' ! i = (if r i = i then nodes d ! i else killed_node)" if "i < ?n" for i using that by (simp add: S(3))
  have sp: "set (span_list (nodes d' ! i)) = (if r i = i then transition_span (nodes d ! i) else {})" "distinct (span_list (nodes d' ! i))" if "i < ?n" for i
    using that live [of i] by (auto simp: nk span_list_def transition_span_def live_def)
  define ps where "ps = concat (map (\<lambda>i. span_list (nodes d' ! i)) [0 ..< ?n])"
  have dis: "distinct ps" unfolding ps_def
  proof (rule distinct_spans)
    show "set (span_list (nodes d' ! i)) \<inter> set (span_list (nodes d' ! j)) = {}" if "i \<in> set [0 ..< ?n]" "j \<in> set [0 ..< ?n]" "i \<noteq> j" for i j
      using that sp(1) w(3) unfolding separate_def by simp
  qed (use sp(2) in simp_all)
  have ps: "set ps = (\<Union>i\<in>{i. i < ?n \<and> r i = i}. transition_span (nodes d ! i))" using sp(1) by (auto simp: ps_def)
  have tl: "transitionDestinations d ! k < ?n" if "i < ?n" "k \<in> transition_span (nodes d ! i)" for i k
  proof -
    have "(transitionRanges d ! k, transitionDestinations d ! k) \<in> set (node_transitions d (nodes d ! i))"
      using that(2) by (auto simp: node_transitions_def transition_span_def)
    then have "live d (transitionDestinations d ! k)" using wf_dfa_node [OF w(1), of i] that(1) live by (fastforce simp: wf_node_def)
    then show ?thesis by (simp add: live)
  qed
  have "\<forall>p\<in>set ps. p < length (transitionDestinations d') \<and> transitionDestinations d' ! p < length rel"
    using spans_in_bounds(1) [OF w(1)] live tl mem(1) S(1,5) by (fastforce simp: ps)
  from reset_all [OF dis this] obtain dests where D: "fold_option (reset_target rel) ps (transitionDestinations d') = Some dests"
    "length dests = length (transitionDestinations d')"
    "\<And>p. p < length (transitionDestinations d') \<Longrightarrow> dests ! p = (if p \<in> set ps then rel ! (transitionDestinations d' ! p) else transitionDestinations d' ! p)"
    by blast
  have nodes: "nodes d' = map (\<lambda>i. nodes d' ! i) [0 ..< ?n]" by (rule nth_equalityI) (simp_all add: S(3))
  have "fold_option (reset_targets rel) (nodes d') (transitionDestinations d') = fold_option (\<lambda>i. fold_option (reset_target rel) (span_list (nodes d' ! i))) [0 ..< ?n] (transitionDestinations d')"
    by (subst nodes) (simp add: fold_option_map reset_targets_list)
  also have "\<dots> = Some dests" using D(1) unfolding fold_option_concat ps_def .
  finally have run: "fold_option (reset_targets rel) (nodes d') (transitionDestinations d') = Some dests" .
  define q where "q = d'\<lparr>root := r (root d), transitionDestinations := dests\<rparr>"
  have keep: "\<not> isKilled (nodes q ! i) \<and> node_acts q i = node_acts d i \<and>
        m_actionsStart (nodes q ! i) + m_actionsLength (nodes q ! i) \<le> length (dfa_actions q) \<and>
        m_transitionsStart (nodes q ! i) + m_transitionsLength (nodes q ! i) \<le> length (transitionRanges q) \<and>
        node_transitions q (nodes q ! i) = map (\<lambda>(rg, t). (rg, r t)) (node_transitions d (nodes d ! i))"
    if i: "i < ?n" "r i = i" for i
  proof -
    have l: "live d i" using i live by simp
    have qi: "nodes q ! i = nodes d ! i" using nk [OF i(1)] i(2) by (simp add: q_def)
    have "transitionRanges q ! k = transitionRanges d ! k \<and> transitionDestinations q ! k = r (transitionDestinations d ! k)"
      if k: "k \<in> transition_span (nodes d ! i)" for k
    proof -
      have "k \<in> set ps" "k < length (transitionDestinations d')" using i k spans_in_bounds(1) [OF w(1) l k] by (auto simp: ps S(5))
      then show ?thesis using D(3) [of k] mem(1) [OF i k] tl [OF i(1) k] by (simp add: q_def S(1))
    qed
    then have t: "node_transitions q (nodes d ! i) = map (\<lambda>(rg, t). (rg, r t)) (node_transitions d (nodes d ! i))"
      by (simp add: node_transitions_def transition_span_def)
    have a: "node_actions q (nodes d ! i) = node_actions d (nodes d ! i)"
      using mem(2) [OF i] by (simp add: node_actions_def action_span_def q_def)
    show ?thesis using wf_dfa_node [OF w(1) l] l t a S(4,6) unfolding node_acts_def qi by (simp add: wf_node_def live_def q_def)
  qed
  have "quotient_of d r q" unfolding quotient_of_def
  proof (intro conjI allI impI)
    show "length (nodes q) = ?n" "root q = r (root d)" "length (transitionRanges q) = length (transitionDestinations q)"
      using w(1) D(2) S(4,5) by (simp_all add: q_def S(3) wf_dfa_def)
    fix i assume i: "i < ?n"
    show "if r i = i then \<not> isKilled (nodes q ! i) \<and> node_acts q i = node_acts d i \<and>
        m_actionsStart (nodes q ! i) + m_actionsLength (nodes q ! i) \<le> length (dfa_actions q) \<and>
        m_transitionsStart (nodes q ! i) + m_transitionsLength (nodes q ! i) \<le> length (transitionRanges q) \<and>
        node_transitions q (nodes q ! i) = map (\<lambda>(rg, t). (rg, r t)) (node_transitions d (nodes d ! i))
      else isKilled (nodes q ! i)"
    proof (cases "r i = i")
      case True
      then show ?thesis using keep [OF i True] by simp
    next
      case False
      then show ?thesis using nk [OF i] by (simp add: q_def)
    qed
  qed
  moreover have "vec_read rel (root d') = Some (r (root d))" using w(1) by (simp add: S(1,2) wf_dfa_def live_def)
  ultimately show ?thesis using run unfolding q_def by blast
qed

subsection \<open>Runs of the quotient\<close>

definition represents_classes :: "dfa \<Rightarrow> (nat \<Rightarrow> nat) \<Rightarrow> bool" where
  "represents_classes d r \<longleftrightarrow> (\<forall>i<length (nodes d). r i < length (nodes d) \<and> equivalent d i (r i)) \<and>
     (\<forall>i<length (nodes d). \<forall>j<length (nodes d). equivalent d i j \<longrightarrow> r i = r j)"

lemma represents_classesD:
  assumes "represents_classes d r" "i < length (nodes d)"
  shows "r i < length (nodes d)" "equivalent d i (r i)" "j < length (nodes d) \<Longrightarrow> equivalent d i j \<Longrightarrow> r i = r j" "r (r i) = r i"
proof -
  show a: "r i < length (nodes d)" "equivalent d i (r i)" and b: "j < length (nodes d) \<Longrightarrow> equivalent d i j \<Longrightarrow> r i = r j" for j
    using assms unfolding represents_classes_def by blast+
  show "r (r i) = r i" using b [OF a] by simp
qed

lemma find_target_map: "find_target c (map (\<lambda>(rg, t). (rg, r t)) ts) = map_option r (find_target c ts)"
  by (induction ts) auto

lemma quotientD:
  assumes q: "quotient_of d r q" and i: "i < length (nodes d)"
  shows "live q i \<longleftrightarrow> r i = i" "r i = i \<Longrightarrow> node_acts q i = node_acts d i" "r i = i \<Longrightarrow> dfa_next q i c = map_option r (dfa_next d i c)"
    "r i = i \<Longrightarrow> node_transitions q (nodes q ! i) = map (\<lambda>(rg, t). (rg, r t)) (node_transitions d (nodes d ! i))"
    "r i = i \<Longrightarrow> m_actionsStart (nodes q ! i) + m_actionsLength (nodes q ! i) \<le> length (dfa_actions q)"
    "r i = i \<Longrightarrow> m_transitionsStart (nodes q ! i) + m_transitionsLength (nodes q ! i) \<le> length (transitionRanges q)"
proof -
  have Q: "if r i = i then \<not> isKilled (nodes q ! i) \<and> node_acts q i = node_acts d i \<and>
        m_actionsStart (nodes q ! i) + m_actionsLength (nodes q ! i) \<le> length (dfa_actions q) \<and>
        m_transitionsStart (nodes q ! i) + m_transitionsLength (nodes q ! i) \<le> length (transitionRanges q) \<and>
        node_transitions q (nodes q ! i) = map (\<lambda>(rg, t). (rg, r t)) (node_transitions d (nodes d ! i))
      else isKilled (nodes q ! i)" and n: "length (nodes q) = length (nodes d)" using q i unfolding quotient_of_def by blast+
  show "live q i \<longleftrightarrow> r i = i" using Q n i by (cases "r i = i") (simp_all add: live_def)
  show "node_acts q i = node_acts d i" if "r i = i" using Q that by simp
  show t: "node_transitions q (nodes q ! i) = map (\<lambda>(rg, t). (rg, r t)) (node_transitions d (nodes d ! i))" if "r i = i" using Q that by simp
  show "m_actionsStart (nodes q ! i) + m_actionsLength (nodes q ! i) \<le> length (dfa_actions q)" if "r i = i" using Q that by argo
  show "m_transitionsStart (nodes q ! i) + m_transitionsLength (nodes q ! i) \<le> length (transitionRanges q)" if "r i = i" using Q that by argo
  show "dfa_next q i c = map_option r (dfa_next d i c)" if "r i = i" unfolding dfa_next_def t [OF that] find_target_map ..
qed

lemma sorted_map_targets: "sorted_transitions (map (\<lambda>(rg, t). (rg, r t)) ts) = sorted_transitions ts"
  by (induction ts) (auto simp: sorted_transitions_def)

lemma quotient_wf:
  assumes w: "wf_dfa d" "all_live d" and q: "quotient_of d r q" and r: "represents_classes d r"
  shows "wf_dfa q"
proof -
  have n: "length (nodes q) = length (nodes d)" "root q = r (root d)" "length (transitionRanges q) = length (transitionDestinations q)"
    using q unfolding quotient_of_def by blast+
  have live: "live d i \<longleftrightarrow> i < length (nodes d)" for i by (rule all_live_iff [OF w(2)])
  have root: "root d < length (nodes d)" using w(1) by (simp add: wf_dfa_def live)
  have lr: "live q (r i)" if "i < length (nodes d)" for i
    using quotientD(1) [OF q represents_classesD(1) [OF r that]] represents_classesD(4) [OF r that] by simp
  have "wf_node q (nodes q ! i)" if i: "i < length (nodes q)" "\<not> isKilled (nodes q ! i)" for i
  proof -
    have i': "i < length (nodes d)" "r i = i" using i n quotientD(1) [OF q, of i] by (auto simp: live_def)
    note t = quotientD(4) [OF q i']
    have wd: "wf_node d (nodes d ! i)" using wf_dfa_node [OF w(1)] live i'(1) by blast
    have "live q t'" if m: "(rg, t') \<in> set (node_transitions q (nodes q ! i))" for rg t'
    proof -
      obtain t0 where "(rg, t0) \<in> set (node_transitions d (nodes d ! i))" "t' = r t0" using m unfolding t by auto
      moreover from this have "t0 < length (nodes d)" using wd live unfolding wf_node_def by blast
      ultimately show ?thesis using lr by simp
    qed
    moreover have "sorted_transitions (node_transitions q (nodes q ! i))" unfolding t sorted_map_targets using wd by (simp add: wf_node_def)
    moreover have "m_actionsStart (nodes q ! i) + m_actionsLength (nodes q ! i) \<le> length (dfa_actions q)"
      "m_transitionsStart (nodes q ! i) + m_transitionsLength (nodes q ! i) \<le> length (transitionRanges q)"
      using quotientD(5,6) [OF q i'] .
    ultimately show ?thesis unfolding wf_node_def by blast
  qed
  then show ?thesis using lr [OF root] n w(1) unfolding wf_dfa_def by (metis in_set_conv_nth)
qed

lemma quotient_trace:
  assumes w: "wf_dfa d" "all_live d" and q: "quotient_of d r q" and r: "represents_classes d r"
  shows "u < length (nodes d) \<Longrightarrow> dfa_trace q (r u) w = map r (dfa_trace d u w)"
proof (induction w arbitrary: u)
  case (Cons c w)
  note R = represents_classesD [OF r]
  have step: "dfa_next q (r u) c = map_option r (dfa_next d (r u) c)" by (rule quotientD(3) [OF q R(1) [OF Cons.prems] R(4) [OF Cons.prems]])
  have e: "equivalent d u (r u)" "equivalent d (r u) u" using R(2) [OF Cons.prems] by (simp_all add: equivalent_def)
  have live: "live d i \<longleftrightarrow> i < length (nodes d)" for i by (rule all_live_iff [OF w(2)])
  show ?case
  proof (cases "dfa_next d u c")
    case None
    have "dfa_next d (r u) c = None" using equivalent_next [OF w(1) e(2), of c] None by (cases "dfa_next d (r u) c") auto
    then show ?thesis using None step by simp
  next
    case (Some t)
    obtain t' where t': "dfa_next d (r u) c = Some t'" "equivalent d t t'" using equivalent_next [OF w(1) e(1) Some] by blast
    then have l: "t < length (nodes d)" "t' < length (nodes d)" by (simp_all add: equivalent_def live_def)
    have "r t = r t'" by (rule R(3) [OF l t'(2)])
    then show ?thesis using Some step t'(1) Cons.IH [OF l(1)] by simp
  qed
qed simp

lemma quotient_acts:
  assumes q: "quotient_of d r q" and r: "represents_classes d r" and u: "u < length (nodes d)"
  shows "node_acts q (r u) = node_acts d u"
  using quotientD(2) [OF q represents_classesD(1,4) [OF r u]] equivalent_acts [OF represents_classesD(2) [OF r u]] by simp

lemma trace_live: "wf_dfa d \<Longrightarrow> live d u \<Longrightarrow> n \<in> set (dfa_trace d u w) \<Longrightarrow> live d n"
proof (induction w arbitrary: u)
  case (Cons c w)
  show ?case
  proof (cases "dfa_next d u c")
    case (Some t)
    then show ?thesis using Cons.prems Cons.IH [OF Cons.prems(1) dfa_next_live [OF Cons.prems(1,2) Some]] dfa_next_live [OF Cons.prems(1,2) Some] by auto
  qed (use Cons.prems in simp)
qed simp

lemma quotient_run:
  assumes w: "wf_dfa d" "all_live d" and q: "quotient_of d r q" and r: "represents_classes d r" and u: "u < length (nodes d)"
  shows "map (node_acts q) (r u # dfa_trace q (r u) w) = map (node_acts d) (u # dfa_trace d u w)"
proof -
  have "n < length (nodes d)" if "n \<in> set (dfa_trace d u w)" for n using trace_live [OF w(1) _ that] u all_live_iff [OF w(2)] by blast
  then show ?thesis unfolding quotient_trace [OF w q r u] using quotient_acts [OF q r] u by simp
qed

subsection \<open>The minimized automaton\<close>

lemma first_elements:
  assumes v: "valid_partition (length (nodes d)) (fgNodePartition g)"
    and c: "\<forall>u<length (nodes d). \<forall>v<length (nodes d). setOf (fgNodePartition g) u = setOf (fgNodePartition g) v \<longleftrightarrow> equivalent d u v"
  defines "p \<equiv> fgNodePartition g"
  defines "r \<equiv> \<lambda>i. elementAt p (sdStart (descriptor p (setOf p i)))"
  shows "represents_classes d r" "i < length (nodes d) \<Longrightarrow> nodeReplacement g i = Some (r i)"
proof -
  note V = valid_partitionD [OF v [folded p_def]] note c = c [folded p_def]
  have f: "sdStart (descriptor p s) < length (nodes d)" "elementAt p (sdStart (descriptor p s)) < length (nodes d)"
    "setOf p (elementAt p (sdStart (descriptor p s))) = s" if "s < length (m_sets p)" for s
  proof -
    have l: "sdStart (descriptor p s) < sdEnd (descriptor p s)" using V(9) [OF that] by (simp add: sdEnd_def)
    then show "sdStart (descriptor p s) < length (nodes d)" using V(11) [OF that] by simp
    show "elementAt p (sdStart (descriptor p s)) < length (nodes d)" "setOf p (elementAt p (sdStart (descriptor p s))) = s"
      using element_in_set [OF v [folded p_def] that order_refl l] by simp_all
  qed
  show "represents_classes d r" unfolding represents_classes_def
  proof (intro conjI allI impI)
    fix i assume i: "i < length (nodes d)"
    show l: "r i < length (nodes d)" unfolding r_def by (rule f(2) [OF V(8) [OF i]])
    have "setOf p i = setOf p (r i)" unfolding r_def by (rule f(3) [OF V(8) [OF i], symmetric])
    then show "equivalent d i (r i)" using c i l by blast
  next
    fix i j assume "i < length (nodes d)" "j < length (nodes d)" "equivalent d i j"
    then have "setOf p i = setOf p j" using c by blast
    then show "r i = r j" unfolding r_def by simp
  qed
  show "nodeReplacement g i = Some (r i)" if i: "i < length (nodes d)"
    using f(1) [OF V(8) [OF i]] i V(1,3) V(8) [OF i]
    by (simp add: nodeReplacement_def setIndexOf_def firstElementInSet_def r_def flip: p_def)
qed

text \<open>What minimizing promises: the same lists of actions along every text, and no two nodes left that agree on every text.\<close>

definition minimal_form :: "dfa \<Rightarrow> dfa \<Rightarrow> bool" where
  "minimal_form d q \<longleftrightarrow> wf_dfa q \<and> length (nodes q) = length (nodes d) \<and> used_actions q \<subseteq> used_actions d \<and>
     (\<forall>w. map (node_acts q) (root q # dfa_trace q (root q) w) = map (node_acts d) (root d # dfa_trace d (root d) w)) \<and>
     (\<forall>u v. equivalent q u v \<longrightarrow> u = v)"

lemma quotient_minimal:
  assumes w: "wf_dfa d" "all_live d" and q: "quotient_of d r q" and r: "represents_classes d r"
  shows "minimal_form d q"
proof -
  have n: "length (nodes q) = length (nodes d)" "root q = r (root d)" using q unfolding quotient_of_def by blast+
  have live: "live d i \<longleftrightarrow> i < length (nodes d)" for i by (rule all_live_iff [OF w(2)])
  have root: "root d < length (nodes d)" using w(1) by (simp add: wf_dfa_def live)
  have fix_r: "i < length (nodes d) \<and> r i = i" if "live q i" for i using quotientD(1) [OF q, of i] that n by (auto simp: live_def)
  have run: "map (node_acts q) (i # dfa_trace q i x) = map (node_acts d) (i # dfa_trace d i x)" if "live q i" for i x
    using quotient_run [OF w q r, of i x] fix_r [OF that] by simp
  have "u = v" if e: "equivalent q u v" for u v
  proof -
    have l: "live q u" "live q v" and same: "map (node_acts q) (u # dfa_trace q u x) = map (node_acts q) (v # dfa_trace q v x)" for x
      using e unfolding equivalent_def by blast+
    have "equivalent d u v" unfolding equivalent_def live
      using fix_r [OF l(1)] fix_r [OF l(2)] same [unfolded run [OF l(1)] run [OF l(2)]] by blast
    then show ?thesis using represents_classesD(3) [OF r] fix_r [OF l(1)] fix_r [OF l(2)] by metis
  qed
  moreover have "set (node_acts q i) \<subseteq> used_actions d" if "live q i" for i
    using quotientD(2) [OF q] fix_r [OF that] live unfolding used_actions_def node_acts_def by auto
  ultimately show ?thesis unfolding minimal_form_def using quotient_wf [OF w q r] n quotient_run [OF w q r root]
    by (auto simp: used_actions_def [of q] node_acts_def)
qed

lemma minimize_spec:
  assumes w: "wf_dfa d" "all_live d" "separate d" "128 * length (nodes d) \<le> u32_max" and o: "lists_slots slotOrder"
  shows "\<exists>q. DFAMinimizer_minimize slotOrder memory d = Some q \<and> minimal_form d q"
proof -
  obtain g0 g1 g where g: "FullGraphPartition memory d = Some g0" "fold_option partition_final (slotOrder (finalStates d)) g0 = Some g1"
    "splitByUniqueTransitions g1 = Some g" and v: "valid_partition (length (nodes d)) (fgNodePartition g)"
    and c: "\<forall>u<length (nodes d). \<forall>v<length (nodes d). setOf (fgNodePartition g) u = setOf (fgNodePartition g) v \<longleftrightarrow> equivalent d u v"
    using minimize_classes [OF w(1,4,2) o] by blast
  obtain r where r: "represents_classes d r" "\<And>i. i < length (nodes d) \<Longrightarrow> nodeReplacement g i = Some (r i)"
    using first_elements [OF v c] by blast
  obtain d' rel where s: "fold_option (relocate_node g) [0 ..< length (nodes d)] (d, [0 ..< length (nodes d)]) = Some (d', rel)"
    "relocated d r (length (nodes d)) (d', rel)" using relocate_all [OF w(1-3) r(2)] by (metis surj_pair)
  obtain dests where t: "fold_option (reset_targets rel) (nodes d') (transitionDestinations d') = Some dests"
    "vec_read rel (root d') = Some (r (root d))" "quotient_of d r (d'\<lparr>root := r (root d), transitionDestinations := dests\<rparr>)"
    using redirect_spec [OF w(1-3) represents_classesD(1) [OF r(1)] s(2)] by blast
  have "DFAMinimizer_minimize slotOrder memory d = Some (d'\<lparr>root := r (root d), transitionDestinations := dests\<rparr>)"
    unfolding DFAMinimizer_minimize_def using g s(1) t(1,2) by simp
  then show ?thesis using quotient_minimal [OF w(1,2) t(3) r(1)] by blast
qed

lemma minimal_form_selected:
  assumes "minimal_form d q"
  shows "selected q w = selected d w"
proof -
  have s: "selected x w = (\<Union>acts\<in>set (map (node_acts x) (root x # dfa_trace x (root x) w)). set acts)" for x
    unfolding selected_def node_acts_def by simp
  show ?thesis unfolding s using assms unfolding minimal_form_def by metis
qed

text \<open>An automaton with two nodes that agree on every text, for the example.\<close>

definition two_letters_dfa :: dfa where
  "two_letters_dfa =
     \<lparr>nodes =
        [\<lparr>m_actionsStart = 0, m_transitionsStart = 0, m_actionsLength = 0, m_transitionsLength = 2, m_flags = 0\<rparr>,
         \<lparr>m_actionsStart = 0, m_transitionsStart = 2, m_actionsLength = 1, m_transitionsLength = 0, m_flags = 0\<rparr>,
         \<lparr>m_actionsStart = 1, m_transitionsStart = 2, m_actionsLength = 1, m_transitionsLength = 0, m_flags = 0\<rparr>],
      dfa_actions = [5, 5], transitionRanges = [\<lparr>crFirst = 97, crLast = 97\<rparr>, \<lparr>crFirst = 98, crLast = 98\<rparr>],
      transitionDestinations = [1, 2], root = 0\<rparr>"

lemma two_letters_dfa_ok: "wf_dfa two_letters_dfa" "all_live two_letters_dfa" "separate two_letters_dfa"
proof -
  show "wf_dfa two_letters_dfa"
    by (auto simp: wf_dfa_def wf_node_def two_letters_dfa_def live_def isKilled_def node_transitions_def sorted_transitions_def
        u32_max_def less_Suc_eq)
  show "all_live two_letters_dfa" by (auto simp: all_live_def two_letters_dfa_def isKilled_def)
  show "separate two_letters_dfa" unfolding separate_def
    by (auto simp: two_letters_dfa_def transition_span_def action_span_def less_Suc_eq numeral_3_eq_3)
qed

text \<open>
  C12. Minimizing an automaton succeeds without leaving a vector, whatever the uninitialized
  memory and the iteration order of the hash map of final states.  The result is well-formed, visits
  on every text nodes with the same lists of actions in the same order, and has no two live nodes
  that agree on every text.  The nodes of the given automaton are live and own separate spans of the
  vectors, as those of a converted or merged automaton do.
\<close>

theorem minimize_correct:
  assumes "wf_dfa d" "all_live d" "separate d" "128 * length (nodes d) \<le> u32_max" "lists_slots slotOrder"
  shows "\<exists>q. DFAMinimizer_minimize slotOrder memory d = Some q \<and> wf_dfa q \<and> length (nodes q) = length (nodes d) \<and>
    (\<forall>w. map (node_acts q) (root q # dfa_trace q (root q) w) = map (node_acts d) (root d # dfa_trace d (root d) w)) \<and>
    (\<forall>u v. equivalent q u v \<longrightarrow> u = v)"
  using minimize_spec [OF assms, of memory] unfolding minimal_form_def by blast

theorem minimize_correct_witness:
  "\<exists>q. DFAMinimizer_minimize rev (\<lambda>_. 7) two_letters_dfa = Some q \<and>
     map (node_acts q) (root q # dfa_trace q (root q) [98]) = [[], [5]] \<and> \<not> equivalent q 1 2"
proof -
  have t: "map (node_acts two_letters_dfa) (root two_letters_dfa # dfa_trace two_letters_dfa (root two_letters_dfa) [98]) = [[], [5]]"
    by (simp add: two_letters_dfa_def node_acts_def dfa_next_def node_transitions_def node_actions_def in_range_def)
  have "lists_slots rev" by (simp add: lists_slots_def)
  moreover have "128 * length (nodes two_letters_dfa) \<le> u32_max" by (simp add: two_letters_dfa_def u32_max_def)
  ultimately show ?thesis using minimize_correct [OF two_letters_dfa_ok, of rev "\<lambda>_. 7"] t by (metis numeral_One numeral_eq_iff semiring_norm(85))
qed

end
