(* ===== verification/DFA_Combination.thy ===== *)
theory DFA_Combination
  imports DFA_Merge DFA_Minimization
begin

text \<open>
  \<^verbatim>\<open>DFACombiner::combineDFAs\<close> hands out automata that together select the actions of the automata it
  was given, and \<^verbatim>\<open>addDFA\<close> stores an automaton that selects the same.
\<close>

definition selected_all :: "dfa list \<Rightarrow> int list \<Rightarrow> u64 set" where
  "selected_all ds w = (\<Union>d\<in>set ds. selected d w)"

definition all_actions :: "dfa list \<Rightarrow> u64 set" where
  "all_actions ds = (\<Union>d\<in>set ds. used_actions d)"

lemma selected_all_append: "selected_all (ds @ es) w = selected_all ds w \<union> selected_all es w"
  by (simp add: selected_all_def)

lemma all_actions_append: "all_actions (ds @ es) = all_actions ds \<union> all_actions es"
  by (simp add: all_actions_def)

definition combinable :: "dfa list \<Rightarrow> bool" where
  "combinable ds \<longleftrightarrow> (\<forall>d\<in>set ds. wf_dfa d) \<and> card (all_actions ds) \<le> 65535"

lemma combinable_mono:
  assumes "combinable ds" "\<forall>d\<in>set es. wf_dfa d" "all_actions es \<subseteq> all_actions ds"
  shows "combinable es"
proof -
  have "card (all_actions es) \<le> card (all_actions ds)" by (rule card_mono [OF _ assms(3)]) (simp add: all_actions_def)
  then show ?thesis using assms(1,2) by (simp add: combinable_def)
qed

text \<open>Automata up to the threshold merge into one whose transitions can be counted.\<close>

definition small_threshold :: "nat \<Rightarrow> bool" where
  "small_threshold minimumSize \<longleftrightarrow> 128 * (Suc minimumSize * Suc minimumSize) \<le> u32_max"

lemma combinable_pair:
  assumes "combinable (rev rest @ [b, a])" "small_threshold minimumSize" "graphSize a \<le> minimumSize" "graphSize b \<le> minimumSize"
  shows "wf_dfa a" "wf_dfa b" "few_merged_actions a b" "128 * (Suc (graphSize a) * Suc (graphSize b)) \<le> u32_max"
proof -
  show "wf_dfa a" "wf_dfa b" using assms(1) by (simp_all add: combinable_def)
  have "card (used_actions a \<union> used_actions b) \<le> card (all_actions (rev rest @ [b, a]))"
    by (rule card_mono) (auto simp: all_actions_def)
  then show "few_merged_actions a b" using assms(1) by (simp add: few_merged_actions_def combinable_def)
  have "Suc (graphSize a) * Suc (graphSize b) \<le> Suc minimumSize * Suc minimumSize" using assms(3,4) by (intro mult_le_mono) simp_all
  then show "128 * (Suc (graphSize a) * Suc (graphSize b)) \<le> u32_max" using assms(2) unfolding small_threshold_def by linarith
qed

lemma merge_minimize:
  assumes p: "wf_dfa a" "wf_dfa b" "few_merged_actions a b" "128 * (Suc (graphSize a) * Suc (graphSize b)) \<le> u32_max"
    and o: "lists_slots slotOrder" "enumerates actionOrder"
  shows "\<exists>e. Option.bind (merge_dfas actionOrder a b) (\<lambda>c. if P c then minimize slotOrder memory c else Some c) = Some e \<and>
    wf_dfa e \<and> (\<forall>w. selected e w = selected a w \<union> selected b w) \<and> used_actions e \<subseteq> used_actions a \<union> used_actions b"
proof -
  have small: "Suc (graphSize a) * Suc (graphSize b) \<le> u32_max" using p(4) by linarith
  obtain c where c: "merge_dfas actionOrder a b = Some c" "wf_dfa c" "\<forall>w. selected c w = selected a w \<union> selected b w"
    "Suc (length (nodes c)) \<le> Suc (graphSize a) * Suc (graphSize b)" "used_actions c \<subseteq> used_actions a \<union> used_actions b"
    "all_live c" "separate c" using merge_dfas_selected [OF p(1-3) o(2) small] by blast
  have "128 * length (nodes c) \<le> u32_max" using c(4) p(4) by linarith
  from minimize_spec [OF c(2,6,7) this o(1)] obtain q where q: "minimize slotOrder memory c = Some q" "minimal_form c q"
    unfolding minimize_def by blast
  note s = minimal_form_selected [OF q(2)]
  have "wf_dfa q" "length (nodes q) = length (nodes c)" "used_actions q \<subseteq> used_actions c" using q(2) by (simp_all add: minimal_form_def)
  then show ?thesis using c q(1) s by (cases "P c") auto
qed

lemma combine_loop_selected:
  assumes "combinable ds" "\<forall>d\<in>set ds. graphSize d \<le> minimumSize" "small_threshold minimumSize" "lists_slots slotOrder" "enumerates actionOrder"
  shows "\<exists>out. combine_loop slotOrder memory actionOrder minimumSize ds = Some out \<and> (\<forall>d\<in>set out. wf_dfa d) \<and>
    all_actions out \<subseteq> all_actions ds \<and> (\<forall>w. selected_all out w = selected_all ds w)"
  using assms(1,2)
proof (induction "length ds" arbitrary: ds rule: less_induct)
  case less
  show ?case
  proof (cases "rev ds" rule: remdups_adj.cases)
    case 1
    then show ?thesis by (subst combine_loop.simps) simp
  next
    case (2 d)
    then have "ds = [d]" by simp
    then show ?thesis using less.prems by (subst combine_loop.simps) (simp add: combinable_def)
  next
    case (3 a b rest)
    then have ds: "ds = rev rest @ [b, a]" by (metis append.assoc append_Cons append_Nil rev.simps(2) rev_rev_ident)
    have "graphSize a \<le> minimumSize" "graphSize b \<le> minimumSize" using less.prems(2) by (simp_all add: ds)
    note p = combinable_pair [OF less.prems(1) [unfolded ds] assms(3) this]
    obtain e where e: "Option.bind (merge_dfas actionOrder a b) (\<lambda>c. if minimumSize < graphSize c \<or> rest = [] then minimize slotOrder memory c else Some c) = Some e"
      "wf_dfa e" "\<And>w. selected e w = selected a w \<union> selected b w" "used_actions e \<subseteq> used_actions a \<union> used_actions b"
      using merge_minimize [OF p assms(4,5), of "\<lambda>c. minimumSize < graphSize c \<or> rest = []"] by blast
    have step: "combine_loop slotOrder memory actionOrder minimumSize ds = (if minimumSize < graphSize e
        then map_option (\<lambda>out. e # out) (combine_loop slotOrder memory actionOrder minimumSize (rev rest))
        else combine_loop slotOrder memory actionOrder minimumSize (rev rest @ [e]))"
      by (subst combine_loop.simps) (use e(1) in \<open>auto simp: 3 bind_eq_Some_conv\<close>)
    have all: "selected_all ds w = selected e w \<union> selected_all (rev rest) w" for w
      using e(3) by (auto simp: selected_all_def ds)
    have wf: "\<forall>d\<in>set (rev rest). wf_dfa d" "\<forall>d\<in>set (rev rest). graphSize d \<le> minimumSize" using less.prems by (simp_all add: combinable_def ds)
    have len: "length (rev rest) < length ds" "length (rev rest @ [e]) < length ds" by (simp_all add: ds)
    have sub: "all_actions (rev rest @ [e]) \<subseteq> all_actions ds" "all_actions (rev rest) \<subseteq> all_actions ds" using e(4) by (auto simp: ds all_actions_def)
    have "combinable (rev rest @ [e])" "combinable (rev rest)" using wf(1) e(2) sub by (auto intro!: combinable_mono [OF less.prems(1)])
    note IH = less.hyps [OF len(1) this(2) wf(2)] less.hyps [OF len(2) this(1)]
    show ?thesis
    proof (cases "minimumSize < graphSize e")
      case True
      obtain out where o: "combine_loop slotOrder memory actionOrder minimumSize (rev rest) = Some out" "\<forall>d\<in>set out. wf_dfa d"
        "all_actions out \<subseteq> all_actions (rev rest)" "\<forall>w. selected_all out w = selected_all (rev rest) w" using IH(1) by blast
      have "all_actions (e # out) \<subseteq> all_actions ds" using o(3) sub e(4) by (auto simp: all_actions_def ds)
      moreover have "selected_all (e # out) w = selected_all ds w" for w using o(4) all [of w] by (auto simp: selected_all_def)
      ultimately show ?thesis using step True o(1,2) e(2) by (intro exI [of _ "e # out"]) simp
    next
      case False
      then have "\<forall>d\<in>set (rev rest @ [e]). graphSize d \<le> minimumSize" using wf(2) by simp
      moreover have "selected_all (rev rest @ [e]) w = selected_all ds w" for w using all [of w] by (auto simp: selected_all_def)
      ultimately show ?thesis using IH(2) step False sub(1) by auto
    qed
  qed
qed

lemma combineDFAs_spec:
  assumes "combinable ds" "small_threshold minimumSize" "lists_slots slotOrder" "enumerates actionOrder"
  shows "\<exists>out. combineDFAs slotOrder memory actionOrder minimumSize ds = Some out \<and> (\<forall>d\<in>set out. wf_dfa d) \<and>
    all_actions out \<subseteq> all_actions ds \<and> (\<forall>w. selected_all out w = selected_all ds w)"
proof -
  let ?small = "filter (\<lambda>d. \<not> minimumSize < graphSize d) ds"
  have "combinable ?small"
    using assms(1) by (intro combinable_mono [OF assms(1)]) (auto simp: combinable_def all_actions_def)
  then obtain out where o: "combine_loop slotOrder memory actionOrder minimumSize ?small = Some out" "\<forall>d\<in>set out. wf_dfa d"
    "all_actions out \<subseteq> all_actions ?small" "\<And>w. selected_all out w = selected_all ?small w"
    using combine_loop_selected [of ?small minimumSize slotOrder actionOrder memory] assms(2-4) by auto
  have "all_actions (rev (filter (\<lambda>d. minimumSize < graphSize d) ds) @ out) \<subseteq> all_actions ds" using o(3) by (auto simp: all_actions_def)
  moreover have "selected_all (rev (filter (\<lambda>d. minimumSize < graphSize d) ds) @ out) w = selected_all ds w" for w
    using o(4) [of w] by (auto simp: selected_all_def)
  ultimately show ?thesis using assms(1) o(1,2)
    by (intro exI [of _ "rev (filter (\<lambda>d. minimumSize < graphSize d) ds) @ out"]) (auto simp: combineDFAs_def combinable_def)
qed

text \<open>An automaton that accepts one character, for the example.\<close>

definition letter_dfa :: "int \<Rightarrow> u64 \<Rightarrow> dfa" where
  "letter_dfa c act =
     \<lparr>nodes =
        [\<lparr>m_actionsStart = 0, m_transitionsStart = 0, m_actionsLength = 0, m_transitionsLength = 1, m_flags = 0\<rparr>,
         \<lparr>m_actionsStart = 0, m_transitionsStart = 1, m_actionsLength = 1, m_transitionsLength = 0, m_flags = 0\<rparr>],
      dfa_actions = [act], transitionRanges = [\<lparr>crFirst = c, crLast = c\<rparr>], transitionDestinations = [1], root = 0\<rparr>"

lemma letter_dfa_wf: "0 \<le> c \<Longrightarrow> c \<le> 127 \<Longrightarrow> wf_dfa (letter_dfa c act)"
  by (auto simp: wf_dfa_def wf_node_def letter_dfa_def live_def isKilled_def node_transitions_def sorted_transitions_def u32_max_def)

lemma letter_dfa_selected: "selected (letter_dfa c act) [c'] = (if c' = c then {act} else {})"
  by (simp add: selected_def letter_dfa_def dfa_next_def node_transitions_def node_actions_def in_range_def)

text \<open>
  C11. Combining automata loses and adds nothing: for every size threshold up to 5791, whatever the
  iteration orders and the contents of fresh memory, merging and minimizing succeed, and the
  automata handed to the handler are well-formed and together select on every input exactly the
  actions that the given automata select together.
\<close>

theorem combine_dfas_correct:
  assumes "combinable ds" "small_threshold minimumSize" "lists_slots slotOrder" "enumerates actionOrder"
  shows "\<exists>out. combineDFAs slotOrder memory actionOrder minimumSize ds = Some out \<and> (\<forall>d\<in>set out. wf_dfa d) \<and>
    (\<forall>w. selected_all out w = selected_all ds w)"
  using combineDFAs_spec [OF assms] by blast

theorem combine_dfas_correct_witness:
  "\<exists>out. combineDFAs rev (\<lambda>d k. k) sorted_list_of_set 100 [letter_dfa 97 1, letter_dfa 98 2] = Some out \<and>
     selected_all out [97] = {1} \<and> selected_all out [98] = {2}"
proof -
  have "used_actions (letter_dfa c act) = {act}" for c act
    by (auto simp: used_actions_def letter_dfa_def live_def node_actions_def isKilled_def less_Suc_eq split: nat.splits)
  then have "combinable [letter_dfa 97 1, letter_dfa 98 2]"
    using letter_dfa_wf [of 97 1] letter_dfa_wf [of 98 2] by (simp add: combinable_def all_actions_def)
  moreover have "lists_slots rev" "small_threshold 100" by (simp_all add: lists_slots_def small_threshold_def u32_max_def)
  ultimately show ?thesis
    using combine_dfas_correct [of "[letter_dfa 97 1, letter_dfa 98 2]" 100 rev sorted_list_of_set "\<lambda>d k. k"] enumerates_sorted
    by (auto simp: selected_all_def [of "[_, _]"] letter_dfa_selected)
qed

end
