(* ===== verification/Content_Compilation.thy ===== *)
theory Content_Compilation
  imports Content_Compiler NFA_Sample DFA_Combination
begin

text \<open>
  \<^verbatim>\<open>compileToBytecode\<close> is correct: the file it writes reports for a URL the actions of the rules that
  match everything and the actions the nondeterministic automata select.
\<close>

subsection \<open>The automata that are compiled\<close>

text \<open>The automata in the order in which they are lowered: the large ones, then the combined small ones.\<close>

fun sort_automata ::
  "(nat set \<Rightarrow> nat list) \<Rightarrow> (u64 set \<Rightarrow> u64 list) \<Rightarrow> slot_order \<Rightarrow> (dfa \<Rightarrow> nat \<Rightarrow> nat) \<Rightarrow> nfa list \<Rightarrow> (dfa list \<times> dfa list) option" where
  "sort_automata order actionOrder slotOrder memory [] = Some ([], [])"
| "sort_automata order actionOrder slotOrder memory (a # as) =
     do {
       d \<leftarrow> convert_nfa order actionOrder a;
       q \<leftarrow> minimize slotOrder memory d;
       (large, small) \<leftarrow> sort_automata order actionOrder slotOrder memory as;
       Some (if graphSize d < smallDFASize then (large, q # small) else (q # large, small))
     }"

definition compiled_automata ::
  "(nat set \<Rightarrow> nat list) \<Rightarrow> (u64 set \<Rightarrow> u64 list) \<Rightarrow> slot_order \<Rightarrow> (dfa \<Rightarrow> nat \<Rightarrow> nat) \<Rightarrow> nfa list \<Rightarrow> dfa list option" where
  "compiled_automata order actionOrder slotOrder memory as =
     do {
       (large, small) \<leftarrow> sort_automata order actionOrder slotOrder memory as;
       out \<leftarrow> combineDFAs slotOrder memory actionOrder smallDFASize small;
       Some (large @ out)
     }"

fun emit :: "(u64 set \<Rightarrow> u64 list) \<Rightarrow> u64 set \<Rightarrow> bool \<Rightarrow> dfa list \<Rightarrow> byte list option" where
  "emit actionOrder U seen [] = Some []"
| "emit actionOrder U seen (d # ds) =
     Option.bind (if seen then Some d else addUniversalActionsToDFA actionOrder U d) (\<lambda>d. compile_file (d # ds))"

lemma compile_file_append: "compile_file (xs @ ys) = Option.bind (compile_file xs) (\<lambda>b. map_option (\<lambda>c. b @ c) (compile_file ys))"
proof (induction xs)
  case (Cons d xs)
  show ?case by (cases "compile d []"; cases "compile_file xs"; cases "compile_file ys") (simp_all add: Cons)
qed (cases "compile_file ys"; simp)

lemma emit_append:
  "emit actionOrder U seen (xs @ ys) =
     Option.bind (emit actionOrder U seen xs) (\<lambda>b. map_option (\<lambda>c. b @ c) (emit actionOrder U (seen \<or> xs \<noteq> []) ys))"
proof (cases xs)
  case Nil
  show ?thesis unfolding Nil by (cases "emit actionOrder U seen ys") simp_all
next
  case (Cons d xs')
  have "emit actionOrder U True ys = compile_file ys" by (cases ys) simp_all
  then show ?thesis unfolding Cons
    by (cases "compile_file ys"; cases seen; cases "addUniversalActionsToDFA actionOrder U d") (auto simp: compile_file_append split: bind_splits)
qed

lemma emit_True: "emit actionOrder U True ds = compile_file ds"
  by (cases ds) simp_all

lemma lower_emit:
  "emit actionOrder U (csFirstNFASeen s) ds = Some bytes \<Longrightarrow> fold_option (lowerDFAToBytecode actionOrder U) ds s =
    Some (s\<lparr>csBytecode := csBytecode s @ bytes, csFirstNFASeen := csFirstNFASeen s \<or> ds \<noteq> []\<rparr>)"
proof (induction ds arbitrary: s bytes)
  case (Cons d ds)
  obtain b c where b: "emit actionOrder U (csFirstNFASeen s) [d] = Some b" "emit actionOrder U True ds = Some c" "bytes = b @ c"
    using Cons.prems emit_append [of actionOrder U "csFirstNFASeen s" "[d]" ds] by (auto simp: bind_eq_Some_conv emit_True)
  let ?s = "s\<lparr>csBytecode := csBytecode s @ b, csFirstNFASeen := True\<rparr>"
  have "lowerDFAToBytecode actionOrder U d s = Some ?s" using b(1) by (auto simp: lowerDFAToBytecode_def bind_eq_Some_conv)
  moreover have "emit actionOrder U (csFirstNFASeen ?s) ds = Some c" using b(2) by simp
  ultimately show ?case using Cons.IH [of ?s c] b(3) by simp
qed simp

lemma process_emit:
  "sort_automata order actionOrder slotOrder memory as = Some (large, small) \<Longrightarrow> emit actionOrder U (csFirstNFASeen s) large = Some bytes \<Longrightarrow>
    fold_option (process_nfa order actionOrder slotOrder memory U) as s =
      Some (s\<lparr>csBytecode := csBytecode s @ bytes, csFirstNFASeen := csFirstNFASeen s \<or> large \<noteq> [], csSmallDFACombiner := csSmallDFACombiner s @ small\<rparr>)"
proof (induction as arbitrary: s large small bytes)
  case (Cons a as)
  obtain d q large' small' where d: "convert_nfa order actionOrder a = Some d" "minimize slotOrder memory d = Some q"
    "sort_automata order actionOrder slotOrder memory as = Some (large', small')"
    "(large, small) = (if graphSize d < smallDFASize then (large', q # small') else (q # large', small'))"
    using Cons.prems(1) by (auto simp: bind_eq_Some_conv)
  show ?case
  proof (cases "graphSize d < smallDFASize")
    case True
    let ?s = "s\<lparr>csSmallDFACombiner := csSmallDFACombiner s @ [q]\<rparr>"
    have "process_nfa order actionOrder slotOrder memory U a s = Some ?s" using d(1,2) True by (simp add: process_nfa_def addDFA_def)
    moreover have "emit actionOrder U (csFirstNFASeen ?s) large' = Some bytes" using Cons.prems(2) d(4) True by simp
    ultimately show ?thesis using Cons.IH [OF d(3), of ?s bytes] d(4) True by simp
  next
    case False
    obtain b c where b: "emit actionOrder U (csFirstNFASeen s) [q] = Some b" "emit actionOrder U True large' = Some c" "bytes = b @ c"
      using Cons.prems(2) d(4) False emit_append [of actionOrder U "csFirstNFASeen s" "[q]" large'] by (auto simp: bind_eq_Some_conv)
    let ?s = "s\<lparr>csBytecode := csBytecode s @ b, csFirstNFASeen := True\<rparr>"
    have "process_nfa order actionOrder slotOrder memory U a s = Some ?s"
      using d(1,2) False lower_emit [OF b(1)] by (simp add: process_nfa_def bind_eq_Some_conv)
    moreover have "emit actionOrder U (csFirstNFASeen ?s) large' = Some c" using b(2) by simp
    ultimately show ?thesis using Cons.IH [OF d(3), of ?s c] d(4) False b(3) by simp
  qed
qed simp

lemma compileToBytecode_emit:
  assumes "compiled_automata order actionOrder slotOrder memory as = Some ds"
    "emit actionOrder U False (if ds = [] then [dfa_empty] else ds) = Some bytes"
  shows "compileToBytecode order actionOrder slotOrder memory as U = Some bytes"
proof -
  obtain large small out where l: "sort_automata order actionOrder slotOrder memory as = Some (large, small)"
    "combineDFAs slotOrder memory actionOrder smallDFASize small = Some out" "ds = large @ out"
    using assms(1) by (auto simp: compiled_automata_def bind_eq_Some_conv)
  obtain b c where b: "emit actionOrder U False large = Some b" "emit actionOrder U (large \<noteq> []) out = Some c" "ds \<noteq> [] \<longrightarrow> bytes = b @ c"
    using assms(2) emit_append [of actionOrder U False large out] l(3) by (cases "ds = []") (auto simp: bind_eq_Some_conv)
  let ?s0 = "\<lparr>csFirstNFASeen = False, csBytecode = [], csSmallDFACombiner = []\<rparr> :: compile_state"
  let ?s1 = "\<lparr>csFirstNFASeen = large \<noteq> [], csBytecode = b, csSmallDFACombiner = small\<rparr> :: compile_state"
  have p: "fold_option (process_nfa order actionOrder slotOrder memory U) as ?s0 = Some ?s1"
    using process_emit [OF l(1), of U ?s0 b] b(1) by simp
  have q: "fold_option (lowerDFAToBytecode actionOrder U) out ?s1 = Some (?s1\<lparr>csBytecode := b @ c, csFirstNFASeen := large \<noteq> [] \<or> out \<noteq> []\<rparr>)"
    using lower_emit [of actionOrder U ?s1 out c] b(2) by simp
  show ?thesis
  proof (cases "ds = []")
    case True
    then have e: "large = []" "out = []" "b = []" "c = []" using l(3) b(1,2) by auto
    then show ?thesis using assms(2) True p q l(2) by (auto simp: compileToBytecode_def bind_eq_Some_conv)
  next
    case False
    then show ?thesis using p q l(2,3) b(3) by (auto simp: compileToBytecode_def)
  qed
qed

subsection \<open>What the automata select\<close>

definition nfa_reported :: "nfa \<Rightarrow> int list \<Rightarrow> u64 set" where
  "nfa_reported a w = (\<Union>k\<in>{..length w}. states_actions a (nfa_run a (nfa_start a) (take k w)))"

lemma simulates_selected:
  assumes s: "simulates a d lab"
  shows "selected d w = nfa_reported a w"
proof -
  have r: "root d = 0" "0 < length (nodes d)" "lab 0 = nfa_start a" using s by (auto simp: simulates_def)
  have acts: "set (node_actions d (nodes d ! j)) = states_actions a (lab j)" if "j < length (nodes d)" for j
    using s that by (simp add: simulates_def node_acts_ok_def)
  have tr: "set (dfa_trace d 0 w) = {j. j < length (nodes d) \<and> (\<exists>k. 1 \<le> k \<and> k \<le> length w \<and> lab j = nfa_run a (nfa_start a) (take k w))}"
    using simulates_trace [OF s r(2), of w] unfolding r(3) .
  show ?thesis
  proof (intro equalityI subsetI)
    fix x assume "x \<in> selected d w"
    then obtain j where j: "j = 0 \<or> j \<in> set (dfa_trace d 0 w)" "x \<in> set (node_actions d (nodes d ! j))" by (auto simp: selected_def r(1))
    then have "j < length (nodes d) \<and> (\<exists>k\<le>length w. lab j = nfa_run a (nfa_start a) (take k w))"
      using tr r(2,3) by (cases "j = 0") (simp add: exI [of _ 0], auto)
    then show "x \<in> nfa_reported a w" using acts [of j] j(2) by (auto simp: nfa_reported_def)
  next
    fix x assume "x \<in> nfa_reported a w"
    then obtain k where k: "k \<le> length w" "x \<in> states_actions a (nfa_run a (nfa_start a) (take k w))" by (auto simp: nfa_reported_def)
    then have "nfa_run a (lab 0) (take k w) \<noteq> {}" unfolding r(3) by (auto simp: states_actions_def)
    then obtain j where j: "j < length (nodes d)" "lab j = nfa_run a (nfa_start a) (take k w)"
      using simulates_covers [OF s r(2) k(1)] unfolding r(3) by blast
    then have x: "x \<in> set (node_actions d (nodes d ! j))" using acts k(2) by simp
    show "x \<in> selected d w"
    proof (cases "k = 0")
      case True
      then have "x \<in> set (node_actions d (nodes d ! 0))" using acts [OF r(2)] k(2) r(3) by simp
      then show ?thesis by (simp add: selected_def r(1))
    next
      case False
      then have "j \<in> set (dfa_trace d 0 w)" using j k(1) unfolding tr by (auto intro!: exI [of _ k])
      then show ?thesis using x by (auto simp: selected_def r(1))
    qed
  qed
qed

definition convertible :: "(nat set \<Rightarrow> nat list) \<Rightarrow> (u64 set \<Rightarrow> u64 list) \<Rightarrow> nfa \<Rightarrow> bool" where
  "convertible order actionOrder a \<longleftrightarrow> wf_nfa a \<and> few_actions a \<and>
     (\<forall>d. convert_nfa order actionOrder a = Some d \<longrightarrow> 128 * length (nodes d) \<le> u32_max)"

lemma convert_minimize:
  assumes a: "convertible order actionOrder a" and o: "enumerates order" "enumerates actionOrder" "lists_slots slotOrder"
  shows "\<exists>d q. convert_nfa order actionOrder a = Some d \<and> minimize slotOrder memory d = Some q \<and> wf_dfa q \<and>
    (\<forall>w. selected q w = nfa_reported a w) \<and> used_actions q \<subseteq> set (nfa_actions a)"
proof -
  obtain d lab where d: "NFAToDFA_convert order actionOrder a = Some (Inr d)" "simulates a d lab"
    using NFAToDFA_convert_simulates [OF _ _ o(1,2), of a] a by (auto simp: convertible_def)
  have c: "convert_nfa order actionOrder a = Some d" using d(1) by (simp add: convert_nfa_def)
  then have n: "128 * length (nodes d) \<le> u32_max" using a by (simp add: convertible_def)
  have w: "wf_dfa d" using n by (intro simulates_wf_dfa [OF d(2)]) linarith
  obtain q where q: "minimize slotOrder memory d = Some q" "minimal_form d q"
    using minimize_spec [OF w convert_spans [OF d(1)] n o(3), of "memory d"] unfolding minimize_def by blast
  have "used_actions d \<subseteq> set (nfa_actions a)"
  proof -
    have "set (node_actions d (nodes d ! i)) \<subseteq> set (nfa_actions a)" if "live d i" for i
      using that d(2) a states_actions_subset [of a "lab i"] by (auto simp: live_def simulates_def node_acts_ok_def convertible_def)
    then show ?thesis by (auto simp: used_actions_def)
  qed
  then show ?thesis using c q minimal_form_selected [OF q(2)] simulates_selected [OF d(2)] by (auto simp: minimal_form_def)
qed

definition rule_actions :: "nfa list \<Rightarrow> u64 set" where
  "rule_actions as = (\<Union>a\<in>set as. set (nfa_actions a))"

lemma sort_automata_spec:
  assumes "\<forall>a\<in>set as. convertible order actionOrder a" "enumerates order" "enumerates actionOrder" "lists_slots slotOrder"
  shows "\<exists>large small. sort_automata order actionOrder slotOrder memory as = Some (large, small) \<and> (\<forall>d\<in>set (large @ small). wf_dfa d) \<and>
    all_actions (large @ small) \<subseteq> rule_actions as \<and> (\<forall>w. selected_all (large @ small) w = (\<Union>a\<in>set as. nfa_reported a w))"
  using assms(1)
proof (induction as)
  case Nil
  show ?case by (simp add: all_actions_def selected_all_def)
next
  case (Cons a as)
  obtain large small where s: "sort_automata order actionOrder slotOrder memory as = Some (large, small)" "\<forall>d\<in>set (large @ small). wf_dfa d"
    "all_actions (large @ small) \<subseteq> rule_actions as" "\<And>w. selected_all (large @ small) w = (\<Union>a\<in>set as. nfa_reported a w)"
    using Cons.IH Cons.prems by auto
  obtain d q where d: "convert_nfa order actionOrder a = Some d" "minimize slotOrder memory d = Some q" "wf_dfa q"
    "\<And>w. selected q w = nfa_reported a w" "used_actions q \<subseteq> set (nfa_actions a)"
    using convert_minimize [OF _ assms(2-4), of a memory] Cons.prems by auto
  define large' small' where l': "large' = (if graphSize d < smallDFASize then large else q # large)"
    "small' = (if graphSize d < smallDFASize then q # small else small)"
  have m: "set (large' @ small') = insert q (set (large @ small))" by (auto simp: l')
  have "sort_automata order actionOrder slotOrder memory (a # as) = Some (large', small')" using s(1) d(1,2) by (simp add: l')
  moreover have "\<forall>d\<in>set (large' @ small'). wf_dfa d" using s(2) d(3) unfolding m by blast
  moreover have "all_actions (large' @ small') \<subseteq> rule_actions (a # as)" using s(3) d(5) unfolding all_actions_def rule_actions_def m by auto
  moreover have "selected_all (large' @ small') w = (\<Union>a\<in>set (a # as). nfa_reported a w)" for w
    using s(4) [of w] d(4) [of w] unfolding selected_all_def m by auto
  ultimately show ?case by blast
qed

lemma compiled_automata_spec:
  assumes a: "\<forall>a\<in>set as. convertible order actionOrder a" "card (rule_actions as) \<le> 65535"
    and o: "enumerates order" "enumerates actionOrder" "lists_slots slotOrder"
  shows "\<exists>ds. compiled_automata order actionOrder slotOrder memory as = Some ds \<and> (\<forall>d\<in>set ds. wf_dfa d) \<and>
    all_actions ds \<subseteq> rule_actions as \<and> (\<forall>w. selected_all ds w = (\<Union>a\<in>set as. nfa_reported a w))"
proof -
  obtain large small where s: "sort_automata order actionOrder slotOrder memory as = Some (large, small)" "\<forall>d\<in>set (large @ small). wf_dfa d"
    "all_actions (large @ small) \<subseteq> rule_actions as" "\<And>w. selected_all (large @ small) w = (\<Union>a\<in>set as. nfa_reported a w)"
    using sort_automata_spec [OF a(1) o, of memory] by blast
  have "card (all_actions small) \<le> card (rule_actions as)" using s(3) by (intro card_mono) (simp_all add: all_actions_append rule_actions_def)
  then have "combinable small" using s(2) a(2) by (simp add: combinable_def)
  moreover have "small_threshold smallDFASize" by (simp add: small_threshold_def smallDFASize_def u32_max_def)
  ultimately obtain out where out: "combineDFAs slotOrder memory actionOrder smallDFASize small = Some out" "\<forall>d\<in>set out. wf_dfa d"
    "all_actions out \<subseteq> all_actions small" "\<And>w. selected_all out w = selected_all small w"
    using combineDFAs_spec [OF _ _ o(3,2)] by blast
  have "compiled_automata order actionOrder slotOrder memory as = Some (large @ out)" using s(1) out(1) by (simp add: compiled_automata_def)
  moreover have "all_actions (large @ out) \<subseteq> rule_actions as" using s(3) out(3) unfolding all_actions_append by blast
  moreover have "selected_all (large @ out) w = (\<Union>a\<in>set as. nfa_reported a w)" for w
    using s(4) [of w] out(4) [of w] by (simp add: selected_all_append)
  ultimately show ?thesis using s(2) out(2) by auto
qed

subsection \<open>The actions that match everything\<close>

definition same_transitions :: "dfa \<Rightarrow> dfa \<Rightarrow> bool" where
  "same_transitions d d' \<longleftrightarrow> root d' = root d \<and>
     (\<forall>i. (live d' i \<longleftrightarrow> live d i) \<and> node_transitions d' (nodes d' ! i) = node_transitions d (nodes d ! i))"

lemma same_transitionsD:
  assumes "same_transitions d d'"
  shows "root d' = root d" "live d' i \<longleftrightarrow> live d i" "node_transitions d' (nodes d' ! i) = node_transitions d (nodes d ! i)"
    "dfa_next d' i c = dfa_next d i c" "end_safe d' \<longleftrightarrow> end_safe d" "keeps_terminator d' \<longleftrightarrow> keeps_terminator d"
proof -
  show e: "root d' = root d" "live d' i \<longleftrightarrow> live d i" "node_transitions d' (nodes d' ! i) = node_transitions d (nodes d ! i)" for i
    using assms by (simp_all add: same_transitions_def)
  show n: "dfa_next d' i c = dfa_next d i c" for i c by (simp add: dfa_next_def e)
  have "canUseFallbackTransition d' (nodes d' ! i) = canUseFallbackTransition d (nodes d ! i)"
    "bestFallbackTarget d' (nodes d' ! i) = bestFallbackTarget d (nodes d ! i)" for i
    by (simp_all add: canUseFallbackTransition_def bestFallbackTarget_def e)
  then show "end_safe d' \<longleftrightarrow> end_safe d" "keeps_terminator d' \<longleftrightarrow> keeps_terminator d"
    by (simp_all add: end_safe_def keeps_terminator_def n e)
qed

lemma same_transitions_trace: "same_transitions d d' \<Longrightarrow> dfa_trace d' i w = dfa_trace d i w"
  by (induction w arbitrary: i) (simp_all add: same_transitionsD(4) split: option.split)

definition root_labelled :: "dfa \<Rightarrow> u64 set \<Rightarrow> dfa \<Rightarrow> bool" where
  "root_labelled d U d' \<longleftrightarrow> same_transitions d d' \<and> wf_dfa d' \<and> set (node_actions d' (nodes d' ! root d)) = U \<and>
     (\<forall>i. live d i \<longrightarrow> i \<noteq> root d \<longrightarrow> node_actions d' (nodes d' ! i) = node_actions d (nodes d ! i)) \<and>
     size_bound d' \<le> size_bound d + 7 * card U"

lemma addUniversal_labels:
  assumes w: "wf_dfa d" and r: "node_actions d (nodes d ! root d) = []" and U: "finite U" "card U < 65535" and o: "enumerates actionOrder"
  shows "\<exists>d'. addUniversalActionsToDFA actionOrder U d = Some d' \<and> root_labelled d U d'"
proof (cases "U = {}")
  case True
  then show ?thesis using w r by (simp add: addUniversalActionsToDFA_def root_labelled_def same_transitions_def)
next
  case False
  let ?us = "actionOrder U" and ?r = "root d"
  let ?n = "setActions (length (dfa_actions d)) (length ?us) (nodes d ! ?r)"
  define d' where "d' = d\<lparr>nodes := (nodes d)[?r := ?n], dfa_actions := dfa_actions d @ ?us\<rparr>"
  have us: "set ?us = U" "length ?us = card U" using o U(1) enumeratesD [of actionOrder U] by (auto simp: distinct_card [symmetric])
  have lr: "live d ?r" "?r < length (nodes d)" using w by (auto simp: wf_dfa_def live_def)
  have r0: "m_actionsLength (nodes d ! ?r) = 0" using r by (auto simp: node_actions_def)
  have add: "addUniversalActionsToDFA actionOrder U d = Some d'" using False lr(2) us(2) U(2) by (simp add: addUniversalActionsToDFA_def vec_read_def d'_def)
  have nd: "nodes d' ! i = (if i = ?r then ?n else nodes d ! i)" for i using lr(2) by (simp add: d'_def nth_list_update)
  have st: "same_transitions d d'" unfolding same_transitions_def
  proof (intro conjI allI)
    show "live d' i \<longleftrightarrow> live d i" for i using nd [of i] by (auto simp: live_def isKilled_def setActions_def d'_def)
    show "node_transitions d' (nodes d' ! i) = node_transitions d (nodes d ! i)" for i
      using nd [of i] by (auto simp: node_transitions_def setActions_def d'_def)
  qed (simp add: d'_def)
  note S = same_transitionsD [OF st]
  have root: "set (node_actions d' (nodes d' ! ?r)) = U"
  proof -
    have "node_actions d' ?n = ?us" by (rule nth_equalityI) (auto simp: node_actions_def setActions_def d'_def nth_append)
    then show ?thesis using nd [of ?r] us(1) by simp
  qed
  have other: "node_actions d' (nodes d' ! i) = node_actions d (nodes d ! i)" if "live d i" "i \<noteq> ?r" for i
  proof -
    have "m_actionsStart (nodes d ! i) + m_actionsLength (nodes d ! i) \<le> length (dfa_actions d)"
      using wf_dfa_node [OF w that(1)] by (simp add: wf_node_def)
    then show ?thesis using nd [of i] that(2) by (auto simp: node_actions_def d'_def nth_append)
  qed
  have fl: "transitionRanges d' = transitionRanges d" "transitionDestinations d' = transitionDestinations d" "length (nodes d') = length (nodes d)"
    "length (dfa_actions d') = length (dfa_actions d) + card U" by (simp_all add: d'_def us(2))
  have len: "m_actionsLength (nodes d' ! i) = m_actionsLength (nodes d ! i) + (if i = ?r then card U else 0)" for i
    using nd [of i] r0 us(2) by (simp add: setActions_def)
  have "wf_node d' (nodes d' ! i)" if "live d i" for i
    unfolding wf_node_def S(2,3) fl using wf_dfa_node [OF w that] nd [of i] us(2) by (auto simp: wf_node_def setActions_def)
  then have wf: "wf_node d' (nodes d' ! i)" if "live d' i" for i using that S(2) by blast
  have "wf_node d' n" if n: "n \<in> set (nodes d')" "\<not> isKilled n" for n
  proof -
    obtain i where "i < length (nodes d')" "n = nodes d' ! i" using n(1) by (auto simp: in_set_conv_nth)
    then show ?thesis using wf [of i] n(2) by (simp add: live_def)
  qed
  then have "wf_dfa d'" using w S(1,2) lr unfolding wf_dfa_def fl by simp
  moreover have "size_bound d' = size_bound d + 7 * card U"
    using lr(2) by (simp add: size_bound_def fl len distrib_left sum.distrib sum_distrib_left [symmetric])
  ultimately show ?thesis using add st root other by (auto simp: root_labelled_def)
qed

lemma plain_actions:
  assumes "selected d [] = {}"
  shows "automaton_actions first topActs flags d url = {x \<in> selected d (map uint url @ [0]). accepted topActs flags x}"
proof -
  have "n \<noteq> root d" if "x \<in> set (node_actions d (nodes d ! n))" for n x using assms that by (auto simp: selected_def)
  then show ?thesis using assms by (auto simp: automaton_actions_def selected_def)
qed

lemma labelled_actions:
  assumes l: "root_labelled d U d'" and w: "wf_dfa d" and r: "selected d [] = {}"
  shows "automaton_actions True topActs flags d' url =
    {x \<in> U. flagged x \<and> accepted topActs flags x} \<union> {x \<in> selected d (map uint url @ [0]). accepted topActs flags x}"
proof -
  let ?w = "map uint url @ [0]"
  have st: "same_transitions d d'" and u: "set (node_actions d' (nodes d' ! root d)) = U"
    and other: "\<And>i. live d i \<Longrightarrow> i \<noteq> root d \<Longrightarrow> node_actions d' (nodes d' ! i) = node_actions d (nodes d ! i)"
    using l by (auto simp: root_labelled_def)
  have live: "live d (root d)" using w by (simp add: wf_dfa_def)
  have r0: "node_actions d (nodes d ! root d) = []" using r by (simp add: selected_def)
  have "(\<exists>n\<in>set (dfa_trace d (root d) ?w). n \<noteq> root d \<and> x \<in> set (node_actions d' (nodes d' ! n))) \<longleftrightarrow> x \<in> selected d ?w" for x
    using other trace_live [OF w live] r0 by (force simp: selected_def)
  then show ?thesis unfolding automaton_actions_def same_transitionsD(1) [OF st] same_transitions_trace [OF st] u by auto
qed

lemma automata_plain:
  "\<forall>d\<in>set ds. selected d [] = {} \<Longrightarrow>
    automata_actions False topActs flags ds url = {x \<in> selected_all ds (map uint url @ [0]). accepted topActs flags x}"
  by (induction ds) (auto simp: plain_actions selected_all_def)

subsection \<open>The file\<close>

definition rules_end :: "dfa list \<Rightarrow> bool" where
  "rules_end ds \<longleftrightarrow> (\<forall>d\<in>set ds. end_safe d \<and> keeps_terminator d)"

definition fits_file :: "dfa list \<Rightarrow> u64 set \<Rightarrow> bool" where
  "fits_file ds U \<longleftrightarrow> 2 * (sum_list (map size_bound ds) + size_bound dfa_empty + 7 * card U) < 2147483647"

lemma emit_correct:
  assumes w: "\<forall>d\<in>set (d # ds). wf_dfa d \<and> selected d [] = {}" and e: "rules_end (d # ds)"
    and wa: "\<forall>x\<in>all_actions (d # ds) \<union> U. wf_action x" and U: "finite U" "card U < 65535" "enumerates actionOrder"
    and size: "2 * (sum_list (map size_bound (d # ds)) + 7 * card U) < 2147483647" and url: "ascii_url url"
  shows "\<exists>B. emit actionOrder U False (d # ds) = Some B \<and>
    interpret_url B topActs url flags = Some (Returned ({x \<in> U. flagged x \<and> accepted topActs flags x} \<union>
      {x \<in> selected_all (d # ds) (map uint url @ [0]). accepted topActs flags x})) \<and>
    actionsMatchingEverything B topActs = Some (Returned {x \<in> U. \<not> flagged x \<and> accepted topActs 0 x})"
proof -
  have wd: "wf_dfa d" "selected d [] = {}" using w by simp_all
  then have "node_actions d (nodes d ! root d) = []" by (simp add: selected_def)
  from addUniversal_labels [OF wd(1) this U] obtain d' where d': "addUniversalActionsToDFA actionOrder U d = Some d'" "root_labelled d U d'" by blast
  have l: "same_transitions d d'" "wf_dfa d'" "set (node_actions d' (nodes d' ! root d)) = U" "size_bound d' \<le> size_bound d + 7 * card U"
    and other: "\<And>i. live d i \<Longrightarrow> i \<noteq> root d \<Longrightarrow> node_actions d' (nodes d' ! i) = node_actions d (nodes d ! i)"
    using d'(2) by (auto simp: root_labelled_def)
  note S = same_transitionsD [OF l(1)]
  have "used_actions d' \<subseteq> used_actions d \<union> U"
  proof -
    have "set (node_actions d' (nodes d' ! i)) \<subseteq> used_actions d \<union> U" if "live d' i" for i
      using that S(2) [of i] l(3) other [of i] by (cases "i = root d") (auto simp: used_actions_def)
    then show ?thesis by (auto simp: used_actions_def [of d'])
  qed
  then have blocker: "\<forall>x\<in>set (d' # ds). blocker_dfa x" using w e l(2) wa S(5)
    by (auto simp: blocker_dfa_def rules_end_def all_actions_def)
  have keeps: "\<forall>x\<in>set (d' # ds). wf_dfa x \<and> keeps_terminator x" using w e l(2) S(6) by (auto simp: rules_end_def)
  have "worst_case_size x \<le> size_bound x" if "x \<in> set (d' # ds)" for x using that keeps by (intro worst_case_size_bound) (auto simp: wf_dfa_def)
  then have "sum_list (map worst_case_size (d' # ds)) \<le> sum_list (map size_bound (d' # ds))" by (intro sum_list_mono) blast
  also have "\<dots> \<le> sum_list (map size_bound (d # ds)) + 7 * card U" using l(4) by simp
  finally have small: "2 * sum_list (map worst_case_size (d' # ds)) < 2147483647" by (intro le_less_trans [OF mult_le_mono2 size])
  obtain B where B: "compile_file (d' # ds) = Some B" "length B \<le> sum_list (map worst_case_size (d' # ds))"
    "interpret_url B topActs url flags = Some (Returned (automata_actions True topActs flags (d' # ds) url))"
    using interpret_compiled_file [OF blocker small url, of topActs flags] file_result_automata [OF keeps] by auto
  obtain bytes rest where b: "compile d' [] = Some bytes" "B = bytes @ rest" using B(1) by (auto simp: bind_eq_Some_conv)
  have len: "length B < 2147483647" using B(2) small by linarith
  then obtain final where "compiled_at (bytes @ rest) d' 0 (length bytes) final"
    using compile_compiled_at [OF l(2) _ b(1), of "[]" rest] small b(2) by auto
  from matching_everything_first [OF _ this, of topActs 0] blocker len b(2) S(1) l(3)
  have "actionsMatchingEverything B topActs = Some (Returned {x \<in> U. \<not> flagged x \<and> accepted topActs 0 x})"
    by (auto simp: collect_def root_action_list_def)
  moreover have "automata_actions True topActs flags (d' # ds) url =
    {x \<in> U. flagged x \<and> accepted topActs flags x} \<union> {x \<in> selected_all (d # ds) (map uint url @ [0]). accepted topActs flags x}"
    using labelled_actions [OF d'(2) wd, of topActs flags url] automata_plain [of ds topActs flags url] w by (auto simp: selected_all_def)
  ultimately show ?thesis using B(1,3) d'(1) by (intro exI [of _ B]) simp
qed

lemma dfa_empty_rules:
  "wf_dfa dfa_empty" "rules_end [dfa_empty]" "used_actions dfa_empty = {}" "selected dfa_empty w = {}"
proof -
  have n: "node_transitions dfa_empty (nodes dfa_empty ! 0) = []" "node_actions dfa_empty (nodes dfa_empty ! 0) = []"
    by (simp_all add: dfa_empty_def new_node_def node_transitions_def node_actions_def)
  have l: "live dfa_empty i \<longleftrightarrow> i = 0" for i by (auto simp: live_def dfa_empty_def new_node_def isKilled_def)
  have d: "dfa_next dfa_empty 0 c = None" for c by (simp add: dfa_next_def n)
  show "wf_dfa dfa_empty" by (simp add: wf_dfa_def l) (simp add: wf_node_def dfa_empty_def new_node_def node_transitions_def sorted_transitions_def u32_max_def)
  show "rules_end [dfa_empty]" by (simp add: rules_end_def end_safe_def keeps_terminator_def l d)
  show "used_actions dfa_empty = {}" by (simp add: used_actions_def l n)
  have "root dfa_empty = 0" by (simp add: dfa_empty_def)
  then show "selected dfa_empty w = {}" by (cases w) (simp_all add: selected_def n d)
qed

lemma file_correct:
  assumes w: "\<forall>d\<in>set ds. wf_dfa d \<and> selected d [] = {}" and e: "rules_end ds" and size: "fits_file ds U"
    and wa: "\<forall>x\<in>all_actions ds \<union> U. wf_action x" and U: "finite U" "card U < 65535" "enumerates actionOrder" and url: "ascii_url url"
  shows "\<exists>B. emit actionOrder U False (if ds = [] then [dfa_empty] else ds) = Some B \<and>
    interpret_url B topActs url flags = Some (Returned ({x \<in> U. flagged x \<and> accepted topActs flags x} \<union>
      {x \<in> selected_all ds (map uint url @ [0]). accepted topActs flags x})) \<and>
    actionsMatchingEverything B topActs = Some (Returned {x \<in> U. \<not> flagged x \<and> accepted topActs 0 x})"
proof (cases ds)
  case Nil
  have "2 * (sum_list (map size_bound [dfa_empty]) + 7 * card U) < 2147483647" using size by (simp add: fits_file_def Nil)
  from emit_correct [OF _ dfa_empty_rules(2) _ U this url, of topActs flags] wa
  show ?thesis unfolding Nil by (simp add: dfa_empty_rules all_actions_def selected_all_def)
next
  case (Cons d es)
  have "2 * (sum_list (map size_bound (d # es)) + 7 * card U) < 2147483647" using size by (simp add: fits_file_def Cons)
  from emit_correct [OF w [unfolded Cons] e [unfolded Cons] wa [unfolded Cons] U this url] show ?thesis by (simp add: Cons)
qed

text \<open>
  C1.  The whole compiler of the content blocker.  For automata whose start states have no actions,
  conversion, minimization and combination succeed; when the automata they give end with the
  terminator and their code fits a file, the compiler writes a file on which the interpreter, run on an
  ASCII URL, returns exactly the accepted actions that the nondeterministic automata report on a
  prefix of the URL or at its end, and the actions with flags of the rules that match everything;
  \<^verbatim>\<open>actionsMatchingEverything\<close> returns the latter's actions without flags.
\<close>

theorem compile_to_bytecode_correct:
  assumes a: "\<forall>a\<in>set as. convertible order actionOrder a \<and> states_actions a (nfa_start a) = {}" "card (rule_actions as) \<le> 65535"
    and U: "finite U" "card U < 65535" "\<forall>x\<in>rule_actions as \<union> U. wf_action x"
    and o: "enumerates order" "enumerates actionOrder" "lists_slots slotOrder" and url: "ascii_url url"
  shows "\<exists>ds. compiled_automata order actionOrder slotOrder memory as = Some ds \<and>
    (rules_end ds \<and> fits_file ds U \<longrightarrow> (\<exists>B. compileToBytecode order actionOrder slotOrder memory as U = Some B \<and>
      interpret_url B topActs url flags = Some (Returned ({x \<in> U. flagged x \<and> accepted topActs flags x} \<union>
        {x \<in> (\<Union>a\<in>set as. nfa_reported a (map uint url @ [0])). accepted topActs flags x})) \<and>
      actionsMatchingEverything B topActs = Some (Returned {x \<in> U. \<not> flagged x \<and> accepted topActs 0 x})))"
proof -
  have "\<forall>a\<in>set as. convertible order actionOrder a" using a(1) by blast
  from compiled_automata_spec [OF this a(2) o, of memory]
  obtain ds where ds: "compiled_automata order actionOrder slotOrder memory as = Some ds" "\<forall>d\<in>set ds. wf_dfa d"
    "all_actions ds \<subseteq> rule_actions as" "\<And>w. selected_all ds w = (\<Union>a\<in>set as. nfa_reported a w)" by blast
  have "selected_all ds [] = {}" using a(1) unfolding ds(4) by (simp add: nfa_reported_def)
  then have w: "\<forall>d\<in>set ds. wf_dfa d \<and> selected d [] = {}" using ds(2) by (simp add: selected_all_def)
  have wa: "\<forall>x\<in>all_actions ds \<union> U. wf_action x" using ds(3) U(3) by blast
  show ?thesis
  proof (intro exI [of _ ds] conjI impI, rule ds(1), elim conjE)
    assume e: "rules_end ds" "fits_file ds U"
    from file_correct [OF w e wa U(1,2) o(2) url, of topActs flags] show "\<exists>B. compileToBytecode order actionOrder slotOrder memory as U = Some B \<and>
      interpret_url B topActs url flags = Some (Returned ({x \<in> U. flagged x \<and> accepted topActs flags x} \<union>
        {x \<in> (\<Union>a\<in>set as. nfa_reported a (map uint url @ [0])). accepted topActs flags x})) \<and>
      actionsMatchingEverything B topActs = Some (Returned {x \<in> U. \<not> flagged x \<and> accepted topActs 0 x})"
      unfolding ds(4) using compileToBytecode_emit [OF ds(1)] by blast
  qed
qed


lemma sample_nfa_convertible: "convertible sorted_list_of_set sorted_list_of_set sample_nfa"
  by (simp add: convertible_def sample_nfa_wf sample_nfa_few_actions convert_nfa_def sample_nfa_convert)
    (simp add: sample_converted_def u32_max_def)

lemma sample_minimize: "minimize rev (\<lambda>_ _. 7) sample_converted = Some sample_converted"
  by code_simp

lemma sample_compiled_automata:
  "compiled_automata sorted_list_of_set sorted_list_of_set rev (\<lambda>_ _. 7) [sample_nfa] = Some [sample_converted]"
proof -
  have g: "graphSize sample_converted = 2" by (simp add: graphSize_def sample_converted_def isKilled_def)
  then show ?thesis
    by (simp add: compiled_automata_def convert_nfa_def sample_nfa_convert sample_minimize combineDFAs_def smallDFASize_def combine_loop.simps)
qed

lemma sample_reported: "nfa_reported sample_nfa w = selected sample_converted w"
  using NFAToDFA_convert_simulates [OF sample_nfa_wf sample_nfa_few_actions enumerates_sorted enumerates_sorted]
    simulates_selected sample_nfa_convert by fastforce

lemma sample_selected: "selected sample_converted [] = {}" "selected sample_converted [98, 97, 0] = {7}"
  by code_simp+

theorem compile_to_bytecode_correct_witness:
  "\<exists>B. compileToBytecode sorted_list_of_set sorted_list_of_set rev (\<lambda>_ _. 7) [sample_nfa] {9} = Some B \<and>
     interpret_url B None [98, 97] 0 = Some (Returned {7}) \<and> actionsMatchingEverything B None = Some (Returned {9})"
proof -
  have "states_actions sample_nfa (nfa_start sample_nfa) = nfa_reported sample_nfa []" by (simp add: nfa_reported_def)
  then have s: "states_actions sample_nfa (nfa_start sample_nfa) = {}" by (simp add: sample_reported sample_selected)
  have r: "rule_actions [sample_nfa] = {7}" by (simp add: rule_actions_def sample_nfa_def)
  have c: "rules_end [sample_converted]" using sample_converted_blocker by (simp add: rules_end_def blocker_dfa_def)
  have f: "fits_file [sample_converted] {9}" by (simp add: fits_file_def size_bound_def sample_converted_def dfa_empty_def new_node_def numeral_2_eq_2)
  have acc: "\<not> flagged 9" "accepted None 0 9" "accepted None 0 7"
    by (simp_all add: flagged_def ActionFlagMask_def accepted_def flags_match_def)
  have "lists_slots rev" by (simp add: lists_slots_def)
  then show ?thesis
    using compile_to_bytecode_correct [of "[sample_nfa]" sorted_list_of_set sorted_list_of_set "{9}" rev "[98, 97]" "\<lambda>_ _. 7" None 0]
      sample_nfa_convertible sample_compiled_automata s r c f acc sample_selected(2)
    by (auto simp: wf_action_def ascii_url_def sample_reported)
qed

end
