(* ===== verification/Int_Rect.thy ===== *)
theory Int_Rect
  imports Prelude
begin

text \<open>
  \<^verbatim>\<open>IntRect\<close>, \<^verbatim>\<open>IntSize\<close> and \<^verbatim>\<open>IntPoint\<close> of WebCore/platform/graphics.  Coordinates are \<^verbatim>\<open>int\<close>s; every sum and
  difference is reduced to 32 bits, and the lemmas ask for coordinates of absolute value below 2^30,
  where nothing wraps.
\<close>

subsection \<open>Operations\<close>

record int_rect =
  rectX :: int
  rectY :: int
  rectWidth :: int
  rectHeight :: int

definition int_rect_zero :: int_rect where
  "int_rect_zero = \<lparr>rectX = 0, rectY = 0, rectWidth = 0, rectHeight = 0\<rparr>"

definition maxX :: "int_rect \<Rightarrow> int" where
  "maxX r = i32 (rectX r + rectWidth r)"

definition maxY :: "int_rect \<Rightarrow> int" where
  "maxY r = i32 (rectY r + rectHeight r)"

definition IntRect_isEmpty :: "int_rect \<Rightarrow> bool" where
  "IntRect_isEmpty r \<longleftrightarrow> rectWidth r \<le> 0 \<or> rectHeight r \<le> 0"

definition IntRect_intersects :: "int_rect \<Rightarrow> int_rect \<Rightarrow> bool" where
  "IntRect_intersects r other \<longleftrightarrow> \<not> IntRect_isEmpty r \<and> \<not> IntRect_isEmpty other \<and>
     rectX r < maxX other \<and> rectX other < maxX r \<and> rectY r < maxY other \<and> rectY other < maxY r"

definition IntRect_contains :: "int_rect \<Rightarrow> int_rect \<Rightarrow> bool" where
  "IntRect_contains r other \<longleftrightarrow> rectX r \<le> rectX other \<and> maxX r \<ge> maxX other \<and>
     rectY r \<le> rectY other \<and> maxY r \<ge> maxY other"

definition IntRect_contains_point :: "int_rect \<Rightarrow> int \<Rightarrow> int \<Rightarrow> bool" where
  "IntRect_contains_point r px py \<longleftrightarrow> px \<ge> rectX r \<and> px < maxX r \<and> py \<ge> rectY r \<and> py < maxY r"

definition rect_from_edges :: "int \<Rightarrow> int \<Rightarrow> int \<Rightarrow> int \<Rightarrow> int_rect" where
  "rect_from_edges l t r b = \<lparr>rectX = l, rectY = t, rectWidth = i32 (r - l), rectHeight = i32 (b - t)\<rparr>"

definition IntRect_intersect :: "int_rect \<Rightarrow> int_rect \<Rightarrow> int_rect" where
  "IntRect_intersect rect other =
     (let l = max (rectX rect) (rectX other); t = max (rectY rect) (rectY other);
          r = min (maxX rect) (maxX other); b = min (maxY rect) (maxY other)
      in if l \<ge> r \<or> t \<ge> b then rect_from_edges 0 0 0 0 else rect_from_edges l t r b)"

definition unite_edges :: "int_rect \<Rightarrow> int_rect \<Rightarrow> int_rect" where
  "unite_edges rect other =
     rect_from_edges (min (rectX rect) (rectX other)) (min (rectY rect) (rectY other))
       (max (maxX rect) (maxX other)) (max (maxY rect) (maxY other))"

definition IntRect_unite :: "int_rect \<Rightarrow> int_rect \<Rightarrow> int_rect" where
  "IntRect_unite rect other =
     (if IntRect_isEmpty other then rect
      else if IntRect_isEmpty rect then other
      else unite_edges rect other)"

definition IntRect_uniteIfNonZero :: "int_rect \<Rightarrow> int_rect \<Rightarrow> int_rect" where
  "IntRect_uniteIfNonZero rect other =
     (if rectWidth other = 0 \<and> rectHeight other = 0 then rect
      else if rectWidth rect = 0 \<and> rectHeight rect = 0 then other
      else unite_edges rect other)"

definition IntRect_move :: "int \<Rightarrow> int \<Rightarrow> int_rect \<Rightarrow> int_rect" where
  "IntRect_move dx dy r = r\<lparr>rectX := i32 (rectX r + dx), rectY := i32 (rectY r + dy)\<rparr>"

definition inflateX :: "int \<Rightarrow> int_rect \<Rightarrow> int_rect" where
  "inflateX dx r = r\<lparr>rectX := i32 (rectX r - dx), rectWidth := i32 (i32 (rectWidth r + dx) + dx)\<rparr>"

definition inflateY :: "int \<Rightarrow> int_rect \<Rightarrow> int_rect" where
  "inflateY dy r = r\<lparr>rectY := i32 (rectY r - dy), rectHeight := i32 (i32 (rectHeight r + dy) + dy)\<rparr>"

definition inflate :: "int \<Rightarrow> int_rect \<Rightarrow> int_rect" where
  "inflate d r = inflateY d (inflateX d r)"

definition shiftXEdgeTo :: "int \<Rightarrow> int_rect \<Rightarrow> int_rect" where
  "shiftXEdgeTo edge r =
     (let delta = i32 (edge - rectX r) in r\<lparr>rectX := edge, rectWidth := max 0 (i32 (rectWidth r - delta))\<rparr>)"

definition shiftMaxXEdgeTo :: "int \<Rightarrow> int_rect \<Rightarrow> int_rect" where
  "shiftMaxXEdgeTo edge r =
     (let delta = i32 (edge - maxX r) in r\<lparr>rectWidth := max 0 (i32 (rectWidth r + delta))\<rparr>)"

definition shiftYEdgeTo :: "int \<Rightarrow> int_rect \<Rightarrow> int_rect" where
  "shiftYEdgeTo edge r =
     (let delta = i32 (edge - rectY r) in r\<lparr>rectY := edge, rectHeight := max 0 (i32 (rectHeight r - delta))\<rparr>)"

definition shiftMaxYEdgeTo :: "int \<Rightarrow> int_rect \<Rightarrow> int_rect" where
  "shiftMaxYEdgeTo edge r =
     (let delta = i32 (edge - maxY r) in r\<lparr>rectHeight := max 0 (i32 (rectHeight r + delta))\<rparr>)"

definition distanceToInterval :: "int \<Rightarrow> int \<Rightarrow> int \<Rightarrow> int" where
  "distanceToInterval pos start end =
     (if pos < start then i32 (start - pos) else if pos > end then i32 (end - pos) else 0)"

definition differenceToPoint :: "int_rect \<Rightarrow> int \<Rightarrow> int \<Rightarrow> int \<times> int" where
  "differenceToPoint r px py =
     (distanceToInterval px (rectX r) (maxX r), distanceToInterval py (rectY r) (maxY r))"

subsection \<open>The pixels of a rectangle\<close>

definition small :: "int \<Rightarrow> bool" where
  "small z \<longleftrightarrow> - 1073741824 < z \<and> z < 1073741824"

definition rect_points :: "int_rect \<Rightarrow> (int \<times> int) set" where
  "rect_points r = {(x, y). rectX r \<le> x \<and> x < rectX r + rectWidth r \<and>
                            rectY r \<le> y \<and> y < rectY r + rectHeight r}"

definition small_rect :: "int_rect \<Rightarrow> bool" where
  "small_rect r \<longleftrightarrow> small (rectX r) \<and> small (rectY r) \<and> small (rectX r + rectWidth r) \<and>
     small (rectY r + rectHeight r)"

lemma small_i32 [width_simps]:
  "small a \<Longrightarrow> small b \<Longrightarrow> i32 (a - b) = a - b" "small a \<Longrightarrow> small b \<Longrightarrow> i32 (a + b) = a + b" "small a \<Longrightarrow> i32 a = a"
  by (auto simp: small_def intro!: i32_id)

lemma small_zero [simp]: "small 0"
  by (simp add: small_def)

lemma small_minmax [intro]: "small a \<Longrightarrow> small b \<Longrightarrow> small (min a b)" "small a \<Longrightarrow> small b \<Longrightarrow> small (max a b)"
  by (auto simp: small_def)

lemma max_small [width_simps]:
  "small_rect r \<Longrightarrow> maxX r = rectX r + rectWidth r" "small_rect r \<Longrightarrow> maxY r = rectY r + rectHeight r"
  by (simp_all add: small_rect_def maxX_def maxY_def small_i32(3))

lemma small_rect_from_edges:
  "small l \<Longrightarrow> small t \<Longrightarrow> small r \<Longrightarrow> small b \<Longrightarrow> small_rect (rect_from_edges l t r b)"
  "small l \<Longrightarrow> small t \<Longrightarrow> small r \<Longrightarrow> small b \<Longrightarrow> rectWidth (rect_from_edges l t r b) = r - l"
  "small l \<Longrightarrow> small t \<Longrightarrow> small r \<Longrightarrow> small b \<Longrightarrow> rectHeight (rect_from_edges l t r b) = b - t"
  by (simp_all add: rect_from_edges_def small_rect_def small_i32)

lemma rect_from_edges_points:
  "small l \<Longrightarrow> small t \<Longrightarrow> small r \<Longrightarrow> small b \<Longrightarrow>
   rect_points (rect_from_edges l t r b) = {(x, y). l \<le> x \<and> x < r \<and> t \<le> y \<and> y < b}"
  by (simp add: rect_points_def rect_from_edges_def small_i32)

lemma isEmpty_points: "IntRect_isEmpty r \<longleftrightarrow> rect_points r = {}"
proof
  assume "rect_points r = {}"
  then have "(rectX r, rectY r) \<notin> rect_points r" by simp
  then show "IntRect_isEmpty r" by (auto simp: IntRect_isEmpty_def rect_points_def)
qed (auto simp: IntRect_isEmpty_def rect_points_def)

lemma contains_point_points: "small_rect r \<Longrightarrow> IntRect_contains_point r px py \<longleftrightarrow> (px, py) \<in> rect_points r"
  by (auto simp: IntRect_contains_point_def rect_points_def max_small)

lemma intersect_points:
  assumes "small_rect r" "small_rect s"
  shows "rect_points (IntRect_intersect r s) = rect_points r \<inter> rect_points s"
proof -
  have small: "small (max (rectX r) (rectX s))" "small (max (rectY r) (rectY s))"
    "small (min (rectX r + rectWidth r) (rectX s + rectWidth s))"
    "small (min (rectY r + rectHeight r) (rectY s + rectHeight s))"
    using assms by (auto simp: small_rect_def)
  show ?thesis unfolding IntRect_intersect_def Let_def max_small [OF assms(1)] max_small [OF assms(2)]
    by (auto simp: rect_from_edges_points small, auto simp: rect_points_def)
qed

lemma intersects_points:
  assumes "small_rect r" "small_rect s"
  shows "IntRect_intersects r s \<longleftrightarrow> rect_points r \<inter> rect_points s \<noteq> {}"
proof
  assume "IntRect_intersects r s"
  then have "(max (rectX r) (rectX s), max (rectY r) (rectY s)) \<in> rect_points r \<inter> rect_points s"
    by (auto simp: IntRect_intersects_def IntRect_isEmpty_def rect_points_def max_small assms)
  then show "rect_points r \<inter> rect_points s \<noteq> {}" by blast
next
  assume "rect_points r \<inter> rect_points s \<noteq> {}"
  then show "IntRect_intersects r s"
    by (auto simp: IntRect_intersects_def IntRect_isEmpty_def rect_points_def max_small assms)
qed

lemma contains_points:
  assumes "small_rect r" "small_rect s" "\<not> IntRect_isEmpty s"
  shows "IntRect_contains r s \<longleftrightarrow> rect_points s \<subseteq> rect_points r"
proof
  assume "rect_points s \<subseteq> rect_points r"
  moreover have "(rectX s, rectY s) \<in> rect_points s"
    "(rectX s + rectWidth s - 1, rectY s + rectHeight s - 1) \<in> rect_points s"
    using assms(3) by (auto simp: rect_points_def IntRect_isEmpty_def)
  ultimately have "(rectX s, rectY s) \<in> rect_points r"
    "(rectX s + rectWidth s - 1, rectY s + rectHeight s - 1) \<in> rect_points r" by blast+
  then show "IntRect_contains r s" by (auto simp: IntRect_contains_def rect_points_def max_small assms)
qed (auto simp: IntRect_contains_def rect_points_def max_small assms)

text \<open>The union of two rectangles is the smallest rectangle around both.\<close>

lemma unite_points:
  assumes "small_rect r" "small_rect s"
  shows "rect_points r \<union> rect_points s \<subseteq> rect_points (IntRect_unite r s)" "small_rect (IntRect_unite r s)"
    "\<And>t. small_rect t \<Longrightarrow> rect_points r \<union> rect_points s \<subseteq> rect_points t \<Longrightarrow> rect_points (IntRect_unite r s) \<subseteq> rect_points t"
proof -
  let ?l = "min (rectX r) (rectX s)" and ?t = "min (rectY r) (rectY s)"
  let ?r = "max (rectX r + rectWidth r) (rectX s + rectWidth s)"
  let ?b = "max (rectY r + rectHeight r) (rectY s + rectHeight s)"
  have small: "small ?l" "small ?t" "small ?r" "small ?b" using assms by (auto simp: small_rect_def)
  have edges: "rect_points (unite_edges r s) = {(x, y). ?l \<le> x \<and> x < ?r \<and> ?t \<le> y \<and> y < ?b}"
    "small_rect (unite_edges r s)"
    unfolding unite_edges_def max_small [OF assms(1)] max_small [OF assms(2)]
    using rect_from_edges_points [OF small] small_rect_from_edges(1) [OF small] by auto
  show "rect_points r \<union> rect_points s \<subseteq> rect_points (IntRect_unite r s)"
    using isEmpty_points [of r] isEmpty_points [of s]
    by (auto simp: IntRect_unite_def edges, auto simp: rect_points_def)
  show "small_rect (IntRect_unite r s)" using assms edges by (simp add: IntRect_unite_def)
  show "rect_points (IntRect_unite r s) \<subseteq> rect_points t"
    if "small_rect t" "rect_points r \<union> rect_points s \<subseteq> rect_points t" for t
  proof (cases "IntRect_isEmpty r \<or> IntRect_isEmpty s")
    case True
    then show ?thesis using that(2) isEmpty_points [of r] by (auto simp: IntRect_unite_def)
  next
    case False
    then have "IntRect_contains t r" "IntRect_contains t s" using that contains_points assms by auto
    then have "rectX t \<le> ?l" "?r \<le> rectX t + rectWidth t" "rectY t \<le> ?t" "?b \<le> rectY t + rectHeight t"
      by (auto simp: IntRect_contains_def max_small assms that(1))
    moreover have "IntRect_unite r s = unite_edges r s" using False by (simp add: IntRect_unite_def)
    ultimately show ?thesis unfolding rect_points_def [of t] by (auto simp: edges)
  qed
qed

end
