(* ===== verification/Region_Shape.thy ===== *)
theory Region_Shape
  imports Int_Rect
begin

text \<open>
  \<^verbatim>\<open>Region::Shape\<close>: rows of pixels (spans) with sorted edges (segments), all segments in one vector
  that the spans index.  The operation templates take a record of the constants of their operation
  structure.
\<close>

unbundle bit_operations_syntax

subsection \<open>Spans and segments\<close>

record span =
  spanY :: int
  segmentIndex :: nat

record shape =
  m_segments :: "int list"
  m_spans :: "span list"

definition shape_empty :: shape where
  "shape_empty = \<lparr>m_segments = [], m_spans = []\<rparr>"

definition Shape_isEmpty :: "shape \<Rightarrow> bool" where
  "Shape_isEmpty s \<longleftrightarrow> m_spans s = []"

definition Shape_isRect :: "shape \<Rightarrow> bool" where
  "Shape_isRect s \<longleftrightarrow> length (m_spans s) \<le> 2 \<and> length (m_segments s) \<le> 2"

definition gridSize :: "shape \<Rightarrow> nat" where
  "gridSize s = u32 (length (m_spans s) * length (m_segments s))"

text \<open>The segments from \<^verbatim>\<open>segments_begin\<close> to \<^verbatim>\<open>segments_end\<close> of a span; both are null for a span without segments.\<close>

definition span_segments :: "shape \<Rightarrow> nat \<Rightarrow> int list" where
  "span_segments s i =
     (let k = segmentIndex (m_spans s ! i) in
      if k = length (m_segments s) then []
      else vec_slice k (segmentIndex (m_spans s ! (i + 1))) (m_segments s))"

definition appendSpanY :: "int \<Rightarrow> shape \<Rightarrow> shape" where
  "appendSpanY y s = s\<lparr>m_spans := m_spans s @ [\<lparr>spanY = y, segmentIndex = length (m_segments s)\<rparr>]\<rparr>"

definition appendSegment :: "int \<Rightarrow> shape \<Rightarrow> shape" where
  "appendSegment x s = s\<lparr>m_segments := m_segments s @ [x]\<rparr>"

definition shape_of_rect :: "int_rect \<Rightarrow> shape" where
  "shape_of_rect r =
     appendSpanY (maxY r) (appendSegment (maxX r) (appendSegment (rectX r) (appendSpanY (rectY r) shape_empty)))"

definition canCoalesce :: "int list \<Rightarrow> shape \<Rightarrow> bool" where
  "canCoalesce segs s =
     (if m_spans s = [] then False
      else
        (let lastSpan = drop (segmentIndex (last (m_spans s))) (m_segments s)
         in if length lastSpan \<noteq> length segs then False else segs = lastSpan))"

definition appendSpan :: "int \<Rightarrow> int list \<Rightarrow> shape \<Rightarrow> shape" where
  "appendSpan y segs s =
     (if canCoalesce segs s then s
      else (let s' = appendSpanY y s in s'\<lparr>m_segments := m_segments s' @ segs\<rparr>))"

definition appendSpans :: "shape \<Rightarrow> nat \<Rightarrow> shape \<Rightarrow> shape" where
  "appendSpans shp first s =
     fold (\<lambda>i s. appendSpan (spanY (m_spans shp ! i)) (span_segments shp i) s) [first ..< length (m_spans shp)] s"

fun segments_valid :: "int list \<Rightarrow> bool" where
  "segments_valid (x # x' # segs) = (if i32 (x' - x) < 0 then False else segments_valid segs)"
| "segments_valid _ = True"

definition Shape_isValid :: "shape \<Rightarrow> bool" where
  "Shape_isValid s \<longleftrightarrow>
     list_all (\<lambda>i. \<not> i32 (spanY (m_spans s ! (i + 1)) - spanY (m_spans s ! i)) < 0 \<and>
                   segments_valid (span_segments s i)) [0 ..< length (m_spans s) - 1]"

text \<open>
  A span without segments in the middle of the vector still has non-null iterators: the reads hit
  the first segment of the next span with segments and the last segment of the one before.
\<close>

fun bounds_scan :: "shape \<Rightarrow> nat list \<Rightarrow> int \<Rightarrow> int \<Rightarrow> int \<times> int" where
  "bounds_scan s [] minX mx = (minX, mx)"
| "bounds_scan s (i # is) minX mx =
     (let k = segmentIndex (m_spans s ! i); e = segmentIndex (m_spans s ! (i + 1)) in
      if k = length (m_segments s) then bounds_scan s is minX mx
      else
        (let firstSegment = m_segments s ! k; lastSegment = m_segments s ! (e - 1) in
         bounds_scan s is (if firstSegment < minX then firstSegment else minX)
           (if lastSegment > mx then lastSegment else mx)))"

definition Shape_bounds :: "shape \<Rightarrow> int_rect" where
  "Shape_bounds s =
     (if Shape_isEmpty s then int_rect_zero
      else
        (let minY = spanY (hd (m_spans s)); mY = spanY (last (m_spans s)) in
         case bounds_scan s [0 ..< length (m_spans s) - 1] 2147483647 (- 2147483648) of
           (minX, mX) \<Rightarrow> \<lparr>rectX = minX, rectY = minY, rectWidth = i32 (mX - minX), rectHeight = i32 (mY - minY)\<rparr>))"

definition Shape_translate :: "int \<Rightarrow> int \<Rightarrow> shape \<Rightarrow> shape" where
  "Shape_translate dx dy s =
     \<lparr>m_segments = map (\<lambda>x. i32 (x + dx)) (m_segments s),
      m_spans = map (\<lambda>sp. sp\<lparr>spanY := i32 (spanY sp + dy)\<rparr>) (m_spans s)\<rparr>"

subsection \<open>Combining shapes\<close>

record shape_operation =
  trySimpleOperation :: "shape \<Rightarrow> shape \<Rightarrow> shape option"
  opCode :: nat
  shouldAddRemainingSegmentsFromSpan1 :: bool
  shouldAddRemainingSegmentsFromSpan2 :: bool
  shouldAddRemainingSpansFromShape1 :: bool
  shouldAddRemainingSpansFromShape2 :: bool

definition UnionOperation :: shape_operation where
  "UnionOperation = \<lparr>trySimpleOperation = \<lambda>shape1 shape2. if Shape_isEmpty shape1 then Some shape2 else None,
     opCode = 0, shouldAddRemainingSegmentsFromSpan1 = True, shouldAddRemainingSegmentsFromSpan2 = True,
     shouldAddRemainingSpansFromShape1 = True, shouldAddRemainingSpansFromShape2 = True\<rparr>"

definition IntersectOperation :: shape_operation where
  "IntersectOperation = \<lparr>trySimpleOperation = \<lambda>shape1 shape2. None,
     opCode = 3, shouldAddRemainingSegmentsFromSpan1 = False, shouldAddRemainingSegmentsFromSpan2 = False,
     shouldAddRemainingSpansFromShape1 = False, shouldAddRemainingSpansFromShape2 = False\<rparr>"

definition SubtractOperation :: shape_operation where
  "SubtractOperation = \<lparr>trySimpleOperation = \<lambda>shape1 shape2. None,
     opCode = 1, shouldAddRemainingSegmentsFromSpan1 = True, shouldAddRemainingSegmentsFromSpan2 = False,
     shouldAddRemainingSpansFromShape1 = True, shouldAddRemainingSpansFromShape2 = False\<rparr>"

function merge_segments :: "shape_operation \<Rightarrow> nat \<Rightarrow> nat \<Rightarrow> int list \<Rightarrow> int list \<Rightarrow> int list" where
  "merge_segments op flag oldFlag s1 s2 =
     (if s1 \<noteq> [] \<and> s2 \<noteq> [] then
        (let test = i32 (hd s1 - hd s2);
             x = (if test \<ge> 0 then hd s2 else hd s1);
             flag = (if test \<le> 0 then flag XOR 1 else flag);
             flag = (if test \<ge> 0 then flag XOR 2 else flag);
             s1' = (if test \<le> 0 then tl s1 else s1);
             s2' = (if test \<ge> 0 then tl s2 else s2)
         in (if flag = opCode op \<or> oldFlag = opCode op then [x] else []) @ merge_segments op flag flag s1' s2')
      else if shouldAddRemainingSegmentsFromSpan1 op \<and> s1 \<noteq> [] then s1
      else if shouldAddRemainingSegmentsFromSpan2 op \<and> s2 \<noteq> [] then s2
      else [])"
  by pat_completeness (elim Pair_inject, hypsubst, rule refl)
termination
proof (relation "measure (\<lambda>(op, flag, oldFlag, s1, s2). length s1 + length s2)", goal_cases)
  case (2 op flag oldFlag s1 s2 test x f1 f2 s1' s2')
  obtain a as b bs where "s1 = a # as" "s2 = b # bs" using 2(1) by (cases s1; cases s2) auto
  then show ?case unfolding 2(6) 2(7) by (cases "test \<le> 0"; cases "0 \<le> test") simp_all
qed simp

declare merge_segments.simps [simp del]

function shape_loop ::
  "shape_operation \<Rightarrow> shape \<Rightarrow> shape \<Rightarrow> nat \<Rightarrow> nat \<Rightarrow> int list \<Rightarrow> int list \<Rightarrow> shape \<Rightarrow> shape" where
  "shape_loop op shape1 shape2 spans1 spans2 segments1 segments2 result =
     (if spans1 < length (m_spans shape1) \<and> spans2 < length (m_spans shape2) then
        (let y1 = spanY (m_spans shape1 ! spans1); y2 = spanY (m_spans shape2 ! spans2);
             test = i32 (y1 - y2);
             y = (if test \<ge> 0 then y2 else y1);
             segments1' = (if test \<le> 0 then span_segments shape1 spans1 else segments1);
             segments2' = (if test \<ge> 0 then span_segments shape2 spans2 else segments2);
             segments = merge_segments op 0 0 segments1' segments2';
             result' = (if segments \<noteq> [] \<or> \<not> Shape_isEmpty result then appendSpan y segments result else result)
         in shape_loop op shape1 shape2 (if test \<le> 0 then spans1 + 1 else spans1)
              (if test \<ge> 0 then spans2 + 1 else spans2) segments1' segments2' result')
      else if shouldAddRemainingSpansFromShape1 op \<and> spans1 < length (m_spans shape1)
        then appendSpans shape1 spans1 result
      else if shouldAddRemainingSpansFromShape2 op \<and> spans2 < length (m_spans shape2)
        then appendSpans shape2 spans2 result
      else result)"
  by pat_completeness (elim Pair_inject, hypsubst, rule refl)
termination
proof (relation "measure (\<lambda>(op, a, b, i, j, s1, s2, r). (length (m_spans a) - i) + (length (m_spans b) - j))", goal_cases)
  case (2 op a b i j s1 s2 r x xa xb)
  from 2(1) show ?case by (cases "xb \<le> 0"; cases "0 \<le> xb") auto
qed simp

declare shape_loop.simps [simp del]

definition shapeOperation :: "shape_operation \<Rightarrow> shape \<Rightarrow> shape \<Rightarrow> shape" where
  "shapeOperation op shape1 shape2 =
     (case trySimpleOperation op shape1 shape2 of
        Some result \<Rightarrow> result
      | None \<Rightarrow> shape_loop op shape1 shape2 0 0 [] [] shape_empty)"

definition unionShapes :: "shape \<Rightarrow> shape \<Rightarrow> shape" where
  "unionShapes = shapeOperation UnionOperation"

definition intersectShapes :: "shape \<Rightarrow> shape \<Rightarrow> shape" where
  "intersectShapes = shapeOperation IntersectOperation"

definition subtractShapes :: "shape \<Rightarrow> shape \<Rightarrow> shape" where
  "subtractShapes = shapeOperation SubtractOperation"

end
