(* ===== verification/Region.thy ===== *)
theory Region
  imports Region_Shape
begin

text \<open>
  \<^verbatim>\<open>Region\<close>: a shape with its bounding rectangle, the comparison of shapes, and the operations of the
  class.
\<close>

subsection \<open>Comparing shapes\<close>

text \<open>
  A test of the compare operation returns \<open>None\<close> when it answers false, and the new value of
  \<^verbatim>\<open>result\<close> when it answers true, which ends the comparison.
\<close>

record compare_operation =
  defaultResult :: bool
  aOutsideB :: "bool \<Rightarrow> bool option"
  bOutsideA :: "bool \<Rightarrow> bool option"
  aOverlapsB :: "bool \<Rightarrow> bool option"

definition CompareContainsOperation :: compare_operation where
  "CompareContainsOperation = \<lparr>defaultResult = True, aOutsideB = \<lambda>result. None,
     bOutsideA = \<lambda>result. Some False, aOverlapsB = \<lambda>result. None\<rparr>"

definition CompareIntersectsOperation :: compare_operation where
  "CompareIntersectsOperation = \<lparr>defaultResult = False, aOutsideB = \<lambda>result. None,
     bOutsideA = \<lambda>result. None, aOverlapsB = \<lambda>result. Some True\<rparr>"

definition check_then :: "bool \<Rightarrow> bool option \<Rightarrow> bool option \<Rightarrow> bool option" where
  "check_then cond test rest = (case (if cond then test else None) of Some r \<Rightarrow> Some r | None \<Rightarrow> rest)"

fun compare_segments :: "compare_operation \<Rightarrow> bool \<Rightarrow> int list \<Rightarrow> int list \<Rightarrow> bool option" where
  "compare_segments cop result (aX # aMaxX # as) (bX # bMaxX # bs) =
     check_then (bMaxX > aX \<and> bX < aMaxX) (aOverlapsB cop result)
     (check_then (aX < bX) (aOutsideB cop result)
     (check_then (bX < aX) (bOutsideA cop result)
     (if aMaxX < bMaxX then compare_segments cop result as (bX # bMaxX # bs)
      else if bMaxX < aMaxX then compare_segments cop result (aX # aMaxX # as) bs
      else compare_segments cop result as bs)))"
| "compare_segments cop result as bs =
     check_then (as \<noteq> []) (aOutsideB cop result) (check_then (bs \<noteq> []) (bOutsideA cop result) None)"

function compare_spans ::
  "compare_operation \<Rightarrow> shape \<Rightarrow> shape \<Rightarrow> bool \<Rightarrow> nat \<Rightarrow> nat \<Rightarrow> bool \<Rightarrow> bool \<Rightarrow> bool" where
  "compare_spans cop aShape bShape result i j aHad bHad =
     (if i + 1 < length (m_spans aShape) \<and> j + 1 < length (m_spans bShape) then
        (let aY = spanY (m_spans aShape ! i); aMaxY = spanY (m_spans aShape ! (i + 1));
             bY = spanY (m_spans bShape ! j); bMaxY = spanY (m_spans bShape ! (j + 1));
             aSegs = span_segments aShape i; bSegs = span_segments bShape j
         in case
              check_then (aY < bY \<and> \<not> bHad \<and> aSegs \<noteq> []) (aOutsideB cop result)
              (check_then (bY < aY \<and> \<not> aHad \<and> bSegs \<noteq> []) (bOutsideA cop result)
              (if bMaxY > aY \<and> bY < aMaxY then compare_segments cop result aSegs bSegs else None))
            of
              Some r \<Rightarrow> r
            | None \<Rightarrow>
                compare_spans cop aShape bShape result
                  (if bMaxY < aMaxY then i else i + 1) (if aMaxY < bMaxY then j else j + 1)
                  (aSegs \<noteq> []) (bSegs \<noteq> []))
      else
        (case
           check_then (i + 1 < length (m_spans aShape)) (aOutsideB cop result)
           (check_then (j + 1 < length (m_spans bShape)) (bOutsideA cop result) None)
         of Some r \<Rightarrow> r | None \<Rightarrow> result))"
  by pat_completeness (elim Pair_inject, hypsubst, rule refl)
termination
proof (relation "measure (\<lambda>(cop, a, b, r, i, j, ah, bh). (length (m_spans a) - i) + (length (m_spans b) - j))", goal_cases)
  case (2 cop a b r i j ah bh aY aMaxY bY bMaxY)
  from 2(1) show ?case by (cases "bMaxY < aMaxY"; cases "aMaxY < bMaxY") auto
qed simp

declare compare_spans.simps [simp del]

definition compareShapes :: "compare_operation \<Rightarrow> shape \<Rightarrow> shape \<Rightarrow> bool" where
  "compareShapes cop aShape bShape = compare_spans cop aShape bShape (defaultResult cop) 0 0 False False"

subsection \<open>Regions\<close>

record region =
  m_bounds :: int_rect
  m_shape :: shape

definition region_empty :: region where
  "region_empty = \<lparr>m_bounds = int_rect_zero, m_shape = shape_empty\<rparr>"

definition region_of_rect :: "int_rect \<Rightarrow> region" where
  "region_of_rect r = \<lparr>m_bounds = r, m_shape = shape_of_rect r\<rparr>"

definition Region_isEmpty :: "region \<Rightarrow> bool" where
  "Region_isEmpty r = IntRect_isEmpty (m_bounds r)"

definition Region_isRect :: "region \<Rightarrow> bool" where
  "Region_isRect r = Shape_isRect (m_shape r)"

fun segment_rects :: "int \<Rightarrow> int \<Rightarrow> int list \<Rightarrow> int_rect list" where
  "segment_rects y height (x # x' # segs) =
     \<lparr>rectX = x, rectY = y, rectWidth = i32 (x' - x), rectHeight = height\<rparr> # segment_rects y height segs"
| "segment_rects y height _ = []"

definition Region_rects :: "region \<Rightarrow> int_rect list" where
  "Region_rects r =
     (let s = m_shape r in
      concat (map (\<lambda>i. segment_rects (spanY (m_spans s ! i))
          (i32 (spanY (m_spans s ! (i + 1)) - spanY (m_spans s ! i))) (span_segments s i))
        [0 ..< length (m_spans s) - 1]))"

definition Region_contains :: "region \<Rightarrow> region \<Rightarrow> bool" where
  "Region_contains r other =
     (if \<not> IntRect_contains (m_bounds r) (m_bounds other) then False
      else compareShapes CompareContainsOperation (m_shape r) (m_shape other))"

fun point_in_segments :: "int \<Rightarrow> int list \<Rightarrow> bool" where
  "point_in_segments px (x # x' # segs) =
     (if x > px then False else if x' > px then True else point_in_segments px segs)"
| "point_in_segments px _ = False"

fun point_in_spans :: "shape \<Rightarrow> int \<Rightarrow> int \<Rightarrow> nat list \<Rightarrow> bool" where
  "point_in_spans s px py [] = False"
| "point_in_spans s px py (i # is) =
     (let y = spanY (m_spans s ! i); y' = spanY (m_spans s ! (i + 1)) in
      if y > py then False
      else if y' \<le> py then point_in_spans s px py is
      else if point_in_segments px (span_segments s i) then True
      else point_in_spans s px py is)"

definition Region_contains_point :: "region \<Rightarrow> int \<Rightarrow> int \<Rightarrow> bool" where
  "Region_contains_point r px py =
     (if \<not> IntRect_contains_point (m_bounds r) px py then False
      else point_in_spans (m_shape r) px py [0 ..< length (m_spans (m_shape r)) - 1])"

definition Region_intersects :: "region \<Rightarrow> region \<Rightarrow> bool" where
  "Region_intersects r other =
     (if \<not> IntRect_intersects (m_bounds r) (m_bounds other) then False
      else compareShapes CompareIntersectsOperation (m_shape r) (m_shape other))"

text \<open>The products are \<^verbatim>\<open>int\<close>s, their sum is \<^verbatim>\<open>unsigned\<close>.\<close>

definition totalArea :: "region \<Rightarrow> 32 word" where
  "totalArea r = fold (\<lambda>rect area. area + word_of_int (rectWidth rect * rectHeight rect)) (Region_rects r) 0"

definition updateBoundsFromShape :: "region \<Rightarrow> region" where
  "updateBoundsFromShape r = r\<lparr>m_bounds := Shape_bounds (m_shape r)\<rparr>"

definition Region_intersect :: "region \<Rightarrow> region \<Rightarrow> region" where
  "Region_intersect r other =
     (if IntRect_isEmpty (m_bounds r) then r
      else if \<not> IntRect_intersects (m_bounds r) (m_bounds other) then
        \<lparr>m_bounds = int_rect_zero, m_shape = shape_empty\<rparr>
      else
        (let s = intersectShapes (m_shape r) (m_shape other) in \<lparr>m_bounds = Shape_bounds s, m_shape = s\<rparr>))"

definition Region_unite :: "region \<Rightarrow> region \<Rightarrow> region" where
  "Region_unite r other =
     (if Region_isEmpty other then r
      else if Region_isRect r \<and> IntRect_contains (m_bounds r) (m_bounds other) then r
      else if Region_isRect other \<and> IntRect_contains (m_bounds other) (m_bounds r) then
        \<lparr>m_bounds = m_bounds other, m_shape = m_shape other\<rparr>
      else if \<not> Region_isRect r \<and> Region_contains r other then r
      else \<lparr>m_bounds = IntRect_unite (m_bounds r) (m_bounds other),
            m_shape = unionShapes (m_shape r) (m_shape other)\<rparr>)"

definition Region_subtract :: "region \<Rightarrow> region \<Rightarrow> region" where
  "Region_subtract r other =
     (if IntRect_isEmpty (m_bounds r) then r
      else if Region_isEmpty other then r
      else if \<not> IntRect_intersects (m_bounds r) (m_bounds other) then r
      else
        (let s = subtractShapes (m_shape r) (m_shape other) in \<lparr>m_bounds = Shape_bounds s, m_shape = s\<rparr>))"

definition Region_translate :: "int \<Rightarrow> int \<Rightarrow> region \<Rightarrow> region" where
  "Region_translate dx dy r =
     \<lparr>m_bounds = IntRect_move dx dy (m_bounds r), m_shape = Shape_translate dx dy (m_shape r)\<rparr>"

end
