(* ===== verification/Region_Rows.thy ===== *)
theory Region_Rows
  imports Region
begin

text \<open>
  Shapes as lists of rows: a row is the first line it stands for with its segments.  Every shape the
  operations build is the flattening of such a list, and the operations on shapes are operations
  on rows.
\<close>

type_synonym row = "int \<times> int list"

definition row_offset :: "row list \<Rightarrow> nat \<Rightarrow> nat" where
  "row_offset rows i = length (concat (map snd (take i rows)))"

definition shape_of :: "row list \<Rightarrow> shape" where
  "shape_of rows =
     \<lparr>m_segments = concat (map snd rows),
      m_spans = map (\<lambda>i. \<lparr>spanY = fst (rows ! i), segmentIndex = row_offset rows i\<rparr>) [0 ..< length rows]\<rparr>"

definition row_last :: "row list \<Rightarrow> int list" where
  "row_last rows = (if rows = [] then [] else snd (last rows))"

lemma shape_of_simps [simp]:
  "length (m_spans (shape_of rows)) = length rows" "m_segments (shape_of rows) = concat (map snd rows)"
  "i < length rows \<Longrightarrow> spanY (m_spans (shape_of rows) ! i) = fst (rows ! i)"
  "i < length rows \<Longrightarrow> segmentIndex (m_spans (shape_of rows) ! i) = row_offset rows i"
  "m_spans (shape_of rows) = [] \<longleftrightarrow> rows = []"
  by (simp_all add: shape_of_def)

lemma row_offset_Suc: "i < length rows \<Longrightarrow> row_offset rows (Suc i) = row_offset rows i + length (snd (rows ! i))"
  by (simp add: row_offset_def take_Suc_conv_app_nth)

lemma row_offset_append [simp]: "i \<le> length rows \<Longrightarrow> row_offset (rows @ rs) i = row_offset rows i"
  by (simp add: row_offset_def)

lemma row_offset_length [simp]: "row_offset rows (length rows) = length (concat (map snd rows))"
  by (simp add: row_offset_def)

lemma row_offset_mono: "i \<le> j \<Longrightarrow> row_offset rows i \<le> row_offset rows j"
  unfolding row_offset_def by (metis concat_append le_add1 length_append map_append take_add le_iff_add)

lemma row_slice:
  assumes "i < length rows"
  shows "vec_slice (row_offset rows i) (row_offset rows (Suc i)) (concat (map snd rows)) = snd (rows ! i)"
proof -
  have "concat (map snd rows) = concat (map snd (take i rows)) @ snd (rows ! i) @ concat (map snd (drop (Suc i) rows))"
    using assms by (metis append_assoc concat.simps(2) concat_append id_take_nth_drop list.simps(9) map_append)
  then show ?thesis
    using assms by (simp add: row_offset_Suc) (simp add: row_offset_def vec_slice_def, rule nth_equalityI, auto simp: nth_append)
qed

lemma span_segments_shape_of:
  assumes "i < length rows" "row_last rows = []"
  shows "span_segments (shape_of rows) i = snd (rows ! i)"
proof (cases "row_offset rows i = length (concat (map snd rows))")
  case True
  have "row_offset rows i + length (snd (rows ! i)) \<le> length (concat (map snd rows))"
    using row_offset_Suc [OF assms(1)] row_offset_mono [of "Suc i" "length rows" rows] assms(1) by simp
  then show ?thesis using assms(1) True by (simp add: span_segments_def Let_def)
next
  case False
  have "Suc i < length rows"
  proof (rule ccontr)
    assume "\<not> Suc i < length rows"
    then have "Suc i = length rows" using assms(1) by simp
    then have "rows \<noteq> []" "i = length rows - 1" by auto
    then have "snd (rows ! i) = []" using assms(2) by (simp add: row_last_def last_conv_nth)
    then show False using False row_offset_Suc [OF assms(1)] \<open>Suc i = length rows\<close> by simp
  qed
  then show ?thesis using assms(1) False row_slice [OF assms(1)] by (simp add: span_segments_def Let_def)
qed

lemma shape_of_append:
  "shape_of (rows @ [(y, segs)]) =
     (let s = appendSpanY y (shape_of rows) in s\<lparr>m_segments := m_segments s @ segs\<rparr>)"
  by (auto simp: shape_of_def appendSpanY_def nth_append row_offset_def)

lemma shape_of_Nil: "shape_of [] = shape_empty"
  by (simp add: shape_of_def shape_empty_def)

definition append_row :: "int \<Rightarrow> int list \<Rightarrow> row list \<Rightarrow> row list" where
  "append_row y segs rows = (if rows \<noteq> [] \<and> row_last rows = segs then rows else rows @ [(y, segs)])"

lemma last_row_drop: "rows \<noteq> [] \<Longrightarrow> drop (segmentIndex (last (m_spans (shape_of rows)))) (concat (map snd rows)) = row_last rows"
proof (induction rows rule: rev_induct)
  case (snoc r rs)
  have "last (m_spans (shape_of (rs @ [r]))) = \<lparr>spanY = fst r, segmentIndex = row_offset rs (length rs)\<rparr>"
    by (simp add: shape_of_def)
  then show ?case by (simp add: row_last_def)
qed simp

lemma appendSpan_shape_of: "appendSpan y segs (shape_of rows) = shape_of (append_row y segs rows)"
proof -
  have "canCoalesce segs (shape_of rows) \<longleftrightarrow> rows \<noteq> [] \<and> row_last rows = segs"
    using last_row_drop [of rows] by (auto simp: canCoalesce_def Let_def)
  then show ?thesis by (simp add: appendSpan_def append_row_def flip: shape_of_append)
qed

lemma appendSpans_shape_of:
  assumes "row_last rows = []"
  shows "appendSpans (shape_of rows) k (shape_of res) =
    shape_of (fold (\<lambda>(y, segs). append_row y segs) (drop k rows) res)"
proof -
  have "fold (\<lambda>i s. appendSpan (spanY (m_spans (shape_of rows) ! i)) (span_segments (shape_of rows) i) s) [k ..< length rows] (shape_of res) =
      shape_of (fold (\<lambda>(y, segs). append_row y segs) (drop k rows) res)" for k
  proof (induction "length rows - k" arbitrary: k res)
    case (Suc n)
    then have k: "k < length rows" by simp
    then have "[k ..< length rows] = k # [Suc k ..< length rows]" "drop k rows = rows ! k # drop (Suc k) rows"
      by (simp_all add: upt_conv_Cons Cons_nth_drop_Suc)
    then show ?case using Suc.hyps(1) [of "Suc k" "append_row (fst (rows ! k)) (snd (rows ! k)) res"] Suc.hyps(2) k
      by (simp add: span_segments_shape_of [OF k assms] appendSpan_shape_of case_prod_beta)
  qed simp
  then show ?thesis by (simp add: appendSpans_def)
qed

subsection \<open>The combination loop on rows\<close>

function row_loop :: "shape_operation \<Rightarrow> row list \<Rightarrow> row list \<Rightarrow> int list \<Rightarrow> int list \<Rightarrow> row list \<Rightarrow> row list" where
  "row_loop op ((y1, a) # rs1) ((y2, b) # rs2) s1 s2 res =
     (let test = i32 (y1 - y2);
          s1' = (if test \<le> 0 then a else s1); s2' = (if test \<ge> 0 then b else s2);
          segs = merge_segments op 0 0 s1' s2'
      in row_loop op (if test \<le> 0 then rs1 else (y1, a) # rs1) (if test \<ge> 0 then rs2 else (y2, b) # rs2) s1' s2'
           (if segs \<noteq> [] \<or> res \<noteq> [] then append_row (if test \<ge> 0 then y2 else y1) segs res else res))"
| "row_loop op [] rs2 s1 s2 res =
     (if shouldAddRemainingSpansFromShape2 op then fold (\<lambda>(y, segs). append_row y segs) rs2 res else res)"
| "row_loop op rs1 [] s1 s2 res =
     (if shouldAddRemainingSpansFromShape1 op then fold (\<lambda>(y, segs). append_row y segs) rs1 res else res)"
  by pat_completeness (auto simp only: list.distinct list.inject prod.inject, simp_all)
termination
proof (relation "measure (\<lambda>(op, rs1, rs2, s1, s2, res). length rs1 + length rs2)", goal_cases)
  case (2 op y1 a rs1 y2 b rs2 s1 s2 res test)
  show ?case by (cases "test \<le> 0"; cases "0 \<le> test") auto
qed simp

declare row_loop.simps(1) [simp del]

lemma shape_loop_rows:
  assumes r: "row_last rows1 = []" "row_last rows2 = []"
  shows "i \<le> length rows1 \<Longrightarrow> j \<le> length rows2 \<Longrightarrow>
    shape_loop op (shape_of rows1) (shape_of rows2) i j s1 s2 (shape_of res) =
      shape_of (row_loop op (drop i rows1) (drop j rows2) s1 s2 res)"
proof (induction "(length rows1 - i) + (length rows2 - j)" arbitrary: i j s1 s2 res rule: less_induct)
  case less
  show ?case
  proof (cases "i < length rows1 \<and> j < length rows2")
    case True
    then have i: "i < length rows1" and j: "j < length rows2" by auto
    obtain y1 a y2 b where ri: "rows1 ! i = (y1, a)" "rows2 ! j = (y2, b)" by fastforce
    have d: "drop i rows1 = (y1, a) # drop (Suc i) rows1" "drop j rows2 = (y2, b) # drop (Suc j) rows2"
      using i j ri by (simp_all add: Cons_nth_drop_Suc [symmetric])
    define test where "test = i32 (y1 - y2)"
    let ?s1 = "if test \<le> 0 then a else s1" and ?s2 = "if 0 \<le> test then b else s2"
    let ?segs = "merge_segments op 0 0 ?s1 ?s2"
    let ?res = "if ?segs \<noteq> [] \<or> res \<noteq> [] then append_row (if 0 \<le> test then y2 else y1) ?segs res else res"
    let ?i = "if test \<le> 0 then i + 1 else i" and ?j = "if 0 \<le> test then j + 1 else j"
    have sh: "shape_loop op (shape_of rows1) (shape_of rows2) i j s1 s2 (shape_of res) =
        shape_loop op (shape_of rows1) (shape_of rows2) ?i ?j ?s1 ?s2 (shape_of ?res)"
      using i j ri unfolding test_def
      by (subst shape_loop.simps) (simp add: Let_def span_segments_shape_of r appendSpan_shape_of Shape_isEmpty_def
          cong: if_cong)
    have rw: "row_loop op (drop i rows1) (drop j rows2) s1 s2 res = row_loop op (drop ?i rows1) (drop ?j rows2) ?s1 ?s2 ?res"
      unfolding d row_loop.simps(1) Let_def test_def [symmetric] by (simp add: d)
    show ?thesis unfolding sh rw by (rule less.hyps) (use i j in auto)
  next
    case False
    then show ?thesis
      using less.prems by (subst shape_loop.simps) (cases "i < length rows1"; cases "j < length rows2";
        simp add: appendSpans_shape_of [OF r(1)] appendSpans_shape_of [OF r(2)];
        cases "drop i rows1"; cases "drop j rows2"; simp)
  qed
qed

end
