(* ===== verification/Region_Points.thy ===== *)
theory Region_Points
  imports Region_Rows
begin

text \<open>
  The pixels of a shape, its canonical form, and the combination of shapes as union, intersection
  and difference of pixel sets.
\<close>

subsection \<open>Segments\<close>

text \<open>A column is inside when an odd number of edges is at or left of it.\<close>

definition inside :: "int list \<Rightarrow> int \<Rightarrow> bool" where
  "inside segs x \<longleftrightarrow> odd (length (filter (\<lambda>a. a \<le> x) segs))"

definition wf_segs :: "int list \<Rightarrow> bool" where
  "wf_segs segs \<longleftrightarrow> sorted_wrt (<) segs \<and> even (length segs) \<and> (\<forall>x \<in> set segs. small x)"

lemma inside_Nil [simp]: "\<not> inside [] x"
  by (simp add: inside_def)

lemma inside_Cons [simp]: "inside (a # segs) x \<longleftrightarrow> (if a \<le> x then \<not> inside segs x else inside segs x)"
  by (simp add: inside_def)

lemma inside_below: "\<forall>a \<in> set segs. x < a \<Longrightarrow> \<not> inside segs x"
  by (induction segs) auto

lemma inside_above: "\<forall>a \<in> set segs. a \<le> x \<Longrightarrow> inside segs x \<longleftrightarrow> odd (length segs)"
  by (induction segs) auto

lemma inside_unique:
  "sorted_wrt (<) s \<Longrightarrow> sorted_wrt (<) t \<Longrightarrow> (\<And>x. inside s x = inside t x) \<Longrightarrow> s = t"
proof (induction s arbitrary: t)
  case Nil
  show ?case
  proof (cases t)
    case (Cons b t')
    then have "inside t b" using Nil.prems(2) inside_below [of t' b] by simp
    then show ?thesis using Nil.prems(3) by simp
  qed simp
next
  case (Cons a s)
  have a: "inside (a # s) a" using Cons.prems(1) inside_below [of s a] by simp
  then have ta: "inside t a" using Cons.prems(3) [of a] by simp
  then obtain b t' where t: "t = b # t'" by (cases t) auto
  have b: "inside t b" using Cons.prems(2) inside_below [of t' b] by (simp add: t)
  have "b \<le> a"
  proof (rule ccontr)
    assume "\<not> b \<le> a"
    then have "\<forall>x \<in> set t. a < x" using Cons.prems(2) by (auto simp: t)
    then show False using ta inside_below by blast
  qed
  moreover have "a \<le> b"
  proof (rule ccontr)
    assume "\<not> a \<le> b"
    then have "\<forall>x \<in> set (a # s). b < x" using Cons.prems(1) by auto
    then have "\<not> inside (a # s) b" by (rule inside_below)
    then show False using b Cons.prems(3) [of b] by simp
  qed
  ultimately have ab: "a = b" by simp
  have "inside s x = inside t' x" for x
  proof (cases "a \<le> x")
    case True
    then show ?thesis using Cons.prems(3) [of x] by (simp add: t ab)
  next
    case False
    then have "\<not> inside s x" "\<not> inside t' x"
      using Cons.prems(1,2) by (auto intro!: inside_below simp: t ab)
    then show ?thesis by simp
  qed
  then show ?case using Cons.IH [of t'] Cons.prems(1,2) by (simp add: t ab)
qed

subsection \<open>Merging segments\<close>

text \<open>The truth table of an operation: what the operation keeps of two shapes.\<close>

definition keeps :: "shape_operation \<Rightarrow> bool \<Rightarrow> bool \<Rightarrow> bool" where
  "keeps op p q \<longleftrightarrow> (of_bool p + 2 * of_bool q = opCode op) \<noteq> (0 = opCode op)"

text \<open>The constants of an operation fit its code.\<close>

definition consistent_op :: "shape_operation \<Rightarrow> bool" where
  "consistent_op op \<longleftrightarrow>
     (keeps op True False = shouldAddRemainingSegmentsFromSpan1 op) \<and>
     (keeps op False True = shouldAddRemainingSegmentsFromSpan2 op) \<and>
     shouldAddRemainingSpansFromShape1 op = shouldAddRemainingSegmentsFromSpan1 op \<and>
     shouldAddRemainingSpansFromShape2 op = shouldAddRemainingSegmentsFromSpan2 op"

lemma keeps_operations [simp]:
  "keeps UnionOperation p q \<longleftrightarrow> p \<or> q" "keeps IntersectOperation p q \<longleftrightarrow> p \<and> q" "keeps SubtractOperation p q \<longleftrightarrow> p \<and> \<not> q"
  by (auto simp: keeps_def UnionOperation_def IntersectOperation_def SubtractOperation_def)

lemma consistent_operations [simp]:
  "consistent_op UnionOperation" "consistent_op IntersectOperation" "consistent_op SubtractOperation"
  unfolding consistent_op_def keeps_operations
  by (simp_all add: UnionOperation_def IntersectOperation_def SubtractOperation_def)

definition flag_of :: "bool \<Rightarrow> bool \<Rightarrow> nat" where
  "flag_of p q = of_bool p + 2 * of_bool q"

lemma flag_of_xor_closed:
  "flag_of True True XOR 1 = flag_of False True" "flag_of False True XOR 1 = flag_of True True"
  "flag_of True False XOR 1 = flag_of False False" "flag_of False False XOR 1 = flag_of True False"
  "flag_of True True XOR 2 = flag_of True False" "flag_of True False XOR 2 = flag_of True True"
  "flag_of False True XOR 2 = flag_of False False" "flag_of False False XOR 2 = flag_of False True"
  by code_simp+

lemma flag_of_xor [simp]: "flag_of p q XOR 1 = flag_of (\<not> p) q" "flag_of p q XOR 2 = flag_of p (\<not> q)"
  by (cases p; cases q; simp only: flag_of_xor_closed simp_thms)+

lemma flag_of_xor_Suc [simp]: "flag_of p q XOR Suc 0 = flag_of (\<not> p) q"
  using flag_of_xor(1) by simp

lemma flag_of_0: "flag_of False False = 0"
  by (simp add: flag_of_def)

lemma small_test:
  assumes "small a" "small b"
  shows "i32 (a - b) \<le> 0 \<longleftrightarrow> a \<le> b" "0 \<le> i32 (a - b) \<longleftrightarrow> b \<le> a"
  using small_i32(1) [OF assms] by auto

lemma merge_segments_end:
  "merge_segments op f g [] s2 = (if shouldAddRemainingSegmentsFromSpan2 op then s2 else [])"
  "merge_segments op f g s1 [] = (if shouldAddRemainingSegmentsFromSpan1 op then s1 else [])"
  by (subst merge_segments.simps, simp)+

definition emit :: "shape_operation \<Rightarrow> nat \<Rightarrow> nat \<Rightarrow> int \<Rightarrow> int list" where
  "emit op f g x = (if f = opCode op \<or> g = opCode op then [x] else [])"

lemma merge_segments_Cons:
  assumes "small a" "small b"
  shows "merge_segments op (flag_of p q) g (a # s1) (b # s2) =
    (if a < b then emit op (flag_of (\<not> p) q) g a @
       merge_segments op (flag_of (\<not> p) q) (flag_of (\<not> p) q) s1 (b # s2)
     else if b < a then emit op (flag_of p (\<not> q)) g b @
       merge_segments op (flag_of p (\<not> q)) (flag_of p (\<not> q)) (a # s1) s2
     else emit op (flag_of (\<not> p) (\<not> q)) g a @
       merge_segments op (flag_of (\<not> p) (\<not> q)) (flag_of (\<not> p) (\<not> q)) s1 s2)"
  by (subst merge_segments.simps) (auto simp: Let_def small_test [OF assms] emit_def)

lemma merge_cases:
  assumes "\<And>p q s2. P p q [] s2" "\<And>p q s1. P p q s1 []"
    "\<And>p q a s1 b s2. a < b \<Longrightarrow> P (\<not> p) q s1 (b # s2) \<Longrightarrow> P p q (a # s1) (b # s2)"
    "\<And>p q a s1 b s2. b < a \<Longrightarrow> P p (\<not> q) (a # s1) s2 \<Longrightarrow> P p q (a # s1) (b # s2)"
    "\<And>p q a s1 s2. P (\<not> p) (\<not> q) s1 s2 \<Longrightarrow> P p q (a # s1) (a # s2)"
  shows "P (p :: bool) (q :: bool) s1 (s2 :: int list)"
proof (induction "length s1 + length s2" arbitrary: p q s1 s2 rule: less_induct)
  case less
  show ?case
  proof (cases s1)
    case (Cons a s1')
    show ?thesis
    proof (cases s2)
      case (Cons b s2')
      consider "a < b" | "b < a" | "a = b" by linarith
      then show ?thesis using assms(3-5) less.hyps unfolding \<open>s1 = _\<close> Cons by cases simp_all
    qed (use assms(2) in simp)
  qed (use assms(1) in simp)
qed

lemma merge_segments_subset:
  "\<forall>x \<in> set s1 \<union> set s2. small x \<Longrightarrow> set (merge_segments op (flag_of p q) (flag_of p q) s1 s2) \<subseteq> set s1 \<union> set s2"
  by (induction p q s1 s2 rule: merge_cases) (auto simp: merge_segments_end merge_segments_Cons emit_def)

lemma merge_segments_sorted:
  "sorted_wrt (<) s1 \<Longrightarrow> sorted_wrt (<) s2 \<Longrightarrow> \<forall>x \<in> set s1 \<union> set s2. small x \<Longrightarrow>
   sorted_wrt (<) (merge_segments op (flag_of p q) (flag_of p q) s1 s2)"
proof (induction p q s1 s2 rule: merge_cases)
  case (3 p q a s1 b s2)
  have "set (merge_segments op (flag_of (\<not> p) q) (flag_of (\<not> p) q) s1 (b # s2)) \<subseteq> set s1 \<union> set (b # s2)"
    using 3 by (intro merge_segments_subset) simp
  with 3 show ?case by (fastforce simp: merge_segments_Cons emit_def)
next
  case (4 p q a s1 b s2)
  have "set (merge_segments op (flag_of p (\<not> q)) (flag_of p (\<not> q)) (a # s1) s2) \<subseteq> set (a # s1) \<union> set s2"
    using 4 by (intro merge_segments_subset) simp
  with 4 show ?case by (fastforce simp: merge_segments_Cons emit_def)
next
  case (5 p q a s1 s2)
  have "set (merge_segments op (flag_of (\<not> p) (\<not> q)) (flag_of (\<not> p) (\<not> q)) s1 s2) \<subseteq> set s1 \<union> set s2"
    using 5 by (intro merge_segments_subset) simp
  with 5 show ?case by (fastforce simp: merge_segments_Cons emit_def)
qed (auto simp: merge_segments_end)

text \<open>The output changes sides exactly where the operation's truth value does.\<close>

definition hits :: "shape_operation \<Rightarrow> bool \<Rightarrow> bool \<Rightarrow> bool" where
  "hits op p q \<longleftrightarrow> flag_of p q = opCode op"

lemma flag_of_inj: "flag_of p q = flag_of p' q' \<longleftrightarrow> p = p' \<and> q = q'"
  by (cases p; cases q; cases p'; cases q'; simp add: flag_of_def)

lemma inside_emit:
  assumes "p \<noteq> p' \<or> q \<noteq> q'"
  shows "inside (emit op (flag_of p' q') (flag_of p q) a @ segs) x \<longleftrightarrow>
    (if a \<le> x then (hits op p' q' \<noteq> hits op p q) \<noteq> inside segs x else inside segs x)"
proof -
  have "\<not> (hits op p' q' \<and> hits op p q)" using assms flag_of_inj [of p q p' q'] by (auto simp: hits_def)
  then show ?thesis by (auto simp: emit_def hits_def)
qed

lemma keeps_hits: "keeps op p q \<longleftrightarrow> hits op p q \<noteq> hits op False False"
  by (simp add: keeps_def hits_def flag_of_def)

lemma consistent_hits:
  assumes "consistent_op op"
  shows "shouldAddRemainingSegmentsFromSpan1 op \<longleftrightarrow> hits op True False \<noteq> hits op False False"
    "shouldAddRemainingSegmentsFromSpan2 op \<longleftrightarrow> hits op False True \<noteq> hits op False False"
  using assms by (simp_all add: consistent_op_def keeps_hits)

lemma merge_segments_inside:
  assumes op: "consistent_op op"
  shows "sorted_wrt (<) s1 \<Longrightarrow> sorted_wrt (<) s2 \<Longrightarrow> \<forall>x \<in> set s1 \<union> set s2. small x \<Longrightarrow>
    p = odd (length s1) \<Longrightarrow> q = odd (length s2) \<Longrightarrow>
    inside (merge_segments op (flag_of p q) (flag_of p q) s1 s2) x \<longleftrightarrow>
      hits op (p \<noteq> inside s1 x) (q \<noteq> inside s2 x) \<noteq> hits op p q"
proof (induction p q s1 s2 rule: merge_cases)
  case (1 p q s2)
  then show ?case using consistent_hits(2) [OF op]
    by (cases q; cases "inside s2 x") (simp_all add: merge_segments_end)
next
  case (2 p q s1)
  then show ?case using consistent_hits(1) [OF op]
    by (cases p; cases "inside s1 x") (simp_all add: merge_segments_end)
next
  case (3 p q a s1 b s2)
  note IH = 3(2) [OF _ 3(4) _ _ 3(7)]
  have "x < a \<Longrightarrow> \<not> inside s1 x" "x < a \<Longrightarrow> \<not> inside (b # s2) x" using 3 by (auto intro!: inside_below)
  with IH 3 show ?case by (auto simp: merge_segments_Cons inside_emit)
next
  case (4 p q a s1 b s2)
  note IH = 4(2) [OF 4(3) _ _ 4(6)]
  have "x < b \<Longrightarrow> \<not> inside s2 x" "x < b \<Longrightarrow> \<not> inside (a # s1) x" using 4 by (auto intro!: inside_below)
  with IH 4 show ?case by (auto simp: merge_segments_Cons inside_emit)
next
  case (5 p q a s1 s2)
  have "x < a \<Longrightarrow> \<not> inside s1 x" "x < a \<Longrightarrow> \<not> inside s2 x" using 5 by (auto intro!: inside_below)
  with 5 show ?case by (auto simp: merge_segments_Cons inside_emit)
qed

definition combine :: "shape_operation \<Rightarrow> int list \<Rightarrow> int list \<Rightarrow> int list" where
  "combine op a b = merge_segments op 0 0 a b"

lemma combine_inside:
  assumes "consistent_op op" "wf_segs a" "wf_segs b"
  shows "inside (combine op a b) x \<longleftrightarrow> keeps op (inside a x) (inside b x)"
  using merge_segments_inside [OF assms(1), of a b False False x] assms(2,3)
  by (simp add: wf_segs_def combine_def keeps_hits flag_of_0 ball_Un)

lemma combine_wf:
  assumes "consistent_op op" "wf_segs a" "wf_segs b"
  shows "wf_segs (combine op a b)"
proof -
  have s: "\<forall>x \<in> set a \<union> set b. small x" using assms by (auto simp: wf_segs_def)
  have sub: "set (combine op a b) \<subseteq> set a \<union> set b"
    using merge_segments_subset [OF s, of op False False] by (simp add: combine_def flag_of_0)
  have big: "x \<le> 1073741824" if "small x" for x using that by (simp add: small_def)
  have "inside (combine op a b) 1073741824 = odd (length (combine op a b))"
    "inside a 1073741824 = odd (length a)" "inside b 1073741824 = odd (length b)"
    using s sub big by (auto intro!: inside_above)
  then have "even (length (combine op a b))"
    using combine_inside [OF assms, of 1073741824] assms(2,3) by (simp add: wf_segs_def keeps_hits)
  moreover have "sorted_wrt (<) (combine op a b)"
    using merge_segments_sorted [of a b op False False] assms(2,3) s by (simp add: wf_segs_def combine_def flag_of_0)
  ultimately show ?thesis using s sub by (auto simp: wf_segs_def)
qed

lemma combine_empty:
  "combine op a [] = (if shouldAddRemainingSegmentsFromSpan1 op then a else [])"
  "combine op [] b = (if shouldAddRemainingSegmentsFromSpan2 op then b else [])"
  by (simp_all add: combine_def merge_segments_end)

subsection \<open>Rows\<close>

text \<open>The segments at a line, below rows whose segments are \<open>s\<close>.\<close>

fun row_from :: "int list \<Rightarrow> row list \<Rightarrow> int \<Rightarrow> int list" where
  "row_from s [] y = s"
| "row_from s ((y0, a) # rs) y = (if y < y0 then s else row_from a rs y)"

text \<open>Canonical rows: increasing lines, no two neighbours with the same segments.\<close>

fun rows_ok :: "int list \<Rightarrow> row list \<Rightarrow> bool" where
  "rows_ok s [] = True"
| "rows_ok s ((y, a) # rs) \<longleftrightarrow> a \<noteq> s \<and> wf_segs a \<and> small y \<and> (\<forall>r \<in> set rs. y < fst r) \<and> rows_ok a rs"

definition last_from :: "int list \<Rightarrow> row list \<Rightarrow> int list" where
  "last_from s rs = (if rs = [] then s else snd (last rs))"

definition wf_rows :: "row list \<Rightarrow> bool" where
  "wf_rows rows \<longleftrightarrow> rows_ok [] rows \<and> row_last rows = []"

definition below :: "int \<Rightarrow> row list \<Rightarrow> bool" where
  "below y rs \<longleftrightarrow> (\<forall>r \<in> set rs. y < fst r)"

definition row_points :: "row list \<Rightarrow> (int \<times> int) set" where
  "row_points rows = {(x, y). inside (row_from [] rows y) x}"

lemma row_last_from: "row_last rs = last_from [] rs"
  by (simp add: row_last_def last_from_def)

lemma last_from_simps [simp]: "last_from s [] = s" "last_from s ((y, a) # rs) = last_from a rs"
  by (simp_all add: last_from_def)

lemma below_simps [simp]: "below y []" "below y ((y0, a) # rs) \<longleftrightarrow> y < y0 \<and> below y rs"
  by (auto simp: below_def)

lemma below_mono: "below y0 rs \<Longrightarrow> y \<le> y0 \<Longrightarrow> below y rs"
  by (fastforce simp: below_def)

lemma row_from_below: "below y rs \<Longrightarrow> row_from s rs y = s"
  by (cases rs) (auto simp: below_def)

lemma row_from_append:
  "\<forall>r \<in> set res. fst r < y0 \<Longrightarrow> row_from s (res @ [(y0, a)]) y = (if y < y0 then row_from s res y else a)"
  by (induction s res y rule: row_from.induct) auto

lemma row_from_above: "\<forall>r \<in> set res. fst r \<le> y \<Longrightarrow> row_from s res y = last_from s res"
  by (induction s res y rule: row_from.induct) auto

lemma rows_ok_append:
  "rows_ok s (res @ [(y, a)]) \<longleftrightarrow> rows_ok s res \<and> a \<noteq> last_from s res \<and> wf_segs a \<and> small y \<and> (\<forall>r \<in> set res. fst r < y)"
  by (induction s res rule: rows_ok.induct) auto

lemma rows_ok_segs: "rows_ok s rs \<Longrightarrow> wf_segs s \<Longrightarrow> wf_segs (row_from s rs y)"
  by (induction s rs y rule: row_from.induct) auto

lemma rows_ok_last: "rows_ok s rs \<Longrightarrow> wf_segs s \<Longrightarrow> wf_segs (last_from s rs)"
  by (induction s rs rule: rows_ok.induct) auto

lemma wf_segs_Nil [simp]: "wf_segs []"
  by (simp add: wf_segs_def)

text \<open>Two canonical lists with the same segments on every line are the same list.\<close>

lemma rows_unique:
  "rows_ok s r \<Longrightarrow> rows_ok s r' \<Longrightarrow> (\<And>y. row_from s r y = row_from s r' y) \<Longrightarrow> r = r'"
proof (induction s r arbitrary: r' rule: rows_ok.induct)
  case (1 s)
  show ?case
  proof (cases r')
    case (Cons x t)
    obtain y a where x: "x = (y, a)" by (cases x)
    have "row_from s r' y = a" "a \<noteq> s" using 1 by (auto simp: Cons x below_def row_from_below)
    then show ?thesis using "1.prems"(3) [of y] by simp
  qed simp
next
  case (2 s y a rs)
  have ya: "row_from s ((y, a) # rs) y = a" "a \<noteq> s"
    using "2.prems"(1) by (auto simp: below_def row_from_below)
  then have "row_from s r' y \<noteq> s" using "2.prems"(3) [of y] by simp
  then obtain y' a' t where r': "r' = (y', a') # t" "y' \<le> y"
    by (cases "(s, r', y)" rule: row_from.cases) (auto split: if_splits)
  have ya': "row_from s r' y' = a'" "a' \<noteq> s" using "2.prems"(2) by (auto simp: r' below_def row_from_below)
  then have "\<not> y' < y" using "2.prems"(3) [of y'] by auto
  then have eq: "y' = y" using r'(2) by simp
  then have "a' = a" using ya(1) ya'(1) "2.prems"(3) [of y] by simp
  moreover have "row_from a rs z = row_from a t z" for z
  proof (cases "z < y")
    case True
    have "below z rs" "below z t" using True "2.prems"(1,2) by (auto simp: below_def r' eq)
    then show ?thesis by (simp add: row_from_below)
  next
    case False
    then show ?thesis using "2.prems"(3) [of z] by (simp add: r' eq \<open>a' = a\<close>)
  qed
  ultimately show ?case using "2.IH" [of t] "2.prems"(1,2) by (simp add: r' eq)
qed

lemma wf_rows_unique:
  assumes "wf_rows r" "wf_rows r'" "row_points r = row_points r'"
  shows "r = r'"
proof (rule rows_unique)
  show r: "rows_ok [] r" "rows_ok [] r'" using assms by (simp_all add: wf_rows_def)
  fix y
  have "inside (row_from [] r y) x = inside (row_from [] r' y) x" for x
  proof -
    have "(x, y) \<in> row_points r \<longleftrightarrow> (x, y) \<in> row_points r'" using assms(3) by simp
    then show ?thesis by (simp add: row_points_def)
  qed
  moreover have "sorted_wrt (<) (row_from [] r y)" "sorted_wrt (<) (row_from [] r' y)"
    using rows_ok_segs [OF r(1), of y] rows_ok_segs [OF r(2), of y] by (simp_all add: wf_segs_def)
  ultimately show "row_from [] r y = row_from [] r' y" by (intro inside_unique)
qed

subsection \<open>The loop on rows\<close>

lemma push_row:
  assumes "rows_ok [] res" "\<forall>r \<in> set res. fst r < y0" "wf_segs a" "small y0"
  defines "res' \<equiv> (if a \<noteq> [] \<or> res \<noteq> [] then append_row y0 a res else res)"
  shows "rows_ok [] res'" "row_last res' = a" "\<forall>r \<in> set res'. fst r \<le> y0"
    "\<And>y. row_from [] res' y = (if y < y0 then row_from [] res y else a)"
proof -
  have r: "res' = (if row_last res = a then res else res @ [(y0, a)])"
    by (auto simp: res'_def append_row_def row_last_def)
  show "rows_ok [] res'" "row_last res' = a" "\<forall>r \<in> set res'. fst r \<le> y0"
    using assms(1-4) by (auto simp: r rows_ok_append row_last_from last_from_def)
  have above: "y0 \<le> y \<Longrightarrow> row_from [] res y = row_last res" for y
    using assms(2) row_from_above [of res y "[]"] by (force simp: row_last_from)
  show "row_from [] res' y = (if y < y0 then row_from [] res y else a)" for y
    using above [of y] row_from_append [OF assms(2), of "[]" a y] by (auto simp: r)
qed

lemma push_rows:
  assumes "rows_ok [] res" "row_last res = s" "rows_ok s rs" "\<forall>r \<in> set res. below (fst r) rs"
  defines "res' \<equiv> fold (\<lambda>(y, segs). append_row y segs) rs res"
  shows "rows_ok [] res' \<and> row_last res' = last_from s rs \<and>
    (\<forall>y. row_from [] res' y = (if below y rs then row_from [] res y else row_from s rs y))"
  using assms(1-4) unfolding res'_def
proof (induction rs arbitrary: res s)
  case (Cons r rs)
  obtain y0 a where r: "r = (y0, a)" by (cases r)
  have a: "a \<noteq> s" "wf_segs a" "small y0" "below y0 rs" "rows_ok a rs"
    using Cons.prems(3) by (auto simp: r below_def)
  have lt: "\<forall>r \<in> set res. fst r < y0" using Cons.prems(4) by (auto simp: r)
  have ne: "a \<noteq> [] \<or> res \<noteq> []" using a(1) Cons.prems(2) by (auto simp: row_last_def)
  note p = push_row [OF Cons.prems(1) lt a(2,3)]
  let ?res = "append_row y0 a res"
  have p': "rows_ok [] ?res" "row_last ?res = a" "\<forall>r \<in> set ?res. fst r \<le> y0"
    "\<And>y. row_from [] ?res y = (if y < y0 then row_from [] res y else a)"
    using p ne by simp_all
  have "\<forall>r \<in> set ?res. below (fst r) rs" using p'(3) a(4) by (force simp: below_def)
  from Cons.IH [OF p'(1,2) a(5) this] show ?case
    using p'(4) a(4) by (auto simp: r row_from_below below_def)
qed simp

text \<open>What the loop makes of the rows it has still to read.\<close>

definition loop_result :: "shape_operation \<Rightarrow> row list \<Rightarrow> row list \<Rightarrow> int list \<Rightarrow> int list \<Rightarrow> row list \<Rightarrow> row list \<Rightarrow> bool" where
  "loop_result op rs1 rs2 s1 s2 res R \<longleftrightarrow> rows_ok [] R \<and> row_last R = [] \<and>
     (\<forall>y. row_from [] R y =
        (if below y rs1 \<and> below y rs2 then row_from [] res y
         else combine op (row_from s1 rs1 y) (row_from s2 rs2 y)))"

definition loop_inv :: "shape_operation \<Rightarrow> row list \<Rightarrow> row list \<Rightarrow> int list \<Rightarrow> int list \<Rightarrow> row list \<Rightarrow> bool" where
  "loop_inv op rs1 rs2 s1 s2 res \<longleftrightarrow> rows_ok s1 rs1 \<and> rows_ok s2 rs2 \<and> wf_segs s1 \<and> wf_segs s2 \<and>
     last_from s1 rs1 = [] \<and> last_from s2 rs2 = [] \<and> rows_ok [] res \<and> row_last res = combine op s1 s2 \<and>
     (\<forall>r \<in> set res. below (fst r) rs1 \<and> below (fst r) rs2)"

lemma loop_step:
  assumes op: "consistent_op op" and inv: "loop_inv op rs1 rs2 s1 s2 res"
    and new: "rs1 = (y0, s1') # rs1' \<or> (rs1' = rs1 \<and> s1' = s1 \<and> below y0 rs1)"
      "rs2 = (y0, s2') # rs2' \<or> (rs2' = rs2 \<and> s2' = s2 \<and> below y0 rs2)"
    and one: "rs1' \<noteq> rs1 \<or> rs2' \<noteq> rs2"
  defines "segs \<equiv> combine op s1' s2'"
  defines "res' \<equiv> (if segs \<noteq> [] \<or> res \<noteq> [] then append_row y0 segs res else res)"
  shows "loop_inv op rs1' rs2' s1' s2' res'"
    "loop_result op rs1' rs2' s1' s2' res' R \<Longrightarrow> loop_result op rs1 rs2 s1 s2 res R"
proof -
  note i = inv [unfolded loop_inv_def]
  have wf: "wf_segs s1'" "wf_segs s2'" "small y0" "below y0 rs1'" "below y0 rs2'"
    "rows_ok s1' rs1'" "rows_ok s2' rs2'" "last_from s1' rs1' = []" "last_from s2' rs2' = []"
    using i new one by (elim disjE; simp add: below_def)+
  have lt: "\<forall>r \<in> set res. fst r < y0" using i new one by auto
  note p = push_row [OF conjunct1 [OF conjunct2 [OF conjunct2 [OF conjunct2 [OF conjunct2 [OF conjunct2 [OF conjunct2 [OF i]]]]]]]
      lt combine_wf [OF op wf(1,2)] wf(3), folded segs_def, folded res'_def]
  have "\<forall>r \<in> set res'. below (fst r) rs1' \<and> below (fst r) rs2'" using p(3) wf(4,5) by (force simp: below_def)
  then show "loop_inv op rs1' rs2' s1' s2' res'"
    using wf p(1,2) by (simp add: loop_inv_def segs_def)
  assume R: "loop_result op rs1' rs2' s1' s2' res' R"
  have "row_from [] R y = (if below y rs1 \<and> below y rs2 then row_from [] res y
         else combine op (row_from s1 rs1 y) (row_from s2 rs2 y))" for y
  proof (cases "y < y0")
    case True
    then have "below y rs1" "below y rs2" "below y rs1'" "below y rs2'"
      using below_mono [OF wf(4), of y] below_mono [OF wf(5), of y] new by (elim disjE; simp)+
    then show ?thesis using R p(4) True by (simp add: loop_result_def)
  next
    case False
    then have "\<not> (below y rs1 \<and> below y rs2)" using new one by auto
    moreover have "row_from s1 rs1 y = row_from s1' rs1' y" "row_from s2 rs2 y = row_from s2' rs2' y"
      using new False by auto
    ultimately show ?thesis using R p(4) False by (auto simp: loop_result_def row_from_below segs_def)
  qed
  then show "loop_result op rs1 rs2 s1 s2 res R" using R by (simp add: loop_result_def)
qed

lemma loop_end:
  assumes op: "consistent_op op" and inv: "loop_inv op rs1 rs2 s1 s2 res"
  shows "rs1 = [] \<Longrightarrow> loop_result op rs1 rs2 s1 s2 res
      (if shouldAddRemainingSpansFromShape2 op then fold (\<lambda>(y, segs). append_row y segs) rs2 res else res)"
    "rs2 = [] \<Longrightarrow> loop_result op rs1 rs2 s1 s2 res
      (if shouldAddRemainingSpansFromShape1 op then fold (\<lambda>(y, segs). append_row y segs) rs1 res else res)"
proof -
  note i = inv [unfolded loop_inv_def]
  have above: "\<not> below y rs \<Longrightarrow> \<forall>r \<in> set res. below (fst r) rs \<Longrightarrow> row_from [] res y = row_last res" for y rs
    using row_from_above [of res y "[]"] by (fastforce simp: row_last_from below_def)
  have op': "shouldAddRemainingSpansFromShape1 op = shouldAddRemainingSegmentsFromSpan1 op"
    "shouldAddRemainingSpansFromShape2 op = shouldAddRemainingSegmentsFromSpan2 op"
    using op by (simp_all add: consistent_op_def)
  show "rs1 = [] \<Longrightarrow> loop_result op rs1 rs2 s1 s2 res
      (if shouldAddRemainingSpansFromShape2 op then fold (\<lambda>(y, segs). append_row y segs) rs2 res else res)"
    using i above [of _ rs2] push_rows [of res s2 rs2]
    by (auto simp: loop_result_def op' combine_empty)
  show "rs2 = [] \<Longrightarrow> loop_result op rs1 rs2 s1 s2 res
      (if shouldAddRemainingSpansFromShape1 op then fold (\<lambda>(y, segs). append_row y segs) rs1 res else res)"
    using i above [of _ rs1] push_rows [of res s1 rs1]
    by (auto simp: loop_result_def op' combine_empty)
qed

lemma row_loop_result:
  "loop_inv op rs1 rs2 s1 s2 res \<Longrightarrow> consistent_op op \<Longrightarrow>
   loop_result op rs1 rs2 s1 s2 res (row_loop op rs1 rs2 s1 s2 res)"
proof (induction op rs1 rs2 s1 s2 res rule: row_loop.induct)
  case (1 op y1 a rs1 y2 b rs2 s1 s2 res)
  define test where "test = i32 (y1 - y2)"
  have "small y1" "small y2" using "1.prems" by (simp_all add: loop_inv_def)
  then have t: "test \<le> 0 \<longleftrightarrow> y1 \<le> y2" "0 \<le> test \<longleftrightarrow> y2 \<le> y1" unfolding test_def by (simp_all add: small_test)
  define s1' where "s1' = (if test \<le> 0 then a else s1)"
  define s2' where "s2' = (if 0 \<le> test then b else s2)"
  define rs1' where "rs1' = (if test \<le> 0 then rs1 else (y1, a) # rs1)"
  define rs2' where "rs2' = (if 0 \<le> test then rs2 else (y2, b) # rs2)"
  define y0 where "y0 = (if 0 \<le> test then y2 else y1)"
  define segs where "segs = combine op s1' s2'"
  define res' where "res' = (if segs \<noteq> [] \<or> res \<noteq> [] then append_row y0 segs res else res)"
  note folds = test_def [symmetric] s1'_def [symmetric] s2'_def [symmetric] rs1'_def [symmetric] rs2'_def [symmetric]
    y0_def [symmetric] combine_def [symmetric] segs_def [symmetric] res'_def [symmetric]
  have eq: "row_loop op ((y1, a) # rs1) ((y2, b) # rs2) s1 s2 res = row_loop op rs1' rs2' s1' s2' res'"
    unfolding row_loop.simps(1) Let_def folds ..
  have b: "below y2 rs2" "below y1 rs1" using "1.prems"(1) by (simp_all add: loop_inv_def below_def)
  have new: "(y1, a) # rs1 = (y0, s1') # rs1' \<or> (rs1' = (y1, a) # rs1 \<and> s1' = s1 \<and> below y0 ((y1, a) # rs1))"
    "(y2, b) # rs2 = (y0, s2') # rs2' \<or> (rs2' = (y2, b) # rs2 \<and> s2' = s2 \<and> below y0 ((y2, b) # rs2))"
    "rs1' \<noteq> (y1, a) # rs1 \<or> rs2' \<noteq> (y2, b) # rs2"
    using t b by (auto simp: y0_def s1'_def s2'_def rs1'_def rs2'_def below_def)
  note step = loop_step [OF "1.prems"(2,1) new, folded segs_def, folded res'_def]
  show ?case unfolding eq
    by (rule step(2), rule "1.IH" [OF test_def s1'_def s2'_def segs_def [unfolded combine_def],
        folded rs1'_def rs2'_def y0_def, folded res'_def, OF step(1) "1.prems"(2)])
next
  case (2 op rs2 s1 s2 res)
  then show ?case using loop_end(1) [of op "[]"] by simp
next
  case (3 op rs1 s1 s2 res)
  then show ?case using loop_end(2) [of op rs1 "[]" s1 s2 res] loop_end(1) [of op "[]" "[]" s1 s2 res]
    by (cases rs1) (auto split: if_splits)
qed

text \<open>The combination of two canonical shapes is canonical, and its pixels are the operation's.\<close>

lemma shape_loop_points:
  assumes "consistent_op op" "wf_rows r1" "wf_rows r2"
  shows "\<exists>r. shape_loop op (shape_of r1) (shape_of r2) 0 0 [] [] shape_empty = shape_of r \<and> wf_rows r \<and>
    row_points r = {(x, y). keeps op ((x, y) \<in> row_points r1) ((x, y) \<in> row_points r2)}"
proof -
  have c: "combine op [] [] = []" by (simp add: combine_empty)
  have ok: "rows_ok [] r1" "rows_ok [] r2" "row_last r1 = []" "row_last r2 = []"
    using assms(2,3) by (simp_all add: wf_rows_def)
  have inv: "loop_inv op r1 r2 [] [] []"
    using ok by (simp add: loop_inv_def c flip: row_last_from) (simp add: row_last_def)
  define R where "R = row_loop op r1 r2 [] [] []"
  have R: "rows_ok [] R" "row_last R = []" "row_from [] R y = combine op (row_from [] r1 y) (row_from [] r2 y)" for y
    using row_loop_result [OF inv assms(1)] c unfolding R_def loop_result_def by (auto simp: row_from_below)
  have "inside (row_from [] R y) x \<longleftrightarrow> keeps op (inside (row_from [] r1 y) x) (inside (row_from [] r2 y) x)" for x y
    unfolding R(3) by (rule combine_inside [OF assms(1) rows_ok_segs [OF ok(1)] rows_ok_segs [OF ok(2)]]) simp_all
  then have "row_points R = {(x, y). keeps op ((x, y) \<in> row_points r1) ((x, y) \<in> row_points r2)}"
    by (auto simp: row_points_def)
  then show ?thesis
    using shape_loop_rows [OF ok(3,4), of 0 0 op "[]" "[]" "[]"] R(1,2)
    by (auto simp: R_def shape_of_Nil wf_rows_def)
qed

text \<open>The three combinations, the shortcut of the union included.\<close>

lemma shapeOperation_points:
  assumes "op \<in> {UnionOperation, IntersectOperation, SubtractOperation}" "wf_rows r1" "wf_rows r2"
  shows "\<exists>r. shapeOperation op (shape_of r1) (shape_of r2) = shape_of r \<and> wf_rows r \<and>
    row_points r = {(x, y). keeps op ((x, y) \<in> row_points r1) ((x, y) \<in> row_points r2)}"
proof (cases "trySimpleOperation op (shape_of r1) (shape_of r2)")
  case None
  have "consistent_op op" using assms(1) by auto
  then show ?thesis using shape_loop_points [OF _ assms(2,3)] None by (simp add: shapeOperation_def)
next
  case (Some s)
  then have "op = UnionOperation" "r1 = []" "s = shape_of r2"
    using assms(1) by (auto simp: UnionOperation_def IntersectOperation_def SubtractOperation_def Shape_isEmpty_def split: if_splits)
  then show ?thesis using Some assms(3) by (auto simp: shapeOperation_def row_points_def)
qed

subsection \<open>Rows by their index\<close>

lemma row_from_cases:
  "below y rs \<and> row_from s rs y = s \<or>
   (\<exists>j < length rs. fst (rs ! j) \<le> y \<and> (Suc j < length rs \<longrightarrow> y < fst (rs ! Suc j)) \<and> row_from s rs y = snd (rs ! j))"
  if "rows_ok s rs"
  using that
proof (induction s rs y rule: row_from.induct)
  case (2 s y0 a rs y)
  show ?case
  proof (cases "y < y0")
    case True
    then have "below y ((y0, a) # rs)" using "2.prems" by (auto simp: below_def)
    then show ?thesis using True by simp
  next
    case False
    with "2.IH" "2.prems" consider "below y rs" "row_from a rs y = a" | j where "j < length rs" "fst (rs ! j) \<le> y"
      "Suc j < length rs \<longrightarrow> y < fst (rs ! Suc j)" "row_from a rs y = snd (rs ! j)" by auto
    then show ?thesis
    proof cases
      case 1
      then show ?thesis using False by (intro disjI2 exI [of _ 0]) (auto simp: below_def)
    next
      case (2 j)
      then show ?thesis using False by (intro disjI2 exI [of _ "Suc j"]) auto
    qed
  qed
qed simp

lemma rows_ok_nth:
  "rows_ok s rs \<Longrightarrow> i < j \<Longrightarrow> j < length rs \<Longrightarrow> fst (rs ! i) < fst (rs ! j)"
  by (induction s rs arbitrary: i j rule: rows_ok.induct) (auto simp: nth_Cons split: nat.splits)

lemma rows_ok_nth_le: "rows_ok s rs \<Longrightarrow> i \<le> j \<Longrightarrow> j < length rs \<Longrightarrow> fst (rs ! i) \<le> fst (rs ! j)"
  using rows_ok_nth [of s rs i j] by (cases "i = j") auto

lemma rows_ok_nth_segs: "rows_ok s rs \<Longrightarrow> i < length rs \<Longrightarrow> wf_segs (snd (rs ! i)) \<and> small (fst (rs ! i))"
  by (induction s rs arbitrary: i rule: rows_ok.induct) (auto simp: nth_Cons split: nat.splits)

lemma rows_ok_nth_neq: "rows_ok s rs \<Longrightarrow> Suc i < length rs \<Longrightarrow> snd (rs ! i) \<noteq> snd (rs ! Suc i)"
proof (induction s rs arbitrary: i rule: rows_ok.induct)
  case (2 s y a rs)
  then show ?case by (cases rs; cases i) auto
qed simp

lemma row_from_nth:
  assumes "rows_ok s rs" "j < length rs" "fst (rs ! j) \<le> y" "Suc j < length rs \<Longrightarrow> y < fst (rs ! Suc j)"
  shows "row_from s rs y = snd (rs ! j)"
  using row_from_cases [OF assms(1), of y]
proof (elim disjE conjE exE)
  assume "below y rs" then show ?thesis using assms(2,3) by (metis below_def leD nth_mem)
next
  fix k assume k: "k < length rs" "fst (rs ! k) \<le> y" "Suc k < length rs \<longrightarrow> y < fst (rs ! Suc k)" "row_from s rs y = snd (rs ! k)"
  have "\<not> k < j"
  proof
    assume "k < j"
    then have "fst (rs ! Suc k) \<le> fst (rs ! j)" using rows_ok_nth [OF assms(1), of "Suc k" j] assms(2)
      by (cases "Suc k = j") auto
    then show False using k(3) \<open>k < j\<close> assms(2,3) by simp
  qed
  moreover have "\<not> j < k"
  proof
    assume "j < k"
    then have "fst (rs ! Suc j) \<le> fst (rs ! k)" using rows_ok_nth [OF assms(1), of "Suc j" k] k(1)
      by (cases "Suc j = k") auto
    then show False using k(1,2) \<open>j < k\<close> assms(4) by simp
  qed
  ultimately show ?thesis using k(4) by (cases "j = k") auto
qed

lemma wf_rows_last_nth: "wf_rows rs \<Longrightarrow> rs \<noteq> [] \<Longrightarrow> snd (rs ! (length rs - 1)) = []"
  by (simp add: wf_rows_def row_last_def last_conv_nth)

lemma wf_rows_length: "wf_rows rs \<Longrightarrow> rs \<noteq> [] \<Longrightarrow> 2 \<le> length rs"
  by (cases rs; cases "tl rs") (auto simp: wf_rows_def row_last_def)

lemma wf_rows_first: "wf_rows rs \<Longrightarrow> rs \<noteq> [] \<Longrightarrow> snd (rs ! 0) \<noteq> []"
  by (cases rs) (auto simp: wf_rows_def)

lemma wf_rows_before_last:
  assumes "wf_rows rs" "rs \<noteq> []"
  shows "snd (rs ! (length rs - 2)) \<noteq> []"
proof -
  have "Suc (length rs - 2) = length rs - 1" using wf_rows_length [OF assms] by simp
  then show ?thesis using rows_ok_nth_neq [of "[]" rs "length rs - 2"] wf_rows_last_nth [OF assms] wf_rows_length [OF assms] assms(1)
    by (auto simp: wf_rows_def)
qed

lemma row_points_nth:
  assumes "wf_rows rs"
  shows "(x, y) \<in> row_points rs \<longleftrightarrow>
    (\<exists>j. Suc j < length rs \<and> fst (rs ! j) \<le> y \<and> y < fst (rs ! Suc j) \<and> inside (snd (rs ! j)) x)"
proof
  assume "(x, y) \<in> row_points rs"
  then have ins: "inside (row_from [] rs y) x" by (simp add: row_points_def)
  have ok: "rows_ok [] rs" using assms by (simp add: wf_rows_def)
  from row_from_cases [OF ok, of y] ins obtain j where j: "j < length rs" "fst (rs ! j) \<le> y"
    "Suc j < length rs \<longrightarrow> y < fst (rs ! Suc j)" "row_from [] rs y = snd (rs ! j)" by auto
  have "j \<noteq> length rs - 1" using wf_rows_last_nth [OF assms] j(1,4) ins by force
  then have "Suc j < length rs" using j(1) by simp
  then show "\<exists>j. Suc j < length rs \<and> fst (rs ! j) \<le> y \<and> y < fst (rs ! Suc j) \<and> inside (snd (rs ! j)) x"
    using j ins by auto
next
  assume "\<exists>j. Suc j < length rs \<and> fst (rs ! j) \<le> y \<and> y < fst (rs ! Suc j) \<and> inside (snd (rs ! j)) x"
  then obtain j where j: "Suc j < length rs" "fst (rs ! j) \<le> y" "y < fst (rs ! Suc j)" "inside (snd (rs ! j)) x" by blast
  have "row_from [] rs y = snd (rs ! j)" using assms j(1-3) by (intro row_from_nth) (auto simp: wf_rows_def)
  then show "(x, y) \<in> row_points rs" using j(4) by (simp add: row_points_def)
qed

end
