(* ===== verification/Region_Bounds.thy ===== *)
theory Region_Bounds
  imports Region_Points
begin

text \<open>
  The bounding rectangle of a canonical shape: \<^verbatim>\<open>Shape::bounds\<close> is the one rectangle that holds all
  pixels and is touched on each side.
\<close>

definition is_bbox :: "(int \<times> int) set \<Rightarrow> int_rect \<Rightarrow> bool" where
  "is_bbox P R \<longleftrightarrow> P \<subseteq> rect_points R \<and> small_rect R \<and>
     (\<exists>y. (rectX R, y) \<in> P) \<and> (\<exists>y. (rectX R + rectWidth R - 1, y) \<in> P) \<and>
     (\<exists>x. (x, rectY R) \<in> P) \<and> (\<exists>x. (x, rectY R + rectHeight R - 1) \<in> P)"

lemma is_bbox_nonempty: "is_bbox P R \<Longrightarrow> P \<noteq> {} \<and> \<not> IntRect_isEmpty R"
  unfolding isEmpty_points by (auto simp: is_bbox_def)

lemma is_bbox_edges:
  assumes "is_bbox P R" "P \<subseteq> rect_points S"
  shows "rectX S \<le> rectX R" "rectX R + rectWidth R \<le> rectX S + rectWidth S"
    "rectY S \<le> rectY R" "rectY R + rectHeight R \<le> rectY S + rectHeight S"
  using assms by (auto simp: is_bbox_def rect_points_def)

lemma is_bbox_unique:
  assumes "is_bbox P R" "is_bbox P S"
  shows "R = S"
proof -
  have "P \<subseteq> rect_points R" "P \<subseteq> rect_points S" using assms by (simp_all add: is_bbox_def)
  then show ?thesis using is_bbox_edges [OF assms(1), of S] is_bbox_edges [OF assms(2), of R] by simp
qed

lemma is_bbox_least: "is_bbox P R \<Longrightarrow> P \<subseteq> rect_points S \<Longrightarrow> rect_points R \<subseteq> rect_points S"
  using is_bbox_edges [of P R S] by (auto simp: rect_points_def)

lemma is_bbox_unite:
  assumes P: "is_bbox P R" and Q: "is_bbox Q S"
  shows "is_bbox (P \<union> Q) (IntRect_unite R S)"
proof -
  have small: "small_rect R" "small_rect S" using assms by (simp_all add: is_bbox_def)
  let ?l = "min (rectX R) (rectX S)" and ?t = "min (rectY R) (rectY S)"
  let ?r = "max (rectX R + rectWidth R) (rectX S + rectWidth S)"
  let ?b = "max (rectY R + rectHeight R) (rectY S + rectHeight S)"
  have e: "small ?l" "small ?t" "small ?r" "small ?b" using small by (auto simp: small_rect_def)
  have "IntRect_unite R S = rect_from_edges ?l ?t ?r ?b"
    using is_bbox_nonempty [OF P] is_bbox_nonempty [OF Q] by (simp add: IntRect_unite_def unite_edges_def max_small small)
  then have U: "rectX (IntRect_unite R S) = ?l" "rectY (IntRect_unite R S) = ?t"
    "rectX (IntRect_unite R S) + rectWidth (IntRect_unite R S) = ?r"
    "rectY (IntRect_unite R S) + rectHeight (IntRect_unite R S) = ?b"
    using small_rect_from_edges(2,3) [OF e] by (simp_all add: rect_from_edges_def)
  have "P \<union> Q \<subseteq> rect_points (IntRect_unite R S)"
    using unite_points(1) [OF small] P Q by (auto simp: is_bbox_def)
  then show ?thesis
    using P Q unite_points(2) [OF small] unfolding is_bbox_def [of "P \<union> Q"] U(3,4) unfolding U(1,2)
    by (auto simp: is_bbox_def min_def max_def)
qed

subsection \<open>The scan over the rows\<close>

lemma bounds_scan_fst:
  "fst (bounds_scan s is a b) = fold min [m_segments s ! segmentIndex (m_spans s ! i).
     i \<leftarrow> is, segmentIndex (m_spans s ! i) \<noteq> length (m_segments s)] a"
  "snd (bounds_scan s is a b) = fold max [m_segments s ! (segmentIndex (m_spans s ! (i + 1)) - 1).
     i \<leftarrow> is, segmentIndex (m_spans s ! i) \<noteq> length (m_segments s)] b"
  by (induction s "is" a b rule: bounds_scan.induct) (auto simp: Let_def min_def max_def)

lemma row_nth:
  assumes "i < length rs" "p < length (snd (rs ! i))"
  shows "concat (map snd rs) ! (row_offset rs i + p) = snd (rs ! i) ! p"
    "row_offset rs i + p < length (concat (map snd rs))"
proof -
  have len: "row_offset rs (Suc i) \<le> length (concat (map snd rs))"
    using row_offset_mono [of "Suc i" "length rs" rs] assms(1) by simp
  then show "row_offset rs i + p < length (concat (map snd rs))" using assms row_offset_Suc [OF assms(1)] by simp
  have "snd (rs ! i) ! p = vec_slice (row_offset rs i) (row_offset rs (Suc i)) (concat (map snd rs)) ! p"
    by (simp add: row_slice assms(1))
  then show "concat (map snd rs) ! (row_offset rs i + p) = snd (rs ! i) ! p"
    using assms row_offset_Suc [OF assms(1)] len by (simp add: vec_slice_def)
qed

definition edges :: "row list \<Rightarrow> int set" where
  "edges rs = set (concat (map snd rs))"

lemma edgesE:
  assumes "x \<in> edges rs" "wf_rows rs"
  obtains i where "Suc i < length rs" "x \<in> set (snd (rs ! i))"
proof -
  obtain r where "r \<in> set rs" "x \<in> set (snd r)" using assms(1) by (auto simp: edges_def)
  then obtain i where i: "i < length rs" "x \<in> set (snd (rs ! i))" by (metis in_set_conv_nth)
  have "i \<noteq> length rs - 1" using wf_rows_last_nth [OF assms(2)] i by (cases "rs = []") auto
  then show ?thesis using i by (intro that [of i]) auto
qed

lemma edges_row: "i < length rs \<Longrightarrow> set (snd (rs ! i)) \<subseteq> edges rs"
  unfolding edges_def set_concat set_map by (blast intro: nth_mem)

lemma edges_finite [simp]: "finite (edges rs)"
  by (simp add: edges_def)

lemma edges_small: "rows_ok s rs \<Longrightarrow> x \<in> edges rs \<Longrightarrow> small x"
  by (induction s rs rule: rows_ok.induct) (auto simp: edges_def wf_segs_def)

lemma sorted_ends:
  assumes "sorted_wrt (<) (a :: int list)" "x \<in> set a"
  shows "hd a \<le> x" "x \<le> last a"
proof -
  show "hd a \<le> x" using assms by (cases a) auto
  show "x \<le> last a" using assms by (cases a rule: rev_cases) (auto simp: sorted_wrt_append)
qed

lemma edges_nonempty: "wf_rows rs \<Longrightarrow> rs \<noteq> [] \<Longrightarrow> edges rs \<noteq> {}"
  using wf_rows_first [of rs] edges_row [of 0 rs] by auto

text \<open>The extreme edges are ends of rows.\<close>

lemma edges_extreme:
  assumes wf: "wf_rows rs" and ne: "rs \<noteq> []"
  obtains i j where "Suc i < length rs" "snd (rs ! i) \<noteq> []" "hd (snd (rs ! i)) = Min (edges rs)"
    "Suc j < length rs" "snd (rs ! j) \<noteq> []" "last (snd (rs ! j)) = Max (edges rs)"
proof -
  have ok: "rows_ok [] rs" using wf by (simp add: wf_rows_def)
  have srt: "i < length rs \<Longrightarrow> sorted_wrt (<) (snd (rs ! i))" for i
    using rows_ok_nth_segs [OF ok] by (simp add: wf_segs_def)
  obtain i where i: "Suc i < length rs" "Min (edges rs) \<in> set (snd (rs ! i))"
    using edgesE [OF Min_in wf] edges_nonempty [OF assms] by (metis edges_finite)
  obtain j where j: "Suc j < length rs" "Max (edges rs) \<in> set (snd (rs ! j))"
    using edgesE [OF Max_in wf] edges_nonempty [OF assms] by (metis edges_finite)
  have ne': "snd (rs ! i) \<noteq> []" "snd (rs ! j) \<noteq> []" using i(2) j(2) by auto
  have "hd (snd (rs ! i)) \<in> edges rs" "last (snd (rs ! j)) \<in> edges rs"
    using subsetD [OF edges_row [OF Suc_lessD [OF i(1)]] hd_in_set [OF ne'(1)]]
      subsetD [OF edges_row [OF Suc_lessD [OF j(1)]] last_in_set [OF ne'(2)]] by simp_all
  then have "hd (snd (rs ! i)) = Min (edges rs)" "last (snd (rs ! j)) = Max (edges rs)"
    using sorted_ends(1) [OF srt, of i] sorted_ends(2) [OF srt, of j] i j by (auto intro!: antisym)
  then show ?thesis using that i(1) j(1) ne' by blast
qed

lemma bounds_scan_rows:
  assumes wf: "wf_rows rs" and ne: "rs \<noteq> []"
  shows "bounds_scan (shape_of rs) [0 ..< length rs - 1] 2147483647 (- 2147483648) = (Min (edges rs), Max (edges rs))"
proof -
  let ?s = "shape_of rs" and ?c = "concat (map snd rs)"
  have ok: "rows_ok [] rs" using wf by (simp add: wf_rows_def)
  note ene = edges_nonempty [OF assms]
  define A where "A = [m_segments ?s ! segmentIndex (m_spans ?s ! i).
     i \<leftarrow> [0 ..< length rs - 1], segmentIndex (m_spans ?s ! i) \<noteq> length (m_segments ?s)]"
  define B where "B = [m_segments ?s ! (segmentIndex (m_spans ?s ! (i + 1)) - 1).
     i \<leftarrow> [0 ..< length rs - 1], segmentIndex (m_spans ?s ! i) \<noteq> length (m_segments ?s)]"
  have le: "i < length rs \<Longrightarrow> row_offset rs i \<le> length ?c" for i
    using row_offset_mono [of i "length rs" rs] by simp
  have mem: "k < length ?c \<Longrightarrow> ?c ! k \<in> edges rs" for k unfolding edges_def by (rule nth_mem)
  have pos: "row_offset rs i \<noteq> length ?c \<Longrightarrow> i < length rs \<Longrightarrow> row_offset rs i < length ?c" for i
    using le [of i] by linarith
  have "?c ! row_offset rs i \<in> edges rs" "?c ! (row_offset rs (Suc i) - 1) \<in> edges rs"
    if "row_offset rs i \<noteq> length ?c" "i < length rs - 1" for i
  proof -
    have "row_offset rs i < length ?c" using pos [OF that(1)] that(2) by linarith
    moreover have "row_offset rs (Suc i) \<le> length ?c" using le [of "Suc i"] that(2) by linarith
    ultimately show "?c ! row_offset rs i \<in> edges rs" "?c ! (row_offset rs (Suc i) - 1) \<in> edges rs"
      by (intro mem, linarith)+
  qed
  then have AB: "set A \<subseteq> edges rs" "set B \<subseteq> edges rs"
    unfolding A_def B_def by auto
  have rows: "hd (snd (rs ! i)) \<in> set A \<and> last (snd (rs ! i)) \<in> set B"
    if i: "Suc i < length rs" "snd (rs ! i) \<noteq> []" for i
  proof -
    have lt: "row_offset rs i < length ?c" "?c ! row_offset rs i = hd (snd (rs ! i))"
      using row_nth [of i rs 0] i by (simp_all add: hd_conv_nth)
    have "row_offset rs (Suc i) - 1 = row_offset rs i + (length (snd (rs ! i)) - 1)"
      using row_offset_Suc [of i rs] i by (cases "snd (rs ! i)") auto
    then have "?c ! (row_offset rs (Suc i) - 1) = last (snd (rs ! i))"
      using row_nth(1) [of i rs "length (snd (rs ! i)) - 1"] i by (simp add: last_conv_nth)
    then show ?thesis using i lt unfolding A_def B_def by (auto intro!: bexI [of _ i])
  qed
  obtain i j where ij: "Suc i < length rs" "snd (rs ! i) \<noteq> []" "hd (snd (rs ! i)) = Min (edges rs)"
    "Suc j < length rs" "snd (rs ! j) \<noteq> []" "last (snd (rs ! j)) = Max (edges rs)"
    by (rule edges_extreme [OF assms])
  have sm: "small (Min (edges rs))" "small (Max (edges rs))"
    using edges_small [OF ok] Min_in [OF edges_finite ene] Max_in [OF edges_finite ene] by auto
  have "Min (insert 2147483647 (set A)) = Min (edges rs)"
    using rows [OF ij(1,2)] ij(3) AB(1) sm(1) by (intro Min_eqI) (auto simp: small_def)
  moreover have "Max (insert (- 2147483648) (set B)) = Max (edges rs)"
    using rows [OF ij(4,5)] ij(6) AB(2) sm(2) by (intro Max_eqI) (auto simp: small_def)
  ultimately show ?thesis
    using bounds_scan_fst [of ?s "[0 ..< length rs - 1]" 2147483647 "- 2147483648", folded A_def B_def]
    by (auto simp: prod_eq_iff Min.set_eq_fold [symmetric] Max.set_eq_fold [symmetric])
qed

lemma row_hd:
  assumes "wf_segs a" "a \<noteq> []"
  shows "inside a (hd a)" "inside a (last a - 1)"
proof -
  show "inside a (hd a)" using assms inside_below [of "tl a" "hd a"] by (cases a) (auto simp: wf_segs_def)
  obtain b z where a: "a = b @ [z]" using assms(2) by (metis rev_exhaust)
  have "\<forall>x \<in> set b. x \<le> z - 1" "odd (length b)" using assms(1) by (auto simp: a wf_segs_def sorted_wrt_append)
  then have "inside b (z - 1)" by (simp add: inside_above)
  then show "inside a (last a - 1)" by (simp add: a inside_def)
qed

lemma inside_range:
  assumes "wf_segs a" "inside a x"
  shows "hd a \<le> x" "x < last a" "a \<noteq> []"
proof -
  show ne: "a \<noteq> []" using assms(2) by auto
  show "hd a \<le> x" 
  proof (rule ccontr)
    assume "\<not> hd a \<le> x"
    then have "\<forall>b \<in> set a. x < b" using sorted_ends(1) [of a] assms(1) by (fastforce simp: wf_segs_def)
    then show False using inside_below assms(2) by blast
  qed
  show "x < last a"
  proof (rule ccontr)
    assume "\<not> x < last a"
    then have "\<forall>b \<in> set a. b \<le> x" using sorted_ends(2) [of a] assms(1) by (fastforce simp: wf_segs_def)
    then show False using inside_above assms by (auto simp: wf_segs_def)
  qed
qed

lemma bounds_edges:
  assumes wf: "wf_rows rs" and ne: "rs \<noteq> []"
  shows "Shape_bounds (shape_of rs) = rect_from_edges (Min (edges rs)) (fst (rs ! 0)) (Max (edges rs)) (fst (rs ! (length rs - 1)))"
    "small (Min (edges rs))" "small (Max (edges rs))" "small (fst (rs ! 0))" "small (fst (rs ! (length rs - 1)))"
proof -
  have ok: "rows_ok [] rs" using wf by (simp add: wf_rows_def)
  note ene = edges_nonempty [OF assms]
  show "small (Min (edges rs))" "small (Max (edges rs))"
    using edges_small [OF ok] Min_in [OF edges_finite ene] Max_in [OF edges_finite ene] by auto
  show "small (fst (rs ! 0))" "small (fst (rs ! (length rs - 1)))"
    using rows_ok_nth_segs [OF ok] ne by simp_all
  have "m_spans (shape_of rs) \<noteq> []" using ne by simp
  then have "spanY (hd (m_spans (shape_of rs))) = fst (rs ! 0)" "spanY (last (m_spans (shape_of rs))) = fst (rs ! (length rs - 1))"
    using ne by (simp_all add: hd_conv_nth last_conv_nth)
  then show "Shape_bounds (shape_of rs) = rect_from_edges (Min (edges rs)) (fst (rs ! 0)) (Max (edges rs)) (fst (rs ! (length rs - 1)))"
    using ne bounds_scan_rows [OF wf ne] by (simp add: Shape_bounds_def Shape_isEmpty_def rect_from_edges_def Let_def)
qed

theorem bounds_bbox:
  assumes wf: "wf_rows rs" and ne: "rs \<noteq> []"
  shows "is_bbox (row_points rs) (Shape_bounds (shape_of rs))"
proof -
  note b = bounds_edges [OF assms]
  let ?R = "Shape_bounds (shape_of rs)" and ?n = "length rs"
  have ok: "rows_ok [] rs" using wf by (simp add: wf_rows_def)
  have n: "2 \<le> ?n" by (rule wf_rows_length [OF assms])
  have segs: "i < ?n \<Longrightarrow> wf_segs (snd (rs ! i))" for i using rows_ok_nth_segs [OF ok] by simp
  have R: "rectX ?R = Min (edges rs)" "rectY ?R = fst (rs ! 0)"
    "rectX ?R + rectWidth ?R = Max (edges rs)" "rectY ?R + rectHeight ?R = fst (rs ! (?n - 1))"
    using small_rect_from_edges(2,3) [OF b(2,4,3,5)] by (simp_all add: b(1) rect_from_edges_def)
  note ene = edges_nonempty [OF assms]
  have line: "Suc i < ?n \<Longrightarrow> inside (snd (rs ! i)) x \<Longrightarrow> (x, fst (rs ! i)) \<in> row_points rs" for i x
    using rows_ok_nth [OF ok, of i "Suc i"] unfolding row_points_nth [OF wf] by auto
  have sub: "row_points rs \<subseteq> rect_points ?R"
  proof
    fix p assume "p \<in> row_points rs"
    then obtain x y j where p: "p = (x, y)" and j: "Suc j < ?n" "fst (rs ! j) \<le> y" "y < fst (rs ! Suc j)" "inside (snd (rs ! j)) x"
      using row_points_nth [OF wf] by (cases p) auto
    note r = inside_range [OF segs [OF Suc_lessD [OF j(1)]] j(4)]
    have "Min (edges rs) \<le> hd (snd (rs ! j))" "last (snd (rs ! j)) \<le> Max (edges rs)"
      using r(3) edges_row [of j rs] j(1) by (auto intro!: Min_le Max_ge)
    moreover have "fst (rs ! 0) \<le> fst (rs ! j)" "fst (rs ! Suc j) \<le> fst (rs ! (?n - 1))"
      using rows_ok_nth_le [OF ok, of 0 j] rows_ok_nth_le [OF ok, of "Suc j" "?n - 1"] j(1) by simp_all
    ultimately show "p \<in> rect_points ?R" using r(1,2) j(2,3) unfolding rect_points_def R(3,4) unfolding R(1,2) p by simp
  qed
  obtain i j where ij: "Suc i < ?n" "snd (rs ! i) \<noteq> []" "hd (snd (rs ! i)) = Min (edges rs)"
    "Suc j < ?n" "snd (rs ! j) \<noteq> []" "last (snd (rs ! j)) = Max (edges rs)"
    by (rule edges_extreme [OF assms])
  have left: "\<exists>y. (Min (edges rs), y) \<in> row_points rs"
    using line [OF ij(1)] row_hd(1) [OF segs ij(2)] ij(1) unfolding ij(3) by auto
  have right: "\<exists>y. (Max (edges rs) - 1, y) \<in> row_points rs"
    using line [OF ij(4)] row_hd(2) [OF segs ij(5)] ij(4) unfolding ij(6) by auto
  have top: "\<exists>x. (x, fst (rs ! 0)) \<in> row_points rs"
    using line [of 0] row_hd(1) [OF segs, of 0] wf_rows_first [OF assms] n by force
  have bottom: "\<exists>x. (x, fst (rs ! (?n - 1)) - 1) \<in> row_points rs"
  proof -
    have i: "Suc (?n - 2) = ?n - 1" "Suc (?n - 2) < ?n" using n by simp_all
    have "inside (snd (rs ! (?n - 2))) (hd (snd (rs ! (?n - 2))))"
      using row_hd(1) [OF segs, of "?n - 2"] wf_rows_before_last [OF assms] n by simp
    moreover have "fst (rs ! (?n - 2)) < fst (rs ! Suc (?n - 2))" using rows_ok_nth [OF ok, of "?n - 2" "Suc (?n - 2)"] i by simp
    ultimately show ?thesis unfolding row_points_nth [OF wf] i(1) [symmetric] using i(2)
      by (intro exI [of _ "hd (snd (rs ! (?n - 2)))"] exI [of _ "?n - 2"]) simp
  qed
  have "small_rect ?R" using small_rect_from_edges(1) [OF b(2,4,3,5)] by (simp add: b(1))
  then show ?thesis unfolding is_bbox_def R(3,4) unfolding R(1,2) using sub left right top bottom by blast
qed

end
