(* ===== verification/Region_Compare.thy ===== *)
theory Region_Compare
  imports Region_Bounds
begin

text \<open>
  Comparison of canonical shapes: \<^verbatim>\<open>compareShapes\<close> decides inclusion and overlap of pixel sets, and the
  search for a point decides membership.
\<close>

subsection \<open>One row\<close>

lemma wf_segs_Cons:
  assumes "wf_segs (a # a' # as)"
  shows "a < a'" "wf_segs as" "\<forall>x \<in> set as. a' < x" "x \<le> a' \<Longrightarrow> \<not> inside as x"
    "inside (a # a' # as) x \<longleftrightarrow> a \<le> x \<and> x < a' \<or> inside as x"
proof -
  show w: "a < a'" "wf_segs as" "\<forall>x \<in> set as. a' < x" using assms by (auto simp: wf_segs_def)
  show i: "\<not> inside as x" if "x \<le> a'" for x using w(3) that by (auto intro!: inside_below)
  show "inside (a # a' # as) x \<longleftrightarrow> a \<le> x \<and> x < a' \<or> inside as x" using w(1) i [of x] by auto
qed

definition covers :: "int list \<Rightarrow> int list \<Rightarrow> bool" where
  "covers as bs \<longleftrightarrow> (\<forall>x. inside bs x \<longrightarrow> inside as x)"

definition meets :: "int list \<Rightarrow> int list \<Rightarrow> bool" where
  "meets as bs \<longleftrightarrow> (\<exists>x. inside as x \<and> inside bs x)"

lemma compare_operation_tests [simp]:
  "aOutsideB CompareContainsOperation r = None" "bOutsideA CompareContainsOperation r = Some False"
  "aOverlapsB CompareContainsOperation r = None" "defaultResult CompareContainsOperation"
  "aOutsideB CompareIntersectsOperation r = None" "bOutsideA CompareIntersectsOperation r = None"
  "aOverlapsB CompareIntersectsOperation r = Some True" "\<not> defaultResult CompareIntersectsOperation"
  by (simp_all add: CompareContainsOperation_def CompareIntersectsOperation_def)

lemma check_then_simps [simp]:
  "check_then c None rest = rest" "check_then c (Some v) rest = (if c then Some v else rest)"
  by (simp_all add: check_then_def)

lemma covers_Cons:
  assumes "wf_segs (a # a' # as)" "wf_segs (b # b' # bs)"
  shows "covers (a # a' # as) (b # b' # bs) \<longleftrightarrow> \<not> b < a \<and>
    (if a' < b' then covers as (b # b' # bs) else if b' < a' then covers (a # a' # as) bs else covers as bs)"
    (is "?L \<longleftrightarrow> ?R")
proof -
  note A = wf_segs_Cons [OF assms(1)] and B = wf_segs_Cons [OF assms(2)]
  show ?thesis
  proof
    assume L: ?L
    have "inside (a # a' # as) b" using L B by (auto simp: covers_def)
    then have 1: "\<not> b < a" using A(1) A(4) [of b] unfolding A(5) by auto
    have "a' < b" if "a' < b'"
    proof (rule ccontr)
      assume "\<not> a' < b"
      then have "inside (a # a' # as) a'" using L B(5) that unfolding covers_def by (metis leI)
      then show False using A(4) [of a'] unfolding A(5) by auto
    qed
    then show ?R using 1 L B(4) A(4) unfolding covers_def A(5) B(5) by (smt (verit))
  next
    assume ?R
    then show ?L using A(1) B(1) A(4) B(4) unfolding covers_def A(5) B(5) by (smt (verit))
  qed
qed

lemma meets_Cons:
  assumes "wf_segs (a # a' # as)" "wf_segs (b # b' # bs)"
  shows "meets (a # a' # as) (b # b' # bs) \<longleftrightarrow> a < b' \<and> b < a' \<or>
    (if a' < b' then meets as (b # b' # bs) else if b' < a' then meets (a # a' # as) bs else meets as bs)"
    (is "?L \<longleftrightarrow> ?R")
proof -
  note A = wf_segs_Cons [OF assms(1)] and B = wf_segs_Cons [OF assms(2)]
  show ?thesis
  proof
    assume ?L
    then show ?R using A(1) B(1) A(4) B(4) unfolding meets_def A(5) B(5) by (smt (verit))
  next
    assume R: ?R
    show ?L
    proof (cases "a < b' \<and> b < a'")
      case True
      then have "a \<le> max a b \<and> max a b < a'" "b \<le> max a b \<and> max a b < b'" using A(1) B(1) by auto
      then show ?thesis unfolding meets_def A(5) B(5) by blast
    next
      case False
      then show ?thesis using R unfolding meets_def A(5) B(5) by (auto split: if_splits)
    qed
  qed
qed

lemma wf_segs_single [simp]: "\<not> wf_segs [a]"
  by (simp add: wf_segs_def)

lemma inside_ex: "wf_segs a \<Longrightarrow> a \<noteq> [] \<Longrightarrow> \<exists>x. inside a x"
  using row_hd(1) by blast

lemma covers_Nil [simp]: "covers as []" "wf_segs bs \<Longrightarrow> covers [] bs \<longleftrightarrow> bs = []"
  using inside_ex [of bs] by (auto simp: covers_def)

lemma meets_Nil [simp]: "\<not> meets as []" "\<not> meets [] bs"
  by (simp_all add: meets_def)

lemma compare_segments_contains:
  "wf_segs as \<Longrightarrow> wf_segs bs \<Longrightarrow>
   compare_segments CompareContainsOperation r as bs = (if covers as bs then None else Some False)"
proof (induction CompareContainsOperation r as bs rule: compare_segments.induct)
  case (1 r a a' as b b' bs)
  then show ?case using wf_segs_Cons(2) [OF 1(4)] wf_segs_Cons(2) [OF 1(5)]
    by (simp add: covers_Cons)
qed simp_all

lemma compare_segments_intersects:
  "wf_segs as \<Longrightarrow> wf_segs bs \<Longrightarrow>
   compare_segments CompareIntersectsOperation r as bs = (if meets as bs then Some True else None)"
proof (induction CompareIntersectsOperation r as bs rule: compare_segments.induct)
  case (1 r a a' as b b' bs)
  then show ?case using wf_segs_Cons(2) [OF 1(4)] wf_segs_Cons(2) [OF 1(5)]
    by (simp add: meets_Cons)
qed simp_all

subsection \<open>All rows\<close>

lemma compare_spans_rows:
  assumes "wf_rows ra" "wf_rows rb"
  shows "compare_spans cop (shape_of ra) (shape_of rb) r i j ah bh =
    (if Suc i < length ra \<and> Suc j < length rb then
       (case check_then (fst (ra ! i) < fst (rb ! j) \<and> \<not> bh \<and> snd (ra ! i) \<noteq> []) (aOutsideB cop r)
          (check_then (fst (rb ! j) < fst (ra ! i) \<and> \<not> ah \<and> snd (rb ! j) \<noteq> []) (bOutsideA cop r)
          (if fst (rb ! Suc j) > fst (ra ! i) \<and> fst (rb ! j) < fst (ra ! Suc i)
           then compare_segments cop r (snd (ra ! i)) (snd (rb ! j)) else None)) of
          Some r \<Rightarrow> r
        | None \<Rightarrow> compare_spans cop (shape_of ra) (shape_of rb) r
            (if fst (rb ! Suc j) < fst (ra ! Suc i) then i else Suc i)
            (if fst (ra ! Suc i) < fst (rb ! Suc j) then j else Suc j) (snd (ra ! i) \<noteq> []) (snd (rb ! j) \<noteq> []))
     else case check_then (Suc i < length ra) (aOutsideB cop r)
         (check_then (Suc j < length rb) (bOutsideA cop r) None) of Some r \<Rightarrow> r | None \<Rightarrow> r)"
proof -
  have "row_last ra = []" "row_last rb = []" using assms by (simp_all add: wf_rows_def)
  then show ?thesis by (subst compare_spans.simps) (simp add: Let_def span_segments_shape_of cong: if_cong option.case_cong)
qed

definition all_covered :: "row list \<Rightarrow> row list \<Rightarrow> bool" where
  "all_covered ra rb \<longleftrightarrow> (\<forall>y. covers (row_from [] ra y) (row_from [] rb y))"

lemma all_covered_points: "all_covered ra rb \<longleftrightarrow> row_points rb \<subseteq> row_points ra"
  by (auto simp: all_covered_def covers_def row_points_def)

text \<open>
  Between two steps, the lines above either current row are covered, the second shape's row reaches
  below the top of the first's, and where it also starts above it, it was compared with the row before.
\<close>

definition contains_inv :: "row list \<Rightarrow> row list \<Rightarrow> nat \<Rightarrow> nat \<Rightarrow> bool \<Rightarrow> bool" where
  "contains_inv ra rb i j ah \<longleftrightarrow> i < length ra \<and> j < length rb \<and>
     (\<forall>y. y < fst (ra ! i) \<or> y < fst (rb ! j) \<longrightarrow> covers (row_from [] ra y) (row_from [] rb y)) \<and>
     (Suc j < length rb \<longrightarrow> fst (ra ! i) < fst (rb ! Suc j)) \<and>
     (fst (rb ! j) < fst (ra ! i) \<longrightarrow> ah \<or> snd (rb ! j) = [])"

lemma row_from_end:
  assumes "wf_rows rs" "i < length rs" "\<not> Suc i < length rs" "fst (rs ! i) \<le> y"
  shows "row_from [] rs y = []"
proof -
  have "i = length rs - 1" "rs \<noteq> []" using assms(2,3) by auto
  then have "snd (rs ! i) = []" using wf_rows_last_nth [OF assms(1)] by simp
  then show ?thesis using row_from_nth [of "[]" rs i y] assms by (simp add: wf_rows_def)
qed

lemma contains_inv_end:
  assumes wf: "wf_rows ra" "wf_rows rb" and inv: "contains_inv ra rb i j ah"
    and fin: "\<not> (Suc i < length ra \<and> Suc j < length rb)"
  shows "\<not> Suc j < length rb \<longleftrightarrow> all_covered ra rb"
proof
  assume j: "\<not> Suc j < length rb"
  have "covers (row_from [] ra y) (row_from [] rb y)" for y
    using inv row_from_end [OF wf(2) _ j, of y] by (cases "y < fst (rb ! j)") (auto simp: contains_inv_def)
  then show "all_covered ra rb" by (simp add: all_covered_def)
next
  assume all: "all_covered ra rb"
  show "\<not> Suc j < length rb"
  proof
    assume j: "Suc j < length rb"
    let ?m = "length rb"
    have ok: "rows_ok [] rb" using wf(2) by (simp add: wf_rows_def)
    have ne: "rb \<noteq> []" and m: "Suc (?m - 2) = ?m - 1" "Suc (?m - 2) < ?m" using j by auto
    define y where "y = fst (rb ! (?m - 1)) - 1"
    have "fst (rb ! (?m - 2)) < fst (rb ! Suc (?m - 2))" using rows_ok_nth [OF ok, of "?m - 2" "Suc (?m - 2)"] m by simp
    then have B: "row_from [] rb y = snd (rb ! (?m - 2))" using row_from_nth [OF ok, of "?m - 2" y] m by (simp add: y_def)
    have "fst (ra ! i) < fst (rb ! Suc j)" using inv j by (simp add: contains_inv_def)
    moreover have "fst (rb ! Suc j) \<le> fst (rb ! (?m - 1))" by (rule rows_ok_nth_le [OF ok]) (use j in linarith)+
    ultimately have "fst (ra ! i) \<le> y" by (simp add: y_def)
    then have "row_from [] ra y = []" using row_from_end [OF wf(1), of i y] fin j inv by (auto simp: contains_inv_def)
    with B have "covers [] (snd (rb ! (?m - 2)))" using all by (metis all_covered_def)
    then show False using wf_rows_before_last [OF wf(2) ne] rows_ok_nth_segs [OF ok, of "?m - 2"] m by simp
  qed
qed

lemma contains_inv_step:
  assumes wf: "wf_rows ra" "wf_rows rb" and inv: "contains_inv ra rb i j ah"
    and n: "Suc i < length ra" "Suc j < length rb"
    and c: "fst (rb ! j) < fst (ra ! Suc i) \<Longrightarrow> covers (snd (ra ! i)) (snd (rb ! j))"
  shows "contains_inv ra rb (if fst (rb ! Suc j) < fst (ra ! Suc i) then i else Suc i)
    (if fst (ra ! Suc i) < fst (rb ! Suc j) then j else Suc j) (snd (ra ! i) \<noteq> [])"
proof -
  have ok: "rows_ok [] ra" "rows_ok [] rb" using wf by (simp_all add: wf_rows_def)
  have lt: "fst (ra ! i) < fst (ra ! Suc i)" "fst (rb ! j) < fst (rb ! Suc j)"
    "Suc (Suc j) < length rb \<longrightarrow> fst (rb ! Suc j) < fst (rb ! Suc (Suc j))"
    using rows_ok_nth [OF ok(1), of i "Suc i"] rows_ok_nth [OF ok(2), of j "Suc j"]
      rows_ok_nth [OF ok(2), of "Suc j" "Suc (Suc j)"] n by simp_all
  have old: "covers (row_from [] ra y) (row_from [] rb y)" if "y < fst (ra ! i) \<or> y < fst (rb ! j)" for y
    using inv that by (auto simp: contains_inv_def)
  have new: "covers (row_from [] ra y) (row_from [] rb y)" if "y < fst (ra ! Suc i)" "y < fst (rb ! Suc j)" for y
  proof (cases "y < fst (ra ! i) \<or> y < fst (rb ! j)")
    case False
    then have "row_from [] ra y = snd (ra ! i)" "row_from [] rb y = snd (rb ! j)"
      using that n by (auto intro!: row_from_nth ok)
    then show ?thesis using c False that by simp
  qed (rule old)
  have b: "covers (snd (ra ! i)) (snd (rb ! j)) \<Longrightarrow> snd (ra ! i) = [] \<Longrightarrow> snd (rb ! j) = []"
    using rows_ok_nth_segs [OF ok(2), of j] n by simp
  have 2: "fst (ra ! i) < fst (rb ! Suc j)" using inv n by (simp add: contains_inv_def)
  consider "fst (rb ! Suc j) < fst (ra ! Suc i)" | "fst (ra ! Suc i) < fst (rb ! Suc j)" | "fst (ra ! Suc i) = fst (rb ! Suc j)"
    by linarith
  then show ?thesis
  proof cases
    case 1
    then show ?thesis using n lt 2 new by (auto simp: contains_inv_def)
  next
    case 2
    have "covers (row_from [] ra y) (row_from [] rb y)" if "y < fst (ra ! Suc i) \<or> y < fst (rb ! j)" for y
      using that new [of y] old [of y] 2 by force
    then show ?thesis using n 2 c b by (auto simp: contains_inv_def)
  next
    case 3
    then show ?thesis using n lt new by (auto simp: contains_inv_def)
  qed
qed

lemma compare_spans_contains:
  assumes wf: "wf_rows ra" "wf_rows rb"
  shows "contains_inv ra rb i j ah \<Longrightarrow>
    compare_spans CompareContainsOperation (shape_of ra) (shape_of rb) True i j ah bh \<longleftrightarrow> all_covered ra rb"
proof (induction "(length ra - i) + (length rb - j)" arbitrary: i j ah bh rule: less_induct)
  case less
  have ok: "rows_ok [] ra" "rows_ok [] rb" using wf by (simp_all add: wf_rows_def)
  show ?case
  proof (cases "Suc i < length ra \<and> Suc j < length rb")
    case False
    then show ?thesis using contains_inv_end [OF wf less.prems False]
      by (subst compare_spans_rows [OF wf]) (auto split: option.splits)
  next
    case True
    then have n: "Suc i < length ra" "Suc j < length rb" by auto
    have segs: "wf_segs (snd (ra ! i))" "wf_segs (snd (rb ! j))"
      using rows_ok_nth_segs [OF ok(1), of i] rows_ok_nth_segs [OF ok(2), of j] n by simp_all
    have lt: "fst (ra ! i) < fst (ra ! Suc i)" "fst (rb ! j) < fst (rb ! Suc j)"
      using rows_ok_nth [OF ok(1), of i "Suc i"] rows_ok_nth [OF ok(2), of j "Suc j"] n by simp_all
    have i2: "fst (ra ! i) < fst (rb ! Suc j)" "(fst (rb ! j) < fst (ra ! i) \<and> \<not> ah \<and> snd (rb ! j) \<noteq> []) = False"
      using less.prems n by (auto simp: contains_inv_def)
    let ?meet = "fst (rb ! j) < fst (ra ! Suc i)" and ?cov = "covers (snd (ra ! i)) (snd (rb ! j))"
    let ?i = "if fst (rb ! Suc j) < fst (ra ! Suc i) then i else Suc i"
    let ?j = "if fst (ra ! Suc i) < fst (rb ! Suc j) then j else Suc j"
    have step: "compare_spans CompareContainsOperation (shape_of ra) (shape_of rb) True i j ah bh \<longleftrightarrow>
      (?meet \<longrightarrow> ?cov) \<and> compare_spans CompareContainsOperation (shape_of ra) (shape_of rb) True ?i ?j
        (snd (ra ! i) \<noteq> []) (snd (rb ! j) \<noteq> [])"
      by (subst compare_spans_rows [OF wf], unfold i2(2)) (simp add: n i2(1) compare_segments_contains [OF segs])
    show ?thesis
    proof (cases "?meet \<longrightarrow> ?cov")
      case True
      then have "contains_inv ra rb ?i ?j (snd (ra ! i) \<noteq> [])" by (intro contains_inv_step [OF wf less.prems n]) simp
      moreover have "(length ra - ?i) + (length rb - ?j) < (length ra - i) + (length rb - j)" using n by auto
      ultimately show ?thesis using step True less.hyps by blast
    next
      case False
      define y where "y = max (fst (ra ! i)) (fst (rb ! j))"
      have "row_from [] ra y = snd (ra ! i)" "row_from [] rb y = snd (rb ! j)"
        using False lt i2(1) n by (auto intro!: row_from_nth ok simp: y_def)
      then show ?thesis using step False by (metis all_covered_def)
    qed
  qed
qed

theorem compareShapes_contains:
  assumes wf: "wf_rows ra" "wf_rows rb"
  shows "compareShapes CompareContainsOperation (shape_of ra) (shape_of rb) \<longleftrightarrow> row_points rb \<subseteq> row_points ra"
proof (cases "ra = [] \<or> rb = []")
  case True
  have l: "Suc 0 < length rb \<longleftrightarrow> rb \<noteq> []" using wf_rows_length [OF wf(2)] by fastforce
  have e: "(Suc 0 < length ra \<and> Suc 0 < length rb) = False" using True by auto
  have "compareShapes CompareContainsOperation (shape_of ra) (shape_of rb) \<longleftrightarrow> rb = []"
    unfolding compareShapes_def by (subst compare_spans_rows [OF wf], unfold e) (simp add: l)
  moreover have "rb \<noteq> [] \<Longrightarrow> row_points rb \<noteq> {}" using is_bbox_nonempty bounds_bbox [OF wf(2)] by blast
  moreover have "row_points [] = {}" by (simp add: row_points_def)
  ultimately show ?thesis using True by (cases "rb = []") simp_all
next
  case False
  then have ne: "ra \<noteq> []" "rb \<noteq> []" by auto
  have ok: "rows_ok [] ra" "rows_ok [] rb" using wf by (simp_all add: wf_rows_def)
  have n: "Suc 0 < length ra" "Suc 0 < length rb" using wf_rows_length [OF wf(1) ne(1)] wf_rows_length [OF wf(2) ne(2)] by simp_all
  have above: "y < fst (rs ! 0) \<Longrightarrow> row_from [] rs y = []" for y rs by (cases rs) auto
  show ?thesis
  proof (cases "fst (rb ! 0) < fst (ra ! 0)")
    case True
    have "row_from [] ra (fst (rb ! 0)) = []" using above True by simp
    moreover have "row_from [] rb (fst (rb ! 0)) = snd (rb ! 0)"
      using rows_ok_nth [OF ok(2), of 0 "Suc 0"] n by (intro row_from_nth [OF ok(2)]) auto
    ultimately have "\<not> all_covered ra rb"
      using wf_rows_first [OF wf(2) ne(2)] rows_ok_nth_segs [OF ok(2), of 0] n unfolding all_covered_def
      by (metis covers_Nil(2) Suc_lessD)
    then show ?thesis using True n wf_rows_first [OF wf(2) ne(2)] unfolding compareShapes_def all_covered_points
      by (subst compare_spans_rows [OF wf]) simp
  next
    case False
    have "covers (row_from [] ra y) (row_from [] rb y)" if "y < fst (ra ! 0) \<or> y < fst (rb ! 0)" for y
      using above [of y rb] that False by auto
    then have "contains_inv ra rb 0 0 False"
      using n False rows_ok_nth [OF ok(2), of 0 "Suc 0"] by (auto simp: contains_inv_def)
    then show ?thesis using compare_spans_contains [OF wf] by (simp add: compareShapes_def flip: all_covered_points)
  qed
qed

subsection \<open>Overlap\<close>

definition apart_above :: "row list \<Rightarrow> row list \<Rightarrow> nat \<Rightarrow> nat \<Rightarrow> bool" where
  "apart_above ra rb i j \<longleftrightarrow> i < length ra \<and> j < length rb \<and>
     (\<forall>y. y < fst (ra ! i) \<or> y < fst (rb ! j) \<longrightarrow> \<not> meets (row_from [] ra y) (row_from [] rb y))"

definition some_meet :: "row list \<Rightarrow> row list \<Rightarrow> bool" where
  "some_meet ra rb \<longleftrightarrow> (\<exists>y. meets (row_from [] ra y) (row_from [] rb y))"

lemma some_meet_points: "some_meet ra rb \<longleftrightarrow> row_points ra \<inter> row_points rb \<noteq> {}"
  by (auto simp: some_meet_def meets_def row_points_def)

lemma apart_above_step:
  assumes wf: "wf_rows ra" "wf_rows rb" and inv: "apart_above ra rb i j"
    and n: "Suc i < length ra" "Suc j < length rb"
    and c: "fst (ra ! i) < fst (rb ! Suc j) \<Longrightarrow> fst (rb ! j) < fst (ra ! Suc i) \<Longrightarrow> \<not> meets (snd (ra ! i)) (snd (rb ! j))"
  shows "apart_above ra rb (if fst (rb ! Suc j) < fst (ra ! Suc i) then i else Suc i)
    (if fst (ra ! Suc i) < fst (rb ! Suc j) then j else Suc j)"
proof -
  have ok: "rows_ok [] ra" "rows_ok [] rb" using wf by (simp_all add: wf_rows_def)
  have old: "\<not> meets (row_from [] ra y) (row_from [] rb y)" if "y < fst (ra ! i) \<or> y < fst (rb ! j)" for y
    using inv that by (auto simp: apart_above_def)
  have new: "\<not> meets (row_from [] ra y) (row_from [] rb y)" if "y < fst (ra ! Suc i)" "y < fst (rb ! Suc j)" for y
  proof (cases "y < fst (ra ! i) \<or> y < fst (rb ! j)")
    case False
    then have "row_from [] ra y = snd (ra ! i)" "row_from [] rb y = snd (rb ! j)"
      using that n by (auto intro!: row_from_nth ok)
    then show ?thesis using c False that by simp
  qed (rule old)
  consider "fst (rb ! Suc j) < fst (ra ! Suc i)" | "fst (ra ! Suc i) < fst (rb ! Suc j)" | "fst (ra ! Suc i) = fst (rb ! Suc j)"
    by linarith
  then show ?thesis
  proof cases
    case 1
    have "\<not> meets (row_from [] ra y) (row_from [] rb y)" if "y < fst (ra ! i) \<or> y < fst (rb ! Suc j)" for y
      using that new [of y] old [of y] 1 by force
    then show ?thesis using n 1 by (auto simp: apart_above_def)
  next
    case 2
    have "\<not> meets (row_from [] ra y) (row_from [] rb y)" if "y < fst (ra ! Suc i) \<or> y < fst (rb ! j)" for y
      using that new [of y] old [of y] 2 by force
    then show ?thesis using n 2 by (auto simp: apart_above_def)
  next
    case 3
    then show ?thesis using n new by (auto simp: apart_above_def)
  qed
qed

lemma compare_spans_intersects:
  assumes wf: "wf_rows ra" "wf_rows rb"
  shows "apart_above ra rb i j \<Longrightarrow>
    compare_spans CompareIntersectsOperation (shape_of ra) (shape_of rb) False i j ah bh \<longleftrightarrow> some_meet ra rb"
proof (induction "(length ra - i) + (length rb - j)" arbitrary: i j ah bh rule: less_induct)
  case less
  have ok: "rows_ok [] ra" "rows_ok [] rb" using wf by (simp_all add: wf_rows_def)
  show ?case
  proof (cases "Suc i < length ra \<and> Suc j < length rb")
    case False
    have "\<not> meets (row_from [] ra y) (row_from [] rb y)" for y
    proof (cases "y < fst (ra ! i) \<or> y < fst (rb ! j)")
      case True
      then show ?thesis using less.prems by (auto simp: apart_above_def)
    next
      case F: False
      then have "row_from [] ra y = [] \<or> row_from [] rb y = []"
        using False less.prems row_from_end [OF wf(1), of i y] row_from_end [OF wf(2), of j y] by (auto simp: apart_above_def)
      then show ?thesis by auto
    qed
    moreover have e: "(Suc i < length ra \<and> Suc j < length rb) = False" using False by simp
    have "\<not> compare_spans CompareIntersectsOperation (shape_of ra) (shape_of rb) False i j ah bh"
      by (subst compare_spans_rows [OF wf], unfold e) simp
    ultimately show ?thesis by (simp add: some_meet_def)
  next
    case True
    then have n: "Suc i < length ra" "Suc j < length rb" by auto
    have segs: "wf_segs (snd (ra ! i))" "wf_segs (snd (rb ! j))"
      using rows_ok_nth_segs [OF ok(1), of i] rows_ok_nth_segs [OF ok(2), of j] n by simp_all
    have lt: "fst (ra ! i) < fst (ra ! Suc i)" "fst (rb ! j) < fst (rb ! Suc j)"
      using rows_ok_nth [OF ok(1), of i "Suc i"] rows_ok_nth [OF ok(2), of j "Suc j"] n by simp_all
    let ?over = "fst (rb ! Suc j) > fst (ra ! i) \<and> fst (rb ! j) < fst (ra ! Suc i)"
    let ?meet = "meets (snd (ra ! i)) (snd (rb ! j))"
    let ?i = "if fst (rb ! Suc j) < fst (ra ! Suc i) then i else Suc i"
    let ?j = "if fst (ra ! Suc i) < fst (rb ! Suc j) then j else Suc j"
    have step: "compare_spans CompareIntersectsOperation (shape_of ra) (shape_of rb) False i j ah bh \<longleftrightarrow>
      (?over \<and> ?meet) \<or> compare_spans CompareIntersectsOperation (shape_of ra) (shape_of rb) False ?i ?j
        (snd (ra ! i) \<noteq> []) (snd (rb ! j) \<noteq> [])"
      by (subst compare_spans_rows [OF wf], cases "fst (ra ! i) < fst (rb ! Suc j)"; cases "fst (rb ! j) < fst (ra ! Suc i)")
        (simp_all add: n compare_segments_intersects [OF segs])
    show ?thesis
    proof (cases "?over \<and> ?meet")
      case False
      then have "apart_above ra rb ?i ?j" by (intro apart_above_step [OF wf less.prems n]) auto
      moreover have "(length ra - ?i) + (length rb - ?j) < (length ra - i) + (length rb - j)" using n by auto
      ultimately show ?thesis using step False less.hyps by blast
    next
      case True
      define y where "y = max (fst (ra ! i)) (fst (rb ! j))"
      have "row_from [] ra y = snd (ra ! i)" "row_from [] rb y = snd (rb ! j)"
        using True lt n by (auto intro!: row_from_nth ok simp: y_def)
      then show ?thesis using step True by (metis some_meet_def)
    qed
  qed
qed

theorem compareShapes_intersects:
  assumes wf: "wf_rows ra" "wf_rows rb"
  shows "compareShapes CompareIntersectsOperation (shape_of ra) (shape_of rb) \<longleftrightarrow> row_points ra \<inter> row_points rb \<noteq> {}"
proof (cases "ra = [] \<or> rb = []")
  case True
  then have e: "(Suc 0 < length ra \<and> Suc 0 < length rb) = False" by auto
  have "\<not> compareShapes CompareIntersectsOperation (shape_of ra) (shape_of rb)"
    unfolding compareShapes_def by (subst compare_spans_rows [OF wf], unfold e) simp
  moreover have "row_points [] = {}" by (simp add: row_points_def)
  ultimately show ?thesis using True by (elim disjE) simp_all
next
  case False
  have above: "y < fst (rs ! 0) \<Longrightarrow> row_from [] rs y = []" for y rs by (cases rs) auto
  have "\<not> meets (row_from [] ra y) (row_from [] rb y)" if "y < fst (ra ! 0) \<or> y < fst (rb ! 0)" for y
    using above [of y ra] above [of y rb] that by auto
  then have "apart_above ra rb 0 0" using False by (simp add: apart_above_def)
  then show ?thesis using compare_spans_intersects [OF wf] by (simp add: compareShapes_def flip: some_meet_points)
qed

subsection \<open>A point\<close>

lemma point_in_segments_inside: "wf_segs segs \<Longrightarrow> point_in_segments px segs \<longleftrightarrow> inside segs px"
proof (induction px segs rule: point_in_segments.induct)
  case (1 px x x' segs)
  show ?case using wf_segs_Cons [OF 1(2)] 1 by auto
qed simp_all

lemma point_in_spans_rows:
  assumes wf: "wf_rows rs"
  shows "point_in_spans (shape_of rs) px py [i ..< length rs - 1] \<longleftrightarrow>
    (\<exists>j \<ge> i. Suc j < length rs \<and> fst (rs ! j) \<le> py \<and> py < fst (rs ! Suc j) \<and> inside (snd (rs ! j)) px)"
proof (induction "length rs - i" arbitrary: i rule: less_induct)
  case less
  have ok: "rows_ok [] rs" and l: "row_last rs = []" using wf by (simp_all add: wf_rows_def)
  show ?case
  proof (cases "i < length rs - 1")
    case True
    have lt: "fst (rs ! i) \<le> fst (rs ! j)" if "i \<le> j" "Suc j < length rs" for j
      using rows_ok_nth_le [OF ok, of i j] that by simp
    have segs: "wf_segs (snd (rs ! i))" using rows_ok_nth_segs [OF ok, of i] True by simp
    have ex: "(\<exists>j \<ge> i. P j) \<longleftrightarrow> P i \<or> (\<exists>j \<ge> Suc i. P j)" for P by (metis Suc_le_eq le_eq_less_or_eq)
    have IH: "point_in_spans (shape_of rs) px py [Suc i ..< length rs - 1] \<longleftrightarrow>
      (\<exists>j \<ge> Suc i. Suc j < length rs \<and> fst (rs ! j) \<le> py \<and> py < fst (rs ! Suc j) \<and> inside (snd (rs ! j)) px)"
      using less.hyps [of "Suc i"] True by simp
    have up: "[i ..< length rs - 1] = i # [Suc i ..< length rs - 1]" using True by (simp add: upt_conv_Cons)
    show ?thesis
    proof (cases "py < fst (rs ! i)")
      case py: True
      then show ?thesis using lt True unfolding up by (fastforce simp: Let_def)
    next
      case False
      then show ?thesis unfolding up ex [of "\<lambda>j. Suc j < length rs \<and> fst (rs ! j) \<le> py \<and> py < fst (rs ! Suc j) \<and> inside (snd (rs ! j)) px"]
        using True segs IH by (auto simp: Let_def span_segments_shape_of l point_in_segments_inside)
    qed
  qed auto
qed

end
