(* ===== verification/Region_Sets.thy ===== *)
theory Region_Sets
  imports Region_Compare
begin

text \<open>
  Regions as pixel sets: the invariant of a region, and what every operation of the class does to
  its pixels.
\<close>

subsection \<open>Pixels and the invariant\<close>

definition shape_points :: "shape \<Rightarrow> (int \<times> int) set" where
  "shape_points s = {(x, y). \<exists>i. Suc i < length (m_spans s) \<and> spanY (m_spans s ! i) \<le> y \<and>
     y < spanY (m_spans s ! Suc i) \<and> inside (span_segments s i) x}"

definition shape_rows :: "shape \<Rightarrow> row list" where
  "shape_rows s = map (\<lambda>i. (spanY (m_spans s ! i), span_segments s i)) [0 ..< length (m_spans s)]"

definition canonical :: "shape \<Rightarrow> bool" where
  "canonical s \<longleftrightarrow> shape_of (shape_rows s) = s \<and> wf_rows (shape_rows s)"

definition region_ok :: "region \<Rightarrow> bool" where
  "region_ok r \<longleftrightarrow> canonical (m_shape r) \<and> small_rect (m_bounds r) \<and>
     (if Shape_isEmpty (m_shape r) then IntRect_isEmpty (m_bounds r) else m_bounds r = Shape_bounds (m_shape r))"

definition region_points :: "region \<Rightarrow> (int \<times> int) set" where
  "region_points r = shape_points (m_shape r)"

lemma shape_rows_shape_of: "row_last rs = [] \<Longrightarrow> shape_rows (shape_of rs) = rs"
  by (rule nth_equalityI) (auto simp: shape_rows_def span_segments_shape_of)

lemma canonical_shape_of: "wf_rows rs \<Longrightarrow> canonical (shape_of rs)"
  by (simp add: canonical_def shape_rows_shape_of wf_rows_def)

lemma canonicalE:
  assumes "canonical s"
  obtains rs where "s = shape_of rs" "wf_rows rs"
  using assms by (metis canonical_def)

lemma shape_points_shape_of:
  assumes "wf_rows rs"
  shows "shape_points (shape_of rs) = row_points rs"
proof -
  have "row_last rs = []" using assms by (simp add: wf_rows_def)
  then have "(Suc i < length rs \<and> spanY (m_spans (shape_of rs) ! i) \<le> y \<and> y < spanY (m_spans (shape_of rs) ! Suc i) \<and>
      inside (span_segments (shape_of rs) i) x) \<longleftrightarrow>
    (Suc i < length rs \<and> fst (rs ! i) \<le> y \<and> y < fst (rs ! Suc i) \<and> inside (snd (rs ! i)) x)" for i x y
    by (auto simp: span_segments_shape_of)
  then show ?thesis using row_points_nth [OF assms] by (auto simp: shape_points_def)
qed

lemma shape_empty_points [simp]: "shape_points shape_empty = {}" "canonical shape_empty" "Shape_isEmpty shape_empty"
  using canonical_shape_of [of "[]"]
  by (auto simp: shape_points_def shape_empty_def Shape_isEmpty_def shape_of_def wf_rows_def row_last_def)

lemma canonical_bbox:
  assumes "canonical s" "\<not> Shape_isEmpty s"
  shows "is_bbox (shape_points s) (Shape_bounds s)"
proof -
  obtain rs where rs: "s = shape_of rs" "wf_rows rs" by (rule canonicalE [OF assms(1)])
  then show ?thesis using bounds_bbox [OF rs(2)] assms(2) by (simp add: shape_points_shape_of Shape_isEmpty_def)
qed

lemma canonical_empty_iff: "canonical s \<Longrightarrow> Shape_isEmpty s \<longleftrightarrow> shape_points s = {}"
  using canonical_bbox [of s] is_bbox_nonempty [of "shape_points s"]
  by (auto simp: shape_points_def Shape_isEmpty_def)

text \<open>A canonical shape is determined by its pixels.\<close>

lemma canonical_unique:
  assumes "canonical s" "canonical t" "shape_points s = shape_points t"
  shows "s = t"
  using assms wf_rows_unique shape_points_shape_of by (metis canonical_def)

lemma canonical_operation:
  assumes "op \<in> {UnionOperation, IntersectOperation, SubtractOperation}" "canonical s" "canonical t"
  shows "canonical (shapeOperation op s t)"
    "shape_points (shapeOperation op s t) = {(x, y). keeps op ((x, y) \<in> shape_points s) ((x, y) \<in> shape_points t)}"
proof -
  obtain r1 r2 where r: "s = shape_of r1" "wf_rows r1" "t = shape_of r2" "wf_rows r2"
    using assms(2,3) by (metis canonicalE)
  obtain r where "shapeOperation op s t = shape_of r" "wf_rows r"
    "row_points r = {(x, y). keeps op ((x, y) \<in> row_points r1) ((x, y) \<in> row_points r2)}"
    using shapeOperation_points [OF assms(1) r(2,4)] unfolding r by blast
  then show "canonical (shapeOperation op s t)"
    "shape_points (shapeOperation op s t) = {(x, y). keeps op ((x, y) \<in> shape_points s) ((x, y) \<in> shape_points t)}"
    using r by (simp_all add: canonical_shape_of shape_points_shape_of)
qed

lemma canonical_operations:
  assumes "canonical s" "canonical t"
  shows "canonical (unionShapes s t)" "shape_points (unionShapes s t) = shape_points s \<union> shape_points t"
    "canonical (intersectShapes s t)" "shape_points (intersectShapes s t) = shape_points s \<inter> shape_points t"
    "canonical (subtractShapes s t)" "shape_points (subtractShapes s t) = shape_points s - shape_points t"
  using canonical_operation [OF _ assms] by (auto simp: unionShapes_def intersectShapes_def subtractShapes_def)

lemma canonical_compare:
  assumes "canonical s" "canonical t"
  shows "compareShapes CompareContainsOperation s t \<longleftrightarrow> shape_points t \<subseteq> shape_points s"
    "compareShapes CompareIntersectsOperation s t \<longleftrightarrow> shape_points s \<inter> shape_points t \<noteq> {}"
  using assms compareShapes_contains compareShapes_intersects by (metis canonical_def shape_points_shape_of)+

subsection \<open>Regions\<close>

lemma region_ok_cases:
  assumes "region_ok r"
  obtains "region_points r = {}" "IntRect_isEmpty (m_bounds r)" "Shape_isEmpty (m_shape r)"
  | "is_bbox (region_points r) (m_bounds r)" "\<not> IntRect_isEmpty (m_bounds r)" "\<not> Shape_isEmpty (m_shape r)"
proof (cases "Shape_isEmpty (m_shape r)")
  case True
  then show ?thesis using that(1) assms canonical_empty_iff by (auto simp: region_ok_def region_points_def)
next
  case False
  then have "is_bbox (region_points r) (m_bounds r)"
    using assms canonical_bbox by (simp add: region_ok_def region_points_def)
  then show ?thesis using that(2) is_bbox_nonempty False by blast
qed

lemma region_ok_bounds:
  assumes "region_ok r"
  shows "region_points r \<subseteq> rect_points (m_bounds r)" "Region_isEmpty r \<longleftrightarrow> region_points r = {}"
    "Shape_isEmpty (m_shape r) \<longleftrightarrow> region_points r = {}" "small_rect (m_bounds r)" "canonical (m_shape r)"
  by (rule region_ok_cases [OF assms]; use assms is_bbox_nonempty in \<open>auto simp: is_bbox_def Region_isEmpty_def region_ok_def\<close>)+

lemma region_okI:
  assumes "canonical s" "shape_points s = {} \<Longrightarrow> IntRect_isEmpty b \<and> small_rect b"
    "shape_points s \<noteq> {} \<Longrightarrow> is_bbox (shape_points s) b"
  shows "region_ok \<lparr>m_bounds = b, m_shape = s\<rparr>"
proof (cases "Shape_isEmpty s")
  case True
  then show ?thesis using assms canonical_empty_iff [OF assms(1)] by (simp add: region_ok_def)
next
  case False
  then have "is_bbox (shape_points s) b" using assms canonical_empty_iff [OF assms(1)] by simp
  then have "b = Shape_bounds s" "small_rect b"
    using is_bbox_unique canonical_bbox [OF assms(1) False] by (auto simp: is_bbox_def)
  then show ?thesis using False assms(1) by (simp add: region_ok_def)
qed

lemma region_ok_shape:
  assumes "canonical s"
  shows "region_ok \<lparr>m_bounds = Shape_bounds s, m_shape = s\<rparr>"
  using assms canonical_bbox [OF assms] canonical_empty_iff [OF assms]
  by (intro region_okI) (auto simp: Shape_bounds_def IntRect_isEmpty_def int_rect_zero_def small_rect_def)

subsection \<open>Queries\<close>

lemma Region_contains_points:
  assumes "region_ok r" "region_ok other" "region_points other \<noteq> {}"
  shows "Region_contains r other \<longleftrightarrow> region_points other \<subseteq> region_points r"
proof -
  note b = region_ok_bounds [OF assms(1)] and c = region_ok_bounds [OF assms(2)]
  have ne: "\<not> IntRect_isEmpty (m_bounds other)" using assms(3) c(2) by (simp add: Region_isEmpty_def)
  have bb: "is_bbox (region_points other) (m_bounds other)" by (rule region_ok_cases [OF assms(2)]) (use assms(3) in auto)
  have "region_points other \<subseteq> region_points r \<Longrightarrow> IntRect_contains (m_bounds r) (m_bounds other)"
    using contains_points [OF b(4) c(4) ne] is_bbox_least [OF bb] b(1) by blast
  then show ?thesis using canonical_compare(1) [OF b(5) c(5)] by (auto simp: Region_contains_def region_points_def)
qed

lemma Region_intersects_points:
  assumes "region_ok r" "region_ok other"
  shows "Region_intersects r other \<longleftrightarrow> region_points r \<inter> region_points other \<noteq> {}"
proof -
  note b = region_ok_bounds [OF assms(1)] and c = region_ok_bounds [OF assms(2)]
  have "region_points r \<inter> region_points other \<noteq> {} \<Longrightarrow> IntRect_intersects (m_bounds r) (m_bounds other)"
    using intersects_points [OF b(4) c(4)] b(1) c(1) by blast
  then show ?thesis using canonical_compare(2) [OF b(5) c(5)] by (auto simp: Region_intersects_def region_points_def)
qed

lemma Region_contains_point_points:
  assumes "region_ok r"
  shows "Region_contains_point r px py \<longleftrightarrow> (px, py) \<in> region_points r"
proof -
  note b = region_ok_bounds [OF assms]
  obtain rs where rs: "m_shape r = shape_of rs" "wf_rows rs" by (rule canonicalE [OF b(5)])
  have "point_in_spans (shape_of rs) px py [0 ..< length rs - 1] \<longleftrightarrow> (px, py) \<in> region_points r"
    using point_in_spans_rows [OF rs(2), of px py 0] row_points_nth [OF rs(2), of px py]
    by (simp add: region_points_def rs shape_points_shape_of)
  then show ?thesis using b(1) contains_point_points [OF b(4), of px py] rs(1) by (auto simp: Region_contains_point_def)
qed

subsection \<open>Rectangles\<close>

lemma shape_of_rect_rows: "shape_of_rect r = shape_of [(rectY r, [rectX r, maxX r]), (maxY r, [])]"
  by (simp add: shape_of_rect_def appendSpanY_def appendSegment_def shape_empty_def shape_of_def row_offset_def)

lemma rect_rows:
  assumes "small x" "small x'" "small y" "small y'" "x < x'" "y < y'"
  shows "wf_rows [(y, [x, x']), (y', [])]" "row_points [(y, [x, x']), (y', [])] = {(a, b). x \<le> a \<and> a < x' \<and> y \<le> b \<and> b < y'}"
  using assms by (auto simp: wf_rows_def wf_segs_def row_last_def row_points_def split: if_splits)

lemma is_bbox_rect: "small_rect r \<Longrightarrow> \<not> IntRect_isEmpty r \<Longrightarrow> is_bbox (rect_points r) r"
  by (auto simp: is_bbox_def rect_points_def IntRect_isEmpty_def)

lemma region_of_rect_points:
  assumes "small_rect r" "\<not> IntRect_isEmpty r"
  shows "region_ok (region_of_rect r)" "region_points (region_of_rect r) = rect_points r"
proof -
  have s: "small (rectX r)" "small (rectX r + rectWidth r)" "small (rectY r)" "small (rectY r + rectHeight r)"
    "rectX r < rectX r + rectWidth r" "rectY r < rectY r + rectHeight r"
    using assms by (auto simp: small_rect_def IntRect_isEmpty_def)
  note rows = rect_rows [OF s]
  have sh: "canonical (shape_of_rect r)" "shape_points (shape_of_rect r) = rect_points r"
    using rows canonical_shape_of [OF rows(1)]
    by (simp_all add: shape_of_rect_rows max_small [OF assms(1)] shape_points_shape_of rect_points_def)
  show "region_points (region_of_rect r) = rect_points r" by (simp add: region_points_def region_of_rect_def sh(2))
  show "region_ok (region_of_rect r)" unfolding region_of_rect_def
    using sh is_bbox_rect [OF assms] is_bbox_nonempty by (intro region_okI) auto
qed

lemma region_empty_points: "region_ok region_empty" "region_points region_empty = {}"
  by (auto simp: region_empty_def region_points_def IntRect_isEmpty_def int_rect_zero_def small_rect_def intro!: region_okI)

text \<open>A region that says it is a rectangle is its bounding rectangle.\<close>

lemma Region_isRect_points:
  assumes "region_ok r" "Region_isRect r"
  shows "region_points r = rect_points (m_bounds r)"
proof (cases "region_points r = {}")
  case True
  then show ?thesis using region_ok_bounds(2) [OF assms(1)] isEmpty_points by (simp add: Region_isEmpty_def)
next
  case False
  have bb: "is_bbox (region_points r) (m_bounds r)" by (rule region_ok_cases [OF assms(1)]) (use False in auto)
  obtain rs where rs: "m_shape r = shape_of rs" "wf_rows rs" by (rule canonicalE [OF region_ok_bounds(5) [OF assms(1)]])
  have ne: "rs \<noteq> []" using False region_ok_bounds(3) [OF assms(1)] by (auto simp: rs Shape_isEmpty_def)
  have len: "length rs \<le> 2" "length (concat (map snd rs)) \<le> 2"
    using assms(2) by (simp_all add: Region_isRect_def Shape_isRect_def rs)
  obtain p q where pq: "rs = [p, q]"
    using wf_rows_length [OF rs(2) ne] len(1) by (auto simp: length_Suc_conv numeral_2_eq_2 Suc_le_eq le_Suc_eq)
  obtain y a y' where ya: "p = (y, a)" "q = (y', [])" 
    using rs(2) by (cases p; cases q) (auto simp: pq wf_rows_def row_last_def)
  have a: "wf_segs a" "a \<noteq> []" "small y" "small y'" "y < y'" using rs(2) by (simp_all add: wf_rows_def pq ya)
  obtain x x' where xx: "a = [x, x']"
    using a(1,2) len(2) by (cases a rule: remdups_adj.cases) (auto simp: pq ya)
  have s: "small x" "small x'" "x < x'" using a(1) by (simp_all add: xx wf_segs_def)
  have "region_points r = rect_points (rect_from_edges x y x' y')"
    using rect_rows(2) [OF s(1,2) a(3,4) s(3) a(5)] rs(2)
    by (simp add: region_points_def rs(1) shape_points_shape_of rect_from_edges_points s a pq ya xx)
  moreover have "is_bbox (rect_points (rect_from_edges x y x' y')) (rect_from_edges x y x' y')"
    using s a small_rect_from_edges [OF s(1) a(3) s(2) a(4)] by (intro is_bbox_rect) (auto simp: IntRect_isEmpty_def)
  ultimately show ?thesis using is_bbox_unique bb by metis
qed

subsection \<open>Operations\<close>

lemma Region_intersect_points:
  assumes "region_ok r" "region_ok other"
  shows "region_ok (Region_intersect r other)" "region_points (Region_intersect r other) = region_points r \<inter> region_points other"
proof -
  note b = region_ok_bounds [OF assms(1)] and c = region_ok_bounds [OF assms(2)]
  note ops = canonical_operations(3,4) [OF b(5) c(5)]
  have apart: "\<not> IntRect_intersects (m_bounds r) (m_bounds other) \<Longrightarrow> region_points r \<inter> region_points other = {}"
    using intersects_points [OF b(4) c(4)] b(1) c(1) by blast
  show "region_ok (Region_intersect r other)"
    using assms(1) region_ok_shape [OF ops(1)] region_empty_points(1)
    by (simp add: Region_intersect_def Let_def region_empty_def)
  show "region_points (Region_intersect r other) = region_points r \<inter> region_points other"
    using apart b(2) ops(2) by (auto simp: Region_intersect_def Let_def region_points_def Region_isEmpty_def)
qed

lemma Region_subtract_points:
  assumes "region_ok r" "region_ok other"
  shows "region_ok (Region_subtract r other)" "region_points (Region_subtract r other) = region_points r - region_points other"
proof -
  note b = region_ok_bounds [OF assms(1)] and c = region_ok_bounds [OF assms(2)]
  note ops = canonical_operations(5,6) [OF b(5) c(5)]
  have apart: "\<not> IntRect_intersects (m_bounds r) (m_bounds other) \<Longrightarrow> region_points r \<inter> region_points other = {}"
    using intersects_points [OF b(4) c(4)] b(1) c(1) by blast
  show "region_ok (Region_subtract r other)"
    using assms(1) region_ok_shape [OF ops(1)] by (simp add: Region_subtract_def Let_def)
  show "region_points (Region_subtract r other) = region_points r - region_points other"
    using apart b(2) c(2) ops(2) by (auto simp: Region_subtract_def Let_def region_points_def Region_isEmpty_def)
qed

lemma Region_unite_points:
  assumes "region_ok r" "region_ok other"
  shows "region_ok (Region_unite r other) \<and> region_points (Region_unite r other) = region_points r \<union> region_points other"
proof (cases "region_points other = {}")
  case True
  then show ?thesis using assms region_ok_bounds(2) [OF assms(2)] by (simp add: Region_unite_def)
next
  case ne: False
  note b = region_ok_bounds [OF assms(1)] and c = region_ok_bounds [OF assms(2)]
  note ops = canonical_operations(1,2) [OF b(5) c(5)]
  have nb: "\<not> IntRect_isEmpty (m_bounds other)" "\<not> Region_isEmpty other" using ne c(2) by (simp_all add: Region_isEmpty_def)
  have bb: "is_bbox (region_points other) (m_bounds other)" by (rule region_ok_cases [OF assms(2)]) (use ne in auto)
  consider "Region_isRect r" "IntRect_contains (m_bounds r) (m_bounds other)"
    | "\<not> (Region_isRect r \<and> IntRect_contains (m_bounds r) (m_bounds other))"
      "Region_isRect other" "IntRect_contains (m_bounds other) (m_bounds r)"
    | "\<not> Region_isRect r" "Region_contains r other" "\<not> (Region_isRect other \<and> IntRect_contains (m_bounds other) (m_bounds r))"
    | "Region_unite r other = \<lparr>m_bounds = IntRect_unite (m_bounds r) (m_bounds other), m_shape = unionShapes (m_shape r) (m_shape other)\<rparr>"
    using nb(2) by (fastforce simp: Region_unite_def)
  then show ?thesis
  proof cases
    case 1
    then have "region_points other \<subseteq> region_points r"
      using contains_points [OF b(4) c(4) nb(1)] Region_isRect_points [OF assms(1)] c(1) by blast
    then show ?thesis using 1 assms(1) nb(2) by (auto simp: Region_unite_def)
  next
    case 2
    have "region_points r \<subseteq> region_points other"
    proof (cases "region_points r = {}")
      case False
      then have "\<not> IntRect_isEmpty (m_bounds r)" using b(2) by (simp add: Region_isEmpty_def)
      then show ?thesis using contains_points [OF c(4) b(4)] 2 Region_isRect_points [OF assms(2)] b(1) by blast
    qed simp
    moreover have "Region_unite r other = other" using 2 nb(2) by (auto simp: Region_unite_def)
    ultimately show ?thesis using assms(2) by auto
  next
    case 3
    then have "region_points other \<subseteq> region_points r" using Region_contains_points [OF assms ne] by simp
    then show ?thesis using 3 assms(1) nb(2) by (auto simp: Region_unite_def)
  next
    case 4
    have "is_bbox (region_points r \<union> region_points other) (IntRect_unite (m_bounds r) (m_bounds other))"
    proof (rule region_ok_cases [OF assms(1)])
      assume "region_points r = {}" "IntRect_isEmpty (m_bounds r)"
      then show ?thesis using bb nb(1) by (simp add: IntRect_unite_def)
    qed (rule is_bbox_unite [OF _ bb])
    then have "region_ok (Region_unite r other)"
      unfolding 4 using ops ne by (intro region_okI) (auto simp: region_points_def)
    then show ?thesis using ops(2) by (simp add: 4 region_points_def)
  qed
qed

end
