(* ===== verification/Region_Rects.thy ===== *)
theory Region_Rects
  imports Region_Sets
begin

text \<open>
  The rectangles of a region tile it, \<^verbatim>\<open>totalArea\<close> counts its pixels, and \<^verbatim>\<open>translate\<close> shifts them.
\<close>

subsection \<open>Tiles\<close>

lemma rect_points_card: "card (rect_points r) = nat (rectWidth r) * nat (rectHeight r)" "finite (rect_points r)"
proof -
  have "rect_points r = {rectX r ..< rectX r + rectWidth r} \<times> {rectY r ..< rectY r + rectHeight r}"
    by (auto simp: rect_points_def)
  then show "card (rect_points r) = nat (rectWidth r) * nat (rectHeight r)" "finite (rect_points r)"
    by (simp_all add: card_cartesian_product)
qed

definition apart :: "int_rect \<Rightarrow> int_rect \<Rightarrow> bool" where
  "apart r s \<longleftrightarrow> rect_points r \<inter> rect_points s = {}"

lemma apartI: "(\<And>px py. (px, py) \<in> rect_points r \<Longrightarrow> (px, py) \<in> rect_points s \<Longrightarrow> False) \<Longrightarrow> apart r s"
  by (auto simp: apart_def)

definition tile_area :: "int_rect list \<Rightarrow> int" where
  "tile_area rects = (\<Sum>r \<leftarrow> rects. rectWidth r * rectHeight r)"

lemma tiles_card:
  "sorted_wrt apart rects \<Longrightarrow> \<forall>r \<in> set rects. \<not> IntRect_isEmpty r \<Longrightarrow>
   int (card (\<Union> (rect_points ` set rects))) = tile_area rects"
proof (induction rects)
  case (Cons r rects)
  have "rect_points r \<inter> \<Union> (rect_points ` set rects) = {}" using Cons.prems(1) by (auto simp: apart_def)
  then have "card (\<Union> (rect_points ` set (r # rects))) = card (rect_points r) + card (\<Union> (rect_points ` set rects))"
    by (simp add: card_Un_disjoint rect_points_card(2))
  moreover have "int (card (rect_points r)) = rectWidth r * rectHeight r"
    using Cons.prems(2) by (simp add: rect_points_card(1) IntRect_isEmpty_def)
  ultimately show ?case using Cons by (simp add: tile_area_def)
qed (simp add: tile_area_def)

lemma segment_rects_points:
  "wf_segs segs \<Longrightarrow> (px, py) \<in> \<Union> (rect_points ` set (segment_rects y h segs)) \<longleftrightarrow> inside segs px \<and> y \<le> py \<and> py < y + h"
proof (induction y h segs rule: segment_rects.induct)
  case (1 y h x x' segs)
  note w = wf_segs_Cons [OF 1(2)]
  have "i32 (x' - x) = x' - x" using 1(2) by (simp add: wf_segs_def small_i32)
  then show ?case using 1(1) [OF w(2)] unfolding w(5) by (auto simp: rect_points_def)
qed simp_all

lemma segment_rects_apart: "wf_segs segs \<Longrightarrow> sorted_wrt apart (segment_rects y h segs)"
proof (induction y h segs rule: segment_rects.induct)
  case (1 y h x x' segs)
  note w = wf_segs_Cons [OF 1(2)]
  have eq: "i32 (x' - x) = x' - x" using 1(2) by (simp add: wf_segs_def small_i32)
  have "apart \<lparr>rectX = x, rectY = y, rectWidth = i32 (x' - x), rectHeight = h\<rparr> r" if "r \<in> set (segment_rects y h segs)" for r
  proof -
    have "x' < px" if "(px, py) \<in> rect_points r" for px py
      using that segment_rects_points [OF w(2), of px py y h] \<open>r \<in> _\<close> w(4) [of px] by fastforce
    moreover have "px < x'" if "(px, py) \<in> rect_points \<lparr>rectX = x, rectY = y, rectWidth = i32 (x' - x), rectHeight = h\<rparr>" for px py
      using that by (simp add: rect_points_def eq)
    ultimately show ?thesis by (meson apartI less_asym)
  qed
  then show ?case using 1(1) [OF w(2)] by simp
qed simp_all

lemma segment_rects_nonempty: "wf_segs segs \<Longrightarrow> 0 < h \<Longrightarrow> r \<in> set (segment_rects y h segs) \<Longrightarrow> \<not> IntRect_isEmpty r"
proof (induction y h segs rule: segment_rects.induct)
  case (1 y h x x' segs)
  note w = wf_segs_Cons [OF 1(2)]
  have "i32 (x' - x) = x' - x" using 1(2) by (simp add: wf_segs_def small_i32)
  then show ?case using 1 w(1,2) by (auto simp: IntRect_isEmpty_def)
qed simp_all

definition row_rects :: "row list \<Rightarrow> nat \<Rightarrow> int_rect list" where
  "row_rects rs k = concat (map (\<lambda>i. segment_rects (fst (rs ! i)) (fst (rs ! Suc i) - fst (rs ! i)) (snd (rs ! i))) [0 ..< k])"

lemma Region_rects_rows:
  assumes "m_shape r = shape_of rs" "wf_rows rs"
  shows "Region_rects r = row_rects rs (length rs - 1)"
proof -
  have "rows_ok [] rs" "row_last rs = []" using assms(2) by (simp_all add: wf_rows_def)
  then have "i < length rs - 1 \<Longrightarrow> i32 (fst (rs ! Suc i) - fst (rs ! i)) = fst (rs ! Suc i) - fst (rs ! i)" for i
    using rows_ok_nth_segs [of "[]" rs] by (simp add: small_i32)
  then show ?thesis using \<open>row_last rs = []\<close> unfolding Region_rects_def row_rects_def assms(1) Let_def
    by (auto simp: span_segments_shape_of intro!: arg_cong [of _ _ concat])
qed

lemma row_rects_tiles:
  assumes wf: "wf_rows rs"
  shows "k < length rs \<Longrightarrow> sorted_wrt apart (row_rects rs k)"
    "k < length rs \<Longrightarrow> \<forall>r \<in> set (row_rects rs k). \<not> IntRect_isEmpty r"
    "k < length rs \<Longrightarrow> (px, py) \<in> \<Union> (rect_points ` set (row_rects rs k)) \<longleftrightarrow>
      (\<exists>i < k. fst (rs ! i) \<le> py \<and> py < fst (rs ! Suc i) \<and> inside (snd (rs ! i)) px)"
proof -
  have ok: "rows_ok [] rs" using wf by (simp add: wf_rows_def)
  have segs: "i < length rs \<Longrightarrow> wf_segs (snd (rs ! i))" for i using rows_ok_nth_segs [OF ok] by simp
  show pts: "(px, py) \<in> \<Union> (rect_points ` set (row_rects rs k)) \<longleftrightarrow>
      (\<exists>i < k. fst (rs ! i) \<le> py \<and> py < fst (rs ! Suc i) \<and> inside (snd (rs ! i)) px)" if "k < length rs" for k px py
    using that
  proof (induction k)
    case (Suc k)
    then show ?case using segment_rects_points [OF segs, of k px py "fst (rs ! k)" "fst (rs ! Suc k) - fst (rs ! k)"]
      by (auto simp: row_rects_def less_Suc_eq)
  qed (simp add: row_rects_def)
  show "k < length rs \<Longrightarrow> sorted_wrt apart (row_rects rs k)"
  proof (induction k)
    case (Suc k)
    let ?new = "segment_rects (fst (rs ! k)) (fst (rs ! Suc k) - fst (rs ! k)) (snd (rs ! k))"
    have "apart r s" if rs: "r \<in> set (row_rects rs k)" "s \<in> set ?new" for r s
    proof -
      have "py < fst (rs ! k)" if p: "(px, py) \<in> rect_points r" for px py
      proof -
        obtain i where "i < k" "py < fst (rs ! Suc i)" using pts [of k px py] rs(1) p Suc.prems by auto
        moreover from this have "fst (rs ! Suc i) \<le> fst (rs ! k)" using Suc.prems by (intro rows_ok_nth_le [OF ok]) auto
        ultimately show ?thesis by simp
      qed
      moreover have "fst (rs ! k) \<le> py" if "(px, py) \<in> rect_points s" for px py
        using segment_rects_points [OF segs, of k px py] rs(2) that Suc.prems by auto
      ultimately show ?thesis by (meson apartI not_less)
    qed
    then show ?case using Suc segment_rects_apart [OF segs, of k] by (auto simp: row_rects_def sorted_wrt_append)
  qed (simp add: row_rects_def)
  have "\<not> IntRect_isEmpty r" if "i < k" "k < length rs"
    "r \<in> set (segment_rects (fst (rs ! i)) (fst (rs ! Suc i) - fst (rs ! i)) (snd (rs ! i)))" for r i k
    using segment_rects_nonempty [OF segs _ that(3)] rows_ok_nth [OF ok, of i "Suc i"] that(1,2) by simp
  then show "k < length rs \<Longrightarrow> \<forall>r \<in> set (row_rects rs k). \<not> IntRect_isEmpty r" by (auto simp: row_rects_def)
qed

lemma Region_rects_tiles:
  assumes "region_ok r"
  shows "sorted_wrt apart (Region_rects r)" "\<forall>t \<in> set (Region_rects r). \<not> IntRect_isEmpty t"
    "\<Union> (rect_points ` set (Region_rects r)) = region_points r"
proof -
  obtain rs where rs: "m_shape r = shape_of rs" "wf_rows rs" by (rule canonicalE [OF region_ok_bounds(5) [OF assms]])
  note R = Region_rects_rows [OF rs]
  have pts: "region_points r = row_points rs" by (simp add: region_points_def rs shape_points_shape_of)
  consider "rs = []" | "length rs - 1 < length rs" by (cases rs) auto
  then show "sorted_wrt apart (Region_rects r)" "\<forall>t \<in> set (Region_rects r). \<not> IntRect_isEmpty t"
    using row_rects_tiles(1,2) [OF rs(2), of "length rs - 1"] by (cases; simp add: R row_rects_def)+
  show "\<Union> (rect_points ` set (Region_rects r)) = region_points r"
  proof (cases "rs = []")
    case True
    then show ?thesis by (simp add: R row_rects_def pts row_points_def)
  next
    case False
    then have "(px, py) \<in> \<Union> (rect_points ` set (Region_rects r)) \<longleftrightarrow> (px, py) \<in> region_points r" for px py
      unfolding R pts row_points_nth [OF rs(2)] using row_rects_tiles(3) [OF rs(2), of "length rs - 1" px py]
      by (simp add: less_diff_conv)
    then show ?thesis by (intro set_eqI) (metis surj_pair)
  qed
qed

lemma fold_area: "fold (\<lambda>rect area. area + word_of_int (rectWidth rect * rectHeight rect)) rects (a :: 32 word) =
    a + word_of_int (tile_area rects)"
  by (induction rects arbitrary: a) (simp_all add: tile_area_def)

lemma totalArea_card:
  assumes "region_ok r"
  shows "totalArea r = of_nat (card (region_points r))"
proof -
  note t = Region_rects_tiles [OF assms]
  have "totalArea r = word_of_int (tile_area (Region_rects r))" unfolding totalArea_def fold_area by simp
  also have "\<dots> = word_of_int (int (card (region_points r)))" using tiles_card [OF t(1,2)] by (simp add: t(3))
  finally show ?thesis by simp
qed

subsection \<open>Translation\<close>

definition shift_row :: "int \<Rightarrow> int \<Rightarrow> row \<Rightarrow> row" where
  "shift_row dx dy r = (fst r + dy, map (\<lambda>x. x + dx) (snd r))"

lemma inside_shift: "inside (map (\<lambda>a. a + dx) segs) x \<longleftrightarrow> inside segs (x - dx)"
  by (induction segs) auto

lemma row_from_shift: "row_from (map (\<lambda>x. x + dx) s) (map (shift_row dx dy) rs) y = map (\<lambda>x. x + dx) (row_from s rs (y - dy))"
  by (induction s rs "y - dy" rule: row_from.induct) (auto simp: shift_row_def)

lemma map_shift_inj: "map (\<lambda>x. x + dx) a = map (\<lambda>x. x + dx) b \<longleftrightarrow> a = (b :: int list)"
  by (rule inj_map_eq_map) (simp add: inj_on_def)

lemma rows_ok_shift:
  "rows_ok s rs \<Longrightarrow> \<forall>r \<in> set rs. small (fst r + dy) \<and> (\<forall>x \<in> set (snd r). small (x + dx)) \<Longrightarrow>
   rows_ok (map (\<lambda>x. x + dx) s) (map (shift_row dx dy) rs)"
  by (induction s rs rule: rows_ok.induct) (auto simp: shift_row_def map_shift_inj wf_segs_def sorted_wrt_map)

lemma Shape_translate_rows:
  assumes "\<forall>r \<in> set rs. small (fst r + dy) \<and> (\<forall>x \<in> set (snd r). small (x + dx))"
  shows "Shape_translate dx dy (shape_of rs) = shape_of (map (shift_row dx dy) rs)"
proof -
  have off: "row_offset (map (shift_row dx dy) rs) i = row_offset rs i" for i
    by (simp add: row_offset_def length_concat take_map shift_row_def comp_def)
  have "map (\<lambda>x. i32 (x + dx)) (concat (map snd rs)) = concat (map snd (map (shift_row dx dy) rs))"
    using assms by (auto simp: map_concat shift_row_def comp_def small_i32(3) intro!: arg_cong [of _ _ concat])
  moreover have "i < length rs \<Longrightarrow> i32 (fst (rs ! i) + dy) = fst (shift_row dx dy (rs ! i))" for i
    using assms nth_mem [of i rs] by (simp add: shift_row_def small_i32(3) del: nth_mem)
  ultimately show ?thesis by (auto simp: Shape_translate_def shape_of_def off)
qed

lemma row_points_shift: "row_points (map (shift_row dx dy) rs) = (\<lambda>(x, y). (x + dx, y + dy)) ` row_points rs"
proof -
  have "row_from [] (map (shift_row dx dy) rs) y = map (\<lambda>x. x + dx) (row_from [] rs (y - dy))" for y
    using row_from_shift [of dx "[]" dy rs y] by simp
  then have "(x, y) \<in> row_points (map (shift_row dx dy) rs) \<longleftrightarrow> (x - dx, y - dy) \<in> row_points rs" for x y
    by (simp add: row_points_def inside_shift)
  then show ?thesis by (force simp: image_iff)
qed

lemma is_bbox_shift:
  assumes "is_bbox P R" "small_rect R'" "rectX R' = rectX R + dx" "rectY R' = rectY R + dy"
    "rectWidth R' = rectWidth R" "rectHeight R' = rectHeight R"
  shows "is_bbox ((\<lambda>(x, y). (x + dx, y + dy)) ` P) R'"
proof -
  have mem: "(a, b) \<in> P \<Longrightarrow> a' = a + dx \<Longrightarrow> b' = b + dy \<Longrightarrow> (a', b') \<in> (\<lambda>(x, y). (x + dx, y + dy)) ` P" for a b a' b'
    by force
  obtain y1 y2 x1 x2 where "(rectX R, y1) \<in> P" "(rectX R + rectWidth R - 1, y2) \<in> P"
    "(x1, rectY R) \<in> P" "(x2, rectY R + rectHeight R - 1) \<in> P" using assms(1) by (auto simp: is_bbox_def)
  note t = this [THEN mem]
  have "(\<lambda>(x, y). (x + dx, y + dy)) ` P \<subseteq> rect_points R'"
    using assms(1,3-) by (auto simp: is_bbox_def rect_points_def subset_iff)
  then show ?thesis unfolding is_bbox_def assms(3-)
    by (intro conjI assms(2) exI) (assumption, (rule t; simp)+)
qed

lemma rows_within:
  assumes "wf_rows rs" "rs \<noteq> []" "r \<in> set rs" "R = Shape_bounds (shape_of rs)"
  shows "rectY R \<le> fst r" "fst r \<le> rectY R + rectHeight R" "x \<in> set (snd r) \<Longrightarrow> rectX R \<le> x \<and> x \<le> rectX R + rectWidth R"
proof -
  note b = bounds_edges [OF assms(1,2)]
  have ok: "rows_ok [] rs" using assms(1) by (simp add: wf_rows_def)
  have R: "rectX R = Min (edges rs)" "rectY R = fst (rs ! 0)"
    "rectX R + rectWidth R = Max (edges rs)" "rectY R + rectHeight R = fst (rs ! (length rs - 1))"
    using small_rect_from_edges(2,3) [OF b(2,4,3,5)] by (simp_all add: assms(4) b(1) rect_from_edges_def)
  obtain i where i: "i < length rs" "r = rs ! i" using assms(3) by (metis in_set_conv_nth)
  show "rectY R \<le> fst r" "fst r \<le> rectY R + rectHeight R"
    unfolding R(4) unfolding R(2) i(2) using i(1) by (auto intro!: rows_ok_nth_le [OF ok])
  assume "x \<in> set (snd r)"
  then have "x \<in> edges rs" using edges_row [OF i(1)] i(2) by auto
  then show "rectX R \<le> x \<and> x \<le> rectX R + rectWidth R" unfolding R(3) unfolding R(1) by simp
qed

lemma Region_translate_points:
  assumes "region_ok r" and small: "small (rectX (m_bounds r) + dx)" "small (rectY (m_bounds r) + dy)"
    "small (rectX (m_bounds r) + dx + rectWidth (m_bounds r))" "small (rectY (m_bounds r) + dy + rectHeight (m_bounds r))"
  shows "region_ok (Region_translate dx dy r) \<and>
    region_points (Region_translate dx dy r) = (\<lambda>(x, y). (x + dx, y + dy)) ` region_points r"
proof -
  obtain rs where rs: "m_shape r = shape_of rs" "wf_rows rs" by (rule canonicalE [OF region_ok_bounds(5) [OF assms(1)]])
  let ?rs = "map (shift_row dx dy) rs" and ?b = "IntRect_move dx dy (m_bounds r)"
  have b: "rectX ?b = rectX (m_bounds r) + dx" "rectY ?b = rectY (m_bounds r) + dy"
    "rectWidth ?b = rectWidth (m_bounds r)" "rectHeight ?b = rectHeight (m_bounds r)"
    using small by (simp_all add: IntRect_move_def small_i32(3))
  have sb: "small_rect ?b" using small by (simp add: small_rect_def b)
  have edges: "\<forall>p \<in> set rs. small (fst p + dy) \<and> (\<forall>x \<in> set (snd p). small (x + dx))"
  proof (cases "rs = []")
    case False
    then have R: "m_bounds r = Shape_bounds (shape_of rs)" using assms(1) by (simp add: region_ok_def rs Shape_isEmpty_def)
    then show ?thesis using rows_within [OF rs(2) False _ R] small unfolding small_def by (smt (verit))
  qed simp
  have sh: "Shape_translate dx dy (m_shape r) = shape_of ?rs" using Shape_translate_rows [OF edges] by (simp add: rs)
  have "row_last ?rs = []" using rs(2) by (auto simp: wf_rows_def row_last_def last_map shift_row_def split: if_splits)
  then have wf: "wf_rows ?rs" using rows_ok_shift [of "[]" rs dy dx] edges rs(2) by (simp add: wf_rows_def)
  have pts: "shape_points (shape_of ?rs) = (\<lambda>(x, y). (x + dx, y + dy)) ` region_points r"
    using row_points_shift [of dx dy rs] by (simp add: shape_points_shape_of [OF wf] region_points_def rs(1) shape_points_shape_of [OF rs(2)])
  have "region_ok (Region_translate dx dy r)" unfolding Region_translate_def sh
  proof (rule region_okI [OF canonical_shape_of [OF wf]])
    assume "shape_points (shape_of ?rs) = {}"
    then have "Region_isEmpty r" using region_ok_bounds(2) [OF assms(1)] by (simp add: pts)
    then show "IntRect_isEmpty ?b \<and> small_rect ?b" using sb b by (simp add: Region_isEmpty_def IntRect_isEmpty_def)
  next
    assume "shape_points (shape_of ?rs) \<noteq> {}"
    then have "is_bbox (region_points r) (m_bounds r)"
      by (rule_tac region_ok_cases [OF assms(1)]) (auto simp: pts)
    then show "is_bbox (shape_points (shape_of ?rs)) ?b" unfolding pts using sb b by (intro is_bbox_shift)
  qed
  then show ?thesis using pts by (simp add: Region_translate_def sh region_points_def)
qed

end
