(* ===== verification/Region_Algebra.thy ===== *)
theory Region_Algebra
  imports Region_Rects
begin

text \<open>
  The contract of regions as an algebra of pixel sets, met by the model, and the properties of the
  class \<^verbatim>\<open>Region\<close>.
\<close>

subsection \<open>The free functions and equality\<close>

definition intersect_regions :: "region \<Rightarrow> region \<Rightarrow> region" where
  "intersect_regions a b = Region_intersect a b"

definition subtract_regions :: "region \<Rightarrow> region \<Rightarrow> region" where
  "subtract_regions a b = Region_subtract a b"

definition translate_region :: "region \<Rightarrow> int \<Rightarrow> int \<Rightarrow> region" where
  "translate_region r dx dy = Region_translate dx dy r"

definition Span_equal :: "span \<Rightarrow> span \<Rightarrow> bool" where
  "Span_equal a b \<longleftrightarrow> spanY a = spanY b \<and> segmentIndex a = segmentIndex b"

definition Shape_equal :: "shape \<Rightarrow> shape \<Rightarrow> bool" where
  "Shape_equal a b \<longleftrightarrow> list_all2 Span_equal (m_spans a) (m_spans b) \<and> m_segments a = m_segments b"

definition Region_equal :: "region \<Rightarrow> region \<Rightarrow> bool" where
  "Region_equal a b \<longleftrightarrow> m_bounds a = m_bounds b \<and> Shape_equal (m_shape a) (m_shape b)"

lemma Shape_equal_iff: "Shape_equal a b \<longleftrightarrow> a = b"
proof -
  have "Span_equal = (=)" by (auto simp: Span_equal_def fun_eq_iff)
  then show ?thesis by (auto simp: Shape_equal_def list.rel_eq)
qed

subsection \<open>Pixel sets\<close>

locale pixel_sets =
  fixes ok :: "'r \<Rightarrow> bool" and pixels :: "'r \<Rightarrow> 'p set" and empty :: 'r
    and unite :: "'r \<Rightarrow> 'r \<Rightarrow> 'r" and intersect :: "'r \<Rightarrow> 'r \<Rightarrow> 'r" and subtract :: "'r \<Rightarrow> 'r \<Rightarrow> 'r"
  assumes empty_laws: "ok empty" "pixels empty = {}"
    and unite_laws: "ok r \<Longrightarrow> ok s \<Longrightarrow> ok (unite r s)" "ok r \<Longrightarrow> ok s \<Longrightarrow> pixels (unite r s) = pixels r \<union> pixels s"
    and intersect_laws: "ok r \<Longrightarrow> ok s \<Longrightarrow> ok (intersect r s)"
      "ok r \<Longrightarrow> ok s \<Longrightarrow> pixels (intersect r s) = pixels r \<inter> pixels s"
    and subtract_laws: "ok r \<Longrightarrow> ok s \<Longrightarrow> ok (subtract r s)"
      "ok r \<Longrightarrow> ok s \<Longrightarrow> pixels (subtract r s) = pixels r - pixels s"
begin

lemma accumulate:
  "\<forall>s \<in> set ss. ok s \<Longrightarrow> ok r \<Longrightarrow>
   ok (fold (\<lambda>s r. unite r s) ss r) \<and> pixels (fold (\<lambda>s r. unite r s) ss r) = pixels r \<union> \<Union> (pixels ` set ss)"
  by (induction ss arbitrary: r) (auto simp: unite_laws)

lemma clip_out:
  "\<forall>s \<in> set ss. ok s \<Longrightarrow> ok r \<Longrightarrow>
   ok (fold (\<lambda>s r. subtract r s) ss r) \<and> pixels (fold (\<lambda>s r. subtract r s) ss r) = pixels r - \<Union> (pixels ` set ss)"
  by (induction ss arbitrary: r) (auto simp: subtract_laws)

lemma split_by:
  "ok r \<Longrightarrow> ok s \<Longrightarrow> pixels (unite (intersect r s) (subtract r s)) = pixels r \<and>
   pixels (intersect (intersect r s) (subtract r s)) = {}"
  by (auto simp: unite_laws intersect_laws subtract_laws)

end

interpretation regions: pixel_sets region_ok region_points region_empty Region_unite Region_intersect Region_subtract
  by unfold_locales (simp_all add: region_empty_points Region_unite_points Region_intersect_points Region_subtract_points)

subsection \<open>Properties\<close>

text \<open>
  C14. \<^verbatim>\<open>unite\<close>, \<^verbatim>\<open>intersect\<close> and \<^verbatim>\<open>subtract\<close> keep the invariant of regions (a canonical shape with
  exact bounds) and are union, intersection and difference of pixel sets, on the shortcuts as on
  the merge of the shapes.
\<close>

theorem region_operations_correct:
  assumes "region_ok r" "region_ok other"
  shows "region_ok (Region_unite r other) \<and> region_points (Region_unite r other) = region_points r \<union> region_points other \<and>
    region_ok (Region_intersect r other) \<and> region_points (Region_intersect r other) = region_points r \<inter> region_points other \<and>
    region_ok (Region_subtract r other) \<and> region_points (Region_subtract r other) = region_points r - region_points other"
  using Region_unite_points [OF assms] Region_intersect_points [OF assms] Region_subtract_points [OF assms] by blast

definition sample_rect :: "int \<Rightarrow> int_rect" where
  "sample_rect a = \<lparr>rectX = a, rectY = a, rectWidth = 4, rectHeight = 4\<rparr>"

lemma sample_rect_ok: "small_rect (sample_rect 0)" "small_rect (sample_rect 2)"
  "\<not> IntRect_isEmpty (sample_rect 0)" "\<not> IntRect_isEmpty (sample_rect 2)"
  by (simp_all add: sample_rect_def small_rect_def small_def IntRect_isEmpty_def)

lemmas sample_regions = region_of_rect_points [OF sample_rect_ok(1,3)] region_of_rect_points [OF sample_rect_ok(2,4)]

theorem region_operations_witness:
  "region_points (Region_subtract (region_of_rect (sample_rect 0)) (region_of_rect (sample_rect 2))) =
     rect_points (sample_rect 0) - rect_points (sample_rect 2)"
  using region_operations_correct [OF sample_regions(1,3)] by (simp add: sample_regions)

text \<open>
  C15. The queries of a region answer for its pixels: a point is contained when it is one of them,
  two regions intersect when they share one, and a region that is not empty is contained when all
  its pixels are.
\<close>

theorem region_queries_correct:
  assumes "region_ok r" "region_ok other"
  shows "(Region_contains_point r px py \<longleftrightarrow> (px, py) \<in> region_points r) \<and>
    (Region_intersects r other \<longleftrightarrow> region_points r \<inter> region_points other \<noteq> {}) \<and>
    (Region_isEmpty other \<or> (Region_contains r other \<longleftrightarrow> region_points other \<subseteq> region_points r)) \<and>
    (Region_isEmpty r \<longleftrightarrow> region_points r = {})"
  using Region_contains_point_points [OF assms(1)] Region_intersects_points [OF assms]
    Region_contains_points [OF assms] region_ok_bounds(2) [OF assms(1)] region_ok_bounds(2) [OF assms(2)] by blast

theorem region_queries_witness:
  "Region_intersects (region_of_rect (sample_rect 0)) (region_of_rect (sample_rect 2)) \<and>
   \<not> Region_contains (region_of_rect (sample_rect 0)) (region_of_rect (sample_rect 2))"
proof -
  have p: "(3, 3) \<in> rect_points (sample_rect 0) \<inter> rect_points (sample_rect 2)"
    "(5, 5) \<in> rect_points (sample_rect 2)" "(5, 5) \<notin> rect_points (sample_rect 0)"
    by (simp_all add: rect_points_def sample_rect_def)
  have "\<not> Region_isEmpty (region_of_rect (sample_rect 2))" using sample_rect_ok by (simp add: Region_isEmpty_def region_of_rect_def)
  then show ?thesis using region_queries_correct [OF sample_regions(1,3), of 0 0] p by (auto simp: sample_regions)
qed

text \<open>
  C19. A region accumulated from rectangles has exactly the pixels of the rectangles, and clipping
  regions out of it removes exactly theirs.
\<close>

theorem region_accumulate_correct:
  assumes "\<forall>R \<in> set rects. small_rect R \<and> \<not> IntRect_isEmpty R" "\<forall>s \<in> set holes. region_ok s"
  shows "region_points (fold (\<lambda>s r. Region_subtract r s) holes
      (fold (\<lambda>s r. Region_unite r s) (map region_of_rect rects) region_empty)) =
    \<Union> (rect_points ` set rects) - \<Union> (region_points ` set holes)"
proof -
  have "\<forall>s \<in> set (map region_of_rect rects). region_ok s" using assms(1) region_of_rect_points(1) by auto
  note acc = regions.accumulate [OF this regions.empty_laws(1)]
  have "\<Union> (region_points ` set (map region_of_rect rects)) = \<Union> (rect_points ` set rects)"
    using assms(1) region_of_rect_points(2) by auto
  then show ?thesis using regions.clip_out [OF assms(2) conjunct1 [OF acc]] acc by (simp add: regions.empty_laws(2))
qed

theorem region_accumulate_witness:
  "region_points (fold (\<lambda>s r. Region_subtract r s) [region_of_rect (sample_rect 2)]
      (fold (\<lambda>s r. Region_unite r s) (map region_of_rect [sample_rect 0, sample_rect 2]) region_empty)) =
    rect_points (sample_rect 0) - rect_points (sample_rect 2)"
proof -
  have "\<forall>R \<in> set [sample_rect 0, sample_rect 2]. small_rect R \<and> \<not> IntRect_isEmpty R"
    "\<forall>s \<in> set [region_of_rect (sample_rect 2)]. region_ok s"
    using sample_rect_ok sample_regions by auto
  from region_accumulate_correct [OF this] show ?thesis by (auto simp: sample_regions)
qed

text \<open>
  C16. Regions have one representation: two regions with pixels are equal for \<^verbatim>\<open>operator==\<close>, which
  compares bounds, spans and segments, exactly when they have the same pixels.
\<close>

theorem region_equal_iff_same_pixels:
  assumes "region_ok r" "region_ok other" "\<not> Region_isEmpty r"
  shows "Region_equal r other \<longleftrightarrow> region_points r = region_points other"
proof
  assume "Region_equal r other"
  then show "region_points r = region_points other" by (simp add: Region_equal_def Shape_equal_iff region_points_def)
next
  assume eq: "region_points r = region_points other"
  note b = region_ok_bounds [OF assms(1)] and c = region_ok_bounds [OF assms(2)]
  have "m_shape r = m_shape other" using canonical_unique [OF b(5) c(5)] eq by (simp add: region_points_def)
  moreover have "\<not> Shape_isEmpty (m_shape r)" using b(2,3) assms(3) by simp
  ultimately show "Region_equal r other" using assms(1,2) by (simp add: Region_equal_def Shape_equal_iff region_ok_def)
qed

theorem region_equal_witness:
  "Region_equal (Region_unite (region_of_rect (sample_rect 0)) (region_of_rect (sample_rect 2)))
     (Region_unite (region_of_rect (sample_rect 2)) (region_of_rect (sample_rect 0)))"
proof -
  note u = Region_unite_points [OF sample_regions(1,3)] and v = Region_unite_points [OF sample_regions(3,1)]
  have "rect_points (sample_rect 0) \<noteq> {}" using sample_rect_ok(3) isEmpty_points by blast
  then have ne: "\<not> Region_isEmpty (Region_unite (region_of_rect (sample_rect 0)) (region_of_rect (sample_rect 2)))"
    using region_ok_bounds(2) [OF conjunct1 [OF u]] u by (simp add: sample_regions)
  show ?thesis using region_equal_iff_same_pixels [OF conjunct1 [OF u] conjunct1 [OF v] ne] u v by (simp add: Un_commute)
qed

text \<open>
  C17. The rectangles of a region are not empty, are pairwise disjoint, and cover exactly its pixels;
  \<^verbatim>\<open>totalArea\<close> is the number of pixels modulo 2 to the 32.
\<close>

theorem region_rects_tile:
  assumes "region_ok r"
  shows "sorted_wrt apart (Region_rects r) \<and> (\<forall>t \<in> set (Region_rects r). \<not> IntRect_isEmpty t) \<and>
    \<Union> (rect_points ` set (Region_rects r)) = region_points r \<and> totalArea r = of_nat (card (region_points r))"
  using Region_rects_tiles [OF assms] totalArea_card [OF assms] by simp

theorem region_rects_witness: "totalArea (region_of_rect (sample_rect 0)) = 16"
proof -
  have "card (rect_points (sample_rect 0)) = 16" by (simp add: rect_points_card sample_rect_def)
  then show ?thesis using region_rects_tile [OF sample_regions(1)] by (simp add: sample_regions(2))
qed

text \<open>
  C18. The bounds of a region that is not empty are the smallest rectangle around its pixels, and a
  region is stored as a single rectangle exactly when its pixels fill its bounds.
\<close>

theorem region_bounds_exact:
  assumes "region_ok r" "\<not> Region_isEmpty r"
  shows "region_points r \<subseteq> rect_points (m_bounds r) \<and>
    (\<forall>R. small_rect R \<and> region_points r \<subseteq> rect_points R \<longrightarrow> rect_points (m_bounds r) \<subseteq> rect_points R) \<and>
    (Region_isRect r \<longleftrightarrow> region_points r = rect_points (m_bounds r))"
proof -
  note b = region_ok_bounds [OF assms(1)]
  have bb: "is_bbox (region_points r) (m_bounds r)" by (rule region_ok_cases [OF assms(1)]) (use assms(2) b(2) in auto)
  have "Region_isRect r" if eq: "region_points r = rect_points (m_bounds r)"
  proof -
    note rr = region_of_rect_points [OF b(4) assms(2) [unfolded Region_isEmpty_def]]
    have "m_shape r = m_shape (region_of_rect (m_bounds r))"
      using canonical_unique [OF b(5) region_ok_bounds(5) [OF rr(1)]] rr(2) eq by (simp add: region_points_def)
    then show ?thesis by (simp add: Region_isRect_def Shape_isRect_def region_of_rect_def shape_of_rect_rows)
  qed
  then show ?thesis using b(1) is_bbox_least [OF bb] Region_isRect_points [OF assms(1)] by blast
qed

theorem region_bounds_witness: "Region_isRect (region_of_rect (sample_rect 0))"
proof -
  have "\<not> Region_isEmpty (region_of_rect (sample_rect 0))" using sample_rect_ok by (simp add: Region_isEmpty_def region_of_rect_def)
  then show ?thesis using region_bounds_exact [OF sample_regions(1)] by (simp add: sample_regions(2)) (simp add: region_of_rect_def)
qed

text \<open>
  C20. Translating a region whose shifted bounds stay in range shifts its pixels and keeps the
  invariant.
\<close>

theorem region_translate_correct:
  assumes "region_ok r" "small (rectX (m_bounds r) + dx)" "small (rectY (m_bounds r) + dy)"
    "small (rectX (m_bounds r) + dx + rectWidth (m_bounds r))" "small (rectY (m_bounds r) + dy + rectHeight (m_bounds r))"
  shows "region_ok (translate_region r dx dy) \<and>
    region_points (translate_region r dx dy) = (\<lambda>(x, y). (x + dx, y + dy)) ` region_points r"
  using Region_translate_points [OF assms] by (simp add: translate_region_def)

theorem region_translate_witness: "region_ok (translate_region (region_of_rect (sample_rect 0)) 7 (- 3))"
  using region_translate_correct [OF sample_regions(1), of 7 "- 3"] by (simp add: region_of_rect_def sample_rect_def small_def)

lemma segments_valid_wf: "wf_segs segs \<Longrightarrow> segments_valid segs"
proof (induction segs rule: segments_valid.induct)
  case (1 x x' segs)
  then show ?case using wf_segs_Cons(1,2) [OF 1(2)] by (simp add: wf_segs_def small_i32)
qed simp_all

text \<open>
  A region in its invariant passes \<^verbatim>\<open>isValid\<close>, and restoring the bounds of a canonical shape, as
  decoding does, establishes the invariant.
\<close>

lemma region_valid:
  assumes "canonical (m_shape r)"
  shows "Shape_isValid (m_shape r) \<and> region_ok (updateBoundsFromShape r)"
proof
  obtain rs where rs: "m_shape r = shape_of rs" "wf_rows rs" by (rule canonicalE [OF assms])
  have ok: "rows_ok [] rs" "row_last rs = []" using rs(2) by (simp_all add: wf_rows_def)
  have "\<not> i32 (fst (rs ! Suc i) - fst (rs ! i)) < 0 \<and> segments_valid (snd (rs ! i))" if "Suc i < length rs" for i
    using that rows_ok_nth [OF ok(1), of i "Suc i"] rows_ok_nth_segs [OF ok(1), of i] rows_ok_nth_segs [OF ok(1), of "Suc i"]
    by (simp add: small_i32 segments_valid_wf)
  then show "Shape_isValid (m_shape r)"
    by (auto simp: rs(1) Shape_isValid_def list_all_iff span_segments_shape_of ok(2))
  show "region_ok (updateBoundsFromShape r)" using region_ok_shape [OF assms] by (cases r) (simp add: updateBoundsFromShape_def)
qed

text \<open>
  C21. On rectangles whose coordinates stay in range, intersection, overlap, containment of a point
  and of a rectangle are those of the pixels, and the union of two rectangles is the smallest
  rectangle around both.
\<close>

theorem int_rect_operations_correct:
  assumes "small_rect r" "small_rect s"
  shows "rect_points (IntRect_intersect r s) = rect_points r \<inter> rect_points s \<and>
    (IntRect_intersects r s \<longleftrightarrow> rect_points r \<inter> rect_points s \<noteq> {}) \<and>
    (IntRect_contains_point r px py \<longleftrightarrow> (px, py) \<in> rect_points r) \<and>
    (IntRect_isEmpty s \<or> (IntRect_contains r s \<longleftrightarrow> rect_points s \<subseteq> rect_points r)) \<and>
    rect_points r \<union> rect_points s \<subseteq> rect_points (IntRect_unite r s) \<and>
    (\<forall>t. small_rect t \<and> rect_points r \<union> rect_points s \<subseteq> rect_points t \<longrightarrow> rect_points (IntRect_unite r s) \<subseteq> rect_points t)"
  using intersect_points [OF assms] intersects_points [OF assms] contains_point_points [OF assms(1)]
    contains_points [OF assms] unite_points [OF assms] by blast

theorem int_rect_operations_witness: "IntRect_intersects (sample_rect 0) (sample_rect 2)"
proof -
  have "(3, 3) \<in> rect_points (sample_rect 0) \<inter> rect_points (sample_rect 2)" by (simp add: rect_points_def sample_rect_def)
  then show ?thesis using int_rect_operations_correct [OF sample_rect_ok(1,2), of 0 0] by auto
qed


end
