(* ===== verification/Back_Forward_List.thy ===== *)
theory Back_Forward_List
  imports Prelude
begin

text \<open>
  \<^verbatim>\<open>BackForwardList\<close> of WebKitLegacy/mui, the session history of a browser view.  A history item is known by
  its address, the type parameter.  \<^verbatim>\<open>unsigned\<close> and \<^verbatim>\<open>size_t\<close> are 32 bits wide, as on the MorphOS, AmigaOS
  and AROS targets; an access outside the vector, which stops the browser, is \<open>None\<close>.  The items for
  which \<^verbatim>\<open>PageCache::remove\<close> was called are recorded in order.
\<close>

subsection \<open>State and operations\<close>

record 'a back_forward_list =
  m_entries :: "'a list"
  m_entryHash :: "'a set"
  m_current :: nat
  m_capacity :: nat
  m_closed :: bool
  m_enabled :: bool
  cacheRemovals :: "'a list"

definition DefaultCapacity :: nat where
  "DefaultCapacity = 100"

definition NoCurrentItemIndex :: nat where
  "NoCurrentItemIndex = 4294967295"

definition BackForwardList_new :: "'a back_forward_list" where
  "BackForwardList_new = \<lparr>m_entries = [], m_entryHash = {}, m_current = NoCurrentItemIndex,
     m_capacity = DefaultCapacity, m_closed = True, m_enabled = True, cacheRemovals = []\<rparr>"

text \<open>The body of the loops that drop the last entry.\<close>

definition drop_last :: "'a back_forward_list \<Rightarrow> 'a back_forward_list" where
  "drop_last l =
     (let item = last (m_entries l)
      in l\<lparr>m_entries := butlast (m_entries l), m_entryHash := m_entryHash l - {item},
           cacheRemovals := cacheRemovals l @ [item]\<rparr>)"

function toss_forward :: "nat \<Rightarrow> 'a back_forward_list \<Rightarrow> 'a back_forward_list" where
  "toss_forward targetSize l =
     (if length (m_entries l) > targetSize then toss_forward targetSize (drop_last l) else l)"
  by pat_completeness auto
termination by (relation "measure (\<lambda>(n, l). length (m_entries l))") (auto simp: drop_last_def Let_def)

declare toss_forward.simps [simp del]

definition toss_first :: "'a back_forward_list \<Rightarrow> 'a back_forward_list" where
  "toss_first l =
     (let item = hd (m_entries l)
      in l\<lparr>m_entries := tl (m_entries l), m_entryHash := m_entryHash l - {item},
           cacheRemovals := cacheRemovals l @ [item], m_current := u32 (m_current l + 4294967295)\<rparr>)"

definition insert_at :: "nat \<Rightarrow> 'a \<Rightarrow> 'a list \<Rightarrow> 'a list option" where
  "insert_at i x xs = (if i \<le> length xs then Some (take i xs @ x # drop i xs) else None)"

definition addItem :: "'a \<Rightarrow> 'a back_forward_list \<Rightarrow> 'a back_forward_list option" where
  "addItem newItem l =
     (if m_capacity l = 0 \<or> \<not> m_enabled l then Some l
      else
        (let l1 = (if m_current l \<noteq> NoCurrentItemIndex then toss_forward (u32 (m_current l + 1)) l else l);
             l2 = (if length (m_entries l1) = m_capacity l1 \<and> (m_current l1 \<noteq> 0 \<or> m_capacity l1 = 1)
                   then toss_first l1 else l1)
         in case insert_at (u32 (m_current l2 + 1)) newItem (m_entries l2) of
              None \<Rightarrow> None
            | Some es \<Rightarrow>
                Some (l2\<lparr>m_entryHash := insert newItem (m_entryHash l2), m_entries := es,
                         m_current := u32 (m_current l2 + 1)\<rparr>)))"

definition goBack :: "'a back_forward_list \<Rightarrow> 'a back_forward_list" where
  "goBack l = (if m_current l > 0 then l\<lparr>m_current := m_current l - 1\<rparr> else l)"

text \<open>The difference of a size and 1 wraps for the empty vector.\<close>

definition size_minus_1 :: "'a list \<Rightarrow> nat" where
  "size_minus_1 xs = u32 (length xs + 4294967295)"

definition goForward :: "'a back_forward_list \<Rightarrow> 'a back_forward_list" where
  "goForward l = (if m_current l < size_minus_1 (m_entries l) then l\<lparr>m_current := u32 (m_current l + 1)\<rparr> else l)"

fun index_of :: "'a \<Rightarrow> 'a list \<Rightarrow> nat" where
  "index_of item [] = 0"
| "index_of item (x # xs) = (if x = item then 0 else Suc (index_of item xs))"

definition goToItem :: "'a \<Rightarrow> 'a back_forward_list \<Rightarrow> 'a back_forward_list" where
  "goToItem item l =
     (if m_entries l = [] then l
      else
        (let index = index_of item (m_entries l)
         in if index < length (m_entries l) then l\<lparr>m_current := index\<rparr> else l))"

definition entry_at :: "'a back_forward_list \<Rightarrow> nat \<Rightarrow> 'a option" where
  "entry_at l i = (if i < length (m_entries l) then Some (m_entries l ! i) else None)"

text \<open>The item accessors: the outer option is the access, the inner one the pointer.\<close>

definition backItem :: "'a back_forward_list \<Rightarrow> 'a option option" where
  "backItem l =
     (if m_current l \<noteq> 0 \<and> m_current l \<noteq> NoCurrentItemIndex
      then map_option Some (entry_at l (m_current l - 1)) else Some None)"

definition currentItem :: "'a back_forward_list \<Rightarrow> 'a option option" where
  "currentItem l =
     (if m_current l \<noteq> NoCurrentItemIndex then map_option Some (entry_at l (m_current l)) else Some None)"

definition forwardItem :: "'a back_forward_list \<Rightarrow> 'a option option" where
  "forwardItem l =
     (if m_entries l \<noteq> [] \<and> m_current l < size_minus_1 (m_entries l)
      then map_option Some (entry_at l (u32 (m_current l + 1))) else Some None)"

text \<open>The entries of an index range, each read with a bounds check.\<close>

fun entries_at :: "'a back_forward_list \<Rightarrow> nat list \<Rightarrow> 'a list option" where
  "entries_at l [] = Some []"
| "entries_at l (i # is) =
     (case entry_at l i of None \<Rightarrow> None | Some x \<Rightarrow> map_option ((#) x) (entries_at l is))"

definition backListWithLimit :: "int \<Rightarrow> 'a back_forward_list \<Rightarrow> 'a list option" where
  "backListWithLimit limit l =
     (if m_current l \<noteq> NoCurrentItemIndex then
        (let first = nat (max (i32 (i32 (int (m_current l)) - limit)) 0)
         in entries_at l [first ..< m_current l])
      else Some [])"

definition forwardListWithLimit :: "int \<Rightarrow> 'a back_forward_list \<Rightarrow> 'a list option" where
  "forwardListWithLimit limit l =
     (if m_entries l = [] then Some []
      else
        (let lastEntry = size_minus_1 (m_entries l)
         in if m_current l < lastEntry then
              (let end = min (nat ((int (m_current l) + limit) mod 4294967296)) lastEntry
               in entries_at l [m_current l + 1 ..< end + 1])
            else Some []))"

definition capacity :: "'a back_forward_list \<Rightarrow> int" where
  "capacity l = i32 (int (m_capacity l))"

function trim_entries :: "int \<Rightarrow> 'a back_forward_list \<Rightarrow> 'a back_forward_list option" where
  "trim_entries newSize l =
     (if newSize < int (length (m_entries l)) then
        (if m_entries l = [] then None else trim_entries newSize (drop_last l))
      else Some l)"
  by pat_completeness auto
termination by (relation "measure (\<lambda>(n, l). length (m_entries l))") (auto simp: drop_last_def Let_def)

declare trim_entries.simps [simp del]

definition setCapacity :: "int \<Rightarrow> 'a back_forward_list \<Rightarrow> 'a back_forward_list option" where
  "setCapacity newSize l =
     (case trim_entries newSize l of
        None \<Rightarrow> None
      | Some l1 \<Rightarrow>
          (let l2 =
             (if newSize = 0 then l1\<lparr>m_current := NoCurrentItemIndex\<rparr>
              else if m_current l1 > size_minus_1 (m_entries l1) then l1\<lparr>m_current := size_minus_1 (m_entries l1)\<rparr>
              else l1)
           in Some (l2\<lparr>m_capacity := nat (newSize mod 4294967296)\<rparr>)))"

definition enabled :: "'a back_forward_list \<Rightarrow> bool" where
  "enabled l = m_enabled l"

definition setEnabled :: "bool \<Rightarrow> 'a back_forward_list \<Rightarrow> 'a back_forward_list option" where
  "setEnabled en l =
     (let l1 = l\<lparr>m_enabled := en\<rparr>
      in if \<not> en then
           (case setCapacity 0 l1 of None \<Rightarrow> None | Some l2 \<Rightarrow> setCapacity (i32 (int (m_capacity l1))) l2)
         else Some l1)"

definition backListCount :: "'a back_forward_list \<Rightarrow> nat" where
  "backListCount l = (if m_current l = NoCurrentItemIndex then 0 else m_current l)"

definition forwardListCount :: "'a back_forward_list \<Rightarrow> nat" where
  "forwardListCount l =
     (if m_current l = NoCurrentItemIndex then 0
      else nat ((int (length (m_entries l)) - int (m_current l) - 1) mod 4294967296))"

definition itemAtIndex :: "int \<Rightarrow> 'a back_forward_list \<Rightarrow> 'a option option" where
  "itemAtIndex index l =
     (if index < i32 (- i32 (int (m_current l))) then Some None
      else if index > i32 (int (forwardListCount l)) then Some None
      else map_option Some (entry_at l (nat ((index + int (m_current l)) mod 4294967296))))"

definition close :: "'a back_forward_list \<Rightarrow> 'a back_forward_list" where
  "close l = l\<lparr>m_entries := [], m_entryHash := {}, m_closed := True\<rparr>"

definition removeItem :: "'a option \<Rightarrow> 'a back_forward_list \<Rightarrow> 'a back_forward_list" where
  "removeItem item l =
     (case item of
        None \<Rightarrow> l
      | Some x \<Rightarrow>
          (let i = index_of x (m_entries l) in
           if i < length (m_entries l) then
             (let l1 = l\<lparr>m_entries := take i (m_entries l) @ drop (Suc i) (m_entries l), m_entryHash := m_entryHash l - {x}\<rparr>
              in if m_current l1 = NoCurrentItemIndex \<or> m_current l1 < i then l1
                 else if m_current l1 > i then l1\<lparr>m_current := m_current l1 - 1\<rparr>
                 else
                   (let count = length (m_entries l1)
                    in if m_current l1 \<ge> count
                       then l1\<lparr>m_current := (if count \<noteq> 0 then count - 1 else NoCurrentItemIndex)\<rparr>
                       else l1))
           else l))"

definition containsItem :: "'a \<Rightarrow> 'a back_forward_list \<Rightarrow> bool" where
  "containsItem entry l \<longleftrightarrow> entry \<in> m_entryHash l"

subsection \<open>The invariant\<close>

definition bf_ok :: "'a back_forward_list \<Rightarrow> bool" where
  "bf_ok l \<longleftrightarrow> distinct (m_entries l) \<and> m_entryHash l = set (m_entries l) \<and>
     length (m_entries l) \<le> m_capacity l \<and> m_capacity l < 2147483648 \<and>
     (if m_entries l = [] then m_current l = NoCurrentItemIndex else m_current l < length (m_entries l))"

lemma bf_ok_new: "bf_ok BackForwardList_new"
  by (simp add: bf_ok_def BackForwardList_new_def DefaultCapacity_def)

lemma bf_okD:
  assumes "bf_ok l"
  shows "m_current l \<noteq> NoCurrentItemIndex \<longleftrightarrow> m_entries l \<noteq> []"
    "m_entries l \<noteq> [] \<Longrightarrow> m_current l < length (m_entries l)" "length (m_entries l) < 2147483648"
  using assms by (auto simp: bf_ok_def NoCurrentItemIndex_def split: if_splits)

lemma Diff_Diff_singleton: "H - {x} - S = H - insert x S"
  by auto

lemma toss_forward_eq:
  "toss_forward n l = l\<lparr>m_entries := take n (m_entries l), m_entryHash := m_entryHash l - set (drop n (m_entries l)),
     cacheRemovals := cacheRemovals l @ rev (drop n (m_entries l))\<rparr>"
proof (induction n l rule: toss_forward.induct)
  case (1 n l)
  show ?case
  proof (cases "n < length (m_entries l)")
    case True
    then obtain es x where es: "m_entries l = es @ [x]" by (metis list.size(3) not_less_zero rev_exhaust)
    have d: "drop_last l = l\<lparr>m_entries := es, m_entryHash := m_entryHash l - {x}, cacheRemovals := cacheRemovals l @ [x]\<rparr>"
      by (simp add: drop_last_def Let_def es)
    have n: "n \<le> length es" using True by (simp add: es)
    show ?thesis using "1.IH" [OF True] True n by (subst toss_forward.simps) (simp add: d es Diff_Diff_singleton)
  qed (subst toss_forward.simps, simp)
qed

lemma trim_entries_eq:
  "0 \<le> n \<Longrightarrow> trim_entries n l = Some (l\<lparr>m_entries := take (nat n) (m_entries l),
     m_entryHash := m_entryHash l - set (drop (nat n) (m_entries l)),
     cacheRemovals := cacheRemovals l @ rev (drop (nat n) (m_entries l))\<rparr>)"
proof (induction n l rule: trim_entries.induct)
  case (1 n l)
  show ?case
  proof (cases "n < int (length (m_entries l))")
    case True
    then have "m_entries l \<noteq> []" using "1.prems" by auto
    then obtain es x where es: "m_entries l = es @ [x]" by (metis rev_exhaust)
    have d: "drop_last l = l\<lparr>m_entries := es, m_entryHash := m_entryHash l - {x}, cacheRemovals := cacheRemovals l @ [x]\<rparr>"
      by (simp add: drop_last_def Let_def es)
    have n: "nat n \<le> length es" using True "1.prems" by (simp add: es)
    show ?thesis using "1.IH" [OF True \<open>m_entries l \<noteq> []\<close> "1.prems"] True n by (subst trim_entries.simps) (simp add: d es Diff_Diff_singleton)
  next
    case False
    then show ?thesis using "1.prems" by (subst trim_entries.simps) simp
  qed
qed

lemma trim_entries_negative: "n < 0 \<Longrightarrow> trim_entries n l = None"
proof (induction n l rule: trim_entries.induct)
  case (1 n l)
  then show ?case by (subst trim_entries.simps) auto
qed

lemma index_of_less: "index_of x xs < length xs \<longleftrightarrow> x \<in> set xs"
  by (induction xs) auto

lemma index_of_nth: "x \<in> set xs \<Longrightarrow> xs ! index_of x xs = x"
  by (induction xs) auto

lemma size_minus_1_eq: "xs \<noteq> [] \<Longrightarrow> length xs < 2147483648 \<Longrightarrow> size_minus_1 xs = length xs - 1"
  "size_minus_1 [] = NoCurrentItemIndex"
  by (cases xs) (simp_all add: size_minus_1_def u32_def NoCurrentItemIndex_def)

subsection \<open>The history as a zipper\<close>

text \<open>What the list stands for: the items behind, the current item and the items ahead.\<close>

type_synonym 'a history = "('a list \<times> 'a \<times> 'a list) option"

definition history :: "'a back_forward_list \<Rightarrow> 'a history" where
  "history l =
     (if m_entries l = [] then None
      else Some (take (m_current l) (m_entries l), m_entries l ! m_current l, drop (Suc (m_current l)) (m_entries l)))"

fun visit :: "nat \<Rightarrow> 'a \<Rightarrow> 'a history \<Rightarrow> 'a history" where
  "visit cap x None = Some ([], x, [])"
| "visit cap x (Some (b, c, f)) = Some (if Suc (length b) = cap then tl (b @ [c]) else b @ [c], x, [])"

fun go_back :: "'a history \<Rightarrow> 'a history" where
  "go_back (Some (b, c, f)) = (if b = [] then Some (b, c, f) else Some (butlast b, last b, c # f))"
| "go_back None = None"

fun go_forward :: "'a history \<Rightarrow> 'a history" where
  "go_forward (Some (b, c, x # f)) = Some (b @ [c], x, f)"
| "go_forward h = h"

lemma history_split:
  assumes "bf_ok l" "m_entries l \<noteq> []"
  obtains b c f where "m_entries l = b @ c # f" "m_current l = length b" "history l = Some (b, c, f)"
proof -
  have "m_current l < length (m_entries l)" using bf_okD(2) [OF assms] .
  then show ?thesis using assms(2)
    by (intro that [of "take (m_current l) (m_entries l)" "m_entries l ! m_current l" "drop (Suc (m_current l)) (m_entries l)"])
      (simp_all add: id_take_nth_drop history_def)
qed

lemma addItem_empty:
  assumes "bf_ok l" "m_entries l = []" "m_capacity l \<noteq> 0" "m_enabled l"
  shows "addItem x l = Some (l\<lparr>m_entryHash := {x}, m_entries := [x], m_current := 0\<rparr>)"
  using assms by (simp add: addItem_def bf_ok_def Let_def insert_at_def u32_def NoCurrentItemIndex_def)

lemma addItem_split:
  assumes ok: "bf_ok l" and es: "m_entries l = b @ c # f" "m_current l = length b" and en: "m_capacity l \<noteq> 0" "m_enabled l"
  shows "addItem x l =
    Some (if Suc (length b) = m_capacity l
          then l\<lparr>m_entries := tl (b @ [c]) @ [x], m_entryHash := insert x (set (b @ [c]) - {hd (b @ [c])}),
                 cacheRemovals := cacheRemovals l @ rev f @ [hd (b @ [c])]\<rparr>
          else l\<lparr>m_entries := b @ [c, x], m_entryHash := insert x (set (b @ [c])), m_current := Suc (length b),
                 cacheRemovals := cacheRemovals l @ rev f\<rparr>)"
proof -
  have len: "length b < 2147483647" "m_current l \<noteq> NoCurrentItemIndex" and hash: "m_entryHash l - set f = insert c (set b)"
    using ok es(1) by (auto simp: bf_ok_def es(2) NoCurrentItemIndex_def)
  have u: "u32 (Suc (length b)) = Suc (length b)" "u32 (length b) = length b" "u32 (length b + 4294967296) = length b"
    using len(1) by (simp_all add: u32_def)
  define l1 where "l1 = toss_forward (Suc (length b)) l"
  have l1: "l1 = l\<lparr>m_entries := b @ [c], m_entryHash := insert c (set b), cacheRemovals := cacheRemovals l @ rev f\<rparr>"
    by (simp add: l1_def toss_forward_eq es(1) hash)
  have add: "addItem x l = (let l2 = (if Suc (length b) = m_capacity l then toss_first l1 else l1) in
      case insert_at (u32 (m_current l2 + 1)) x (m_entries l2) of None \<Rightarrow> None
      | Some es \<Rightarrow> Some (l2\<lparr>m_entryHash := insert x (m_entryHash l2), m_entries := es, m_current := u32 (m_current l2 + 1)\<rparr>))"
    unfolding addItem_def using len en es by (auto simp: u l1_def [symmetric]) (auto simp: l1)
  show ?thesis
  proof (cases "Suc (length b) = m_capacity l")
    case True
    have "u32 (u32 (length b + 4294967295) + 1) = length b"
    proof (cases b)
      case (Cons a as)
      then show ?thesis using len(1) by (simp add: u32_def)
    qed (simp add: u32_def)
    then show ?thesis using True unfolding add
      by (simp add: Let_def toss_first_def l1 es(2) insert_at_def)
  next
    case False
    then show ?thesis unfolding add by (simp add: Let_def l1 es(2) insert_at_def u)
  qed
qed

definition accepts :: "'a \<Rightarrow> 'a back_forward_list \<Rightarrow> bool" where
  "accepts x l \<longleftrightarrow> m_capacity l \<noteq> 0 \<and> m_enabled l \<and> x \<notin> set (m_entries l)"

lemma addItem_correct:
  assumes ok: "bf_ok l" and acc: "accepts x l"
  shows "\<exists>l' dropped. addItem x l = Some l' \<and> bf_ok l' \<and> history l' = visit (m_capacity l) x (history l) \<and>
    m_capacity l' = m_capacity l \<and> m_enabled l' = m_enabled l \<and> cacheRemovals l' = cacheRemovals l @ dropped \<and>
    set dropped = set (m_entries l) - set (m_entries l')"
proof (cases "m_entries l = []")
  case True
  then show ?thesis using addItem_empty [OF ok True] ok acc
    by (auto simp: accepts_def bf_ok_def history_def)
next
  case False
  then obtain b c f where es: "m_entries l = b @ c # f" "m_current l = length b" and h: "history l = Some (b, c, f)"
    by (rule history_split [OF ok])
  have en: "m_capacity l \<noteq> 0" "m_enabled l" "x \<notin> set (b @ c # f)" using acc by (auto simp: accepts_def es)
  note add = addItem_split [OF ok es en(1,2), of x]
  have d: "distinct (b @ c # f)" "length (b @ c # f) \<le> m_capacity l" "m_capacity l < 2147483648" using ok by (simp_all add: bf_ok_def es)
  show ?thesis
  proof (cases "Suc (length b) = m_capacity l")
    case True
    obtain y t where t: "b @ [c] = y # t" by (cases "b @ [c]") auto
    then have len: "length t = length b" by (metis add_diff_cancel_left' length_append_singleton length_Cons plus_1_eq_Suc)
    have "set (b @ [c]) = insert y (set t)" "distinct (y # t)" using t d(1) by (metis list.simps(15)) (metis t d(1) append_assoc append_Cons append_Nil distinct_append)
    then have set: "set (b @ [c]) - {y} = set t" "y \<notin> set t" "set b \<union> {c} = insert y (set t)" "distinct t" by auto
    have f: "set f \<inter> set (b @ [c]) = {}" using d(1) by auto
    have x: "x \<notin> insert y (set t)" using en(3) set(3) by auto
    have h': "visit (m_capacity l) x (history l) = Some (t, x, [])" by (simp add: h True t)
    define l' where "l' = l\<lparr>m_entries := t @ [x], m_entryHash := insert x (set t), cacheRemovals := cacheRemovals l @ rev f @ [y]\<rparr>"
    have "addItem x l = Some l'" using add set(1) unfolding l'_def t by (simp add: True)
    moreover have "bf_ok l'" "history l' = Some (t, x, [])" using True d set x len
      by (auto simp: l'_def es bf_ok_def history_def nth_append)
    moreover have "set (rev f @ [y]) = set (m_entries l) - set (m_entries l')"
      using set(2,3) x f en(3) by (auto simp: l'_def es)
    ultimately show ?thesis unfolding h' by (intro exI [of _ l'] exI [of _ "rev f @ [y]"]) (simp add: l'_def)
  next
    case False
    define l' where "l' = l\<lparr>m_entries := b @ [c, x], m_entryHash := insert x (set (b @ [c])), m_current := Suc (length b),
      cacheRemovals := cacheRemovals l @ rev f\<rparr>"
    have "addItem x l = Some l'" using add False by (simp add: l'_def)
    moreover have "bf_ok l'" "history l' = Some (b @ [c], x, [])" using False d en(3)
      by (auto simp: l'_def es bf_ok_def history_def nth_append)
    moreover have "set (rev f) = set (m_entries l) - set (m_entries l')" using d(1) en(3) by (auto simp: l'_def es)
    ultimately show ?thesis using False by (intro exI [of _ l'] exI [of _ "rev f"]) (simp add: l'_def h)
  qed
qed

lemma goBack_correct:
  assumes "bf_ok l" "0 < backListCount l"
  shows "bf_ok (goBack l)" "history (goBack l) = go_back (history l)" "m_entries (goBack l) = m_entries l"
proof -
  have ne: "m_entries l \<noteq> []" using assms bf_okD(1) [OF assms(1)] by (auto simp: backListCount_def split: if_splits)
  obtain b c f where es: "m_entries l = b @ c # f" "m_current l = length b" and h: "history l = Some (b, c, f)"
    by (rule history_split [OF assms(1) ne])
  have "b \<noteq> []" using assms(2) es by (auto simp: backListCount_def split: if_splits)
  then obtain b' y where b: "b = b' @ [y]" by (metis rev_exhaust)
  show "bf_ok (goBack l)" "history (goBack l) = go_back (history l)" "m_entries (goBack l) = m_entries l"
    using assms(1) by (auto simp: goBack_def es b h bf_ok_def history_def nth_append)
qed

lemma goForward_correct:
  assumes "bf_ok l" "0 < forwardListCount l"
  shows "bf_ok (goForward l)" "history (goForward l) = go_forward (history l)" "m_entries (goForward l) = m_entries l"
proof -
  have ne: "m_entries l \<noteq> []" using assms bf_okD(1) [OF assms(1)] by (auto simp: forwardListCount_def split: if_splits)
  obtain b c f where es: "m_entries l = b @ c # f" "m_current l = length b" and h: "history l = Some (b, c, f)"
    by (rule history_split [OF assms(1) ne])
  have len: "length (b @ c # f) < 2147483648" using bf_okD(3) [OF assms(1)] es(1) by simp
  have "f \<noteq> []" using assms(2) es by (auto simp: forwardListCount_def split: if_splits)
  then obtain y f' where f: "f = y # f'" by (cases f) auto
  have s: "size_minus_1 (m_entries l) = length (m_entries l) - 1" using size_minus_1_eq(1) [OF ne] len es(1) by simp
  show "bf_ok (goForward l)" "history (goForward l) = go_forward (history l)" "m_entries (goForward l) = m_entries l"
    using assms(1) len s by (auto simp: goForward_def es f h bf_ok_def history_def nth_append u32_def)
qed

lemma goToItem_correct:
  assumes "bf_ok l"
  shows "bf_ok (goToItem x l)" "m_entries (goToItem x l) = m_entries l"
    "x \<in> set (m_entries l) \<Longrightarrow> currentItem (goToItem x l) = Some (Some x)"
    "x \<notin> set (m_entries l) \<Longrightarrow> goToItem x l = l"
proof -
  show ok: "bf_ok (goToItem x l)" "m_entries (goToItem x l) = m_entries l"
    using assms by (auto simp: goToItem_def Let_def bf_ok_def)
  show "x \<notin> set (m_entries l) \<Longrightarrow> goToItem x l = l"
    using index_of_less [of x "m_entries l"] by (auto simp: goToItem_def Let_def)
  assume x: "x \<in> set (m_entries l)"
  then have i: "index_of x (m_entries l) < length (m_entries l)" by (simp add: index_of_less)
  then show "currentItem (goToItem x l) = Some (Some x)"
    using index_of_nth [OF x] bf_okD(3) [OF assms]
    by (auto simp: goToItem_def currentItem_def entry_at_def NoCurrentItemIndex_def)
qed

fun forget :: "'a \<Rightarrow> 'a history \<Rightarrow> 'a history" where
  "forget x None = None"
| "forget x (Some (b, c, f)) =
     (if c = x then
        (case f of y # f' \<Rightarrow> Some (b, y, f') | [] \<Rightarrow> if b = [] then None else Some (butlast b, last b, []))
      else Some (filter (\<lambda>y. y \<noteq> x) b, c, filter (\<lambda>y. y \<noteq> x) f))"

lemma index_of_split: "x \<in> set xs \<Longrightarrow> \<exists>a d. xs = a @ x # d \<and> index_of x xs = length a"
proof (induction xs)
  case (Cons y xs)
  show ?case
  proof (cases "y = x")
    case False
    then obtain a d where "xs = a @ x # d" "index_of x xs = length a" using Cons by auto
    then show ?thesis using False by (intro exI [of _ "y # a"] exI [of _ d]) simp
  qed (intro exI [of _ "[]"] exI [of _ xs], simp)
qed simp

lemma removeItem_split:
  assumes "bf_ok l" "m_entries l = a @ x # d" "index_of x (a @ x # d) = length a"
  shows "removeItem (Some x) l = l\<lparr>m_entries := a @ d, m_entryHash := set (a @ d),
    m_current := (if m_current l < length a then m_current l else if length a < m_current l then m_current l - 1
      else if d \<noteq> [] then m_current l else if a \<noteq> [] then length a - 1 else NoCurrentItemIndex)\<rparr>"
proof -
  have hash: "m_entryHash l - {x} = set (a @ d)" using assms(1,2) by (auto simp: bf_ok_def)
  have cur: "m_current l \<noteq> NoCurrentItemIndex" using bf_okD(1) [OF assms(1)] assms(2) by simp
  show ?thesis using cur unfolding removeItem_def option.case assms(2) assms(3) Let_def
    by (auto simp: hash)
qed

lemma removeItem_absent: "x \<notin> set (m_entries l) \<Longrightarrow> removeItem (Some x) l = l"
  using index_of_less [of x "m_entries l"] by (simp add: removeItem_def)

lemma split_at_index:
  assumes "b @ c # f = a @ x # d"
  obtains (cur) "b = a" "c = x" "f = d"
  | (behind) b' where "b = a @ x # b'" "d = b' @ c # f"
  | (ahead) f' where "a = b @ c # f'" "f = f' @ x # d"
  using assms by (auto simp: append_eq_append_conv2 Cons_eq_append_conv append_eq_Cons_conv)

lemma bf_ok_split:
  assumes "m_entries l = b @ c # f" "m_current l = length b" "distinct (b @ c # f)" "m_entryHash l = set (b @ c # f)"
    "length (b @ c # f) \<le> m_capacity l" "m_capacity l < 2147483648"
  shows "bf_ok l \<and> history l = Some (b, c, f)"
  using assms by (simp add: bf_ok_def history_def nth_append)

lemma removeItem_correct:
  assumes ok: "bf_ok l"
  shows "bf_ok (removeItem (Some x) l)" "history (removeItem (Some x) l) = forget x (history l)"
    "cacheRemovals (removeItem (Some x) l) = cacheRemovals l" "set (m_entries (removeItem (Some x) l)) = set (m_entries l) - {x}"
proof -
  have "bf_ok (removeItem (Some x) l) \<and> history (removeItem (Some x) l) = forget x (history l) \<and>
    cacheRemovals (removeItem (Some x) l) = cacheRemovals l \<and> set (m_entries (removeItem (Some x) l)) = set (m_entries l) - {x}"
  proof (cases "x \<in> set (m_entries l)")
    case True
    then obtain a d where s: "m_entries l = a @ x # d" "index_of x (a @ x # d) = length a" using index_of_split by metis
    obtain b c f where es: "m_entries l = b @ c # f" "m_current l = length b" and h: "history l = Some (b, c, f)"
      by (rule history_split [OF ok]) (use True in auto)
    have dist: "distinct (a @ x # d)" and len: "length (a @ d) \<le> m_capacity l" "m_capacity l < 2147483648"
      using ok by (auto simp: bf_ok_def s)
    note r = removeItem_split [OF ok s]
    have set: "set (a @ d) = set (m_entries l) - {x}" using dist by (auto simp: s)
    have fx: "filter (\<lambda>y. y \<noteq> x) a = a" "filter (\<lambda>y. y \<noteq> x) d = d" using dist by (auto simp: filter_id_conv)
    define l' where "l' = removeItem (Some x) l"
    have l': "m_entries l' = a @ d" "m_entryHash l' = set (a @ d)" "m_capacity l' = m_capacity l" "cacheRemovals l' = cacheRemovals l"
      by (simp_all add: l'_def r)
    have cur': "m_current l' = (if length b < length a then length b else if length a < length b then length b - 1
      else if d \<noteq> [] then length b else if a \<noteq> [] then length a - 1 else NoCurrentItemIndex)"
      by (simp add: l'_def r es(2))
    have split: "bf_ok l' \<and> history l' = Some (b'', c'', f'')"
      if "a @ d = b'' @ c'' # f''" "m_current l' = length b''" for b'' c'' f''
      using that len dist by (intro bf_ok_split) (simp_all add: l' flip: that(1))
    from es(1) [unfolded s(1), symmetric] have "bf_ok l' \<and> history l' = forget x (Some (b, c, f))"
    proof (cases rule: split_at_index)
      case cur
      show ?thesis
      proof (cases "a = [] \<and> d = []")
        case True
        then show ?thesis using cur' l' cur len by (simp add: bf_ok_def history_def)
      next
        case False
        then show ?thesis using cur split [of a "hd d" "tl d"] split [of "butlast a" "last a" "[]"] cur'
          by (cases d; cases a rule: rev_cases) simp_all
      qed
    next
      case (behind b')
      have "x \<noteq> c" "filter (\<lambda>y. y \<noteq> x) b' = b'" "filter (\<lambda>y. y \<noteq> x) f = f" using dist behind by (auto simp: filter_id_conv)
      then show ?thesis using split [of "a @ b'" c f] cur' behind fx by simp
    next
      case (ahead f')
      have "x \<noteq> c" "filter (\<lambda>y. y \<noteq> x) b = b" "filter (\<lambda>y. y \<noteq> x) f' = f'" using dist ahead by (auto simp: filter_id_conv)
      then show ?thesis using split [of b c "f' @ d"] cur' ahead fx by simp
    qed
    then show ?thesis unfolding l'_def [symmetric] h using l' set by simp
  next
    case False
    then have "forget x (history l) = history l"
    proof (cases "m_entries l = []")
      case ne: False
      obtain b c f where es: "m_entries l = b @ c # f" and h: "history l = Some (b, c, f)" by (rule history_split [OF ok ne])
      have "x \<notin> set b" "x \<noteq> c" "x \<notin> set f" using False by (auto simp: es)
      then show ?thesis by (auto simp: h filter_id_conv)
    qed (simp add: history_def)
    then show ?thesis using removeItem_absent [OF False] ok False by simp
  qed
  then show "bf_ok (removeItem (Some x) l)" "history (removeItem (Some x) l) = forget x (history l)"
    "cacheRemovals (removeItem (Some x) l) = cacheRemovals l" "set (m_entries (removeItem (Some x) l)) = set (m_entries l) - {x}" by auto
qed

lemma setCapacity_correct:
  assumes ok: "bf_ok l" and n: "0 \<le> n" "n < 2147483648"
  shows "\<exists>l'. setCapacity n l = Some l' \<and> bf_ok l' \<and> m_entries l' = take (nat n) (m_entries l) \<and>
    m_capacity l' = nat n \<and> m_enabled l' = m_enabled l \<and>
    m_current l' = (if m_entries l' = [] then NoCurrentItemIndex else min (m_current l) (length (m_entries l') - 1)) \<and>
    cacheRemovals l' = cacheRemovals l @ rev (drop (nat n) (m_entries l))"
proof -
  have hash: "m_entryHash l - set (drop (nat n) (m_entries l)) = set (take (nat n) (m_entries l))"
  proof -
    have "set (take (nat n) (m_entries l)) \<inter> set (drop (nat n) (m_entries l)) = {}"
      using ok by (simp add: bf_ok_def set_take_disj_set_drop_if_distinct)
    moreover have "set (m_entries l) = set (take (nat n) (m_entries l)) \<union> set (drop (nat n) (m_entries l))"
      by (metis append_take_drop_id set_append)
    ultimately show ?thesis using ok by (auto simp: bf_ok_def)
  qed
  have m: "nat (n mod 4294967296) = nat n" using n by simp
  show ?thesis
  proof (cases "n = 0 \<or> m_entries l = []")
    case True
    then have t: "take (nat n) (m_entries l) = []" by auto
    let ?l = "l\<lparr>m_entries := [], m_entryHash := {}, cacheRemovals := cacheRemovals l @ rev (drop (nat n) (m_entries l)),
      m_current := NoCurrentItemIndex, m_capacity := nat n\<rparr>"
    have cur: "n = 0 \<or> m_current l = NoCurrentItemIndex" using True ok by (auto simp: bf_ok_def)
    have eq: "setCapacity n l = Some ?l"
      unfolding setCapacity_def trim_entries_eq [OF n(1)] Let_def option.case hash t
      using cur m by (cases l, elim disjE) (simp_all add: size_minus_1_eq)
    have "bf_ok ?l" using n by (simp add: bf_ok_def)
    then show ?thesis using eq t by simp
  next
    case False
    then have ne: "take (nat n) (m_entries l) \<noteq> []" using n by auto
    have s: "size_minus_1 (take (nat n) (m_entries l)) = length (take (nat n) (m_entries l)) - 1"
      using size_minus_1_eq(1) [OF ne] n by simp
    have cur: "m_current l < length (m_entries l)" using bf_okD(2) [OF ok] False by blast
    let ?t = "take (nat n) (m_entries l)"
    let ?l = "l\<lparr>m_entries := ?t, m_entryHash := set ?t, cacheRemovals := cacheRemovals l @ rev (drop (nat n) (m_entries l)),
      m_current := min (m_current l) (length ?t - 1), m_capacity := nat n\<rparr>"
    have eq: "setCapacity n l = Some ?l"
      unfolding setCapacity_def trim_entries_eq [OF n(1)] Let_def option.case hash
      using False s m by (cases "m_current l > length ?t - 1") (simp_all add: min_def)
    have "min (m_current l) (length ?t - 1) < length ?t" using ne by (metis diff_less length_greater_0_conv less_numeral_extra(1) min.strict_coboundedI2)
    moreover have "distinct (m_entries l)" using ok by (simp add: bf_ok_def)
    ultimately have "bf_ok ?l" using ne n by (simp add: bf_ok_def)
    then show ?thesis using eq ne by simp
  qed
qed

lemma setCapacity_negative: "n < 0 \<Longrightarrow> setCapacity n l = None"
  by (simp add: setCapacity_def trim_entries_negative)

lemma setEnabled_correct:
  assumes "bf_ok l"
  shows "\<exists>l'. setEnabled en l = Some l' \<and> bf_ok l' \<and> m_entries l' = (if en then m_entries l else []) \<and>
    m_capacity l' = m_capacity l \<and> m_enabled l' = en"
proof (cases en)
  case True
  then show ?thesis using assms by (auto simp: setEnabled_def bf_ok_def)
next
  case False
  have ok: "bf_ok (l\<lparr>m_enabled := False\<rparr>)" and cap: "m_capacity l < 2147483648" using assms by (auto simp: bf_ok_def)
  have i: "i32 (int (m_capacity l)) = int (m_capacity l)" using cap by (intro i32_id) auto
  obtain l1 where l1: "setCapacity 0 (l\<lparr>m_enabled := False\<rparr>) = Some l1" "bf_ok l1" "m_entries l1 = []" "\<not> m_enabled l1"
    using setCapacity_correct [OF ok, of 0] by auto
  obtain l2 where "setCapacity (int (m_capacity l)) l1 = Some l2" "bf_ok l2" "m_entries l2 = []" "m_capacity l2 = m_capacity l" "\<not> m_enabled l2"
    using setCapacity_correct [OF l1(2), of "int (m_capacity l)"] l1(3,4) cap by auto
  then show ?thesis using False l1(1) i by (simp add: setEnabled_def)
qed

end
