(* ===== verification/Back_Forward_History.thy ===== *)
theory Back_Forward_History
  imports Back_Forward_List
begin

text \<open>
  What a view sees of its session history: the accessors of \<^verbatim>\<open>BackForwardList\<close> over the zipper, and the
  histories reachable by the operations the browser performs.
\<close>

subsection \<open>Accessors\<close>

lemma entries_at_eq: "\<forall>i \<in> set is. i < length (m_entries l) \<Longrightarrow> entries_at l is = Some (map ((!) (m_entries l)) is)"
  by (induction "is") (simp_all add: entry_at_def)

lemma map_nth_range: "j \<le> length xs \<Longrightarrow> map ((!) xs) [i ..< j] = drop i (take j xs)"
  by (rule nth_equalityI) auto

definition at_item :: "'a back_forward_list \<Rightarrow> 'a list \<Rightarrow> 'a \<Rightarrow> 'a list \<Rightarrow> bool" where
  "at_item l b c f \<longleftrightarrow> bf_ok l \<and> m_entries l = b @ c # f \<and> m_current l = length b"

lemma at_itemD:
  assumes "at_item l b c f"
  shows "m_entries l = b @ c # f" "m_current l = length b" "length b + length f < 2147483647"
    "m_current l \<noteq> NoCurrentItemIndex" "size_minus_1 (m_entries l) = length b + length f"
  using assms bf_okD [of l] size_minus_1_eq(1) [of "m_entries l"] by (auto simp: at_item_def)

lemma items_at_item:
  assumes "at_item l b c f"
  shows "backItem l = Some (if b = [] then None else Some (last b))" "currentItem l = Some (Some c)"
    "forwardItem l = Some (if f = [] then None else Some (hd f))"
    "backListCount l = length b" "forwardListCount l = length f"
proof -
  note d = at_itemD [OF assms]
  show "backItem l = Some (if b = [] then None else Some (last b))"
    using d by (cases b rule: rev_cases) (auto simp: backItem_def entry_at_def nth_append)
  show "currentItem l = Some (Some c)" using d by (simp add: currentItem_def entry_at_def)
  show "forwardItem l = Some (if f = [] then None else Some (hd f))"
    using d by (cases f) (auto simp: forwardItem_def entry_at_def nth_append u32_def)
  show "backListCount l = length b" using d by (auto simp: backListCount_def)
  show "forwardListCount l = length f" using d by (auto simp: forwardListCount_def)
qed

lemma itemAtIndex_at_item:
  assumes "at_item l b c f" "- 2147483648 \<le> k" "k < 2147483648"
  shows "itemAtIndex k l =
    Some (if - int (length b) \<le> k \<and> k \<le> int (length f) then Some ((b @ c # f) ! nat (int (length b) + k)) else None)"
proof -
  note d = at_itemD [OF assms(1)]
  have i: "i32 (int (length b)) = int (length b)" "i32 (int (length f)) = int (length f)" "i32 (- int (length b)) = - int (length b)"
    using d(3) by (auto intro!: i32_id)
  show ?thesis
  proof (cases "- int (length b) \<le> k \<and> k \<le> int (length f)")
    case True
    then have "nat ((k + int (length b)) mod 4294967296) = nat (int (length b) + k)" using d(3) by simp
    then show ?thesis using True d items_at_item(5) [OF assms(1)] i
      by (auto simp: itemAtIndex_def entry_at_def)
  next
    case False
    then show ?thesis using d items_at_item(5) [OF assms(1)] i by (auto simp: itemAtIndex_def)
  qed
qed

lemma limits_at_item:
  assumes "at_item l b c f" "0 \<le> n" "n < 2147483648"
  shows "backListWithLimit n l = Some (drop (length b - nat n) b)" "forwardListWithLimit n l = Some (take (nat n) f)"
proof -
  note d = at_itemD [OF assms(1)]
  have i: "i32 (int (length b)) = int (length b)" "i32 (int (length b) - n) = int (length b) - n"
    using d(3) assms(2,3) by (auto intro!: i32_id)
  have "nat (max (int (length b) - n) 0) = length b - nat n" using assms(2) by auto
  then have "backListWithLimit n l = Some (map ((!) (b @ c # f)) [length b - nat n ..< length b])"
    using d i entries_at_eq [of "[length b - nat n ..< length b]" l] by (simp add: backListWithLimit_def)
  also have "map ((!) (b @ c # f)) [length b - nat n ..< length b] = drop (length b - nat n) b"
    using map_nth_range [of "length b" "b @ c # f" "length b - nat n"] by simp
  finally show "backListWithLimit n l = Some (drop (length b - nat n) b)" .
  have "nat ((int (length b) + n) mod 4294967296) = length b + nat n" using d(3) assms(2,3) by simp
  then have m: "min (nat ((int (length b) + n) mod 4294967296)) (length b + length f) = length b + min (nat n) (length f)" by simp
  show "forwardListWithLimit n l = Some (take (nat n) f)"
  proof (cases "f = []")
    case False
    let ?is = "[length b + 1 ..< length b + min (nat n) (length f) + 1]"
    have "forwardListWithLimit n l = entries_at l ?is"
      unfolding forwardListWithLimit_def Let_def d(5) using d(1,2) m False by simp
    also have "\<dots> = Some (map ((!) (m_entries l)) ?is)" by (rule entries_at_eq) (auto simp: d(1))
    also have "map ((!) (m_entries l)) ?is = drop (length b + 1) (take (length b + min (nat n) (length f) + 1) (m_entries l))"
      by (rule map_nth_range) (simp add: d(1))
    also have "\<dots> = take (nat n) f" by (simp add: d(1) min_def)
    finally show ?thesis .
  qed (use d in \<open>simp add: forwardListWithLimit_def\<close>)
qed

lemma no_items:
  assumes "bf_ok l" "m_entries l = []"
  shows "backItem l = Some None" "currentItem l = Some None" "forwardItem l = Some None"
    "backListCount l = 0" "forwardListCount l = 0" "itemAtIndex k l = Some None"
    "backListWithLimit n l = Some []" "forwardListWithLimit n l = Some []"
proof -
  have c: "m_current l = NoCurrentItemIndex" using assms by (simp add: bf_ok_def)
  then show "backItem l = Some None" "currentItem l = Some None" "forwardItem l = Some None"
    "backListCount l = 0" "forwardListCount l = 0" "backListWithLimit n l = Some []" "forwardListWithLimit n l = Some []"
    using assms(2) by (simp_all add: backItem_def currentItem_def forwardItem_def backListCount_def forwardListCount_def
        backListWithLimit_def forwardListWithLimit_def)
  have "i32 (- i32 (int NoCurrentItemIndex)) = 1" "i32 0 = 0" by (simp_all add: NoCurrentItemIndex_def i32_def)
  then show "itemAtIndex k l = Some None" using c \<open>forwardListCount l = 0\<close> by (simp add: itemAtIndex_def)
qed

lemma bf_ok_cases:
  assumes "bf_ok l"
  obtains "m_entries l = []" "history l = None" | b c f where "at_item l b c f" "history l = Some (b, c, f)"
proof (cases "m_entries l = []")
  case False
  from history_split [OF assms this] that(2) assms show ?thesis unfolding at_item_def by blast
qed (use that(1) in \<open>simp add: history_def\<close>)

subsection \<open>Reachable histories\<close>

text \<open>The calls of a view: a new item is visited once, and the arrows work when there is somewhere to go.\<close>

inductive bf_step :: "'a back_forward_list \<Rightarrow> 'a back_forward_list \<Rightarrow> bool" where
  visits: "x \<notin> set (m_entries l) \<Longrightarrow> addItem x l = Some l' \<Longrightarrow> bf_step l l'"
| goes_back: "0 < backListCount l \<Longrightarrow> bf_step l (goBack l)"
| goes_forward: "0 < forwardListCount l \<Longrightarrow> bf_step l (goForward l)"
| go_to: "bf_step l (goToItem x l)"
| removes: "bf_step l (removeItem item l)"
| resizes: "0 \<le> n \<Longrightarrow> n < 2147483648 \<Longrightarrow> setCapacity n l = Some l' \<Longrightarrow> bf_step l l'"
| enables: "setEnabled en l = Some l' \<Longrightarrow> bf_step l l'"

inductive_cases bf_stepE: "bf_step l l'"






subsection \<open>Properties\<close>


definition sample_history :: "nat back_forward_list" where
  "sample_history = \<lparr>m_entries = [1, 2, 3], m_entryHash = {1, 2, 3}, m_current = 2, m_capacity = 100,
     m_closed = True, m_enabled = True, cacheRemovals = []\<rparr>"




text \<open>
  C24. Visiting an item makes it the current one, forgets what was ahead, keeps what was behind up to
  the capacity by dropping the oldest item, and asks the page cache to drop exactly the items that
  left the list.
\<close>

theorem visit_refines:
  assumes "bf_ok l" "accepts x l"
  shows "\<exists>l' dropped. addItem x l = Some l' \<and> bf_ok l' \<and> history l' = visit (m_capacity l) x (history l) \<and>
    currentItem l' = Some (Some x) \<and> cacheRemovals l' = cacheRemovals l @ dropped \<and>
    set dropped = set (m_entries l) - set (m_entries l')"
proof -
  obtain l' dropped where l': "addItem x l = Some l'" "bf_ok l'" "history l' = visit (m_capacity l) x (history l)"
    "cacheRemovals l' = cacheRemovals l @ dropped" "set dropped = set (m_entries l) - set (m_entries l')"
    using addItem_correct [OF assms] by blast
  have "\<exists>b. history l' = Some (b, x, [])" unfolding l'(3) by (cases "(m_capacity l, x, history l)" rule: visit.cases) auto
  then have "currentItem l' = Some (Some x)"
    by (rule_tac bf_ok_cases [OF l'(2)]) (auto dest: items_at_item(2))
  then show ?thesis using l' by blast
qed

lemma sample_history_ok: "bf_ok sample_history" "accepts 7 sample_history" "0 < backListCount sample_history"
  by (auto simp: sample_history_def bf_ok_def accepts_def backListCount_def NoCurrentItemIndex_def)

theorem visit_refines_witness: "\<exists>l'. addItem 7 sample_history = Some l' \<and> currentItem l' = Some (Some 7)"
  using visit_refines [OF sample_history_ok(1,2)] by blast

text \<open>
  C25. The back and forward arrows move the zipper one item, keep the entries, and undo each other.
\<close>

theorem arrows_refine:
  assumes "bf_ok l" "0 < backListCount l"
  shows "bf_ok (goBack l) \<and> history (goBack l) = go_back (history l) \<and> m_entries (goBack l) = m_entries l \<and>
    0 < forwardListCount (goBack l) \<and> history (goForward (goBack l)) = history l \<and>
    (forwardListCount l = 0 \<or> history (goBack (goForward l)) = history l)"
proof -
  note b = goBack_correct [OF assms]
  have ne: "m_entries l \<noteq> []" using assms no_items(4) [OF assms(1)] by auto
  obtain p c f where h: "at_item l p c f" "history l = Some (p, c, f)" by (rule bf_ok_cases [OF assms(1)]) (use ne in auto)
  have p: "p \<noteq> []" using assms(2) items_at_item(4) [OF h(1)] by auto
  then obtain q y where q: "p = q @ [y]" by (metis rev_exhaust)
  have hb: "history (goBack l) = Some (q, y, c # f)" by (simp add: b(2) h(2) q)
  have at: "at_item (goBack l) q y (c # f)" by (rule bf_ok_cases [OF b(1)]) (use hb in auto)
  have f: "0 < forwardListCount (goBack l)" using items_at_item(5) [OF at] by simp
  have "history (goForward (goBack l)) = history l" using goForward_correct(2) [OF b(1) f] by (simp add: hb h(2) q)
  moreover have "history (goBack (goForward l)) = history l" if pos: "0 < forwardListCount l"
  proof -
    note g = goForward_correct [OF assms(1) pos]
    obtain z f' where f': "f = z # f'" using pos items_at_item(5) [OF h(1)] by (cases f) auto
    have hg: "history (goForward l) = Some (p @ [c], z, f')" by (simp add: g(2) h(2) f')
    have "at_item (goForward l) (p @ [c]) z f'" by (rule bf_ok_cases [OF g(1)]) (use hg in auto)
    then have "0 < backListCount (goForward l)" using items_at_item(4) by fastforce
    then show ?thesis using goBack_correct(2) [OF g(1)] by (simp add: hg h(2) f')
  qed
  ultimately show ?thesis using b f by blast
qed

theorem arrows_refine_witness: "history (goForward (goBack sample_history)) = Some ([1, 2], 3, [])"
  using arrows_refine [OF sample_history_ok(1,3)] by (simp add: history_def sample_history_def)

text \<open>
  C26. The accessors read the zipper: the counts, the item at a relative index with its range checks,
  and the lists with a limit are its parts, and an empty list answers with nothing.
\<close>

theorem accessors_correct:
  assumes "bf_ok l" "- 2147483648 \<le> k" "k < 2147483648" "0 \<le> n" "n < 2147483648"
  shows "case history l of
      None \<Rightarrow> backListCount l = 0 \<and> forwardListCount l = 0 \<and> itemAtIndex k l = Some None \<and>
        backListWithLimit n l = Some [] \<and> forwardListWithLimit n l = Some []
    | Some (b, c, f) \<Rightarrow> backListCount l = length b \<and> forwardListCount l = length f \<and>
        itemAtIndex k l = Some (if - int (length b) \<le> k \<and> k \<le> int (length f)
          then Some ((b @ c # f) ! nat (int (length b) + k)) else None) \<and>
        backListWithLimit n l = Some (drop (length b - nat n) b) \<and> forwardListWithLimit n l = Some (take (nat n) f)"
proof (rule bf_ok_cases [OF assms(1)])
  fix b c f assume at: "at_item l b c f" and h: "history l = Some (b, c, f)"
  show ?thesis unfolding h option.case prod.case
    using items_at_item(4,5) [OF at] itemAtIndex_at_item [OF at assms(2,3)] limits_at_item [OF at assms(4,5)] by blast
qed (use no_items [OF assms(1)] in auto)

theorem accessors_correct_witness: "itemAtIndex (- 2) sample_history = Some (Some 1)"
  using accessors_correct [OF sample_history_ok(1), of "- 2" 0] by (simp add: history_def sample_history_def)

text \<open>
  C27. Removing an item takes it out of the list wherever it is; when it is the current one, the next
  item, or else the one before, becomes current.  The page cache is not told.
\<close>

theorem remove_refines:
  assumes "bf_ok l"
  shows "bf_ok (removeItem (Some x) l) \<and> history (removeItem (Some x) l) = forget x (history l) \<and>
    \<not> containsItem x (removeItem (Some x) l) \<and> cacheRemovals (removeItem (Some x) l) = cacheRemovals l"
  using removeItem_correct [OF assms, of x] by (auto simp: containsItem_def bf_ok_def)

theorem remove_refines_witness: "history (removeItem (Some 3) sample_history) = Some ([1], 2, [])"
  using remove_refines [OF sample_history_ok(1), of 3] by (simp add: history_def sample_history_def)


text \<open>
  C28. A negative capacity empties the list and then reads past its end; every other capacity keeps
  the oldest items, the current one if it fits, and tells the page cache about the rest.
\<close>

theorem set_capacity_correct:
  assumes "bf_ok l" "- 2147483648 \<le> n" "n < 2147483648"
  shows "if n < 0 then setCapacity n l = None
    else \<exists>l'. setCapacity n l = Some l' \<and> bf_ok l' \<and> m_entries l' = take (nat n) (m_entries l) \<and> m_capacity l' = nat n \<and>
      m_current l' = (if m_entries l' = [] then NoCurrentItemIndex else min (m_current l) (length (m_entries l') - 1)) \<and>
      cacheRemovals l' = cacheRemovals l @ rev (drop (nat n) (m_entries l))"
proof (cases "n < 0")
  case False
  then show ?thesis using setCapacity_correct [OF assms(1) _ assms(3)] unfolding if_not_P [OF False] by (metis not_less)
qed (simp add: setCapacity_negative)

theorem set_capacity_witness: "setCapacity (- 1) sample_history = None"
  using set_capacity_correct [OF sample_history_ok(1), of "- 1"] by simp

end
