(* ===== verification/Base64.thy ===== *)
theory Base64
  imports Prelude
begin

text \<open>
  Base64 encoding and decoding of WTF (wtf/text/Base64.cpp).  The output vector is the list of the
  bytes written so far; a write past the length the vector was grown to, or a read outside it, is
  \<open>None\<close>.  \<^verbatim>\<open>isSpaceOrNewline\<close> asks ICU about characters beyond Latin-1: \<open>dirWS\<close> stands for that question.
\<close>

unbundle bit_operations_syntax

subsection \<open>Alphabets\<close>

definition nonAlphabet :: byte where
  "nonAlphabet = 255"

definition base64EncMap :: "byte list" where
  "base64EncMap = [
     65, 66, 67, 68, 69, 70, 71, 72,
     73, 74, 75, 76, 77, 78, 79, 80,
     81, 82, 83, 84, 85, 86, 87, 88,
     89, 90, 97, 98, 99, 100, 101, 102,
     103, 104, 105, 106, 107, 108, 109, 110,
     111, 112, 113, 114, 115, 116, 117, 118,
     119, 120, 121, 122, 48, 49, 50, 51,
     52, 53, 54, 55, 56, 57, 43, 47]"

definition base64DecMap :: "byte list" where
  "base64DecMap = [
     nonAlphabet, nonAlphabet, nonAlphabet, nonAlphabet, nonAlphabet, nonAlphabet, nonAlphabet, nonAlphabet,
     nonAlphabet, nonAlphabet, nonAlphabet, nonAlphabet, nonAlphabet, nonAlphabet, nonAlphabet, nonAlphabet,
     nonAlphabet, nonAlphabet, nonAlphabet, nonAlphabet, nonAlphabet, nonAlphabet, nonAlphabet, nonAlphabet,
     nonAlphabet, nonAlphabet, nonAlphabet, nonAlphabet, nonAlphabet, nonAlphabet, nonAlphabet, nonAlphabet,
     nonAlphabet, nonAlphabet, nonAlphabet, nonAlphabet, nonAlphabet, nonAlphabet, nonAlphabet, nonAlphabet,
     nonAlphabet, nonAlphabet, nonAlphabet, 62, nonAlphabet, nonAlphabet, nonAlphabet, 63,
     52, 53, 54, 55, 56, 57, 58, 59,
     60, 61, nonAlphabet, nonAlphabet, nonAlphabet, nonAlphabet, nonAlphabet, nonAlphabet,
     nonAlphabet, 0, 1, 2, 3, 4, 5, 6,
     7, 8, 9, 10, 11, 12, 13, 14,
     15, 16, 17, 18, 19, 20, 21, 22,
     23, 24, 25, nonAlphabet, nonAlphabet, nonAlphabet, nonAlphabet, nonAlphabet,
     nonAlphabet, 26, 27, 28, 29, 30, 31, 32,
     33, 34, 35, 36, 37, 38, 39, 40,
     41, 42, 43, 44, 45, 46, 47, 48,
     49, 50, 51, nonAlphabet, nonAlphabet, nonAlphabet, nonAlphabet, nonAlphabet]"

definition base64URLEncMap :: "byte list" where
  "base64URLEncMap = [
     65, 66, 67, 68, 69, 70, 71, 72,
     73, 74, 75, 76, 77, 78, 79, 80,
     81, 82, 83, 84, 85, 86, 87, 88,
     89, 90, 97, 98, 99, 100, 101, 102,
     103, 104, 105, 106, 107, 108, 109, 110,
     111, 112, 113, 114, 115, 116, 117, 118,
     119, 120, 121, 122, 48, 49, 50, 51,
     52, 53, 54, 55, 56, 57, 45, 95]"

definition base64URLDecMap :: "byte list" where
  "base64URLDecMap = [
     nonAlphabet, nonAlphabet, nonAlphabet, nonAlphabet, nonAlphabet, nonAlphabet, nonAlphabet, nonAlphabet,
     nonAlphabet, nonAlphabet, nonAlphabet, nonAlphabet, nonAlphabet, nonAlphabet, nonAlphabet, nonAlphabet,
     nonAlphabet, nonAlphabet, nonAlphabet, nonAlphabet, nonAlphabet, nonAlphabet, nonAlphabet, nonAlphabet,
     nonAlphabet, nonAlphabet, nonAlphabet, nonAlphabet, nonAlphabet, nonAlphabet, nonAlphabet, nonAlphabet,
     nonAlphabet, nonAlphabet, nonAlphabet, nonAlphabet, nonAlphabet, nonAlphabet, nonAlphabet, nonAlphabet,
     nonAlphabet, nonAlphabet, nonAlphabet, nonAlphabet, nonAlphabet, 62, nonAlphabet, nonAlphabet,
     52, 53, 54, 55, 56, 57, 58, 59,
     60, 61, nonAlphabet, nonAlphabet, nonAlphabet, nonAlphabet, nonAlphabet, nonAlphabet,
     nonAlphabet, 0, 1, 2, 3, 4, 5, 6,
     7, 8, 9, 10, 11, 12, 13, 14,
     15, 16, 17, 18, 19, 20, 21, 22,
     23, 24, 25, nonAlphabet, nonAlphabet, nonAlphabet, nonAlphabet, 63,
     nonAlphabet, 26, 27, 28, 29, 30, 31, 32,
     33, 34, 35, 36, 37, 38, 39, 40,
     41, 42, 43, 44, 45, 46, 47, 48,
     49, 50, 51, nonAlphabet, nonAlphabet, nonAlphabet, nonAlphabet, nonAlphabet]"

datatype Base64EncodePolicy = Base64DoNotInsertLFs | Base64InsertLFs | Base64URLPolicy

definition Base64Default :: "32 word" where
  "Base64Default = 0"

definition Base64ValidatePadding :: "32 word" where
  "Base64ValidatePadding = push_bit 0 1"

definition Base64IgnoreSpacesAndNewLines :: "32 word" where
  "Base64IgnoreSpacesAndNewLines = push_bit 1 1"

definition isASCIISpace :: "nat \<Rightarrow> bool" where
  "isASCIISpace c \<longleftrightarrow> c \<le> 32 \<and> (c = 32 \<or> (c \<le> 13 \<and> c \<ge> 9))"

definition isSpaceOrNewline :: "(nat \<Rightarrow> bool) \<Rightarrow> nat \<Rightarrow> bool" where
  "isSpaceOrNewline dirWS c = (if c \<le> 255 then isASCIISpace c else dirWS c)"

subsection \<open>Encoding\<close>

definition puts :: "nat \<Rightarrow> byte list \<Rightarrow> byte list \<Rightarrow> byte list option" where
  "puts outLength vs out = (if length out + length vs \<le> outLength then Some (out @ vs) else None)"

definition encodeChar :: "byte list \<Rightarrow> byte \<Rightarrow> byte" where
  "encodeChar encodeMap s = encodeMap ! unat s"

definition encode_triple :: "byte list \<Rightarrow> byte \<Rightarrow> byte \<Rightarrow> byte \<Rightarrow> byte list" where
  "encode_triple encodeMap a b c =
     map (encodeChar encodeMap)
       [drop_bit 2 a AND 63, (drop_bit 4 b AND 15) OR (push_bit 4 a AND 63),
        (drop_bit 6 c AND 3) OR (push_bit 2 b AND 63), c AND 63]"

definition encode_pair :: "byte list \<Rightarrow> byte \<Rightarrow> byte \<Rightarrow> byte list" where
  "encode_pair encodeMap a b =
     map (encodeChar encodeMap) [drop_bit 2 a AND 63, (drop_bit 4 b AND 15) OR (push_bit 4 a AND 63), push_bit 2 b AND 63]"

definition encode_single :: "byte list \<Rightarrow> byte \<Rightarrow> byte list" where
  "encode_single encodeMap a = map (encodeChar encodeMap) [drop_bit 2 a AND 63, push_bit 4 a AND 63]"

function encode_loop ::
  "byte list \<Rightarrow> nat \<Rightarrow> bool \<Rightarrow> byte list \<Rightarrow> nat \<Rightarrow> int \<Rightarrow> byte list \<Rightarrow> (nat \<times> int \<times> byte list) option" where
  "encode_loop encodeMap outLength insertLFs data sidx count out =
     (if sidx < length data - 2 then
        (let lf = (if insertLFs \<and> count \<noteq> 0 \<and> count mod 76 = 0 then [10] else []);
             count' = (if insertLFs then i32 (count + 4) else count)
         in case puts outLength (lf @ encode_triple encodeMap (data ! sidx) (data ! (sidx + 1)) (data ! (sidx + 2))) out of
              None \<Rightarrow> None
            | Some out' \<Rightarrow> encode_loop encodeMap outLength insertLFs data (sidx + 3) count' out')
      else Some (sidx, count, out))"
  by pat_completeness auto
termination by (relation "measure (\<lambda>(m, n, lf, data, sidx, count, out). length data - sidx)") auto

declare encode_loop.simps [simp del]

definition encode_tail :: "byte list \<Rightarrow> nat \<Rightarrow> bool \<Rightarrow> byte list \<Rightarrow> nat \<Rightarrow> int \<Rightarrow> byte list \<Rightarrow> byte list option" where
  "encode_tail encodeMap outLength insertLFs data sidx count out =
     (if sidx < length data then
        puts outLength
          ((if insertLFs \<and> count > 0 \<and> count mod 76 = 0 then [10] else []) @
           (if sidx < length data - 1 then encode_pair encodeMap (data ! sidx) (data ! (sidx + 1))
            else encode_single encodeMap (data ! sidx))) out
      else Some out)"

definition maxInputBufferSize :: nat where
  "maxInputBufferSize = 4294967295 div 77 * 76 div 4 * 3 - 2"

definition base64EncodeInternal :: "byte list \<Rightarrow> Base64EncodePolicy \<Rightarrow> byte list \<Rightarrow> byte list option" where
  "base64EncodeInternal data policy encodeMap =
     (let len = length data in
      if len = 0 then Some []
      else if len > maxInputBufferSize then Some []
      else
        (let outLength0 = u32 (u32 (len + 2) div 3 * 4);
             insertLFs = (policy = Base64InsertLFs \<and> outLength0 > 76);
             outLength = (if insertLFs then u32 (outLength0 + (outLength0 - 1) div 76) else outLength0)
         in case (if len > 1 then encode_loop encodeMap outLength insertLFs data 0 0 [] else Some (0, 0, [])) of
              None \<Rightarrow> None
            | Some (sidx, count, out) \<Rightarrow>
                (case encode_tail encodeMap outLength insertLFs data sidx count out of
                   None \<Rightarrow> None
                 | Some out' \<Rightarrow>
                     if policy = Base64URLPolicy then Some out'
                     else Some (out' @ replicate (outLength - length out') 61))))"

definition base64Encode :: "byte list \<Rightarrow> Base64EncodePolicy \<Rightarrow> byte list option" where
  "base64Encode data policy = base64EncodeInternal data policy base64EncMap"

definition base64URLEncode :: "byte list \<Rightarrow> byte list option" where
  "base64URLEncode data = base64EncodeInternal data Base64URLPolicy base64URLEncMap"

subsection \<open>Decoding\<close>

text \<open>The scan over the input: whether it met an error, the number of padding characters, and the decoded sextets.\<close>

fun decode_scan ::
  "(nat \<Rightarrow> bool) \<Rightarrow> 32 word \<Rightarrow> byte list \<Rightarrow> nat list \<Rightarrow> nat \<Rightarrow> byte list \<Rightarrow> bool \<times> nat \<times> byte list" where
  "decode_scan dirWS options decodeMap [] equalsSignCount out = (False, equalsSignCount, out)"
| "decode_scan dirWS options decodeMap (ch # data) equalsSignCount out =
     (if ch = 61 then
        (if options AND Base64ValidatePadding \<noteq> 0 \<and> equalsSignCount + 1 > 2 then (True, equalsSignCount + 1, out)
         else decode_scan dirWS options decodeMap data (equalsSignCount + 1) out)
      else
        (let decodedCharacter = (if ch < length decodeMap then decodeMap ! ch else nonAlphabet) in
         if decodedCharacter \<noteq> nonAlphabet then
           (if equalsSignCount \<noteq> 0 then (True, equalsSignCount, out)
            else decode_scan dirWS options decodeMap data equalsSignCount (out @ [decodedCharacter]))
         else if options AND Base64IgnoreSpacesAndNewLines = 0 \<or> \<not> isSpaceOrNewline dirWS ch then (True, equalsSignCount, out)
         else decode_scan dirWS options decodeMap data equalsSignCount out))"

definition byte1 :: "byte \<Rightarrow> byte \<Rightarrow> byte" where
  "byte1 s t = (push_bit 2 s AND 255) OR (drop_bit 4 t AND 3)"

definition byte2 :: "byte \<Rightarrow> byte \<Rightarrow> byte" where
  "byte2 t u = (push_bit 4 t AND 255) OR (drop_bit 2 u AND 15)"

definition byte3 :: "byte \<Rightarrow> byte \<Rightarrow> byte" where
  "byte3 u v = (push_bit 6 u AND 255) OR (v AND 63)"

text \<open>The conversion in place: every write is visible to the reads after it.\<close>

function decode_loop :: "nat \<Rightarrow> byte list \<Rightarrow> nat \<Rightarrow> nat \<Rightarrow> (byte list \<times> nat \<times> nat) option" where
  "decode_loop outLength out sidx didx =
     (if didx < outLength - 2 then
        (if sidx + 3 < length out then
           (let out1 = out[didx := byte1 (out ! sidx) (out ! (sidx + 1))];
                out2 = out1[didx + 1 := byte2 (out1 ! (sidx + 1)) (out1 ! (sidx + 2))];
                out3 = out2[didx + 2 := byte3 (out2 ! (sidx + 2)) (out2 ! (sidx + 3))]
            in decode_loop outLength out3 (sidx + 4) (didx + 3))
         else None)
      else Some (out, sidx, didx))"
  by pat_completeness auto
termination by (relation "measure (\<lambda>(n, out, sidx, didx). n - didx)") auto

declare decode_loop.simps [simp del]

definition decode_rest :: "nat \<Rightarrow> byte list \<Rightarrow> nat \<Rightarrow> nat \<Rightarrow> byte list option" where
  "decode_rest outLength out sidx didx =
     (case (if didx < outLength then
              (if sidx + 1 < length out then Some (out[didx := byte1 (out ! sidx) (out ! (sidx + 1))]) else None)
            else Some out) of
        None \<Rightarrow> None
      | Some out1 \<Rightarrow>
          if didx + 1 < outLength then
            (if sidx + 2 < length out1 then Some (out1[didx + 1 := byte2 (out1 ! (sidx + 1)) (out1 ! (sidx + 2))]) else None)
          else Some out1)"

definition base64DecodeInternal ::
  "(nat \<Rightarrow> bool) \<Rightarrow> nat list \<Rightarrow> 32 word \<Rightarrow> byte list \<Rightarrow> (bool \<times> byte list) option" where
  "base64DecodeInternal dirWS data options decodeMap =
     (if data = [] then Some (True, [])
      else
        (case decode_scan dirWS options decodeMap data 0 [] of (hadError, equalsSignCount, out) \<Rightarrow>
         if hadError then Some (False, out)
         else if out = [] then Some (equalsSignCount = 0, out)
         else if options AND Base64ValidatePadding \<noteq> 0 \<and> equalsSignCount \<noteq> 0 \<and> (length out + equalsSignCount) mod 4 \<noteq> 0
           then Some (False, out)
         else if length out mod 4 = 1 then Some (False, out)
         else
           (let outLength = length out - (length out + 3) div 4 in
            if outLength = 0 then Some (False, out)
            else
              (case (if outLength > 1 then decode_loop outLength out 0 0 else Some (out, 0, 0)) of
                 None \<Rightarrow> None
               | Some (out1, sidx, didx) \<Rightarrow>
                   map_option (\<lambda>out2. (True, take outLength out2)) (decode_rest outLength out1 sidx didx)))))"

definition base64Decode :: "(nat \<Rightarrow> bool) \<Rightarrow> nat list \<Rightarrow> 32 word \<Rightarrow> (bool \<times> byte list) option" where
  "base64Decode dirWS data options = base64DecodeInternal dirWS data options base64DecMap"

definition base64Decode_vector :: "(nat \<Rightarrow> bool) \<Rightarrow> nat list \<Rightarrow> 32 word \<Rightarrow> (bool \<times> byte list) option" where
  "base64Decode_vector dirWS data options =
     (if length data > 4294967295 then Some (False, []) else base64DecodeInternal dirWS data options base64DecMap)"

definition base64URLDecode :: "(nat \<Rightarrow> bool) \<Rightarrow> nat list \<Rightarrow> (bool \<times> byte list) option" where
  "base64URLDecode dirWS data = base64DecodeInternal dirWS data Base64Default base64URLDecMap"

definition base64URLDecode_vector :: "(nat \<Rightarrow> bool) \<Rightarrow> nat list \<Rightarrow> (bool \<times> byte list) option" where
  "base64URLDecode_vector dirWS data =
     (if length data > 4294967295 then Some (False, []) else base64DecodeInternal dirWS data Base64Default base64URLDecMap)"

end
