(* ===== verification/Base64_Round_Trip.thy ===== *)
theory Base64_Round_Trip
  imports Base64
begin

text \<open>
  Reference definitions of the encoding and of the conversion of sextets, the equivalence of the
  routines of WTF with them, and the round trip for every policy.
\<close>

unbundle bit_operations_syntax

subsection \<open>The encoder\<close>

definition lf_before :: "bool \<Rightarrow> nat \<Rightarrow> byte list" where
  "lf_before lf i = (if lf \<and> i \<noteq> 0 \<and> i mod 19 = 0 then [10] else [])"

text \<open>The reference: group by group, a line feed before every nineteenth group.\<close>

fun encode_ref :: "byte list \<Rightarrow> bool \<Rightarrow> nat \<Rightarrow> byte list \<Rightarrow> byte list" where
  "encode_ref m lf i [] = []"
| "encode_ref m lf i [a] = lf_before lf i @ encode_single m a"
| "encode_ref m lf i [a, b] = lf_before lf i @ encode_pair m a b"
| "encode_ref m lf i (a # b # c # r) = lf_before lf i @ encode_triple m a b c @ encode_ref m lf (Suc i) r"

lemma encode_lengths [simp]: "length (encode_triple m a b c) = 4" "length (encode_pair m a b) = 3" "length (encode_single m a) = 2"
  by (simp_all add: encode_triple_def encode_pair_def encode_single_def)

definition counts :: "bool \<Rightarrow> nat \<Rightarrow> int \<Rightarrow> byte list \<Rightarrow> bool" where
  "counts lf i count rest \<longleftrightarrow> (lf \<longrightarrow> count = 4 * int i \<and> i + (length rest + 2) div 3 \<le> 536870911)"

lemma counts_lf:
  assumes "counts lf i count rest"
  shows "(if lf \<and> count \<noteq> 0 \<and> count mod 76 = 0 then [10] else []) = lf_before lf i"
    "(if lf \<and> count > 0 \<and> count mod 76 = 0 then [10] else []) = lf_before lf i"
proof -
  have "(4 * int i) mod 76 = 0 \<longleftrightarrow> i mod 19 = 0" by presburger
  then show "(if lf \<and> count \<noteq> 0 \<and> count mod 76 = 0 then [10] else []) = lf_before lf i"
    "(if lf \<and> count > 0 \<and> count mod 76 = 0 then [10] else []) = lf_before lf i"
    using assms by (auto simp: counts_def lf_before_def)
qed

lemma counts_step:
  assumes "counts lf i count (a # b # c # r)"
  shows "counts lf (Suc i) (if lf then i32 (count + 4) else count) r"
proof -
  have "(length (a # b # c # r) + 2) div 3 = Suc ((length r + 2) div 3)" by simp
  moreover have "i32 (4 * int i + 4) = 4 * int (Suc i)" if "Suc i \<le> 536870911"
    using i32_id [of "4 * int i + 4"] that by simp
  ultimately show ?thesis using assms by (auto simp: counts_def)
qed

lemma drop_nth:
  assumes "drop s d = xs" "k < length xs"
  shows "d ! (s + k) = xs ! k" "s + k < length d"
  using assms by auto

lemma encode_loop_stop: "length data \<le> sidx + 2 \<Longrightarrow> encode_loop m n lf data sidx count out = Some (sidx, count, out)"
  by (subst encode_loop.simps) auto

lemma encode_finish:
  "drop sidx data = rest \<Longrightarrow> counts lf i count rest \<Longrightarrow> length out + length (encode_ref m lf i rest) \<le> n \<Longrightarrow>
   (case encode_loop m n lf data sidx count out of
      None \<Rightarrow> None | Some (s, c, o') \<Rightarrow> encode_tail m n lf data s c o') = Some (out @ encode_ref m lf i rest)"
proof (induction m lf i rest arbitrary: sidx count out rule: encode_ref.induct)
  case (1 m lf i)
  then show ?case by (simp add: encode_loop_stop encode_tail_def)
next
  case (2 m lf i a)
  have len: "length data = sidx + 1" "data ! sidx = a" using drop_nth [OF "2.prems"(1), of 0] arg_cong [OF "2.prems"(1), of length] by auto
  then show ?case using "2.prems"(3) counts_lf(2) [OF "2.prems"(2)]
    by (simp add: encode_loop_stop encode_tail_def puts_def)
next
  case (3 m lf i a b)
  have len: "length data = sidx + 2" "data ! sidx = a" "data ! (sidx + 1) = b"
    using drop_nth [OF "3.prems"(1), of 0] drop_nth [OF "3.prems"(1), of 1] arg_cong [OF "3.prems"(1), of length] by auto
  then show ?case using "3.prems"(3) counts_lf(2) [OF "3.prems"(2)]
    by (simp add: encode_loop_stop encode_tail_def puts_def)
next
  case (4 m lf i a b c r)
  have d: "data ! sidx = a" "data ! (sidx + 1) = b" "data ! (sidx + 2) = c" "sidx < length data - 2"
    using drop_nth [OF "4.prems"(1), of 0] drop_nth [OF "4.prems"(1), of 1] drop_nth [OF "4.prems"(1), of 2] by auto
  have "drop (sidx + 3) data = drop 3 (drop sidx data)" by (simp add: add.commute)
  then have r: "drop (sidx + 3) data = r" using "4.prems"(1) by simp
  let ?out = "out @ lf_before lf i @ encode_triple m a b c"
  have "puts n (lf_before lf i @ encode_triple m a b c) out = Some ?out" using "4.prems"(3) by (simp add: puts_def)
  then have "encode_loop m n lf data sidx count out =
      encode_loop m n lf data (sidx + 3) (if lf then i32 (count + 4) else count) ?out"
    using d counts_lf(1) [OF "4.prems"(2)] by (subst encode_loop.simps) (simp add: Let_def)
  then show ?case using "4.IH" [OF r counts_step [OF "4.prems"(2)], of ?out] "4.prems"(3) by simp
qed

subsection \<open>The length of the output\<close>

fun lf_count :: "nat \<Rightarrow> nat \<Rightarrow> nat" where
  "lf_count i 0 = 0"
| "lf_count i (Suc n) = (if i \<noteq> 0 \<and> i mod 19 = 0 then 1 else 0) + lf_count (Suc i) n"

lemma lf_count_pos: "lf_count (Suc i) n + i div 19 = (i + n) div 19"
proof (induction n arbitrary: i)
  case (Suc n)
  have "Suc i div 19 = (if Suc i mod 19 = 0 then 1 else 0) + i div 19" by (simp add: div_Suc)
  then show ?case using Suc.IH [of "Suc i"] by (auto split: if_splits)
qed simp

lemma lf_count_0: "0 < n \<Longrightarrow> lf_count 0 n = (n - 1) div 19"
  using lf_count_pos [of 0 "n - 1"] by (cases n) simp_all

definition pad_length :: "nat \<Rightarrow> nat" where
  "pad_length len = (3 - len mod 3) mod 3"

lemma pad_length_step: "pad_length (Suc (Suc (Suc n))) = pad_length n"
proof -
  have "Suc (Suc (Suc n)) mod 3 = n mod 3" by presburger
  then show ?thesis unfolding pad_length_def by (simp only:)
qed

lemma length_encode_ref:
  "length (encode_ref m lf i data) + pad_length (length data) =
   4 * ((length data + 2) div 3) + (if lf then lf_count i ((length data + 2) div 3) else 0)"
proof (induction m lf i data rule: encode_ref.induct)
  case (4 m lf i a b c r)
  have "(length (a # b # c # r) + 2) div 3 = Suc ((length r + 2) div 3)" by simp
  then show ?case using 4 by (simp add: pad_length_step lf_before_def)
qed (auto simp: lf_before_def pad_length_def)

lemma maxInputBufferSize_eq: "maxInputBufferSize = 3179391370"
  by (simp add: maxInputBufferSize_def)

definition line_feeds :: "Base64EncodePolicy \<Rightarrow> byte list \<Rightarrow> bool" where
  "line_feeds policy data \<longleftrightarrow> policy = Base64InsertLFs \<and> 19 < (length data + 2) div 3"

definition padding :: "Base64EncodePolicy \<Rightarrow> byte list \<Rightarrow> byte list" where
  "padding policy data = (if policy = Base64URLPolicy then [] else replicate (pad_length (length data)) 61)"

definition encodable :: "Base64EncodePolicy \<Rightarrow> byte list \<Rightarrow> bool" where
  "encodable policy data \<longleftrightarrow> length data \<le> maxInputBufferSize \<and> (policy = Base64InsertLFs \<longrightarrow> (length data + 2) div 3 \<le> 536870911)"

lemma encode_out_length:
  assumes "data \<noteq> []" "length data \<le> maxInputBufferSize"
  defines "g \<equiv> (length data + 2) div 3"
  shows "u32 (u32 (length data + 2) div 3 * 4) = 4 * g" "u32 (4 * g + (4 * g - 1) div 76) = 4 * g + (g - 1) div 19"
proof -
  have l: "length data \<le> 3179391370" using assms(2) by (simp add: maxInputBufferSize_eq)
  then have g: "g \<le> 1059797124" by (simp add: g_def)
  obtain h where h: "g = Suc h" using assms(1) by (cases data; cases g) (simp_all add: g_def)
  have "(4 * h + 3) div (4 * 19) = (4 * h + 3) div 4 div 19" by (rule div_mult2_eq)
  then have "(4 * g - 1) div 76 = (g - 1) div 19" by (simp add: h)
  then show "u32 (4 * g + (4 * g - 1) div 76) = 4 * g + (g - 1) div 19" using g by (simp add: u32_id)
  show "u32 (u32 (length data + 2) div 3 * 4) = 4 * g" using l g by (simp add: u32_id g_def)
qed

lemma encode_correct:
  assumes "encodable policy data"
  shows "base64EncodeInternal data policy m = Some (encode_ref m (line_feeds policy data) 0 data @ padding policy data)"
proof (cases "data = []")
  case True
  then show ?thesis by (simp add: base64EncodeInternal_def padding_def pad_length_def)
next
  case False
  have max: "length data \<le> maxInputBufferSize" using assms by (simp add: encodable_def)
  define g where "g = (length data + 2) div 3"
  note len = encode_out_length [OF False max, folded g_def]
  let ?lf = "line_feeds policy data" and ?ref = "encode_ref m (line_feeds policy data) 0 data"
  have g0: "0 < g" using False by (cases data) (simp_all add: g_def)
  have lf: "(policy = Base64InsertLFs \<and> 4 * g > 76) = ?lf" by (auto simp: line_feeds_def g_def)
  define n where "n = (if ?lf then 4 * g + (g - 1) div 19 else 4 * g)"
  have n0: "(if ?lf then u32 (4 * g + (4 * g - 1) div 76) else 4 * g) = n" unfolding n_def len(2) ..
  have total: "length ?ref + pad_length (length data) = n"
    using length_encode_ref [of m ?lf 0 data] lf_count_0 [OF g0] by (simp add: n_def g_def)
  have "counts ?lf 0 0 data" using assms by (auto simp: counts_def encodable_def line_feeds_def)
  then have fin: "(case encode_loop m n ?lf data 0 0 [] of None \<Rightarrow> None
      | Some (s, c, o') \<Rightarrow> encode_tail m n ?lf data s c o') = Some ?ref"
    using encode_finish [of 0 data data ?lf 0 0 "[]" m n] total by simp
  have loop: "(if length data > 1 then encode_loop m n ?lf data 0 0 [] else Some (0, 0, [])) = encode_loop m n ?lf data 0 0 []"
    by (simp add: encode_loop_stop)
  have "base64EncodeInternal data policy m =
      (case encode_loop m n ?lf data 0 0 [] of None \<Rightarrow> None
       | Some (sidx, count, out) \<Rightarrow> (case encode_tail m n ?lf data sidx count out of None \<Rightarrow> None
         | Some out' \<Rightarrow> if policy = Base64URLPolicy then Some out' else Some (out' @ replicate (n - length out') 61)))"
    unfolding base64EncodeInternal_def Let_def len(1) lf n0 loop using False max by simp
  also have "\<dots> = Some (?ref @ padding policy data)"
    using fin total by (auto simp: padding_def split: option.splits)
  finally show ?thesis .
qed

subsection \<open>Sextets and bytes\<close>

fun sextets :: "byte list \<Rightarrow> byte list" where
  "sextets [] = []"
| "sextets [a] = [drop_bit 2 a AND 63, push_bit 4 a AND 63]"
| "sextets [a, b] = [drop_bit 2 a AND 63, (drop_bit 4 b AND 15) OR (push_bit 4 a AND 63), push_bit 2 b AND 63]"
| "sextets (a # b # c # r) =
     [drop_bit 2 a AND 63, (drop_bit 4 b AND 15) OR (push_bit 4 a AND 63),
      (drop_bit 6 c AND 3) OR (push_bit 2 b AND 63), c AND 63] @ sextets r"

fun decode_ref :: "byte list \<Rightarrow> byte list" where
  "decode_ref (s # t # u # v # r) = byte1 s t # byte2 t u # byte3 u v # decode_ref r"
| "decode_ref [s, t, u] = [byte1 s t, byte2 t u]"
| "decode_ref [s, t] = [byte1 s t]"
| "decode_ref _ = []"

lemma byte_eqI:
  fixes v w :: byte
  assumes "bit v 0 = bit w 0" "bit v 1 = bit w 1" "bit v 2 = bit w 2" "bit v 3 = bit w 3"
    "bit v 4 = bit w 4" "bit v 5 = bit w 5" "bit v 6 = bit w 6" "bit v 7 = bit w 7"
  shows "v = w"
proof (rule bit_word_eqI)
  fix n assume "n < LENGTH(8)"
  then consider "n = 0" | "n = 1" | "n = 2" | "n = 3" | "n = 4" | "n = 5" | "n = 6" | "n = 7" by fastforce
  then show "bit v n = bit w n" using assms by cases simp_all
qed

lemma bytes_of_sextets:
  "byte1 (drop_bit 2 a AND 63) ((drop_bit 4 b AND 15) OR (push_bit 4 a AND 63)) = a"
  "byte2 ((drop_bit 4 b AND 15) OR (push_bit 4 a AND 63)) ((drop_bit 6 c AND 3) OR (push_bit 2 b AND 63)) = b"
  "byte3 ((drop_bit 6 c AND 3) OR (push_bit 2 b AND 63)) (c AND 63) = c"
  "byte2 ((drop_bit 4 b AND 15) OR (push_bit 4 a AND 63)) (push_bit 2 b AND 63) = b"
  "byte1 (drop_bit 2 a AND 63) (push_bit 4 a AND 63) = a"
  unfolding byte1_def byte2_def byte3_def by ((rule byte_eqI; simp add: bit_simps), (rule byte_eqI; simp add: bit_simps),
    (rule byte_eqI; simp add: bit_simps), (rule byte_eqI; simp add: bit_simps), (rule byte_eqI; simp add: bit_simps))

lemma decode_sextets: "decode_ref (sextets data) = data"
  by (induction data rule: sextets.induct) (simp_all add: bytes_of_sextets)

subsection \<open>The conversion in place\<close>

definition byte_count :: "byte list \<Rightarrow> nat" where
  "byte_count ss = length ss - (length ss + 3) div 4"

lemma byte_count_simps:
  "byte_count [] = 0" "byte_count [s] = 0" "byte_count [s, t] = 1" "byte_count [s, t, u] = 2"
  "byte_count (s # t # u # v # r) = 3 + byte_count r"
proof -
  have "(length r + 7) div 4 = Suc ((length r + 3) div 4)" "(length r + 3) div 4 \<le> length r" by simp_all
  then show "byte_count (s # t # u # v # r) = 3 + byte_count r" by (simp add: byte_count_def)
qed (simp_all add: byte_count_def)

lemma decode_loop_stop: "n \<le> didx + 2 \<Longrightarrow> decode_loop n out sidx didx = Some (out, sidx, didx)"
  by (subst decode_loop.simps) auto

lemma take_update_next: "i < length xs \<Longrightarrow> take (Suc i) (xs[i := v]) = take i xs @ [v]"
  by (simp add: take_Suc_conv_app_nth)

lemma decode_finish:
  "drop sidx out = ss \<Longrightarrow> didx \<le> sidx \<Longrightarrow> n = didx + byte_count ss \<Longrightarrow>
   \<exists>out1 s d out2. decode_loop n out sidx didx = Some (out1, s, d) \<and> decode_rest n out1 s d = Some out2 \<and>
     take n out2 = take didx out @ decode_ref ss"
proof (induction ss arbitrary: sidx didx out rule: decode_ref.induct)
  case (1 s t u v r)
  have nth: "out ! sidx = s" "out ! (sidx + 1) = t" "out ! (sidx + 2) = u" "out ! (sidx + 3) = v" "sidx + 3 < length out"
    using drop_nth [OF "1.prems"(1), of 0] drop_nth [OF "1.prems"(1), of 1] drop_nth [OF "1.prems"(1), of 2]
      drop_nth [OF "1.prems"(1), of 3] by auto
  define out3 where "out3 = out[didx := byte1 s t, didx + 1 := byte2 t u, didx + 2 := byte3 u v]"
  have n: "didx < n - 2" "n = (didx + 3) + byte_count r" using "1.prems"(3) by (simp_all add: byte_count_simps)
  have step: "decode_loop n out sidx didx = decode_loop n out3 (sidx + 4) (didx + 3)"
    using n(1) nth "1.prems"(2) by (subst decode_loop.simps) (simp add: Let_def out3_def)
  have "drop (sidx + 4) out = drop 4 (drop sidx out)" by (simp add: add.commute)
  then have "drop (sidx + 4) out3 = r" using "1.prems"(1,2) by (simp add: out3_def)
  moreover have "take (didx + 3) out3 = take didx out @ [byte1 s t, byte2 t u, byte3 u v]"
    using nth(5) "1.prems"(2) by (simp add: out3_def take_update_next numeral_3_eq_3 eval_nat_numeral)
  ultimately show ?case using "1.IH" [of "sidx + 4" out3 "didx + 3"] n(2) "1.prems"(2) unfolding step by simp
next
  case (2 s t u)
  have nth: "out ! sidx = s" "out ! (sidx + 1) = t" "out ! (sidx + 2) = u" "sidx + 2 < length out"
    using drop_nth [OF "2.prems"(1), of 0] drop_nth [OF "2.prems"(1), of 1] drop_nth [OF "2.prems"(1), of 2] by auto
  have n: "n = didx + 2" using "2.prems"(3) by (simp add: byte_count_simps)
  show ?case using nth n "2.prems"(2)
    by (simp add: decode_loop_stop decode_rest_def take_update_next)
next
  case (3 s t)
  have nth: "out ! sidx = s" "out ! (sidx + 1) = t" "sidx + 1 < length out"
    using drop_nth [OF "3.prems"(1), of 0] drop_nth [OF "3.prems"(1), of 1] by auto
  have n: "n = didx + 1" using "3.prems"(3) by (simp add: byte_count_simps)
  show ?case using nth n "3.prems"(2) by (simp add: decode_loop_stop decode_rest_def take_update_next)
qed (simp_all add: byte_count_simps decode_loop_stop decode_rest_def)

definition padded :: "32 word \<Rightarrow> nat \<Rightarrow> nat \<Rightarrow> bool" where
  "padded options k n \<longleftrightarrow> options AND Base64ValidatePadding = 0 \<or> k = 0 \<or> (n + k) mod 4 = 0"

lemma decode_after_scan:
  assumes scan: "decode_scan dirWS options m data 0 [] = (False, k, ss)" and ne: "ss \<noteq> []"
  shows "base64DecodeInternal dirWS data options m =
    Some (if padded options k (length ss) \<and> length ss mod 4 \<noteq> 1 then (True, decode_ref ss) else (False, ss))"
proof -
  have data: "data \<noteq> []" using scan ne by (cases data) auto
  show ?thesis
  proof (cases "padded options k (length ss) \<and> length ss mod 4 \<noteq> 1")
    case True
    have "length ss \<noteq> 1" using True by auto
    then have pos: "byte_count ss \<noteq> 0" using ne by (cases ss rule: decode_ref.cases) (auto simp: byte_count_simps)
    obtain out1 s d out2 where fin: "decode_loop (byte_count ss) ss 0 0 = Some (out1, s, d)"
      "decode_rest (byte_count ss) out1 s d = Some out2" "take (byte_count ss) out2 = decode_ref ss"
      using decode_finish [of 0 ss ss 0 "byte_count ss"] by auto
    have loop: "(if byte_count ss > 1 then decode_loop (byte_count ss) ss 0 0 else Some (ss, 0, 0)) = Some (out1, s, d)"
      using fin(1) decode_loop_stop [of "byte_count ss" 0 ss 0] by auto
    have "\<not> (options AND Base64ValidatePadding \<noteq> 0 \<and> k \<noteq> 0 \<and> (length ss + k) mod 4 \<noteq> 0)" "length ss mod 4 \<noteq> 1"
      using True by (auto simp: padded_def)
    then show ?thesis using data ne pos fin True
      unfolding base64DecodeInternal_def scan prod.case Let_def byte_count_def [symmetric] loop by simp
  next
    case False
    then have "options AND Base64ValidatePadding \<noteq> 0 \<and> k \<noteq> 0 \<and> (length ss + k) mod 4 \<noteq> 0 \<or> length ss mod 4 = 1"
      by (simp add: padded_def)
    then show ?thesis using data ne unfolding base64DecodeInternal_def scan prod.case if_not_P [OF False] by (elim disjE) simp_all
  qed
qed

subsection \<open>The scan\<close>

declare decode_scan.simps(2) [simp del]

locale base64_alphabet =
  fixes enc dec :: "byte list"
  assumes enc_length: "length enc = 64"
    and dec_enc: "\<And>i. i < 64 \<Longrightarrow> unat (enc ! i) < length dec \<and> dec ! unat (enc ! i) = of_nat i \<and> unat (enc ! i) \<noteq> 61"
    and dec_lf: "10 < length dec" "dec ! 10 = nonAlphabet"
begin

lemma scan_char:
  assumes "unat s < 64"
  shows "decode_scan dirWS options dec (unat (encodeChar enc s) # data) 0 out = decode_scan dirWS options dec data 0 (out @ [s])"
proof -
  have "unat (enc ! unat s) < length dec" "dec ! unat (enc ! unat s) = s" "unat (enc ! unat s) \<noteq> 61" using dec_enc [OF assms] by simp_all
  moreover have "s \<noteq> nonAlphabet" using assms by (auto simp: nonAlphabet_def)
  ultimately show ?thesis by (simp add: encodeChar_def decode_scan.simps(2))
qed

lemma scan_chars:
  "\<forall>s \<in> set ss. unat s < 64 \<Longrightarrow>
   decode_scan dirWS options dec (map unat (map (encodeChar enc) ss) @ data) 0 out = decode_scan dirWS options dec data 0 (out @ ss)"
  by (induction ss arbitrary: out) (simp_all add: scan_char)

lemma scan_lf:
  assumes "lf \<longrightarrow> options AND Base64IgnoreSpacesAndNewLines \<noteq> 0"
  shows "decode_scan dirWS options dec (map unat (lf_before lf i) @ data) k out = decode_scan dirWS options dec data k out"
  using assms dec_lf by (auto simp: lf_before_def decode_scan.simps(2) isSpaceOrNewline_def isASCIISpace_def)

end

lemma sextet_less: "unat (x AND 63 :: byte) < 64"
proof -
  have "x AND 63 \<le> 63" by (rule word_and_le1)
  then show ?thesis by (simp add: word_le_nat_alt)
qed

lemma sextet_or: "((x AND 15) OR (y AND 63) :: byte) = ((x AND 15) OR y) AND 63" "((x AND 3) OR (y AND 63) :: byte) = ((x AND 3) OR y) AND 63"
  by ((rule byte_eqI; simp add: bit_simps), (rule byte_eqI; simp add: bit_simps))

lemma sextets_less: "s \<in> set (sextets data) \<Longrightarrow> unat s < 64"
  by (induction data rule: sextets.induct) (auto simp: sextet_less sextet_or)

lemma length_sextets:
  "length (sextets data) + pad_length (length data) = 4 * ((length data + 2) div 3)" "length (sextets data) mod 4 \<noteq> 1"
proof -
  show "length (sextets data) + pad_length (length data) = 4 * ((length data + 2) div 3)"
  proof (induction data rule: sextets.induct)
    case (4 a b c r)
    have "(length (a # b # c # r) + 2) div 3 = Suc ((length r + 2) div 3)" by simp
    then show ?case using 4 by (simp add: pad_length_step)
  qed (simp_all add: pad_length_def)
  show "length (sextets data) mod 4 \<noteq> 1" by (induction data rule: sextets.induct) auto
qed

context base64_alphabet
begin

lemma scan_encoded:
  "lf \<longrightarrow> options AND Base64IgnoreSpacesAndNewLines \<noteq> 0 \<Longrightarrow>
   decode_scan dirWS options dec (map unat (encode_ref enc lf i data) @ rest) 0 out =
   decode_scan dirWS options dec rest 0 (out @ sextets data)"
proof (induction data arbitrary: i out rule: sextets.induct)
  case 1
  then show ?case by simp
next
  case (2 a)
  then show ?case unfolding encode_ref.simps encode_single_def map_append append_assoc scan_lf [OF "2.prems"]
    by (subst scan_chars) (auto simp: sextet_less)
next
  case (3 a b)
  then show ?case unfolding encode_ref.simps encode_pair_def map_append append_assoc scan_lf [OF "3.prems"]
    by (subst scan_chars) (auto simp: sextet_less sextet_or)
next
  case (4 a b c r)
  let ?ss = "[drop_bit 2 a AND 63, (drop_bit 4 b AND 15) OR (push_bit 4 a AND 63), (drop_bit 6 c AND 3) OR (push_bit 2 b AND 63), c AND 63]"
  have "decode_scan dirWS options dec (map unat (encode_ref enc lf i (a # b # c # r)) @ rest) 0 out =
      decode_scan dirWS options dec (map unat (encode_ref enc lf (Suc i) r) @ rest) 0 (out @ ?ss)"
    unfolding encode_ref.simps encode_triple_def map_append append_assoc scan_lf [OF "4.prems"]
    by (subst scan_chars) (simp_all add: sextet_less sextet_or)
  then show ?case using "4.IH" [OF "4.prems"] by simp
qed

lemma scan_padding:
  "k + j \<le> 2 \<Longrightarrow> decode_scan dirWS options dec (replicate j 61) k out = (False, k + j, out)"
  by (induction j arbitrary: k) (simp_all add: decode_scan.simps(2))

text \<open>Decoding what was encoded, for any options that let the line feeds pass.\<close>

lemma round_trip:
  assumes "encodable policy data" "line_feeds policy data \<longrightarrow> options AND Base64IgnoreSpacesAndNewLines \<noteq> 0"
  shows "\<exists>out. base64EncodeInternal data policy enc = Some out \<and>
    base64DecodeInternal dirWS (map unat out) options dec = Some (True, data)"
proof (cases "data = []")
  case True
  then show ?thesis using encode_correct [OF assms(1), of enc] by (simp add: padding_def pad_length_def base64DecodeInternal_def)
next
  case False
  let ?out = "encode_ref enc (line_feeds policy data) 0 data @ padding policy data"
  define k where "k = (if policy = Base64URLPolicy then 0 else pad_length (length data))"
  have k: "k \<le> 2" "map unat (padding policy data) = replicate k 61" by (auto simp: k_def padding_def pad_length_def)
  have scan: "decode_scan dirWS options dec (map unat ?out) 0 [] = (False, k, sextets data)"
    unfolding map_append k(2) scan_encoded [OF assms(2)] using scan_padding [of 0 k] k(1) by simp
  have ne: "sextets data \<noteq> []" using False by (cases data rule: sextets.cases) auto
  note len = length_sextets [of data]
  have "padded options k (length (sextets data))" using len(1) by (auto simp: padded_def k_def)
  then show ?thesis using decode_after_scan [OF scan ne] encode_correct [OF assms(1), of enc] len(2) by (simp add: decode_sextets)
qed

end

definition alphabet_fits :: "byte list \<Rightarrow> byte list \<Rightarrow> bool" where
  "alphabet_fits enc dec \<longleftrightarrow> length enc = 64 \<and> 10 < length dec \<and> dec ! 10 = nonAlphabet \<and>
     list_all (\<lambda>i. unat (enc ! i) < length dec \<and> dec ! unat (enc ! i) = of_nat i \<and> unat (enc ! i) \<noteq> 61) [0 ..< 64]"

lemma alphabet_fitsD: "alphabet_fits enc dec \<Longrightarrow> base64_alphabet enc dec"
  unfolding alphabet_fits_def list_all_iff by unfold_locales auto

lemma alphabets_fit: "alphabet_fits base64EncMap base64DecMap" "alphabet_fits base64URLEncMap base64URLDecMap"
  by code_simp+

interpretation std: base64_alphabet base64EncMap base64DecMap
  by (rule alphabet_fitsD [OF alphabets_fit(1)])

interpretation url: base64_alphabet base64URLEncMap base64URLDecMap
  by (rule alphabet_fitsD [OF alphabets_fit(2)])

subsection \<open>What the decoder accepts\<close>

definition symbol :: "byte list \<Rightarrow> nat \<Rightarrow> byte" where
  "symbol dec ch = (if ch < length dec then dec ! ch else nonAlphabet)"

definition ignorable :: "(nat \<Rightarrow> bool) \<Rightarrow> 32 word \<Rightarrow> byte list \<Rightarrow> nat \<Rightarrow> bool" where
  "ignorable dirWS options dec ch \<longleftrightarrow> ch \<noteq> 61 \<and> symbol dec ch = nonAlphabet \<and>
     options AND Base64IgnoreSpacesAndNewLines \<noteq> 0 \<and> isSpaceOrNewline dirWS ch"

definition significant :: "(nat \<Rightarrow> bool) \<Rightarrow> 32 word \<Rightarrow> byte list \<Rightarrow> nat list \<Rightarrow> nat list" where
  "significant dirWS options dec data = filter (\<lambda>ch. \<not> ignorable dirWS options dec ch) data"

definition in_alphabet :: "byte list \<Rightarrow> nat \<Rightarrow> bool" where
  "in_alphabet dec ch \<longleftrightarrow> ch \<noteq> 61 \<and> symbol dec ch \<noteq> nonAlphabet"

lemma scan_Cons:
  "decode_scan dirWS options dec (ch # data) k out =
     (if ch = 61 then
        (if options AND Base64ValidatePadding \<noteq> 0 \<and> k + 1 > 2 then (True, k + 1, out)
         else decode_scan dirWS options dec data (k + 1) out)
      else if in_alphabet dec ch then
        (if k \<noteq> 0 then (True, k, out) else decode_scan dirWS options dec data k (out @ [symbol dec ch]))
      else if ignorable dirWS options dec ch then decode_scan dirWS options dec data k out
      else (True, k, out))"
  by (auto simp: decode_scan.simps(2) in_alphabet_def ignorable_def symbol_def)

lemma significant_Cons:
  "significant dirWS options dec (ch # data) =
     (if ignorable dirWS options dec ch then [] else [ch]) @ significant dirWS options dec data"
  by (simp add: significant_def)

lemma scan_after_padding:
  "0 < k0 \<Longrightarrow> decode_scan dirWS options dec data k0 out = (False, k, out') \<longleftrightarrow>
   (\<exists>j. significant dirWS options dec data = replicate j 61 \<and> k = k0 + j \<and> out' = out \<and>
     (options AND Base64ValidatePadding = 0 \<or> j = 0 \<or> k \<le> 2))"
proof (induction data arbitrary: k0)
  case Nil
  then show ?case by (auto simp: significant_def)
next
  case (Cons ch data)
  consider "ch = 61" | "in_alphabet dec ch" "ch \<noteq> 61" | "ignorable dirWS options dec ch" "\<not> in_alphabet dec ch" "ch \<noteq> 61"
    | "\<not> ignorable dirWS options dec ch" "\<not> in_alphabet dec ch" "ch \<noteq> 61" by blast
  then show ?case
  proof cases
    case 1
    have sig: "significant dirWS options dec (ch # data) = replicate j 61 \<longleftrightarrow>
        (\<exists>j'. j = Suc j' \<and> significant dirWS options dec data = replicate j' 61)" for j
      using 1 by (cases j) (auto simp: significant_Cons ignorable_def)
    show ?thesis using Cons.IH [of "k0 + 1"] Cons.prems 1 unfolding scan_Cons sig by auto
  next
    case 2
    then have "\<not> ignorable dirWS options dec ch" by (simp add: ignorable_def in_alphabet_def)
    then have "significant dirWS options dec (ch # data) \<noteq> replicate j 61" for j using 2 by (cases j) (auto simp: significant_Cons)
    then show ?thesis using Cons.prems 2 by (auto simp: scan_Cons)
  next
    case 3
    then show ?thesis using Cons.IH [OF Cons.prems] by (simp add: scan_Cons significant_Cons)
  next
    case 4
    then have "significant dirWS options dec (ch # data) \<noteq> replicate j 61" for j by (cases j) (auto simp: significant_Cons)
    then show ?thesis using 4 by (auto simp: scan_Cons)
  qed
qed

lemma scan_accepts:
  "decode_scan dirWS options dec data 0 out = (False, k, out') \<longleftrightarrow>
   (\<exists>cs. significant dirWS options dec data = cs @ replicate k 61 \<and> list_all (in_alphabet dec) cs \<and>
     out' = out @ map (symbol dec) cs \<and> (options AND Base64ValidatePadding = 0 \<or> k \<le> 2))"
proof (induction data arbitrary: out)
  case Nil
  then show ?case by (auto simp: significant_def)
next
  case (Cons ch data)
  consider "ch = 61" | "in_alphabet dec ch" "ch \<noteq> 61" | "ignorable dirWS options dec ch" "\<not> in_alphabet dec ch" "ch \<noteq> 61"
    | "\<not> ignorable dirWS options dec ch" "\<not> in_alphabet dec ch" "ch \<noteq> 61" by blast
  then show ?case
  proof cases
    case 1
    have sig: "significant dirWS options dec (ch # data) = 61 # significant dirWS options dec data"
      using 1 by (simp add: significant_Cons ignorable_def)
    have cs: "61 # xs = cs @ replicate k 61 \<and> list_all (in_alphabet dec) cs \<longleftrightarrow> cs = [] \<and> (\<exists>j. k = Suc j \<and> xs = replicate j 61)" for xs cs
      by (cases cs; cases k) (auto simp: in_alphabet_def)
    have scan: "decode_scan dirWS options dec (ch # data) 0 out = decode_scan dirWS options dec data 1 out" using 1 by (simp add: scan_Cons)
    let ?v = "options AND Base64ValidatePadding = 0 \<or> k \<le> 2"
    have "(\<exists>cs. 61 # significant dirWS options dec data = cs @ replicate k 61 \<and> list_all (in_alphabet dec) cs \<and>
        out' = out @ map (symbol dec) cs \<and> ?v) \<longleftrightarrow>
      (\<exists>j. significant dirWS options dec data = replicate j 61 \<and> k = 1 + j \<and> out' = out \<and>
        (options AND Base64ValidatePadding = 0 \<or> j = 0 \<or> k \<le> 2))" (is "(\<exists>cs. ?A cs) \<longleftrightarrow> (\<exists>j. ?B j)")
    proof
      assume "\<exists>cs. ?A cs"
      then obtain cs where A: "?A cs" ..
      then obtain j where "cs = []" "k = Suc j" "significant dirWS options dec data = replicate j 61" using cs by blast
      then have "?B j" using A by auto
      then show "\<exists>j. ?B j" ..
    next
      assume "\<exists>j. ?B j"
      then obtain j where "?B j" ..
      then have "?A []" by auto
      then show "\<exists>cs. ?A cs" ..
    qed
    then show ?thesis unfolding scan sig using scan_after_padding [of 1 dirWS options dec data out k out'] by simp
  next
    case 2
    have sig: "significant dirWS options dec (ch # data) = ch # significant dirWS options dec data"
      using 2 by (simp add: significant_Cons ignorable_def in_alphabet_def)
    have cs: "ch # xs = cs @ replicate k 61 \<longleftrightarrow> (\<exists>cs'. cs = ch # cs' \<and> xs = cs' @ replicate k 61)" for xs cs
      using 2 by (cases cs; cases k) auto
    have scan: "decode_scan dirWS options dec (ch # data) 0 out = decode_scan dirWS options dec data 0 (out @ [symbol dec ch])"
      using 2 by (simp add: scan_Cons)
    let ?v = "options AND Base64ValidatePadding = 0 \<or> k \<le> 2"
    have "(\<exists>cs. ch # significant dirWS options dec data = cs @ replicate k 61 \<and> list_all (in_alphabet dec) cs \<and>
        out' = out @ map (symbol dec) cs \<and> ?v) \<longleftrightarrow>
      (\<exists>cs. significant dirWS options dec data = cs @ replicate k 61 \<and> list_all (in_alphabet dec) cs \<and>
        out' = (out @ [symbol dec ch]) @ map (symbol dec) cs \<and> ?v)" (is "(\<exists>cs. ?A cs) \<longleftrightarrow> (\<exists>cs. ?B cs)")
    proof
      assume "\<exists>cs. ?A cs"
      then obtain cs where A: "?A cs" ..
      then obtain cs' where "cs = ch # cs'" "significant dirWS options dec data = cs' @ replicate k 61" using cs by blast
      then have "?B cs'" using A by simp
      then show "\<exists>cs. ?B cs" ..
    next
      assume "\<exists>cs. ?B cs"
      then obtain cs where "?B cs" ..
      then have "?A (ch # cs)" using 2 by simp
      then show "\<exists>cs. ?A cs" ..
    qed
    then show ?thesis unfolding scan sig using Cons.IH [of "out @ [symbol dec ch]"] by simp
  next
    case 3
    then show ?thesis using Cons.IH by (simp add: scan_Cons significant_Cons)
  next
    case 4
    have sig: "significant dirWS options dec (ch # data) = ch # significant dirWS options dec data" using 4 by (simp add: significant_Cons)
    have "\<not> (ch # xs = cs @ replicate k 61 \<and> list_all (in_alphabet dec) cs)" for xs cs using 4 by (cases cs; cases k) auto
    then show ?thesis using 4 unfolding sig by (auto simp: scan_Cons)
  qed
qed

definition well_padded :: "32 word \<Rightarrow> nat \<Rightarrow> nat \<Rightarrow> bool" where
  "well_padded options k n \<longleftrightarrow> (n = 0 \<longrightarrow> k = 0) \<and> n mod 4 \<noteq> 1 \<and>
     (options AND Base64ValidatePadding = 0 \<or> k = 0 \<or> k \<le> 2 \<and> (n + k) mod 4 = 0)"

lemma decode_of_scan:
  assumes "decode_scan dirWS options dec data 0 [] = (e, k, ss)"
  shows "base64DecodeInternal dirWS data options dec =
    Some (if e then (False, ss) else if ss = [] then (k = 0, [])
          else if padded options k (length ss) \<and> length ss mod 4 \<noteq> 1 then (True, decode_ref ss) else (False, ss))"
proof (cases "e \<or> ss = []")
  case True
  then show ?thesis using assms by (cases "data = []") (auto simp: base64DecodeInternal_def)
next
  case False
  then show ?thesis using decode_after_scan [of dirWS options dec data k ss] assms by simp
qed

lemma decode_total: "base64DecodeInternal dirWS data options dec \<noteq> None"
  using decode_of_scan [of dirWS options dec data] by (cases "decode_scan dirWS options dec data 0 []") simp

lemma decode_accepts:
  "base64DecodeInternal dirWS data options dec = Some (True, out) \<longleftrightarrow>
   (\<exists>cs k. significant dirWS options dec data = cs @ replicate k 61 \<and> list_all (in_alphabet dec) cs \<and>
     well_padded options k (length cs) \<and> out = decode_ref (map (symbol dec) cs))" (is "?D \<longleftrightarrow> (\<exists>cs k. ?A cs k)")
proof
  assume D: ?D
  obtain e k ss where scan: "decode_scan dirWS options dec data 0 [] = (e, k, ss)" by (cases "decode_scan dirWS options dec data 0 []")
  note r = D [unfolded decode_of_scan [OF scan]]
  have e: "\<not> e" using r by (auto split: if_splits)
  have w: "(ss = [] \<longrightarrow> k = 0) \<and> padded options k (length ss) \<and> length ss mod 4 \<noteq> 1" "out = decode_ref ss"
    using r e by (auto split: if_splits simp: padded_def)
  obtain cs where "significant dirWS options dec data = cs @ replicate k 61" "list_all (in_alphabet dec) cs"
    "ss = map (symbol dec) cs" "options AND Base64ValidatePadding = 0 \<or> k \<le> 2"
    using scan e scan_accepts [of dirWS options dec data "[]" k ss] by auto
  moreover from this w(1) have "well_padded options k (length cs)" by (auto simp: well_padded_def padded_def)
  ultimately have "?A cs k" using w(2) by simp
  then show "\<exists>cs k. ?A cs k" by blast
next
  assume "\<exists>cs k. ?A cs k"
  then obtain cs k where A: "?A cs k" by blast
  then have "options AND Base64ValidatePadding = 0 \<or> k \<le> 2" by (auto simp: well_padded_def)
  then have "decode_scan dirWS options dec data 0 [] = (False, k, map (symbol dec) cs)"
    using A scan_accepts [of dirWS options dec data "[]" k "map (symbol dec) cs"] by auto
  from decode_of_scan [OF this] A show ?D by (auto simp: well_padded_def padded_def)
qed

subsection \<open>Properties\<close>

text \<open>
  C30. Decoding what was encoded gives the data back: for the standard alphabet with every policy,
  as long as line feeds are ignored where they were inserted, and for the URL alphabet.
\<close>

theorem base64_round_trip:
  assumes "encodable policy data" "line_feeds policy data \<longrightarrow> options AND Base64IgnoreSpacesAndNewLines \<noteq> 0"
  shows "(\<exists>out. base64Encode data policy = Some out \<and> base64Decode dirWS (map unat out) options = Some (True, data)) \<and>
    (\<exists>out. base64URLEncode data = Some out \<and> base64URLDecode dirWS (map unat out) = Some (True, data))"
proof -
  have url: "encodable Base64URLPolicy data" "\<not> line_feeds Base64URLPolicy data"
    using assms(1) by (auto simp: encodable_def line_feeds_def)
  show ?thesis
    using std.round_trip [OF assms, of dirWS] url.round_trip [OF url(1), of Base64Default dirWS] url(2)
    by (simp add: base64Encode_def base64Decode_def base64URLEncode_def base64URLDecode_def)
qed

theorem base64_round_trip_witness:
  "\<exists>out. base64Encode [77, 97] Base64DoNotInsertLFs = Some out \<and>
     base64Decode (\<lambda>c. False) (map unat out) Base64ValidatePadding = Some (True, [77, 97])"
  using base64_round_trip [of Base64DoNotInsertLFs "[77, 97]" Base64ValidatePadding "\<lambda>c. False"]
  by (simp add: encodable_def line_feeds_def maxInputBufferSize_eq)

text \<open>
  C31. The encoder writes exactly the reference encoding and its padding and never past the length it
  reserved, which does not wrap; input above the size limit encodes to nothing.
\<close>

theorem base64_encode_correct:
  assumes "encodable policy data \<or> maxInputBufferSize < length data"
  shows "base64EncodeInternal data policy encodeMap =
      Some (if maxInputBufferSize < length data then []
            else encode_ref encodeMap (line_feeds policy data) 0 data @ padding policy data) \<and>
    (maxInputBufferSize < length data \<or>
     length (encode_ref encodeMap (line_feeds policy data) 0 data @ padding policy data) < 4294967296)"
proof (cases "maxInputBufferSize < length data")
  case True
  then show ?thesis unfolding base64EncodeInternal_def Let_def by simp
next
  case False
  define g where "g = (length data + 2) div 3"
  have "length data \<le> 3179391370" using False by (simp add: maxInputBufferSize_eq)
  then have g: "g \<le> 1059797124" by (simp add: g_def)
  then have "lf_count 0 g \<le> 55778795" by (cases "g = 0") (simp_all add: lf_count_0)
  then have "length (encode_ref encodeMap (line_feeds policy data) 0 data @ padding policy data) < 4294967296"
    using length_encode_ref [of encodeMap "line_feeds policy data" 0 data] g by (auto simp: padding_def g_def split: if_splits)
  then show ?thesis using encode_correct [of policy data encodeMap] assms False by simp
qed

theorem base64_encode_correct_witness: "base64EncodeInternal [77] Base64DoNotInsertLFs base64EncMap = Some [84, 81, 61, 61]"
proof -
  have two: "replicate 2 61 = [61, 61::byte]" by (simp add: numeral_2_eq_2)
  have "encodable Base64DoNotInsertLFs [77]" by (simp add: encodable_def maxInputBufferSize_eq)
  then show ?thesis using base64_encode_correct [of Base64DoNotInsertLFs "[77]" base64EncMap]
    by (simp add: maxInputBufferSize_eq padding_def pad_length_def lf_before_def line_feeds_def encode_single_def encodeChar_def base64EncMap_def two)
qed

text \<open>
  C32. The decoder never reads or writes outside its vector, and it accepts exactly the input that,
  without the ignorable characters, is a word over the alphabet of a decodable length followed by
  padding that the options allow; the result is the conversion of its sextets.
\<close>

theorem base64_decode_accepts_iff:
  "base64Decode dirWS data options \<noteq> None \<and>
   (base64Decode dirWS data options = Some (True, out) \<longleftrightarrow>
    (\<exists>cs k. significant dirWS options base64DecMap data = cs @ replicate k 61 \<and> list_all (in_alphabet base64DecMap) cs \<and>
      well_padded options k (length cs) \<and> out = decode_ref (map (symbol base64DecMap) cs)))"
  unfolding base64Decode_def decode_accepts using decode_total by blast

end
