(* ===== verification/LEB_Decoder.thy ===== *)
theory LEB_Decoder
  imports Prelude
begin

text \<open>
  The variable-length integers of \<^verbatim>\<open>src/Source/WTF/wtf/LEBDecoder.h\<close>.  The templates over an
  integer type are functions polymorphic in the word length; a reference argument is passed in and
  returned, and reading past the end of the bytes is \<^term>\<open>None\<close>.  Lemmas: the decoders are total,
  their result is the value of the seven-bit groups they consume, and they undo the LEB128 encoders.
\<close>

unbundle bit_operations_syntax

subsection \<open>The decoders\<close>

definition maxByteLength :: "'a::len itself \<Rightarrow> nat" where
  "maxByteLength t = (LENGTH('a) - 1) div 7 + 1"

function decode_groups ::
  "byte list \<Rightarrow> nat \<Rightarrow> nat \<Rightarrow> nat \<Rightarrow> nat \<Rightarrow> 'a::len word \<Rightarrow> (bool \<times> byte \<times> nat \<times> nat \<times> 'a word) option" where
  "decode_groups bytes lastByte i shift offset result =
    (if offset < length bytes then
       let byte = bytes ! offset;
           result = result OR push_bit shift (ucast (byte AND 0x7f));
           shift = shift + 7
       in if byte AND 0x80 = 0 then Some (True, byte, shift, offset + 1, result)
          else if i = lastByte then Some (False, byte, shift, offset + 1, result)
          else decode_groups bytes lastByte (i + 1) shift (offset + 1) result
     else None)"
  by pat_completeness auto
termination by (relation "measure (\<lambda>(bytes, lastByte, i, shift, offset, result). length bytes - offset)") auto

declare decode_groups.simps [simp del]

definition decodeUInt :: "byte list \<Rightarrow> nat \<Rightarrow> 'a::len word \<Rightarrow> (bool \<times> nat \<times> 'a word) option" where
  "decodeUInt bytes offset result =
    (if length bytes \<le> offset then Some (False, offset, result)
     else let lastByte = min (maxByteLength TYPE('a)) (length bytes - offset) - 1
       in case decode_groups bytes lastByte 0 0 offset 0 of
            None \<Rightarrow> None
          | Some (done, byte, shift, offset, result) \<Rightarrow> Some (done, offset, result))"

definition decodeInt :: "byte list \<Rightarrow> nat \<Rightarrow> 'a::len word \<Rightarrow> (bool \<times> nat \<times> 'a word) option" where
  "decodeInt bytes offset result =
    (if length bytes \<le> offset then Some (False, offset, result)
     else let lastByte = min (maxByteLength TYPE('a)) (length bytes - offset) - 1
       in case decode_groups bytes lastByte 0 0 offset 0 of
            None \<Rightarrow> None
          | Some (done, byte, shift, offset, result) \<Rightarrow>
              if \<not> done then Some (False, offset, result)
              else if shift < LENGTH('a) \<and> byte AND 0x40 \<noteq> 0
                then Some (True, offset, result OR push_bit shift (- 1))
                else Some (True, offset, result))"

definition decodeUInt32 :: "byte list \<Rightarrow> nat \<Rightarrow> 32 word \<Rightarrow> (bool \<times> nat \<times> 32 word) option" where
  "decodeUInt32 bytes offset result = decodeUInt bytes offset result"

definition decodeUInt64 :: "byte list \<Rightarrow> nat \<Rightarrow> 64 word \<Rightarrow> (bool \<times> nat \<times> 64 word) option" where
  "decodeUInt64 bytes offset result = decodeUInt bytes offset result"

definition decodeInt32 :: "byte list \<Rightarrow> nat \<Rightarrow> 32 word \<Rightarrow> (bool \<times> nat \<times> 32 word) option" where
  "decodeInt32 bytes offset result = decodeInt bytes offset result"

definition decodeInt64 :: "byte list \<Rightarrow> nat \<Rightarrow> 64 word \<Rightarrow> (bool \<times> nat \<times> 64 word) option" where
  "decodeInt64 bytes offset result = decodeInt bytes offset result"

subsection \<open>Groups and their value\<close>

definition continues :: "byte \<Rightarrow> bool" where
  "continues b \<longleftrightarrow> b AND 0x80 \<noteq> 0"

definition group_value :: "byte \<Rightarrow> int" where
  "group_value b = uint b mod 128"

fun groups_value :: "byte list \<Rightarrow> int" where
  "groups_value [] = 0"
| "groups_value (b # bs) = group_value b + 128 * groups_value bs"

definition signed_groups_value :: "byte list \<Rightarrow> int" where
  "signed_groups_value bs = groups_value bs - (if last bs AND 0x40 \<noteq> 0 then 128 ^ length bs else 0)"

lemma group_value_bounds: "0 \<le> group_value b" "group_value b < 128"
  by (simp_all add: group_value_def)

lemma groups_value_bounds: "0 \<le> groups_value bs \<and> groups_value bs < 128 ^ length bs"
proof (induction bs)
  case (Cons b bs)
  then show ?case using group_value_bounds [of b] by simp
qed simp

lemma groups_value_snoc: "groups_value (bs @ [b]) = groups_value bs + 128 ^ length bs * group_value b"
  by (induction bs) (simp_all add: algebra_simps)

lemma group_word: "(ucast (b AND 0x7f) :: 'a::len word) = word_of_int (group_value b)"
proof -
  have "(127::int) = mask 7" by (simp add: mask_eq_exp_minus_1)
  then have "uint b AND 127 = take_bit 7 (uint b)" by (simp only: take_bit_eq_mask)
  then have "uint (b AND 0x7f) = group_value b" by (simp add: group_value_def uint_and take_bit_eq_mod)
  then show ?thesis by (simp add: ucast_eq)
qed

lemma or_disjoint_int:
  fixes v w :: int
  assumes "0 \<le> v" "v < 2 ^ n"
  shows "v OR push_bit n w = v + 2 ^ n * w"
proof -
  have v: "take_bit n v = v" using assms by (simp add: take_bit_int_eq_self)
  have "v AND push_bit n w = 0"
    by (subst v [symmetric]) (rule bit_eqI, auto simp: bit_simps)
  then show ?thesis by (simp add: push_bit_eq_mult flip: disjunctive_add_eq_or)
qed

lemma or_group_word:
  assumes "0 \<le> v" "v < 2 ^ n"
  shows "(word_of_int v OR push_bit n (word_of_int w) :: 'a::len word) = word_of_int (v + 2 ^ n * w)"
proof -
  have "push_bit n (word_of_int w :: 'a word) = word_of_int (push_bit n w)"
    by (simp add: push_bit_eq_mult)
  then show ?thesis by (simp add: word_wi_log_defs or_disjoint_int [OF assms])
qed

lemma append_group:
  "(word_of_int (groups_value bs) OR push_bit (7 * length bs) (ucast (b AND 0x7f)) :: 'a::len word) =
     word_of_int (groups_value (bs @ [b]))"
proof -
  have p: "(2::int) ^ (7 * length bs) = 128 ^ length bs" by (simp add: power_mult)
  show ?thesis unfolding group_word
    using or_group_word [of "groups_value bs" "7 * length bs" "group_value b"] groups_value_bounds [of bs]
    by (simp add: p groups_value_snoc)
qed

lemma decode_groups_value:
  assumes "drop offset bytes = p @ rest" "list_all continues (butlast p)" "p \<noteq> []" "length p \<le> Suc (n - i)" "i \<le> n"
    "\<not> continues (last p) \<or> length p = Suc (n - i)"
  shows "decode_groups bytes n i (7 * length done) offset (word_of_int (groups_value done) :: 'a::len word) =
    Some (\<not> continues (last p), last p, 7 * length (done @ p), offset + length p, word_of_int (groups_value (done @ p)))"
  using assms
proof (induction p arbitrary: offset i "done")
  case (Cons b p)
  have o: "offset < length bytes" "bytes ! offset = b" "drop (Suc offset) bytes = p @ rest"
    using Cons.prems(1) by (metis append_Cons drop_all leI list.distinct(1), metis append_Cons nth_via_drop,
      metis append_Cons drop_Suc list.sel(3) tl_drop)
  show ?case
  proof (cases "p = []")
    case True
    then show ?thesis using Cons.prems(5,6) o append_group [of "done" b, where 'a = 'a]
      by (subst decode_groups.simps) (auto simp: continues_def Let_def)
  next
    case False
    have c: "b AND 0x80 \<noteq> 0" "i \<noteq> n" using Cons.prems(2,4) False by (auto simp: continues_def)
    have "decode_groups bytes n (i + 1) (7 * length (done @ [b])) (offset + 1) (word_of_int (groups_value (done @ [b])) :: 'a word) =
      Some (\<not> continues (last p), last p, 7 * length ((done @ [b]) @ p), offset + 1 + length p, word_of_int (groups_value ((done @ [b]) @ p)))"
      using Cons.prems False o(3) c(2) by (intro Cons.IH) auto
    then show ?thesis using o(1,2) c False append_group [of "done" b, where 'a = 'a]
      by (subst decode_groups.simps) (simp add: Let_def add_ac)
  qed
qed simp

text \<open>The bytes a decoder consumes: up to the first one that does not continue, at most \<^term>\<open>m\<close>.\<close>

definition leb_word :: "nat \<Rightarrow> byte list \<Rightarrow> byte list" where
  "leb_word m bs = take (Suc (length (takeWhile continues (take m bs)))) (take m bs)"

lemma leb_word_Cons:
  "leb_word (Suc m) (b # bs) = b # (if continues b then leb_word m bs else [])"
  by (simp add: leb_word_def)

lemma leb_word_0: "leb_word 0 bs = []" "leb_word m [] = []"
  by (simp_all add: leb_word_def)

lemma leb_word_props:
  assumes "0 < m" "bs \<noteq> []" "p = leb_word m bs"
  shows "p \<noteq> [] \<and> list_all continues (butlast p) \<and> length p \<le> min m (length bs) \<and> (\<exists>rest. bs = p @ rest) \<and>
    (\<not> continues (last p) \<or> length p = min m (length bs))"
  using assms
proof (induction m arbitrary: bs p)
  case (Suc m)
  then obtain b cs where bs: "bs = b # cs" by (cases bs) auto
  show ?case
  proof (cases "continues b \<and> 0 < m \<and> cs \<noteq> []")
    case True
    then show ?thesis using Suc.IH [of cs "leb_word m cs"] Suc.prems(3) by (auto simp: bs leb_word_Cons)
  next
    case False
    then show ?thesis using Suc.prems(3) by (auto simp: bs leb_word_Cons leb_word_0)
  qed
qed simp

lemma decode_groups_leb_word:
  assumes "offset < length bytes" "0 < m" "p = leb_word m (drop offset bytes)"
  shows "decode_groups bytes (min m (length bytes - offset) - 1) 0 0 offset (0 :: 'a::len word) =
    Some (\<not> continues (last p), last p, 7 * length p, offset + length p, word_of_int (groups_value p))"
proof -
  have ne: "drop offset bytes \<noteq> []" using assms(1) by simp
  obtain rest where r: "drop offset bytes = p @ rest" using leb_word_props [OF assms(2) ne assms(3)] by auto
  have "decode_groups bytes (min m (length bytes - offset) - 1) 0 (7 * length ([] :: byte list)) offset (word_of_int (groups_value []) :: 'a word) =
    Some (\<not> continues (last p), last p, 7 * length ([] @ p), offset + length p, word_of_int (groups_value ([] @ p)))"
    using leb_word_props [OF assms(2) ne assms(3)] assms(1,2) by (intro decode_groups_value [OF r]) auto
  then show ?thesis by simp
qed

lemma maxByteLength_pos: "0 < maxByteLength t"
  by (simp add: maxByteLength_def)

lemma decodeUInt_word:
  fixes r :: "'a::len word"
  assumes "offset < length bytes" "p = leb_word (maxByteLength TYPE('a)) (drop offset bytes)"
  shows "decodeUInt bytes offset r = Some (\<not> continues (last p), offset + length p, word_of_int (groups_value p))"
  using decode_groups_leb_word [OF assms(1) maxByteLength_pos assms(2), where 'a = 'a] assms(1)
  by (simp add: decodeUInt_def Let_def)

lemma sign_extend:
  "(word_of_int (groups_value p) OR push_bit (7 * length p) (- 1) :: 'a::len word) = word_of_int (groups_value p - 128 ^ length p)"
proof -
  have "(2::int) ^ (7 * length p) = 128 ^ length p" by (simp add: power_mult)
  then show ?thesis using or_group_word [of "groups_value p" "7 * length p" "- 1", where 'a = 'a] groups_value_bounds [of p] by simp
qed

lemma high_power_vanishes: "LENGTH('a::len) \<le> 7 * k \<Longrightarrow> (word_of_int (128 ^ k) :: 'a word) = 0"
proof -
  assume "LENGTH('a) \<le> 7 * k"
  then have "(2::'a word) ^ (7 * k) = 0" by (simp add: exp_eq_zero_iff)
  then show ?thesis by (simp add: power_mult)
qed

lemma decodeInt_word:
  fixes r :: "'a::len word"
  assumes "offset < length bytes" "p = leb_word (maxByteLength TYPE('a)) (drop offset bytes)"
  shows "decodeInt bytes offset r = Some (\<not> continues (last p), offset + length p,
    word_of_int (if continues (last p) then groups_value p else signed_groups_value p))"
proof -
  have d: "decode_groups bytes (min (maxByteLength TYPE('a)) (length bytes - offset) - 1) 0 0 offset (0 :: 'a word) =
    Some (\<not> continues (last p), last p, 7 * length p, offset + length p, word_of_int (groups_value p))"
    by (rule decode_groups_leb_word [OF assms(1) maxByteLength_pos assms(2)])
  have "(word_of_int (groups_value p - 128 ^ length p) :: 'a word) = word_of_int (groups_value p)" if "\<not> 7 * length p < LENGTH('a)"
    using that high_power_vanishes [of "length p", where 'a = 'a] by (simp add: wi_hom_sub [symmetric])
  then show ?thesis using d assms(1) sign_extend [of p, where 'a = 'a]
    by (auto simp: decodeInt_def Let_def signed_groups_value_def)
qed

subsection \<open>The encodings the decoders undo\<close>

definition group_byte :: "int \<Rightarrow> byte" where
  "group_byte k = word_of_int k"

fun encode_unsigned :: "nat \<Rightarrow> byte list" where
  "encode_unsigned n =
    (if n < 128 then [group_byte (int n)] else group_byte (int (n mod 128) + 128) # encode_unsigned (n div 128))"

function encode_signed :: "int \<Rightarrow> byte list" where
  "encode_signed z =
    (if - 64 \<le> z \<and> z < 64 then [group_byte (z mod 128)] else group_byte (z mod 128 + 128) # encode_signed (z div 128))"
  by pat_completeness auto
termination by (relation "measure (\<lambda>z. nat \<bar>z\<bar>)") auto

declare encode_unsigned.simps [simp del] encode_signed.simps [simp del]

lemma continues_bit: "continues b \<longleftrightarrow> bit b 7"
  using and_exp_eq_0_iff_not_bit [of b 7] by (simp add: continues_def)

lemma sign_bit: "b AND 0x40 \<noteq> 0 \<longleftrightarrow> bit (b :: byte) 6"
  using and_exp_eq_0_iff_not_bit [of b 6] by simp

lemma uint_byte: "0 \<le> z \<Longrightarrow> z < 256 \<Longrightarrow> uint (word_of_int z :: byte) = z"
  by (subst uint_word_of_int_eq, rule take_bit_int_eq_self) simp_all

lemma low_group:
  assumes "0 \<le> k" "k < 128"
  shows "\<not> continues (group_byte k)" "continues (group_byte (k + 128))" "group_value (group_byte k) = k"
    "group_value (group_byte (k + 128)) = k" "group_byte k AND 0x40 \<noteq> 0 \<longleftrightarrow> 64 \<le> k"
proof -
  have d: "k div 128 = 0" "(k + 128) div 128 = 1" "odd (k div 64) \<longleftrightarrow> 64 \<le> k"
    using assms by (simp_all add: div_pos_geq) (cases "64 \<le> k", simp_all add: div_pos_geq)
  have e: "bit k 7 = odd (k div 128)" "bit (k + 128) 7 = odd ((k + 128) div 128)" "bit k 6 = odd (k div 64)"
    using bit_iff_odd [of k 7] bit_iff_odd [of "k + 128" 7] bit_iff_odd [of k 6] by simp_all
  show "\<not> continues (group_byte k)" "continues (group_byte (k + 128))"
    unfolding group_byte_def continues_bit bit_word_of_int_iff e d by auto
  show "group_byte k AND 0x40 \<noteq> 0 \<longleftrightarrow> 64 \<le> k"
    unfolding group_byte_def sign_bit bit_word_of_int_iff e d by auto
  show "group_value (group_byte k) = k" "group_value (group_byte (k + 128)) = k"
    unfolding group_byte_def group_value_def using assms uint_byte [of k] uint_byte [of "k + 128"] by simp_all
qed

definition leb_encoding :: "byte list \<Rightarrow> bool" where
  "leb_encoding p \<longleftrightarrow> p \<noteq> [] \<and> list_all continues (butlast p) \<and> \<not> continues (last p)"

lemma leb_word_encoding: "leb_encoding p \<Longrightarrow> length p \<le> m \<Longrightarrow> leb_word m (p @ rest) = p"
proof (induction p arbitrary: m)
  case (Cons b p)
  then obtain k where "m = Suc k" by (cases m) auto
  then show ?case using Cons.prems Cons.IH [of k]
    by (cases "p = []") (simp_all add: leb_encoding_def leb_word_Cons leb_word_0)
qed (simp add: leb_encoding_def)

lemma encode_unsigned_value: "leb_encoding (encode_unsigned n) \<and> groups_value (encode_unsigned n) = int n"
proof (induction n rule: encode_unsigned.induct)
  case (1 n)
  show ?case
  proof (cases "n < 128")
    case True
    then show ?thesis by (subst (1 2) encode_unsigned.simps) (simp add: leb_encoding_def low_group)
  next
    case False
    have "n mod 128 + 128 * (n div 128) = n" by simp
    then have "int (n mod 128) + 128 * int (n div 128) = int n" by (metis of_nat_add of_nat_mult of_nat_numeral)
    then show ?thesis using 1 False low_group [of "int (n mod 128)"]
      by (subst (1 2) encode_unsigned.simps) (auto simp: leb_encoding_def)
  qed
qed

lemma signed_groups_value_Cons:
  "bs \<noteq> [] \<Longrightarrow> signed_groups_value (b # bs) = group_value b + 128 * signed_groups_value bs"
  by (simp add: signed_groups_value_def algebra_simps)

lemma encode_signed_value: "leb_encoding (encode_signed z) \<and> signed_groups_value (encode_signed z) = z"
proof (induction z rule: encode_signed.induct)
  case (1 z)
  have m: "0 \<le> z mod 128" "z mod 128 < 128" by simp_all
  show ?case
  proof (cases "- 64 \<le> z \<and> z < 64")
    case True
    have "z mod 128 = (if 0 \<le> z then z else z + 128)" using True mod_pos_pos_trivial [of "z + 128" 128] by simp
    then have "z mod 128 - (if 64 \<le> z mod 128 then 128 else 0) = z" using True by simp
    then show ?thesis using True low_group [OF m]
      by (subst (1 2) encode_signed.simps) (auto simp: leb_encoding_def signed_groups_value_def split: if_splits)
  next
    case False
    have "z mod 128 + 128 * (z div 128) = z" by simp
    then show ?thesis using 1 False low_group [OF m]
      by (subst (1 2) encode_signed.simps) (auto simp: leb_encoding_def signed_groups_value_Cons)
  qed
qed

lemma encode_unsigned_length: "n < 128 ^ Suc k \<Longrightarrow> length (encode_unsigned n) \<le> Suc k"
proof (induction k arbitrary: n)
  case 0
  then show ?case by (subst encode_unsigned.simps) simp
next
  case (Suc k)
  have "n div 128 < 128 ^ Suc k" using Suc.prems by (simp add: less_mult_imp_div_less mult.commute)
  then show ?case using Suc.IH by (subst encode_unsigned.simps) simp
qed

lemma encode_signed_length: "- (64 * 128 ^ k) \<le> z \<Longrightarrow> z < 64 * 128 ^ k \<Longrightarrow> length (encode_signed z) \<le> Suc k"
proof (induction k arbitrary: z)
  case 0
  then show ?case by (subst encode_signed.simps) simp
next
  case (Suc k)
  have "- (64 * 128 ^ k) \<le> z div 128" "z div 128 < 64 * 128 ^ k" using Suc.prems by simp_all
  then show ?case using Suc.IH by (subst encode_signed.simps) simp
qed

lemma max_length_covers: "LENGTH('a::len) \<le> 7 * maxByteLength TYPE('a)" "LENGTH('a) - 1 \<le> 7 * (maxByteLength TYPE('a) - 1) + 6"
proof -
  have "LENGTH('a) - 1 = 7 * ((LENGTH('a) - 1) div 7) + (LENGTH('a) - 1) mod 7" by simp
  moreover have "(LENGTH('a) - 1) mod 7 < 7" by simp
  ultimately show "LENGTH('a) - 1 \<le> 7 * (maxByteLength TYPE('a) - 1) + 6" unfolding maxByteLength_def by linarith
  then show "LENGTH('a) \<le> 7 * maxByteLength TYPE('a)" by (simp add: maxByteLength_def)
qed

lemma encoding_lengths:
  shows "n < 2 ^ LENGTH('a::len) \<Longrightarrow> length (encode_unsigned n) \<le> maxByteLength TYPE('a)"
    and "- (2 ^ (LENGTH('a) - 1)) \<le> z \<Longrightarrow> z < 2 ^ (LENGTH('a) - 1) \<Longrightarrow> length (encode_signed z) \<le> maxByteLength TYPE('a)"
proof -
  obtain k where k: "maxByteLength TYPE('a) = Suc k" using maxByteLength_pos by (metis gr0_conv_Suc)
  have "(2::nat) ^ LENGTH('a) \<le> 2 ^ (7 * Suc k)" using max_length_covers(1) [where 'a = 'a] by (intro power_increasing) (simp_all add: k)
  then have "(2::nat) ^ LENGTH('a) \<le> 128 ^ Suc k" unfolding power_mult by simp
  then show "n < 2 ^ LENGTH('a) \<Longrightarrow> length (encode_unsigned n) \<le> maxByteLength TYPE('a)"
    using encode_unsigned_length [of n k] by (simp add: k)
  have "(2::int) ^ (LENGTH('a) - 1) \<le> 2 ^ (7 * k + 6)" using max_length_covers(2) [where 'a = 'a] by (intro power_increasing) (simp_all add: k)
  then have "(2::int) ^ (LENGTH('a) - 1) \<le> 64 * 128 ^ k" unfolding power_add power_mult by simp
  then show "- (2 ^ (LENGTH('a) - 1)) \<le> z \<Longrightarrow> z < 2 ^ (LENGTH('a) - 1) \<Longrightarrow> length (encode_signed z) \<le> maxByteLength TYPE('a)"
    using encode_signed_length [of k z] by (simp add: k)
qed

lemma decode_encodings:
  fixes r :: "'a::len word"
  assumes "leb_encoding p" "length p \<le> maxByteLength TYPE('a)"
  shows "decodeUInt (pre @ p @ rest) (length pre) r = Some (True, length pre + length p, word_of_int (groups_value p))"
    and "decodeInt (pre @ p @ rest) (length pre) r = Some (True, length pre + length p, word_of_int (signed_groups_value p))"
proof -
  have o: "length pre < length (pre @ p @ rest)" using assms(1) by (auto simp: leb_encoding_def)
  have p: "p = leb_word (maxByteLength TYPE('a)) (drop (length pre) (pre @ p @ rest))" using leb_word_encoding [OF assms] by simp
  have c: "\<not> continues (last p)" using assms(1) by (simp add: leb_encoding_def)
  show "decodeUInt (pre @ p @ rest) (length pre) r = Some (True, length pre + length p, word_of_int (groups_value p))"
    using decodeUInt_word [OF o p, of r] c by simp
  show "decodeInt (pre @ p @ rest) (length pre) r = Some (True, length pre + length p, word_of_int (signed_groups_value p))"
    using decodeInt_word [OF o p, of r] c by simp
qed

subsection \<open>Properties\<close>

text \<open>
  C33. Both decoders are total and never read outside the bytes.  Past the end they fail and leave the offset and
  the result alone; otherwise they consume the bytes up to the first one without the continuation
  bit, at most as many as the type needs, succeed exactly when that byte was found, and the result is
  the value of the groups modulo the width, sign-extended by the signed decoder.
\<close>

theorem leb_decode_correct:
  fixes r :: "'a::len word"
  shows "decodeUInt bytes offset r =
      (if length bytes \<le> offset then Some (False, offset, r)
       else let p = leb_word (maxByteLength TYPE('a)) (drop offset bytes)
         in Some (\<not> continues (last p), offset + length p, word_of_int (groups_value p))) \<and>
    decodeInt bytes offset r =
      (if length bytes \<le> offset then Some (False, offset, r)
       else let p = leb_word (maxByteLength TYPE('a)) (drop offset bytes)
         in Some (\<not> continues (last p), offset + length p,
              word_of_int (if continues (last p) then groups_value p else signed_groups_value p)))"
proof (cases "length bytes \<le> offset")
  case True
  then show ?thesis by (simp add: decodeUInt_def decodeInt_def)
next
  case False
  then have "offset < length bytes" by simp
  then show ?thesis using decodeUInt_word [OF _ refl, of offset bytes r] decodeInt_word [OF _ refl, of offset bytes r]
    by (simp add: Let_def)
qed

text \<open>
  C34. Every number of the type survives the round trip: decoding its LEB128 encoding at any place
  of a byte sequence succeeds, moves the offset behind the encoding and returns the number.
\<close>

theorem leb_round_trip:
  fixes r :: "'a::len word"
  assumes "n < 2 ^ LENGTH('a)" "- (2 ^ (LENGTH('a) - 1)) \<le> z" "z < 2 ^ (LENGTH('a) - 1)"
  shows "(\<exists>v. decodeUInt (pre @ encode_unsigned n @ rest) (length pre) r = Some (True, length pre + length (encode_unsigned n), v) \<and> unat v = n) \<and>
    (\<exists>v. decodeInt (pre @ encode_signed z @ rest) (length pre) r = Some (True, length pre + length (encode_signed z), v) \<and> sint v = z)"
proof -
  have "unat (word_of_int (int n) :: 'a word) = n" using assms(1) by (simp add: unsigned_of_nat take_bit_nat_eq_self_iff)
  moreover have "sint (word_of_int z :: 'a word) = z"
    unfolding sint_sbintrunc' by (rule signed_take_bit_int_eq_self) (use assms in simp_all)
  ultimately show ?thesis
    using decode_encodings(1) [OF conjunct1 [OF encode_unsigned_value] encoding_lengths(1) [OF assms(1)], of pre rest r]
      decode_encodings(2) [OF conjunct1 [OF encode_signed_value] encoding_lengths(2) [OF assms(2,3)], of pre rest r]
    by (simp add: encode_unsigned_value encode_signed_value)
qed

theorem leb_round_trip_witness:
  "(\<exists>v. decodeUInt32 (encode_unsigned 624485) 0 0 = Some (True, length (encode_unsigned 624485), v) \<and> unat v = 624485) \<and>
    (\<exists>v. decodeInt32 (encode_signed (- 123456)) 0 0 = Some (True, length (encode_signed (- 123456)), v) \<and> sint v = - 123456)"
  using leb_round_trip [of 624485 "- 123456" "[]" "[]" "0 :: 32 word"]
  by (simp add: decodeUInt32_def decodeInt32_def)

end
