(* ===== verification/Ad_Block.thy ===== *)
theory Ad_Block
  imports Prelude
begin

text \<open>
  The ad blocker of \<^verbatim>\<open>src/Source/WebCore/loader/AdBlock.cpp\<close>: rules with options, their
  translation to regular expressions, the white and the black list, the cache of decisions and the
  filter file.  Patterns live in a heap, so that lists and callers hold addresses.  The regular
  expression engine is a parameter: applied to the source of an expression, a subject and a start it
  returns the index and the length of the first match.  An operation is \<^term>\<open>None\<close> when a loop over
  matches does not end, a freed pattern is read or a cache entry is read before it is written.
\<close>

unbundle bit_operations_syntax

subsection \<open>Strings\<close>

type_synonym uchar = "16 word"

type_synonym ustring = "uchar list"

type_synonym engine = "ustring \<Rightarrow> ustring \<Rightarrow> nat \<Rightarrow> (nat \<times> nat) option"

definition lit :: "string \<Rightarrow> ustring" where
  "lit s = map of_char s"

definition startsWith :: "ustring \<Rightarrow> ustring \<Rightarrow> bool" where
  "startsWith p s \<longleftrightarrow> take (length p) s = p"

definition endsWith :: "ustring \<Rightarrow> ustring \<Rightarrow> bool" where
  "endsWith p s \<longleftrightarrow> length p \<le> length s \<and> drop (length s - length p) s = p"

fun split_entries :: "uchar \<Rightarrow> ustring \<Rightarrow> ustring \<Rightarrow> ustring list" where
  "split_entries sep entry [] = (if entry = [] then [] else [entry])"
| "split_entries sep entry (c # s) =
     (if c = sep then (if entry = [] then [] else [entry]) @ split_entries sep [] s
      else split_entries sep (entry @ [c]) s)"

definition split :: "uchar \<Rightarrow> ustring \<Rightarrow> ustring list" where
  "split sep s = split_entries sep [] s"

definition insert_string :: "ustring \<Rightarrow> nat \<Rightarrow> ustring \<Rightarrow> ustring" where
  "insert_string ins position s = (if length s \<le> position then s @ ins else take position s @ ins @ drop position s)"

partial_function (option) regex_replace :: "engine \<Rightarrow> ustring \<Rightarrow> ustring \<Rightarrow> nat \<Rightarrow> ustring \<Rightarrow> ustring option" where
  "regex_replace yarr re replacement index s =
     (if index < length s then
        (case yarr re s index of
           None \<Rightarrow> Some s
         | Some (index, matchLength) \<Rightarrow>
             let s = take index s @ replacement @ drop (index + matchLength) s in
             if matchLength = 0 then Some s
             else regex_replace yarr re replacement (index + length replacement) s)
      else Some s)"

subsection \<open>Rules\<close>

definition DOCUMENT_TYPE :: int where
  "DOCUMENT_TYPE = 9"

definition ImageResource :: int where
  "ImageResource = 1"

definition CSSStyleSheet :: int where
  "CSSStyleSheet = 2"

definition Script :: int where
  "Script = 3"

definition type_bit :: "int \<Rightarrow> 32 word" where
  "type_bit t = push_bit (nat t) 1"

record ad_pattern =
  m_string :: ustring
  m_re :: ustring
  m_types :: "32 word"

definition AdPattern_matches :: "engine \<Rightarrow> ad_pattern \<Rightarrow> ustring option \<Rightarrow> int \<Rightarrow> bool" where
  "AdPattern_matches yarr a subj t \<longleftrightarrow>
     type_bit t AND m_types a \<noteq> 0 \<and> (case subj of None \<Rightarrow> False | Some s \<Rightarrow> yarr (m_re a) s 0 \<noteq> None)"

definition type_mask :: "ustring \<Rightarrow> 32 word" where
  "type_mask typeOpt =
     (if typeOpt = lit ''image'' then type_bit ImageResource
      else if typeOpt = lit ''stylesheet'' then type_bit CSSStyleSheet
      else if typeOpt = lit ''script'' then type_bit Script
      else if typeOpt = lit ''subdocument'' then type_bit DOCUMENT_TYPE
      else 0)"

definition option_step :: "32 word \<Rightarrow> ustring \<Rightarrow> 32 word" where
  "option_step types opt =
     (if opt = lit ''match-case'' then types
      else if startsWith (lit ''~'') opt then types AND NOT (type_mask (drop 1 opt))
      else (if types = - 1 then 0 else types) OR type_mask opt)"

definition rule_parts :: "ustring \<Rightarrow> ustring \<times> 32 word" where
  "rule_parts pat =
     (let delim = length (takeWhile (\<lambda>c. c \<noteq> 35) pat);
          optpart = drop (delim + 1) pat;
          pattern = take delim pat
      in (pattern, foldl option_step (- 1) (split 44 optpart)))"

partial_function (option) escape_loop :: "engine \<Rightarrow> nat \<Rightarrow> ustring \<Rightarrow> ustring option" where
  "escape_loop yarr pos pattern =
     (case yarr [92, 87] pattern pos of
        None \<Rightarrow> Some pattern
      | Some (pos, matchLength) \<Rightarrow> escape_loop yarr (pos + 2) (insert_string [92] pos pattern))"

definition rule_expression :: "engine \<Rightarrow> ustring \<Rightarrow> ustring option" where
  "rule_expression yarr pattern =
     (if startsWith (lit ''/'') pattern \<and> endsWith (lit ''/'') pattern
      then Some (take (length pattern - 2) (drop 1 pattern))
      else
        Option.bind (escape_loop yarr 0 pattern) (\<lambda>pattern.
        Option.bind (regex_replace yarr [92, 92, 92, 42] (lit ''.*'') 0 pattern) (\<lambda>pattern.
        Option.bind (regex_replace yarr [94, 92, 92, 92, 124] (lit ''^'') 0 pattern) (\<lambda>pattern.
        regex_replace yarr [92, 92, 92, 124, 36] (lit ''$'') 0 pattern))))"

definition parse_rule :: "engine \<Rightarrow> ustring \<Rightarrow> ad_pattern option option" where
  "parse_rule yarr pat =
     (case rule_parts pat of (pattern, types) \<Rightarrow>
        if types = 0 then Some None
        else map_option (\<lambda>re. Some \<lparr>m_string = pat, m_re = re, m_types = types\<rparr>) (rule_expression yarr pattern))"

subsection \<open>The state\<close>

record cache_entry =
  target :: "ustring option"
  block :: "bool option"

record ad_block =
  ab_heap :: "nat \<rightharpoonup> ad_pattern"
  ab_next :: nat
  ab_blackList :: "nat list"
  ab_whiteList :: "nat list"
  ab_cache :: "cache_entry list option"
  ad_block_enabled :: bool
  filter_file :: "byte list option"
  writable :: bool
  did_insert :: "(ustring \<times> int \<times> nat option) list"

definition CACHE_SIZE :: nat where
  "CACHE_SIZE = 1009"

definition new_cache :: "cache_entry list" where
  "new_cache = replicate CACHE_SIZE \<lparr>target = None, block = None\<rparr>"

datatype pattern_matcher = BlackList | WhiteList

fun patterns :: "pattern_matcher \<Rightarrow> ad_block \<Rightarrow> nat list" where
  "patterns BlackList st = ab_blackList st"
| "patterns WhiteList st = ab_whiteList st"

fun set_patterns :: "pattern_matcher \<Rightarrow> nat list \<Rightarrow> ad_block \<Rightarrow> ad_block" where
  "set_patterns BlackList ps st = st\<lparr>ab_blackList := ps\<rparr>"
| "set_patterns WhiteList ps st = st\<lparr>ab_whiteList := ps\<rparr>"

definition addPattern :: "engine \<Rightarrow> pattern_matcher \<Rightarrow> ustring \<Rightarrow> ad_block \<Rightarrow> (nat option \<times> ad_block) option" where
  "addPattern yarr m pat st =
     (case parse_rule yarr pat of
        None \<Rightarrow> None
      | Some None \<Rightarrow> Some (None, st)
      | Some (Some a) \<Rightarrow>
          Some (Some (ab_next st), set_patterns m (patterns m st @ [ab_next st])
            (st\<lparr>ab_heap := (ab_heap st)(ab_next st \<mapsto> a), ab_next := ab_next st + 1\<rparr>)))"

definition updatePattern :: "engine \<Rightarrow> ustring \<Rightarrow> nat \<Rightarrow> ad_block \<Rightarrow> (bool \<times> ad_block) option" where
  "updatePattern yarr pat newpattern st =
     (case parse_rule yarr pat of
        None \<Rightarrow> None
      | Some None \<Rightarrow> Some (False, st)
      | Some (Some a) \<Rightarrow> Some (True, st\<lparr>ab_heap := (ab_heap st)(newpattern \<mapsto> a)\<rparr>))"

fun matches_any :: "engine \<Rightarrow> (nat \<rightharpoonup> ad_pattern) \<Rightarrow> nat list \<Rightarrow> ustring option \<Rightarrow> int \<Rightarrow> bool option" where
  "matches_any yarr heap [] subj t = Some False"
| "matches_any yarr heap (p # ps) subj t =
     (case heap p of
        None \<Rightarrow> None
      | Some a \<Rightarrow> if AdPattern_matches yarr a subj t then Some True else matches_any yarr heap ps subj t)"

definition ab_hash :: "ustring \<Rightarrow> 32 word" where
  "ab_hash s = foldl (\<lambda>result c. 31 * result + ucast c) 0 s"

subsection \<open>The filter file\<close>

definition fgets :: "byte list \<Rightarrow> (byte list \<times> byte list) option" where
  "fgets file =
     (let buf = take 511 file;
          line = takeWhile (\<lambda>b. b \<noteq> 10) buf;
          n = (if length line < length buf then length line + 1 else length buf)
      in if file = [] then None else Some (take n file, drop n file))"

definition line_string :: "byte list \<Rightarrow> ustring" where
  "line_string buf = filter (\<lambda>c. c \<noteq> 10) (map ucast (takeWhile (\<lambda>b. b \<noteq> 0) buf))"

definition add_shown :: "engine \<Rightarrow> pattern_matcher \<Rightarrow> ustring \<Rightarrow> int \<Rightarrow> ad_block \<Rightarrow> ad_block option" where
  "add_shown yarr m rule t st =
     map_option (\<lambda>(pattern, st). st\<lparr>did_insert := did_insert st @ [(rule, t, pattern)]\<rparr>) (addPattern yarr m rule st)"

definition read_line :: "engine \<Rightarrow> ustring \<Rightarrow> ad_block \<Rightarrow> ad_block option" where
  "read_line yarr line st =
     (if startsWith (lit ''@@'') line then add_shown yarr WhiteList (drop 2 line) 1 st
      else if \<not> startsWith (lit ''!'') line \<and> \<not> startsWith (lit ''#'') line \<and> line \<noteq> []
        then add_shown yarr BlackList line 0 st
      else Some st)"

function read_lines :: "engine \<Rightarrow> byte list \<Rightarrow> ad_block \<Rightarrow> ad_block option" where
  "read_lines yarr file st =
     (case fgets file of
        None \<Rightarrow> Some st
      | Some (buf, rest) \<Rightarrow> Option.bind (read_line yarr (line_string buf) st) (read_lines yarr rest))"
  by pat_completeness auto
termination
  by (relation "measure (\<lambda>(yarr, file, st). length file)")
     (auto simp: fgets_def Let_def split: if_splits)

declare read_lines.simps [simp del]

definition initialize :: "engine \<Rightarrow> ad_block \<Rightarrow> (cache_entry list \<times> ad_block) option" where
  "initialize yarr st =
     (case filter_file st of
        None \<Rightarrow> Some (new_cache, st)
      | Some file \<Rightarrow>
          map_option (\<lambda>st. (new_cache, st))
            (read_lines yarr (case fgets file of None \<Rightarrow> [] | Some (buf, rest) \<Rightarrow> rest) st))"

definition deinitialize :: "ad_block \<Rightarrow> ad_block" where
  "deinitialize st =
     st\<lparr>ab_cache := None,
        ab_heap := (ab_heap st) |` (- set (ab_whiteList st) - set (ab_blackList st))\<rparr>"

definition flushCache :: "ad_block \<Rightarrow> ad_block" where
  "flushCache st = st\<lparr>ab_cache := Some new_cache\<rparr>"

definition loadCache :: "engine \<Rightarrow> ad_block \<Rightarrow> ad_block option" where
  "loadCache yarr st =
     (if ab_cache st = None then map_option (\<lambda>(cache, st). st\<lparr>ab_cache := Some cache\<rparr>) (initialize yarr st)
      else Some st)"

definition latin1 :: "ustring \<Rightarrow> byte list" where
  "latin1 s = map (\<lambda>c. if c \<le> 255 then ucast c else 63) s"

definition ascii :: "string \<Rightarrow> byte list" where
  "ascii s = map of_char s"

fun rule_lines :: "byte list \<Rightarrow> (nat \<rightharpoonup> ad_pattern) \<Rightarrow> nat list \<Rightarrow> byte list option" where
  "rule_lines lead heap [] = Some []"
| "rule_lines lead heap (p # ps) =
     (case heap p of
        None \<Rightarrow> None
      | Some a \<Rightarrow>
          map_option (\<lambda>out. lead @ takeWhile (\<lambda>b. b \<noteq> 0) (latin1 (m_string a)) @ [10] @ out)
            (rule_lines lead heap ps))"

definition writeCache :: "engine \<Rightarrow> ad_block \<Rightarrow> (bool \<times> ad_block) option" where
  "writeCache yarr st =
     (if \<not> writable st then Some (False, st)
      else
        Option.bind (loadCache yarr (st\<lparr>filter_file := Some []\<rparr>)) (\<lambda>st.
        Option.bind (rule_lines (ascii ''@@'') (ab_heap st) (ab_whiteList st)) (\<lambda>white.
        Option.bind (rule_lines [] (ab_heap st) (ab_blackList st)) (\<lambda>black.
          Some (True, st\<lparr>filter_file := Some
            (ascii ''[Adblock]'' @ [10] @ ascii ''!---- Generated by OWB ----!'' @ [10] @
             ascii ''!---- White List ----!'' @ [10] @ white @
             ascii ''!---- Black List ----!'' @ [10] @ black)\<rparr>)))))"

subsection \<open>Rules from the user interface\<close>

definition addCacheEntry :: "engine \<Rightarrow> ustring \<Rightarrow> int \<Rightarrow> ad_block \<Rightarrow> (nat option \<times> ad_block) option" where
  "addCacheEntry yarr rule t st =
     (if t = 0 then addPattern yarr BlackList rule st
      else if t = 1 then addPattern yarr WhiteList rule st
      else Some (None, st))"

definition update_in :: "engine \<Rightarrow> pattern_matcher \<Rightarrow> ustring \<Rightarrow> nat \<Rightarrow> ad_block \<Rightarrow> ad_block option" where
  "update_in yarr m rule p st =
     (if p \<in> set (patterns m st) then map_option snd (updatePattern yarr rule p st) else Some st)"

definition updateCacheEntry :: "engine \<Rightarrow> ustring \<Rightarrow> int \<Rightarrow> nat \<Rightarrow> ad_block \<Rightarrow> ad_block option" where
  "updateCacheEntry yarr rule t p st =
     (if t = 0 then update_in yarr BlackList rule p st
      else if t = 1 then update_in yarr WhiteList rule p st
      else Some st)"

definition remove_in :: "pattern_matcher \<Rightarrow> nat \<Rightarrow> ad_block \<Rightarrow> ad_block" where
  "remove_in m p st =
     (if p \<in> set (patterns m st)
      then set_patterns m (remove1 p (patterns m st)) (st\<lparr>ab_heap := (ab_heap st)(p := None)\<rparr>)
      else st)"

definition removeCacheEntry :: "nat \<Rightarrow> int \<Rightarrow> ad_block \<Rightarrow> ad_block" where
  "removeCacheEntry p t st =
     (if t = 0 then remove_in BlackList p st else if t = 1 then remove_in WhiteList p st else st)"

subsection \<open>Decisions\<close>

record url =
  url_string :: "ustring option"
  url_protocolIs :: "ustring \<Rightarrow> bool"
  url_protocol :: ustring
  url_host :: ustring
  url_path :: ustring

definition type_option :: "int \<Rightarrow> ustring" where
  "type_option t =
     (if t = 2 ^ nat ImageResource then lit ''image''
      else if t = 2 ^ nat CSSStyleSheet then lit ''stylesheet''
      else if t = 2 ^ nat Script then lit ''script''
      else if t = 2 ^ nat DOCUMENT_TYPE then lit ''subdocument''
      else [])"

definition last_slash :: "ustring \<Rightarrow> int" where
  "last_slash s = (if 47 \<in> set s then int (length s) - 1 - int (length (takeWhile (\<lambda>c. c \<noteq> 47) (rev s))) else - 1)"

definition rule_for :: "url \<Rightarrow> int \<Rightarrow> ustring" where
  "rule_for u mode =
     (if mode = 1 then url_protocol u @ lit ''://'' @ url_host u @ lit ''/*''
      else if mode = 2 then
        url_protocol u @ lit ''://'' @ url_host u @
        (if last_slash (url_path u) > 0 then take (nat (last_slash (url_path u))) (url_path u) @ lit ''/*''
         else lit ''/*'')
      else (case url_string u of None \<Rightarrow> [] | Some s \<Rightarrow> s))"

definition blockResource :: "engine \<Rightarrow> url \<Rightarrow> int \<Rightarrow> int \<Rightarrow> ad_block \<Rightarrow> ad_block option" where
  "blockResource yarr u t mode st =
     (let pat = rule_for u mode @ (if type_option t \<noteq> [] then lit ''#'' @ type_option t else [])
      in Option.bind (add_shown yarr BlackList pat 0 st) (\<lambda>st.
         Option.bind (writeCache yarr st) (\<lambda>(written, st).
         Some (flushCache st))))"

definition decide :: "engine \<Rightarrow> ustring option \<Rightarrow> int \<Rightarrow> ad_block \<Rightarrow> bool option" where
  "decide yarr subj t st =
     (case matches_any yarr (ab_heap st) (ab_whiteList st) subj t of
        None \<Rightarrow> None
      | Some True \<Rightarrow> Some False
      | Some False \<Rightarrow> matches_any yarr (ab_heap st) (ab_blackList st) subj t)"

definition shouldBlock :: "engine \<Rightarrow> url \<Rightarrow> int \<Rightarrow> ad_block \<Rightarrow> (bool \<times> ad_block) option" where
  "shouldBlock yarr u t st =
     (if url_protocolIs u (lit ''data'') then Some (False, st)
      else if \<not> ad_block_enabled st then Some (False, st)
      else
        (let t = (if t < 0 then DOCUMENT_TYPE else t)
         in Option.bind (loadCache yarr st) (\<lambda>st.
            Option.bind (ab_cache st) (\<lambda>cache.
              let s = url_string u;
                  i = unat (ab_hash (case s of None \<Rightarrow> [] | Some s \<Rightarrow> s)) mod CACHE_SIZE;
                  ent = cache ! i
              in if target ent \<noteq> s then
                   Option.bind (decide yarr s t st) (\<lambda>b.
                     Some (b, st\<lparr>ab_cache := Some (cache[i := \<lparr>target = s, block = Some b\<rparr>])\<rparr>))
                 else map_option (\<lambda>b. (b, st)) (block ent)))))"

end
