(* ===== verification/Ad_Block_Rules.thy ===== *)
theory Ad_Block_Rules
  imports Ad_Block
begin

text \<open>
  What the rules of the ad blocker mean.  The regular expressions the code builds are sequences of a
  few tokens; \<^term>\<open>regex_engine\<close> states that the engine searches them as ECMAScript does.  Under
  it the translation of a rule ends, and the rule matches a URL as its stars and bars say.
\<close>

subsection \<open>Tokens and the engine\<close>

datatype token = Lit uchar | NonWord | Any | LineStart | LineEnd

definition word_char :: "uchar \<Rightarrow> bool" where
  "word_char c \<longleftrightarrow> 48 \<le> c \<and> c \<le> 57 \<or> 65 \<le> c \<and> c \<le> 90 \<or> c = 95 \<or> 97 \<le> c \<and> c \<le> 122"

definition line_terminator :: "uchar \<Rightarrow> bool" where
  "line_terminator c \<longleftrightarrow> c = 10 \<or> c = 13 \<or> c = 0x2028 \<or> c = 0x2029"

fun render_token :: "token \<Rightarrow> ustring" where
  "render_token (Lit c) = (if word_char c then [c] else [92, c])"
| "render_token NonWord = [92, 87]"
| "render_token Any = [46, 42]"
| "render_token LineStart = [94]"
| "render_token LineEnd = [36]"

definition render :: "token list \<Rightarrow> ustring" where
  "render ts = concat (map render_token ts)"

fun first_some :: "'a option list \<Rightarrow> 'a option" where
  "first_some [] = None"
| "first_some (r # rs) = (if r = None then first_some rs else r)"

primrec token_end :: "(uchar \<Rightarrow> uchar) \<Rightarrow> ustring \<Rightarrow> token list \<Rightarrow> nat \<Rightarrow> nat option" where
  "token_end canon s [] = (\<lambda>j. Some j)"
| "token_end canon s (t # ts) = (\<lambda>j. case t of
      Lit c \<Rightarrow> if j < length s \<and> canon (s ! j) = canon c then token_end canon s ts (j + 1) else None
    | NonWord \<Rightarrow> if j < length s \<and> \<not> word_char (s ! j) then token_end canon s ts (j + 1) else None
    | Any \<Rightarrow> first_some (map (token_end canon s ts)
        (rev [j ..< Suc (j + length (takeWhile (\<lambda>c. \<not> line_terminator c) (drop j s)))]))
    | LineStart \<Rightarrow> if j = 0 then token_end canon s ts j else None
    | LineEnd \<Rightarrow> if j = length s then token_end canon s ts j else None)"

definition token_search :: "(uchar \<Rightarrow> uchar) \<Rightarrow> token list \<Rightarrow> ustring \<Rightarrow> nat \<Rightarrow> (nat \<times> nat) option" where
  "token_search canon ts s i =
     first_some (map (\<lambda>j. map_option (\<lambda>e. (j, e - j)) (token_end canon s ts j)) [i ..< Suc (length s)])"

definition regex_engine :: "(uchar \<Rightarrow> uchar) \<Rightarrow> engine \<Rightarrow> bool" where
  "regex_engine canon yarr \<longleftrightarrow>
     (\<forall>ts s i. yarr (render ts) s i = token_search canon ts s i) \<and>
     (\<forall>c d. c \<in> {92, 42, 124} \<longrightarrow> canon d = canon c \<longrightarrow> d = c)"

lemma token_search_step:
  "token_search canon ts s i =
     (if length s < i then None
      else case token_end canon s ts i of None \<Rightarrow> token_search canon ts s (Suc i) | Some e \<Rightarrow> Some (i, e - i))"
proof (cases "length s < i")
  case False
  then have "[i ..< Suc (length s)] = i # [Suc i ..< Suc (length s)]" by (simp add: upt_conv_Cons)
  then show ?thesis using False unfolding token_search_def by (auto split: option.split)
qed (simp add: token_search_def)

lemma token_search_None: "(\<And>j. i \<le> j \<Longrightarrow> token_end canon s ts j = None) \<Longrightarrow> token_search canon ts s i = None"
proof -
  assume a: "\<And>j. i \<le> j \<Longrightarrow> token_end canon s ts j = None"
  have n: "first_some (map (\<lambda>j. map_option (\<lambda>e. (j, e - j)) (token_end canon s ts j)) js) = None" if "\<forall>j\<in>set js. i \<le> j" for js
    using that by (induction js) (simp_all add: a)
  show ?thesis unfolding token_search_def by (rule n) auto
qed

subsection \<open>Escaping\<close>

definition escape_char :: "uchar \<Rightarrow> ustring" where
  "escape_char c = (if word_char c then [c] else [92, c])"

lemma word_char_codes [simp]:
  "\<not> word_char 92" "\<not> word_char 42" "\<not> word_char 124" "\<not> word_char 46" "\<not> word_char 94" "\<not> word_char 36"
  by (simp_all add: word_char_def)

lemma escape_loop_correct:
  assumes "regex_engine canon yarr"
  shows "escape_loop yarr (length pre) (pre @ s) = Some (pre @ concat (map escape_char s))"
proof -
  have y: "yarr [92, 87] s i = token_search canon [NonWord] s i" for s i
    using assms by (auto simp: regex_engine_def render_def dest: spec [where x = "[NonWord]"])
  have step: "token_search canon [NonWord] t i = (if length t < i then None
    else if i < length t \<and> \<not> word_char (t ! i) then Some (i, 1) else token_search canon [NonWord] t (Suc i))" for t i
    by (subst token_search_step) simp
  show ?thesis
  proof (induction s arbitrary: pre)
    case Nil
    have "token_search canon [NonWord] pre (length pre) = None" by (rule token_search_None) simp
    then show ?case by (subst escape_loop.simps) (simp add: y)
  next
    case (Cons c s)
    show ?case
    proof (cases "word_char c")
      case True
      then have "escape_loop yarr (length pre) (pre @ c # s) = escape_loop yarr (Suc (length pre)) (pre @ c # s)"
        by (subst (1 2) escape_loop.simps) (simp add: y, subst step, simp)
      then show ?thesis using Cons.IH [of "pre @ [c]"] True by (simp add: escape_char_def)
    next
      case False
      then have "escape_loop yarr (length pre) (pre @ c # s) = escape_loop yarr (length (pre @ [92, c])) ((pre @ [92, c]) @ s)"
        by (subst escape_loop.simps) (simp add: y step insert_string_def)
      then show ?thesis using Cons.IH [of "pre @ [92, c]"] False by (simp add: escape_char_def)
    qed
  qed
qed

subsection \<open>Replacing\<close>

lemma replace_skip:
  assumes "i < length s" "yarr re s i = yarr re s (Suc i)" "length s \<le> Suc i \<Longrightarrow> yarr re s i = None"
  shows "regex_replace yarr re r i s = regex_replace yarr re r (Suc i) s"
  using assms by (subst (1 2) regex_replace.simps) (auto split: option.split)

lemma replace_None: "yarr re s i = None \<Longrightarrow> regex_replace yarr re r i s = Some s"
  by (subst regex_replace.simps) simp

lemma pair_end:
  assumes "regex_engine canon yarr" "a \<in> {92, 42, 124}" "b \<in> {92, 42, 124}"
  shows "token_end canon s (Lit a # Lit b # ts) i =
    (if Suc i < length s \<and> s ! i = a \<and> s ! Suc i = b then token_end canon s ts (i + 2) else None)"
proof -
  have "canon d = canon a \<longleftrightarrow> d = a" "canon d = canon b \<longleftrightarrow> d = b" for d
    using assms unfolding regex_engine_def by metis+
  then show ?thesis by auto
qed

definition star_char :: "uchar \<Rightarrow> ustring" where
  "star_char c = (if c = 42 then [46, 42] else escape_char c)"

lemma escaped_first: "concat (map escape_char s) = x # r \<Longrightarrow> x \<noteq> 42"
  by (cases s) (auto simp: escape_char_def split: if_splits)

lemma replace_star:
  assumes "regex_engine canon yarr"
  shows "regex_replace yarr [92, 92, 92, 42] [46, 42] (length pre) (pre @ concat (map escape_char s)) =
    Some (pre @ concat (map star_char s))"
proof -
  have y: "yarr [92, 92, 92, 42] s i = token_search canon [Lit 92, Lit 42] s i" for s i
    using assms by (auto simp: regex_engine_def render_def dest: spec [where x = "[Lit 92, Lit 42]"])
  have e: "token_end canon t [Lit 92, Lit 42] i = (if Suc i < length t \<and> t ! i = 92 \<and> t ! Suc i = 42 then Some (i + 2) else None)" for t i
    using pair_end [OF assms, of 92 42 t "[]" i] by simp
  have last: "token_search canon [Lit 92, Lit 42] t i = None" if "length t \<le> Suc i" for t i
    using that by (intro token_search_None) (simp del: token_end.simps(2) add: e)
  have skip: "regex_replace yarr [92, 92, 92, 42] [46, 42] i t = regex_replace yarr [92, 92, 92, 42] [46, 42] (Suc i) t"
    if "i < length t" "\<not> (Suc i < length t \<and> t ! i = 92 \<and> t ! Suc i = 42)" for i t
  proof (rule replace_skip [OF that(1)])
    show "yarr [92, 92, 92, 42] t i = yarr [92, 92, 92, 42] t (Suc i)" unfolding y
      using that by (subst token_search_step) (auto simp del: token_end.simps(2) simp add: e)
    show "length t \<le> Suc i \<Longrightarrow> yarr [92, 92, 92, 42] t i = None" unfolding y by (rule last)
  qed
  show ?thesis
  proof (induction s arbitrary: pre)
    case Nil
    show ?case by (simp add: replace_None y last)
  next
    case (Cons c s)
    define r where "r = concat (map escape_char s)"
    have hd: "r \<noteq> [] \<Longrightarrow> r ! 0 \<noteq> 42" using escaped_first [of s] by (cases r) (auto simp: r_def)
    show ?case
    proof (cases "c = 42")
      case True
      have "regex_replace yarr [92, 92, 92, 42] [46, 42] (length pre) (pre @ [92, 42] @ r) =
        regex_replace yarr [92, 92, 92, 42] [46, 42] (length (pre @ [46, 42])) ((pre @ [46, 42]) @ r)"
        by (subst regex_replace.simps, subst y, subst token_search_step) (simp del: token_end.simps(2) add: e nth_append)
      then show ?thesis using Cons.IH [of "pre @ [46, 42]"] True by (simp add: r_def star_char_def [of 42] escape_char_def [of 42])
    next
      case ne: False
      show ?thesis
      proof (cases "word_char c")
        case True
        then have "c \<noteq> 92" by auto
        then have "regex_replace yarr [92, 92, 92, 42] [46, 42] (length pre) (pre @ [c] @ r) =
          regex_replace yarr [92, 92, 92, 42] [46, 42] (Suc (length pre)) (pre @ [c] @ r)"
          by (intro skip) (auto simp: nth_append)
        then show ?thesis using Cons.IH [of "pre @ [c]"] True ne by (simp add: r_def star_char_def [of c] escape_char_def [of c])
      next
        case False
        have "regex_replace yarr [92, 92, 92, 42] [46, 42] (length pre) (pre @ [92, c] @ r) =
          regex_replace yarr [92, 92, 92, 42] [46, 42] (Suc (length pre)) (pre @ [92, c] @ r)"
          using ne by (intro skip) (auto simp: nth_append)
        moreover have "regex_replace yarr [92, 92, 92, 42] [46, 42] (Suc (length pre)) (pre @ [92, c] @ r) =
          regex_replace yarr [92, 92, 92, 42] [46, 42] (Suc (Suc (length pre))) (pre @ [92, c] @ r)"
          using hd by (intro skip) (auto simp: nth_append)
        ultimately show ?thesis using Cons.IH [of "pre @ [92, c]"] False ne by (simp add: r_def star_char_def [of c] escape_char_def [of c])
      qed
    qed
  qed
qed

lemma token_search_first:
  assumes "i \<le> k" "k \<le> length s" "\<And>j. i \<le> j \<Longrightarrow> j < k \<Longrightarrow> token_end canon s ts j = None" "token_end canon s ts k = Some e"
  shows "token_search canon ts s i = Some (k, e - k)"
  using assms
proof (induction "k - i" arbitrary: i)
  case 0
  then show ?case by (subst token_search_step) simp
next
  case (Suc n)
  then have "token_search canon ts s (Suc i) = Some (k, e - k)" by (intro Suc.hyps(1)) auto
  then show ?case using Suc by (subst token_search_step) auto
qed

lemma replace_start:
  assumes "regex_engine canon yarr"
  shows "regex_replace yarr [94, 92, 92, 92, 124] [94] 0 s =
    Some (if 1 < length s \<and> s ! 0 = 92 \<and> s ! 1 = 124 then 94 # drop 2 s else s)"
proof -
  define ts where "ts = [LineStart, Lit 92, Lit 124]"
  have y: "yarr [94, 92, 92, 92, 124] s i = token_search canon ts s i" for s i
    using assms by (auto simp: regex_engine_def render_def ts_def dest: spec [where x = "[LineStart, Lit 92, Lit 124]"])
  have e: "token_end canon t ts j = (if j = 0 \<and> 1 < length t \<and> t ! 0 = 92 \<and> t ! 1 = 124 then Some 2 else None)" for t j
    using pair_end [OF assms, of 92 124 t "[]" 0] by (simp add: ts_def)
  have later: "token_search canon ts t (Suc i) = None" for t i by (intro token_search_None) (simp add: e)
  have start: "token_search canon ts s 0 = (if 1 < length s \<and> s ! 0 = 92 \<and> s ! 1 = 124 then Some (0, 2) else None)"
    by (subst token_search_step) (simp add: e later)
  show ?thesis
  proof (cases "1 < length s \<and> s ! 0 = 92 \<and> s ! 1 = 124")
    case True
    have "0 < length s" using True by linarith
    then show ?thesis using True start replace_None [of yarr "[94, 92, 92, 92, 124]" "94 # drop 2 s" 1 "[94]"]
      by (subst regex_replace.simps) (simp add: y later)
  next
    case False
    show ?thesis unfolding if_not_P [OF False]
      by (rule replace_None, unfold y start, rule if_not_P [OF False])
  qed
qed

lemma replace_end:
  assumes "regex_engine canon yarr"
  shows "regex_replace yarr [92, 92, 92, 124, 36] [36] 0 (u @ [92, 124]) = Some (u @ [36])"
    and "(\<And>u. s \<noteq> u @ [92, 124]) \<Longrightarrow> regex_replace yarr [92, 92, 92, 124, 36] [36] 0 s = Some s"
proof -
  define ts where "ts = [Lit 92, Lit 124, LineEnd]"
  have y: "yarr [92, 92, 92, 124, 36] s i = token_search canon ts s i" for s i
    using assms by (auto simp: regex_engine_def render_def ts_def dest: spec [where x = "[Lit 92, Lit 124, LineEnd]"])
  have e: "token_end canon t ts j = (if j + 2 = length t \<and> t ! j = 92 \<and> t ! Suc j = 124 then Some (j + 2) else None)" for t j
    using pair_end [OF assms, of 92 124 t "[LineEnd]" j] by (auto simp: ts_def)
  have "token_search canon ts (u @ [92, 124]) 0 = Some (length u, length u + 2 - length u)"
    by (rule token_search_first) (simp_all add: e nth_append)
  then show "regex_replace yarr [92, 92, 92, 124, 36] [36] 0 (u @ [92, 124]) = Some (u @ [36])"
    by (subst regex_replace.simps) (simp add: y, subst regex_replace.simps, simp)
  assume n: "\<And>u. s \<noteq> u @ [92, 124]"
  have "token_end canon s ts j = None" for j
  proof (rule ccontr)
    assume "token_end canon s ts j \<noteq> None"
    then have "j + 2 = length s" "s ! j = 92" "s ! Suc j = 124" by (auto simp: e split: if_splits)
    then have "drop j s = [92, 124]" by (simp add: Cons_nth_drop_Suc [symmetric])
    then show False using n [of "take j s"] append_take_drop_id [of j s] by simp
  qed
  then show "regex_replace yarr [92, 92, 92, 124, 36] [36] 0 s = Some s"
    by (intro replace_None) (simp add: y token_search_None)
qed

subsection \<open>Rules as globs\<close>

text \<open>A star stands for any characters of a line; a bar at either end ties the rule to that end of the URL.\<close>

fun glob_lang :: "(uchar \<Rightarrow> uchar) \<Rightarrow> ustring \<Rightarrow> ustring \<Rightarrow> bool" where
  "glob_lang canon [] s \<longleftrightarrow> s = []"
| "glob_lang canon (c # p) s \<longleftrightarrow>
     (if c = 42 then list_ex (\<lambda>n. list_all (\<lambda>d. \<not> line_terminator d) (take n s) \<and> glob_lang canon p (drop n s)) [0 ..< Suc (length s)]
      else s \<noteq> [] \<and> canon (hd s) = canon c \<and> glob_lang canon p (tl s))"

definition glob_parts :: "ustring \<Rightarrow> bool \<times> ustring \<times> bool" where
  "glob_parts p =
     (let a = (p \<noteq> [] \<and> hd p = 124);
          b = (if a then tl p else p);
          z = (b \<noteq> [] \<and> last b = 124)
      in (a, if z then butlast b else b, z))"

definition glob_matches :: "(uchar \<Rightarrow> uchar) \<Rightarrow> ustring \<Rightarrow> ustring \<Rightarrow> bool" where
  "glob_matches canon p t \<longleftrightarrow>
     (case glob_parts p of (a, b, z) \<Rightarrow>
        \<exists>j k. j \<le> k \<and> k \<le> length t \<and> glob_lang canon b (drop j (take k t)) \<and> (a \<longrightarrow> j = 0) \<and> (z \<longrightarrow> k = length t))"

definition glob_token :: "uchar \<Rightarrow> token" where
  "glob_token c = (if c = 42 then Any else Lit c)"

definition glob_tokens :: "ustring \<Rightarrow> token list" where
  "glob_tokens p =
     (case glob_parts p of (a, b, z) \<Rightarrow>
        (if a then [LineStart] else []) @ map glob_token b @ (if z then [LineEnd] else []))"

lemma star_char_render: "star_char c = render_token (glob_token c)"
  by (simp add: star_char_def glob_token_def escape_char_def)

lemma stars_render: "concat (map star_char p) = render (map glob_token p)"
  by (induction p) (simp_all add: render_def star_char_render)

lemma render_simps: "render (ts @ us) = render ts @ render us" "render [] = []" "render [LineStart] = [94]" "render [LineEnd] = [36]"
  by (simp_all add: render_def)

lemma stars_start:
  "1 < length (concat (map star_char p)) \<and> concat (map star_char p) ! 0 = 92 \<and> concat (map star_char p) ! 1 = 124 \<longleftrightarrow>
     p \<noteq> [] \<and> hd p = 124"
proof (cases p)
  case (Cons c q)
  show ?thesis unfolding Cons by (auto simp: star_char_def [of c] escape_char_def [of c])
qed simp

lemma stars_end: "concat (map star_char p) = u @ [92, 124] \<Longrightarrow> p \<noteq> [] \<and> last p = 124"
proof (cases p rule: rev_cases)
  case (snoc q c)
  assume "concat (map star_char p) = u @ [92, 124]"
  then have "last (star_char c) = 124" "star_char c \<noteq> []"
    unfolding snoc by (auto simp: star_char_def [of c] escape_char_def [of c] split: if_splits)
  then show ?thesis unfolding snoc by (auto simp: star_char_def [of c] escape_char_def [of c] split: if_splits)
qed simp

lemma rule_expression_glob:
  assumes "regex_engine canon yarr" "\<not> (startsWith (lit ''/'') p \<and> endsWith (lit ''/'') p)"
  shows "rule_expression yarr p = Some (render (glob_tokens p))"
proof -
  obtain a b z where g: "glob_parts p = (a, b, z)" by (cases "glob_parts p")
  define q where "q = (if a then tl p else p)"
  have a: "a \<longleftrightarrow> p \<noteq> [] \<and> hd p = 124" and z: "z \<longleftrightarrow> q \<noteq> [] \<and> last q = 124" and b: "b = (if z then butlast q else q)"
    using g by (auto simp: glob_parts_def Let_def q_def)
  have lits: "lit ''.*'' = [46, 42]" "lit ''^'' = [94]" "lit ''$'' = [36]" by (simp_all add: lit_def)
  define w where "w = (if a then [94] else []) @ concat (map star_char q)"
  have w: "regex_replace yarr [94, 92, 92, 92, 124] [94] 0 (concat (map star_char p)) = Some w"
    unfolding replace_start [OF assms(1)] stars_start w_def q_def
    by (cases p) (auto simp: a star_char_def [of 124] escape_char_def [of 124])
  have r: "render (glob_tokens p) = (if a then [94] else []) @ concat (map star_char b) @ (if z then [36] else [])"
    by (simp add: glob_tokens_def g render_simps stars_render)
  have "regex_replace yarr [92, 92, 92, 124, 36] [36] 0 w = Some (render (glob_tokens p))"
  proof (cases z)
    case True
    then obtain q' where q': "q = q' @ [124]" using z by (metis append_butlast_last_id)
    have "w = ((if a then [94] else []) @ concat (map star_char q')) @ [92, 124]"
      by (simp add: w_def q' star_char_def [of 124] escape_char_def [of 124])
    then show ?thesis using replace_end(1) [OF assms(1), of "(if a then [94] else []) @ concat (map star_char q')"] True
      unfolding r b by (simp add: q')
  next
    case False
    have "w \<noteq> u @ [92, 124]" for u
    proof
      assume u: "w = u @ [92, 124]"
      then have "\<exists>u'. concat (map star_char q) = u' @ [92, 124]" by (cases a; cases u) (auto simp: w_def)
      then show False using stars_end z False by blast
    qed
    then show ?thesis using replace_end(2) [OF assms(1), of w] False unfolding r b by (simp add: w_def)
  qed
  then show ?thesis unfolding rule_expression_def lits if_not_P [OF assms(2)] using escape_loop_correct [OF assms(1), of "[]" p] replace_star [OF assms(1), of "[]" p] w
    by simp
qed

lemma first_some_None: "first_some rs = None \<longleftrightarrow> (\<forall>r\<in>set rs. r = None)"
  by (induction rs) auto

lemma take_takeWhile: "n \<le> length xs \<Longrightarrow> list_all P (take n xs) \<longleftrightarrow> n \<le> length (takeWhile P xs)"
proof (induction xs arbitrary: n)
  case (Cons x xs)
  then show ?case by (cases n) auto
qed simp

lemma glob_lang_char:
  assumes "c \<noteq> 42" "j \<le> k" "k \<le> length s"
  shows "glob_lang canon (c # p) (drop j (take k s)) \<longleftrightarrow> j < k \<and> canon (s ! j) = canon c \<and> glob_lang canon p (drop (Suc j) (take k s))"
proof -
  have "hd (drop j (take k s)) = s ! j" if "j < k" using that assms(3) by (simp add: hd_drop_conv_nth)
  then show ?thesis using assms by (auto simp: drop_Suc tl_drop)
qed

lemma glob_lang_star:
  assumes "j \<le> k" "k \<le> length s"
  shows "glob_lang canon (42 # p) (drop j (take k s)) \<longleftrightarrow>
    (\<exists>i. j \<le> i \<and> i \<le> k \<and> i \<le> j + length (takeWhile (\<lambda>d. \<not> line_terminator d) (drop j s)) \<and> glob_lang canon p (drop i (take k s)))"
proof -
  define P where "P = (\<lambda>d. \<not> line_terminator d)"
  have "take n (drop j (take k s)) = take n (drop j s)" if "n \<le> k - j" for n
    using that by (simp add: drop_take min_def)
  then have l: "list_all P (take n (drop j (take k s))) \<longleftrightarrow> n \<le> length (takeWhile P (drop j s))" if "n \<le> k - j" for n
    using that assms(2) by (simp add: take_takeWhile)
  have "length (drop j (take k s)) = k - j" using assms by simp
  then have "glob_lang canon (42 # p) (drop j (take k s)) \<longleftrightarrow>
    (\<exists>n. n \<le> k - j \<and> list_all P (take n (drop j (take k s))) \<and> glob_lang canon p (drop (n + j) (take k s)))"
    by (auto simp: list_ex_iff P_def less_Suc_eq_le simp del: upt_Suc)
  also have "\<dots> \<longleftrightarrow> (\<exists>n. n \<le> k - j \<and> n \<le> length (takeWhile P (drop j s)) \<and> glob_lang canon p (drop (n + j) (take k s)))"
    using l by blast
  also have "\<dots> \<longleftrightarrow> (\<exists>i. j \<le> i \<and> i \<le> k \<and> i \<le> j + length (takeWhile P (drop j s)) \<and> glob_lang canon p (drop i (take k s)))"
    (is "?A \<longleftrightarrow> ?B")
  proof
    assume ?A
    then obtain n where "n \<le> k - j" "n \<le> length (takeWhile P (drop j s))" "glob_lang canon p (drop (n + j) (take k s))" by blast
    then show ?B using assms(1) by (intro exI [of _ "n + j"]) simp
  next
    assume ?B
    then obtain i where "j \<le> i" "i \<le> k" "i \<le> j + length (takeWhile P (drop j s))" "glob_lang canon p (drop i (take k s))" by blast
    then show ?A by (intro exI [of _ "i - j"]) (simp, arith)
  qed
  finally show ?thesis by (simp add: P_def)
qed

lemma token_end_glob:
  "j \<le> length s \<Longrightarrow> token_end canon s (map glob_token p @ es) j \<noteq> None \<longleftrightarrow>
    (\<exists>k. j \<le> k \<and> k \<le> length s \<and> glob_lang canon p (drop j (take k s)) \<and> token_end canon s es k \<noteq> None)"
proof (induction p arbitrary: j)
  case Nil
  then show ?case by (auto simp: min_def intro: exI [of _ j] dest: le_antisym)
next
  case (Cons c p)
  define T where "T = (\<lambda>k. token_end canon s es k \<noteq> None)"
  define E where "E = token_end canon s (map glob_token p @ es)"
  have ih: "E i \<noteq> None \<longleftrightarrow> (\<exists>k. i \<le> k \<and> k \<le> length s \<and> glob_lang canon p (drop i (take k s)) \<and> T k)" if "i \<le> length s" for i
    unfolding E_def T_def using Cons.IH [OF that] .
  have "(\<exists>k. j \<le> k \<and> k \<le> length s \<and> glob_lang canon (c # p) (drop j (take k s)) \<and> T k) \<longleftrightarrow>
    token_end canon s (map glob_token (c # p) @ es) j \<noteq> None"
  proof (cases "c = 42")
    case False
    have "token_end canon s (map glob_token (c # p) @ es) j \<noteq> None \<longleftrightarrow> j < length s \<and> canon (s ! j) = canon c \<and> E (Suc j) \<noteq> None"
      using False by (auto simp: glob_token_def E_def)
    also have "\<dots> \<longleftrightarrow> (\<exists>k. j < k \<and> k \<le> length s \<and> canon (s ! j) = canon c \<and> glob_lang canon p (drop (Suc j) (take k s)) \<and> T k)"
      using ih [of "Suc j"] by (auto simp: Suc_le_eq)
    also have "\<dots> \<longleftrightarrow> (\<exists>k. j \<le> k \<and> k \<le> length s \<and> glob_lang canon (c # p) (drop j (take k s)) \<and> T k)"
      using glob_lang_char [OF False, of j _ s canon p] less_imp_le [of j] by blast
    finally show ?thesis by blast
  next
    case True
    define n where "n = length (takeWhile (\<lambda>d. \<not> line_terminator d) (drop j s))"
    have "n \<le> length s - j" using length_takeWhile_le [of _ "drop j s"] by (simp add: n_def)
    then have n: "j + n \<le> length s" using Cons.prems by simp
    have "token_end canon s (map glob_token (c # p) @ es) j \<noteq> None \<longleftrightarrow> (\<exists>i. j \<le> i \<and> i \<le> j + n \<and> E i \<noteq> None)"
      using True by (auto simp: glob_token_def first_some_None n_def E_def less_Suc_eq_le simp del: upt_Suc)
    also have "\<dots> \<longleftrightarrow> (\<exists>i. j \<le> i \<and> i \<le> j + n \<and> (\<exists>k. i \<le> k \<and> k \<le> length s \<and> glob_lang canon p (drop i (take k s)) \<and> T k))"
      using n by (intro ex_cong1 conj_cong refl ih) simp
    also have "\<dots> \<longleftrightarrow> (\<exists>k. j \<le> k \<and> k \<le> length s \<and> (\<exists>i. j \<le> i \<and> i \<le> k \<and> i \<le> j + n \<and> glob_lang canon p (drop i (take k s))) \<and> T k)"
      by (blast intro: order_trans)
    also have "\<dots> \<longleftrightarrow> (\<exists>k. j \<le> k \<and> k \<le> length s \<and> glob_lang canon (c # p) (drop j (take k s)) \<and> T k)"
      unfolding True n_def using glob_lang_star [of j _ s canon p] by blast
    finally show ?thesis by blast
  qed
  then show ?case unfolding T_def by blast
qed

lemma rule_expression_matches:
  assumes "regex_engine canon yarr"
  shows "yarr (render (glob_tokens p)) t 0 \<noteq> None \<longleftrightarrow> glob_matches canon p t"
proof -
  obtain a b z where g: "glob_parts p = (a, b, z)" by (cases "glob_parts p")
  define es where "es = (if z then [LineEnd] else [])"
  have "yarr (render (glob_tokens p)) t 0 \<noteq> None \<longleftrightarrow> token_search canon (glob_tokens p) t 0 \<noteq> None"
    using assms by (simp add: regex_engine_def)
  also have "\<dots> \<longleftrightarrow> (\<exists>j. j \<le> length t \<and> token_end canon t (glob_tokens p) j \<noteq> None)"
    by (auto simp: token_search_def first_some_None less_Suc_eq_le simp del: upt_Suc)
  also have "\<dots> \<longleftrightarrow> (\<exists>j. j \<le> length t \<and> (a \<longrightarrow> j = 0) \<and> token_end canon t (map glob_token b @ es) j \<noteq> None)"
    by (auto simp: glob_tokens_def g es_def)
  also have "\<dots> \<longleftrightarrow> (\<exists>j. j \<le> length t \<and> (a \<longrightarrow> j = 0) \<and>
    (\<exists>k. j \<le> k \<and> k \<le> length t \<and> glob_lang canon b (drop j (take k t)) \<and> token_end canon t es k \<noteq> None))"
    using token_end_glob [of _ t canon b es] by (intro ex_cong1 conj_cong refl) auto
  also have "\<dots> \<longleftrightarrow> glob_matches canon p t"
    by (auto simp: glob_matches_def g es_def intro: order_trans)
  finally show ?thesis .
qed

subsection \<open>An engine for the tokens\<close>

function parse_tokens :: "ustring \<Rightarrow> token list" where
  "parse_tokens re =
     (case re of
        [] \<Rightarrow> []
      | c # r \<Rightarrow>
          if c = 92 \<and> r \<noteq> [] then (if hd r = 87 then NonWord else Lit (hd r)) # parse_tokens (tl r)
          else if c = 46 \<and> r \<noteq> [] then Any # parse_tokens (tl r)
          else (if c = 94 then LineStart else if c = 36 then LineEnd else Lit c) # parse_tokens r)"
  by pat_completeness auto
termination by (relation "measure length") auto

declare parse_tokens.simps [simp del]

lemma parse_tokens_simps [simp]:
  "parse_tokens [] = []"
  "parse_tokens (c # r) =
     (if c = 92 \<and> r \<noteq> [] then (if hd r = 87 then NonWord else Lit (hd r)) # parse_tokens (tl r)
      else if c = 46 \<and> r \<noteq> [] then Any # parse_tokens (tl r)
      else (if c = 94 then LineStart else if c = 36 then LineEnd else Lit c) # parse_tokens r)"
  by (subst parse_tokens.simps, simp)+

lemma parse_render: "parse_tokens (render ts) = ts"
proof (induction ts)
  case (Cons t ts)
  have "word_char 87" by (simp add: word_char_def)
  then show ?case using Cons by (cases t) (auto simp: render_def)
qed (simp add: render_def)

definition reference_engine :: engine where
  "reference_engine re s i = token_search (\<lambda>c. c) (parse_tokens re) s i"

lemma reference_engine_ok: "regex_engine (\<lambda>c. c) reference_engine"
  by (simp add: regex_engine_def reference_engine_def parse_render)

end
