(* ===== verification/Ad_Block_Decisions.thy ===== *)
theory Ad_Block_Decisions
  imports Ad_Block_Rules
begin

text \<open>
  The decisions of the ad blocker: the lists and the cache agree with the meaning of the rules, a
  blocked resource stays blocked, and the filter file keeps the rules.
\<close>

subsection \<open>The lists\<close>

definition store_ok :: "ad_block \<Rightarrow> bool" where
  "store_ok st \<longleftrightarrow> set (ab_whiteList st) \<union> set (ab_blackList st) \<subseteq> dom (ab_heap st) \<and> dom (ab_heap st) \<subseteq> {..< ab_next st}"

definition lists_match :: "engine \<Rightarrow> ad_block \<Rightarrow> nat list \<Rightarrow> ustring option \<Rightarrow> int \<Rightarrow> bool" where
  "lists_match yarr st ps subj t \<longleftrightarrow> (\<exists>p\<in>set ps. \<exists>a. ab_heap st p = Some a \<and> AdPattern_matches yarr a subj t)"

definition blocked :: "engine \<Rightarrow> ad_block \<Rightarrow> ustring option \<Rightarrow> int \<Rightarrow> bool" where
  "blocked yarr st subj t \<longleftrightarrow> \<not> lists_match yarr st (ab_whiteList st) subj t \<and> lists_match yarr st (ab_blackList st) subj t"

lemma matches_any_iff:
  "set ps \<subseteq> dom (ab_heap st) \<Longrightarrow> matches_any yarr (ab_heap st) ps subj t = Some (lists_match yarr st ps subj t)"
  by (induction ps) (auto simp: lists_match_def)

lemma decide_blocked: "store_ok st \<Longrightarrow> decide yarr subj t st = Some (blocked yarr st subj t)"
  by (auto simp: store_ok_def decide_def blocked_def matches_any_iff split: bool.split)

lemma parse_rule_glob:
  assumes "regex_engine canon yarr" "rule_parts pat = (p, types)" "\<not> (startsWith (lit ''/'') p \<and> endsWith (lit ''/'') p)"
  shows "parse_rule yarr pat = Some (if types = 0 then None else Some \<lparr>m_string = pat, m_re = render (glob_tokens p), m_types = types\<rparr>)"
  unfolding parse_rule_def assms(2) by (simp add: rule_expression_glob [OF assms(1,3)])

lemma addPattern_store_ok: "store_ok st \<Longrightarrow> addPattern yarr m pat st = Some (r, st') \<Longrightarrow> store_ok st'"
  by (cases m) (auto simp: addPattern_def store_ok_def less_Suc_eq split: option.splits if_splits dest: subsetD [OF _ domI])

definition fresh_state :: "byte list option \<Rightarrow> ad_block" where
  "fresh_state file =
     \<lparr>ab_heap = Map.empty, ab_next = 1, ab_blackList = [], ab_whiteList = [], ab_cache = None, ad_block_enabled = True,
      filter_file = file, writable = True, did_insert = []\<rparr>"

lemma fresh_store_ok: "store_ok (fresh_state file)"
  by (simp add: store_ok_def fresh_state_def)

definition sample_rule :: ad_pattern where
  "sample_rule = \<lparr>m_string = lit ''ad#image'', m_re = render (glob_tokens (lit ''ad'')), m_types = type_bit ImageResource\<rparr>"

definition sample_ad_block :: ad_block where
  "sample_ad_block = (fresh_state None)\<lparr>ab_heap := [1 \<mapsto> sample_rule], ab_next := 2, ab_blackList := [1]\<rparr>"

definition sample_url :: url where
  "sample_url = \<lparr>url_string = Some (lit ''http://ad/x''), url_protocolIs = (\<lambda>p. p = lit ''http''), url_protocol = lit ''http'',
     url_host = lit ''ad'', url_path = lit ''/x''\<rparr>"

lemma sample_store_ok: "store_ok sample_ad_block"
  by (simp add: store_ok_def sample_ad_block_def fresh_state_def)

lemma sample_rule_parts: "rule_parts (lit ''ad#image'') = (lit ''ad'', type_bit ImageResource)"
  by (simp add: rule_parts_def lit_def split_def option_step_def startsWith_def type_mask_def)

lemma sample_rule_plain: "\<not> (startsWith (lit ''/'') (lit ''ad'') \<and> endsWith (lit ''/'') (lit ''ad''))"
  by (simp add: startsWith_def lit_def)

lemma sample_rule_parses: "parse_rule reference_engine (lit ''ad#image'') = Some (Some sample_rule)"
  unfolding parse_rule_glob [OF reference_engine_ok sample_rule_parts sample_rule_plain]
  by (simp add: sample_rule_def type_bit_def ImageResource_def)

lemma sample_glob: "glob_matches (\<lambda>c. c) (lit ''ad'') (lit ''http://ad/x'')"
proof -
  have "glob_parts (lit ''ad'') = (False, lit ''ad'', False)" by (simp add: glob_parts_def Let_def lit_def)
  then show ?thesis unfolding glob_matches_def
    by simp (rule exI [of _ 7], rule exI [of _ 9], simp add: lit_def)
qed

lemma sample_blocked: "blocked reference_engine sample_ad_block (Some (lit ''http://ad/x'')) t \<longleftrightarrow> t = 1"
proof -
  have "type_bit t AND type_bit ImageResource \<noteq> 0 \<longleftrightarrow> nat t = 1"
    by (auto simp: type_bit_def ImageResource_def bit_simps push_bit_eq_mult intro: bit_eqI)
  then show ?thesis using rule_expression_matches [OF reference_engine_ok, of "lit ''ad''"] sample_glob
    by (auto simp: blocked_def lists_match_def AdPattern_matches_def sample_ad_block_def fresh_state_def sample_rule_def)
qed



subsection \<open>The cache\<close>

definition effective_type :: "int \<Rightarrow> int" where
  "effective_type t = (if t < 0 then DOCUMENT_TYPE else t)"

definition cache_index :: "ustring \<Rightarrow> nat" where
  "cache_index s = unat (ab_hash s) mod CACHE_SIZE"

definition cache_ok :: "engine \<Rightarrow> (ustring \<Rightarrow> int) \<Rightarrow> ad_block \<Rightarrow> cache_entry list \<Rightarrow> bool" where
  "cache_ok yarr tyOf st cache \<longleftrightarrow> length cache = CACHE_SIZE \<and>
     (\<forall>e s. e \<in> set cache \<longrightarrow> target e = Some s \<longrightarrow> block e = Some (blocked yarr st (Some s) (tyOf s)))"

lemma cache_index_less: "cache_index s < CACHE_SIZE"
  by (simp add: cache_index_def CACHE_SIZE_def)

lemma cache_ok_new: "cache_ok yarr tyOf st new_cache"
  by (auto simp: cache_ok_def new_cache_def)

lemma blocked_cache [simp]: "blocked yarr (st\<lparr>ab_cache := c\<rparr>) = blocked yarr st"
  by (simp add: blocked_def lists_match_def fun_eq_iff)

lemma store_ok_cache [simp]: "store_ok (st\<lparr>ab_cache := c\<rparr>) = store_ok st"
  by (simp add: store_ok_def)

lemma shouldBlock_cached:
  assumes "\<not> url_protocolIs u (lit ''data'')" "ad_block_enabled st" "ab_cache st = Some cache" "url_string u = Some s" "store_ok st"
  shows "shouldBlock yarr u t st =
    (let ent = cache ! cache_index s; b = blocked yarr st (Some s) (effective_type t)
     in if target ent \<noteq> Some s then Some (b, st\<lparr>ab_cache := Some (cache[cache_index s := \<lparr>target = Some s, block = Some b\<rparr>])\<rparr>)
        else map_option (\<lambda>b. (b, st)) (block ent))"
  using assms by (simp add: shouldBlock_def loadCache_def Let_def decide_blocked effective_type_def cache_index_def)

fun shouldBlock_all :: "engine \<Rightarrow> (url \<times> int) list \<Rightarrow> ad_block \<Rightarrow> (bool list \<times> ad_block) option" where
  "shouldBlock_all yarr [] st = Some ([], st)"
| "shouldBlock_all yarr ((u, t) # reqs) st =
     Option.bind (shouldBlock yarr u t st) (\<lambda>(b, st).
     map_option (\<lambda>(bs, st). (b # bs, st)) (shouldBlock_all yarr reqs st))"

definition well_typed :: "(ustring \<Rightarrow> int) \<Rightarrow> url \<times> int \<Rightarrow> bool" where
  "well_typed tyOf r \<longleftrightarrow> \<not> url_protocolIs (fst r) (lit ''data'') \<and>
     (\<exists>s. url_string (fst r) = Some s \<and> tyOf s = effective_type (snd r))"

lemma shouldBlock_all_cached:
  assumes "store_ok st" "ad_block_enabled st" "ab_cache st = Some cache" "cache_ok yarr tyOf st cache" "list_all (well_typed tyOf) reqs"
  shows "\<exists>cache'. shouldBlock_all yarr reqs st =
    Some (map (\<lambda>(u, t). blocked yarr st (url_string u) (effective_type t)) reqs, st\<lparr>ab_cache := Some cache'\<rparr>) \<and> cache_ok yarr tyOf st cache'"
  using assms
proof (induction reqs arbitrary: st cache)
  case Nil
  then show ?case by (intro exI [of _ cache]) simp
next
  case (Cons r reqs)
  obtain u t where r: "r = (u, t)" by (cases r)
  obtain s where s: "\<not> url_protocolIs u (lit ''data'')" "url_string u = Some s" "tyOf s = effective_type t"
    using Cons.prems(5) by (auto simp: r well_typed_def)
  define b where "b = blocked yarr st (Some s) (effective_type t)"
  have i: "cache_index s < length cache" using Cons.prems(4) cache_index_less by (simp add: cache_ok_def)
  define cache1 where "cache1 = (if target (cache ! cache_index s) \<noteq> Some s then cache[cache_index s := \<lparr>target = Some s, block = Some b\<rparr>] else cache)"
  have ok: "cache_ok yarr tyOf st cache1"
    using Cons.prems(4) s(3) by (auto simp: cache_ok_def cache1_def b_def dest!: set_update_subset_insert [THEN subsetD])
  have "block (cache ! cache_index s) = Some b" if "target (cache ! cache_index s) = Some s"
    using Cons.prems(4) i s(3) that by (auto simp: cache_ok_def b_def)
  then have one: "shouldBlock yarr u t st = Some (b, st\<lparr>ab_cache := Some cache1\<rparr>)"
    using shouldBlock_cached [OF s(1) Cons.prems(2,3) s(2) Cons.prems(1), of yarr t] Cons.prems(3)
    by (auto simp: Let_def b_def cache1_def)
  have "cache_ok yarr tyOf (st\<lparr>ab_cache := Some cache1\<rparr>) cache1" using ok by (simp add: cache_ok_def)
  from Cons.IH [OF _ _ _ this] Cons.prems show ?case
    by (auto simp: r one b_def s(2) cache_ok_def)
qed

text \<open>
  C36. When every URL is always asked about with the same type, any sequence of requests after the
  cache has been flushed gets the decisions the lists define, whatever collides in the cache: blocked
  exactly when a rule of the black list matches and none of the white list does.
\<close>

theorem should_block_correct:
  assumes "store_ok st" "ad_block_enabled st" "list_all (well_typed tyOf) reqs"
  shows "\<exists>cache. shouldBlock_all yarr reqs (flushCache st) =
    Some (map (\<lambda>(u, t). blocked yarr st (url_string u) (effective_type t)) reqs, st\<lparr>ab_cache := Some cache\<rparr>)"
  using shouldBlock_all_cached [of "flushCache st" new_cache yarr tyOf reqs] assms cache_ok_new
  by (auto simp: flushCache_def)

theorem should_block_correct_witness:
  "\<exists>cache. shouldBlock_all reference_engine [(sample_url, 1), (sample_url, 1)] (flushCache sample_ad_block) =
     Some ([True, True], sample_ad_block\<lparr>ab_cache := Some cache\<rparr>)"
proof -
  have "list_all (well_typed (\<lambda>s. 1)) [(sample_url, 1), (sample_url, 1)]"
    by (simp add: well_typed_def sample_url_def effective_type_def lit_def)
  moreover have "ad_block_enabled sample_ad_block" by (simp add: sample_ad_block_def fresh_state_def)
  ultimately show ?thesis using should_block_correct [OF sample_store_ok, of "\<lambda>s. 1" "[(sample_url, 1), (sample_url, 1)]" reference_engine] sample_blocked
    by (simp add: sample_url_def effective_type_def)
qed

text \<open>
  C37. The cache is keyed by the URL alone: once a URL has been decided for one type, the
  answer for every other type is the one for the first, whatever the rules say.
\<close>

theorem cache_ignores_type:
  assumes "store_ok st" "ad_block_enabled st" "\<not> url_protocolIs u (lit ''data'')" "url_string u = Some s"
  shows "\<exists>st'. shouldBlock_all yarr [(u, t), (u, t')] (flushCache st) =
    Some ([blocked yarr st (Some s) (effective_type t), blocked yarr st (Some s) (effective_type t)], st')"
proof -
  define b where "b = blocked yarr st (Some s) (effective_type t)"
  define cache where "cache = new_cache[cache_index s := \<lparr>target = Some s, block = Some b\<rparr>]"
  have n: "cache_index s < length new_cache" using cache_index_less by (simp add: new_cache_def)
  then have "new_cache ! cache_index s = \<lparr>target = None, block = None\<rparr>" by (simp add: new_cache_def)
  then have "shouldBlock yarr u t (flushCache st) = Some (b, st\<lparr>ab_cache := Some cache\<rparr>)"
    using shouldBlock_cached [OF assms(3), of "flushCache st" new_cache s yarr t] assms
    by (simp add: flushCache_def Let_def b_def cache_def)
  moreover have "shouldBlock yarr u t' (st\<lparr>ab_cache := Some cache\<rparr>) = Some (b, st\<lparr>ab_cache := Some cache\<rparr>)"
    using shouldBlock_cached [OF assms(3), of "st\<lparr>ab_cache := Some cache\<rparr>" cache s yarr t'] assms n
    by (simp add: Let_def cache_def)
  ultimately show ?thesis by (simp add: b_def)
qed

theorem cache_ignores_type_witness:
  "(\<exists>st. shouldBlock_all reference_engine [(sample_url, 1), (sample_url, 3)] (flushCache sample_ad_block) = Some ([True, True], st)) \<and>
   \<not> blocked reference_engine sample_ad_block (Some (lit ''http://ad/x'')) 3"
proof -
  have "ad_block_enabled sample_ad_block" "\<not> url_protocolIs sample_url (lit ''data'')" "url_string sample_url = Some (lit ''http://ad/x'')"
    by (simp_all add: sample_ad_block_def fresh_state_def sample_url_def lit_def)
  then show ?thesis using cache_ignores_type [OF sample_store_ok, of sample_url "lit ''http://ad/x''" reference_engine 1 3] sample_blocked
    by (simp add: effective_type_def)
qed

end
