(* ===== verification/Ad_Block_Filters.thy ===== *)
theory Ad_Block_Filters
  imports Ad_Block_Decisions
begin

text \<open>
  Operations of the ad blocker that go through the filter file: blocking a resource, and writing and
  reading the rules.
\<close>

subsection \<open>Blocking a resource\<close>





lemma rule_lines_total: "set ps \<subseteq> dom heap \<Longrightarrow> \<exists>out. rule_lines lead heap ps = Some out"
  by (induction ps) auto

lemma read_lines_Nil [simp]: "read_lines yarr [] st = Some st"
  by (subst read_lines.simps) (simp add: fgets_def)

definition with_file :: "byte list option \<Rightarrow> cache_entry list option \<Rightarrow> ad_block \<Rightarrow> ad_block" where
  "with_file file cache st = st\<lparr>ab_cache := cache, filter_file := file\<rparr>"

lemma with_file_simps [simp]:
  "ab_heap (with_file f c st) = ab_heap st" "ab_next (with_file f c st) = ab_next st"
  "ab_blackList (with_file f c st) = ab_blackList st" "ab_whiteList (with_file f c st) = ab_whiteList st"
  "ab_cache (with_file f c st) = c" "filter_file (with_file f c st) = f"
  "ad_block_enabled (with_file f c st) = ad_block_enabled st" "store_ok (with_file f c st) = store_ok st"
  by (simp_all add: with_file_def store_ok_def)

lemma loadCache_truncated:
  "loadCache yarr (st\<lparr>filter_file := Some []\<rparr>) =
     Some (with_file (Some []) (Some (case ab_cache st of None \<Rightarrow> new_cache | Some cache \<Rightarrow> cache)) st)"
proof (cases "ab_cache st")
  case (Some cache)
  then have "st\<lparr>filter_file := Some []\<rparr> = with_file (Some []) (Some cache) st" by (simp add: with_file_def)
  then show ?thesis using Some by (simp add: loadCache_def)
qed (simp add: loadCache_def initialize_def fgets_def with_file_def)

definition filter_text :: "byte list \<Rightarrow> byte list \<Rightarrow> byte list" where
  "filter_text white black =
     ascii ''[Adblock]'' @ [10] @ ascii ''!---- Generated by OWB ----!'' @ [10] @
     ascii ''!---- White List ----!'' @ [10] @ white @ ascii ''!---- Black List ----!'' @ [10] @ black"

lemma writeCache_total:
  assumes "store_ok st" "writable st"
  shows "\<exists>white black. rule_lines (ascii ''@@'') (ab_heap st) (ab_whiteList st) = Some white \<and>
    rule_lines [] (ab_heap st) (ab_blackList st) = Some black \<and>
    writeCache yarr st = Some (True, with_file (Some (filter_text white black))
      (Some (case ab_cache st of None \<Rightarrow> new_cache | Some cache \<Rightarrow> cache)) st)"
proof -
  obtain white black where l: "rule_lines (ascii ''@@'') (ab_heap st) (ab_whiteList st) = Some white"
    "rule_lines [] (ab_heap st) (ab_blackList st) = Some black"
    using assms rule_lines_total [of _ "ab_heap st"] by (metis Un_subset_iff store_ok_def)
  then show ?thesis using assms(2)
    by (simp add: writeCache_def loadCache_truncated filter_text_def) (simp add: with_file_def)
qed


lemma blocked_with_file [simp]: "blocked yarr (with_file f c st) = blocked yarr st"
  by (simp add: blocked_def lists_match_def fun_eq_iff)


subsection \<open>Writing and reading the rules\<close>

definition storable :: "ustring \<Rightarrow> bool" where
  "storable s \<longleftrightarrow> list_all (\<lambda>c. c \<le> 255 \<and> c \<noteq> 0 \<and> c \<noteq> 10) s \<and> length s \<le> 508"

definition black_storable :: "ustring \<Rightarrow> bool" where
  "black_storable s \<longleftrightarrow> storable s \<and> s \<noteq> [] \<and> \<not> startsWith (lit ''@@'') s \<and> \<not> startsWith (lit ''!'') s \<and> \<not> startsWith (lit ''#'') s"

definition loaded :: "ad_block \<Rightarrow> ad_pattern list \<Rightarrow> ad_pattern list \<Rightarrow> bool" where
  "loaded st ws bs \<longleftrightarrow> store_ok st \<and> map (ab_heap st) (ab_whiteList st) = map Some ws \<and> map (ab_heap st) (ab_blackList st) = map Some bs"

lemma fgets_line:
  assumes "10 \<notin> set l" "length l \<le> 510"
  shows "fgets (l @ 10 # rest) = Some (l @ [10], rest)"
proof -
  have t: "take 511 (l @ 10 # rest) = l @ 10 # take (510 - length l) rest"
    using assms(2) by (simp add: take_Cons' Suc_diff_le)
  have "takeWhile (\<lambda>b. b \<noteq> 10) (l @ 10 # take (510 - length l) rest) = l"
    using assms(1) by (subst takeWhile_append2) auto
  then show ?thesis unfolding fgets_def t Let_def by simp
qed

lemma byte_char_byte: "(ucast (ucast (b :: byte) :: uchar) :: byte) = b"
  by (rule bit_word_eqI) (auto simp: bit_ucast_iff)

lemma char_byte_char: "c \<le> 255 \<Longrightarrow> ucast (ucast (c :: uchar) :: byte) = c"
proof -
  assume "c \<le> 255"
  then have "c < 2 ^ 8" by (simp add: word_less_nat_alt word_le_nat_alt)
  then have "take_bit 8 c = c" unfolding take_bit_eq_mod by (simp add: mod_word_less)
  moreover have "ucast (ucast c :: byte) = take_bit 8 c" by (rule bit_word_eqI) (auto simp: bit_simps)
  ultimately show ?thesis by simp
qed

lemma read_lines_line:
  assumes "10 \<notin> set l" "0 \<notin> set l" "length l \<le> 510"
  shows "read_lines yarr (l @ 10 # rest) st = Option.bind (read_line yarr (map ucast l) st) (read_lines yarr rest)"
proof -
  have "takeWhile (\<lambda>b. b \<noteq> 0) (l @ [10]) = l @ [10]" using assms(2) by (auto simp: takeWhile_eq_all_conv)
  moreover have "ucast b \<noteq> (10 :: uchar)" if "b \<in> set l" for b :: byte
    using that assms(1) byte_char_byte [of b] by auto
  ultimately have "line_string (l @ [10]) = map ucast l" by (simp add: line_string_def filter_id_conv)
  then show ?thesis by (subst read_lines.simps) (simp add: fgets_line [OF assms(1,3)])
qed

lemma storable_latin1:
  assumes "storable s"
  shows "map ucast (latin1 s) = s" "0 \<notin> set (latin1 s)" "10 \<notin> set (latin1 s)" "takeWhile (\<lambda>b. b \<noteq> 0) (latin1 s) = latin1 s" "length (latin1 s) \<le> 508"
proof -
  have c: "c \<le> 255" "c \<noteq> 0" "c \<noteq> 10" "(ucast (ucast c :: byte) :: uchar) = c" if "c \<in> set s" for c
    using assms that by (auto simp: storable_def list_all_iff char_byte_char)
  then have "ucast c \<noteq> (0 :: byte)" "ucast c \<noteq> (10 :: byte)" if "c \<in> set s" for c
    using c(2,3,4) [OF that] by auto
  then show z: "0 \<notin> set (latin1 s)" "10 \<notin> set (latin1 s)" using c(1) by (auto simp: latin1_def)
  show "map ucast (latin1 s) = s" using c by (simp add: latin1_def map_idI)
  show "takeWhile (\<lambda>b. b \<noteq> 0) (latin1 s) = latin1 s" using z(1) by (auto simp: takeWhile_eq_all_conv)
  show "length (latin1 s) \<le> 508" using assms by (simp add: latin1_def storable_def)
qed

lemma add_shown_loaded:
  assumes "loaded st ws bs" "parse_rule yarr pat = Some (Some a)"
  shows "\<exists>st'. add_shown yarr WhiteList pat t st = Some st' \<and> loaded st' (ws @ [a]) bs"
    and "\<exists>st'. add_shown yarr BlackList pat t st = Some st' \<and> loaded st' ws (bs @ [a])"
proof -
  have s: "store_ok st" using assms(1) by (simp add: loaded_def)
  then have "ab_next st \<notin> set (ab_whiteList st)" "ab_next st \<notin> set (ab_blackList st)" by (auto simp: store_ok_def)
  then have "map ((ab_heap st)(ab_next st \<mapsto> a)) (ab_whiteList st) = map Some ws" "map ((ab_heap st)(ab_next st \<mapsto> a)) (ab_blackList st) = map Some bs"
    using assms(1) by (simp_all add: loaded_def map_fun_upd)
  moreover have "store_ok (st\<lparr>ab_heap := (ab_heap st)(ab_next st \<mapsto> a), ab_next := Suc (ab_next st), ab_whiteList := ab_whiteList st @ [ab_next st], did_insert := x\<rparr>)"
    "store_ok (st\<lparr>ab_heap := (ab_heap st)(ab_next st \<mapsto> a), ab_next := Suc (ab_next st), ab_blackList := ab_blackList st @ [ab_next st], did_insert := x\<rparr>)" for x
    using s by (auto simp: store_ok_def less_Suc_eq split: if_splits dest: subsetD [OF _ domI])
  ultimately show "\<exists>st'. add_shown yarr WhiteList pat t st = Some st' \<and> loaded st' (ws @ [a]) bs"
    "\<exists>st'. add_shown yarr BlackList pat t st = Some st' \<and> loaded st' ws (bs @ [a])"
    using assms(2) by (simp_all add: add_shown_def addPattern_def loaded_def del: fun_upd_apply) simp_all
qed

definition rule_line :: "byte list \<Rightarrow> ad_pattern \<Rightarrow> byte list" where
  "rule_line lead a = lead @ latin1 (m_string a) @ [10]"

lemma rule_lines_concat:
  assumes "map heap ps = map Some as" "\<And>a. a \<in> set as \<Longrightarrow> storable (m_string a)"
  shows "rule_lines lead heap ps = Some (concat (map (rule_line lead) as))"
  using assms
proof (induction ps arbitrary: as)
  case (Cons p ps)
  then obtain a as' where "as = a # as'" by (cases as) auto
  with Cons show ?case by (simp add: rule_line_def storable_latin1(4))
qed simp

lemma read_white:
  assumes "loaded st ws bs" "\<And>a. a \<in> set as \<Longrightarrow> storable (m_string a) \<and> parse_rule yarr (m_string a) = Some (Some a)"
  shows "\<exists>st'. loaded st' (ws @ as) bs \<and>
    read_lines yarr (concat (map (rule_line (ascii ''@@'')) as) @ rest) st = read_lines yarr rest st'"
  using assms
proof (induction as arbitrary: st ws)
  case (Cons a as)
  have a: "storable (m_string a)" "parse_rule yarr (m_string a) = Some (Some a)" using Cons.prems(2) by simp_all
  obtain st1 where st1: "add_shown yarr WhiteList (m_string a) 1 st = Some st1" "loaded st1 (ws @ [a]) bs"
    using add_shown_loaded(1) [OF Cons.prems(1) a(2)] by blast
  have "read_line yarr (map ucast (ascii ''@@'' @ latin1 (m_string a))) st = Some st1"
    using st1(1) storable_latin1(1) [OF a(1)] by (simp add: read_line_def ascii_def lit_def startsWith_def)
  then have "read_lines yarr ((ascii ''@@'' @ latin1 (m_string a)) @ 10 # rest') st = read_lines yarr rest' st1" for rest'
    using storable_latin1 [OF a(1)] by (subst read_lines_line) (auto simp: ascii_def)
  moreover obtain st' where "loaded st' ((ws @ [a]) @ as) bs"
    "read_lines yarr (concat (map (rule_line (ascii ''@@'')) as) @ rest) st1 = read_lines yarr rest st'"
    using Cons.IH [OF st1(2)] Cons.prems(2) by auto
  ultimately show ?case by (auto simp: rule_line_def [of _ a])
qed auto

lemma read_black:
  assumes "loaded st ws bs" "\<And>a. a \<in> set as \<Longrightarrow> black_storable (m_string a) \<and> parse_rule yarr (m_string a) = Some (Some a)"
  shows "\<exists>st'. loaded st' ws (bs @ as) \<and> read_lines yarr (concat (map (rule_line []) as)) st = Some st'"
  using assms
proof (induction as arbitrary: st bs)
  case (Cons a as)
  have a: "black_storable (m_string a)" "storable (m_string a)" "parse_rule yarr (m_string a) = Some (Some a)"
    using Cons.prems(2) by (simp_all add: black_storable_def)
  obtain st1 where st1: "add_shown yarr BlackList (m_string a) 0 st = Some st1" "loaded st1 ws (bs @ [a])"
    using add_shown_loaded(2) [OF Cons.prems(1) a(3)] by blast
  have "read_line yarr (map ucast (latin1 (m_string a))) st = Some st1"
    using st1(1) a(1) storable_latin1(1) [OF a(2)] by (simp add: read_line_def black_storable_def)
  then have "read_lines yarr (latin1 (m_string a) @ 10 # rest') st = read_lines yarr rest' st1" for rest'
    using storable_latin1 [OF a(2)] by (subst read_lines_line) auto
  moreover obtain st' where "loaded st' ws ((bs @ [a]) @ as)" "read_lines yarr (concat (map (rule_line []) as)) st1 = Some st'"
    using Cons.IH [OF st1(2)] Cons.prems(2) by auto
  ultimately show ?case by (auto simp: rule_line_def [of _ a])
qed auto

lemma read_comment:
  assumes "10 \<notin> set l" "0 \<notin> set l" "length l \<le> 510" "l \<noteq> []" "hd l = 33"
  shows "read_lines yarr (l @ 10 # rest) st = read_lines yarr rest st"
proof -
  obtain l' where "l = 33 # l'" using assms(4,5) by (cases l) auto
  then have "read_line yarr (map ucast l) st = Some st" by (simp add: read_line_def startsWith_def lit_def)
  then show ?thesis using read_lines_line [OF assms(1-3)] by simp
qed

lemma load_filter_text:
  assumes "\<And>a. a \<in> set ws \<Longrightarrow> storable (m_string a) \<and> parse_rule yarr (m_string a) = Some (Some a)"
    "\<And>a. a \<in> set bs \<Longrightarrow> black_storable (m_string a) \<and> parse_rule yarr (m_string a) = Some (Some a)"
  shows "\<exists>st. loadCache yarr (fresh_state (Some (filter_text (concat (map (rule_line (ascii ''@@'')) ws)) (concat (map (rule_line []) bs))))) = Some st \<and>
    map (ab_heap st) (ab_whiteList st) = map Some ws \<and> map (ab_heap st) (ab_blackList st) = map Some bs"
proof -
  define contents where "contents = filter_text (concat (map (rule_line (ascii ''@@'')) ws)) (concat (map (rule_line []) bs))"
  define black where "black = ascii ''!---- Black List ----!'' @ 10 # concat (map (rule_line []) bs)"
  define rest where "rest = ascii ''!---- Generated by OWB ----!'' @ 10 # ascii ''!---- White List ----!'' @ 10 #
    concat (map (rule_line (ascii ''@@'')) ws) @ black"
  have "fgets (ascii ''[Adblock]'' @ 10 # rest) = Some (ascii ''[Adblock]'' @ [10], rest)" by (rule fgets_line) (simp_all add: ascii_def)
  then have f: "fgets contents = Some (ascii ''[Adblock]'' @ [10], rest)" by (simp add: contents_def filter_text_def rest_def black_def)
  have c: "read_lines yarr (ascii ''!---- Generated by OWB ----!'' @ 10 # r) st = read_lines yarr r st"
    "read_lines yarr (ascii ''!---- White List ----!'' @ 10 # r) st = read_lines yarr r st"
    "read_lines yarr (ascii ''!---- Black List ----!'' @ 10 # r) st = read_lines yarr r st" for r st
    by (rule read_comment; simp add: ascii_def)+
  have "loaded (fresh_state (Some contents)) [] []" using fresh_store_ok by (simp add: loaded_def fresh_state_def)
  then obtain st1 where st1: "loaded st1 ws []" "read_lines yarr rest (fresh_state (Some contents)) = read_lines yarr black st1"
    using read_white [of "fresh_state (Some contents)" "[]" "[]" ws yarr black] assms(1) by (auto simp: rest_def c)
  obtain st2 where "loaded st2 ws bs" "read_lines yarr black st1 = Some st2"
    using read_black [OF st1(1), of bs yarr] assms(2) by (auto simp: black_def c)
  then have "loadCache yarr (fresh_state (Some contents)) = Some (st2\<lparr>ab_cache := Some new_cache\<rparr>)"
    using st1(2) f by (simp add: loadCache_def initialize_def fresh_state_def)
  then show ?thesis using \<open>loaded st2 ws bs\<close> by (simp add: loaded_def contents_def)
qed

text \<open>
  C39. The filter file keeps the rules: what \<^verbatim>\<open>writeCache\<close> writes, the next start reads back into the same white
  and black lists, in order, for rules of Latin-1 characters without line breaks that fit the line
  buffer, where no rule of the black list looks like a comment or an exception.
\<close>

theorem write_read_rules:
  assumes "store_ok st" "writable st" "map (ab_heap st) (ab_whiteList st) = map Some ws" "map (ab_heap st) (ab_blackList st) = map Some bs"
    "\<forall>a\<in>set ws. storable (m_string a) \<and> parse_rule yarr (m_string a) = Some (Some a)"
    "\<forall>a\<in>set bs. black_storable (m_string a) \<and> parse_rule yarr (m_string a) = Some (Some a)"
  shows "\<exists>st1 st2. writeCache yarr st = Some (True, st1) \<and> loadCache yarr (fresh_state (filter_file st1)) = Some st2 \<and>
    map (ab_heap st2) (ab_whiteList st2) = map Some ws \<and> map (ab_heap st2) (ab_blackList st2) = map Some bs"
proof -
  have "rule_lines (ascii ''@@'') (ab_heap st) (ab_whiteList st) = Some (concat (map (rule_line (ascii ''@@'')) ws))"
    "rule_lines [] (ab_heap st) (ab_blackList st) = Some (concat (map (rule_line []) bs))"
    using assms(3-6) by (auto intro!: rule_lines_concat simp: black_storable_def)
  then show ?thesis using writeCache_total [OF assms(1,2), of yarr] load_filter_text [of ws yarr bs] assms(5,6) by auto
qed

text \<open>
  C40. Writing before the rules have been loaded loses them: the file is truncated first and only then read, so
  whatever rules it held, what is left is the headings, and the next start has no rules.
\<close>

theorem write_before_load_loses_rules:
  "\<exists>st1 st2. writeCache yarr (fresh_state (Some contents)) = Some (True, st1) \<and> filter_file st1 = Some (filter_text [] []) \<and>
    loadCache yarr (fresh_state (filter_file st1)) = Some st2 \<and> ab_whiteList st2 = [] \<and> ab_blackList st2 = []"
proof -
  have "writable (fresh_state (Some contents))" "ab_whiteList (fresh_state (Some contents)) = []" "ab_blackList (fresh_state (Some contents)) = []"
    by (simp_all add: fresh_state_def)
  then show ?thesis using writeCache_total [OF fresh_store_ok, of "Some contents" yarr] load_filter_text [of "[]" yarr "[]"] by auto
qed

subsection \<open>Examples\<close>


theorem write_read_rules_witness:
  "\<exists>st1 st2. writeCache reference_engine sample_ad_block = Some (True, st1) \<and>
     loadCache reference_engine (fresh_state (filter_file st1)) = Some st2 \<and>
     map (ab_heap st2) (ab_blackList st2) = [Some sample_rule]"
proof -
  have "black_storable (m_string sample_rule)"
    by (simp add: sample_rule_def black_storable_def storable_def lit_def startsWith_def)
  moreover have "parse_rule reference_engine (m_string sample_rule) = Some (Some sample_rule)"
    using sample_rule_parses by (simp add: sample_rule_def)
  ultimately show ?thesis using write_read_rules [of sample_ad_block "[]" "[sample_rule]" reference_engine] sample_store_ok
    by (auto simp: sample_ad_block_def fresh_state_def)
qed

end
