(* ===== verification/Spec2Isabelle.thy ===== *)
theory Spec2Isabelle
  imports Content_Compilation Region_Algebra Back_Forward_History Base64_Round_Trip LEB_Decoder Ad_Block_Filters
begin

text \<open>
  A verification development for the Odyssey Web Browser, a WebKit browser with a MUI user
  interface.  It covers parts of the engine that are algorithmic and self-contained, and parts that
  are Odyssey's own.  Paths are relative to src/Source.

  \<^bold>\<open>The content blocker\<close> (WebCore/contentextensions).  URL filters become nondeterministic automata;
  NFAToDFA makes them deterministic, DFAMinimizer minimizes them, DFACombiner merges small ones,
  DFABytecodeCompiler turns each into bytecode, the bytecode of several automata is concatenated, and
  DFABytecodeInterpreter runs it on every URL.

  \<^item> Mutable_Range_List: MutableRangeList.h, a chain of ranges inside a vector; extend merges a
    list of ranges into it with a while loop.  A merge of sorted lists is its specification.
  \<^item> Content_NFA: ImmutableNFA.h and ImmutableNFANodeBuilder.h.  The iteration order of hash sets is
    an argument that has to enumerate the set.
  \<^item> Content_DFA: DFA.h, DFANode.h, DFANode.cpp, with well-formed automata and the actions they
    select for a URL.
  \<^item> NFA_To_DFA, NFA_Closures, NFA_Conversion: NFAToDFA.cpp.  Epsilon closures and the worklist are
    while loops; they end because the closure and the table of node sets are finite.  An invariant of
    the worklist gives the simulation of the nondeterministic automaton.
  \<^item> DFA_Combiner, DFA_Merge, DFA_Combination: DFACombiner.cpp.  The product of two automata has
    nodes named by 64-bit signatures; an invariant of its worklist relates them to pairs of nodes.
  \<^item> DFA_Minimizer: DFAMinimizer.cpp.  Partition_Refinement proves marking and splitting for one
    partition, Graph_Refinement for the partitions of nodes and transitions refined against each
    other, Transition_Layout and Graph_Construction the counting sorts that set them up, Node_Classes
    that the final sets are the nodes that agree on every text, DFA_Minimization the relocation.
    Node_Spans shows that converted automata have the separate nodes it relies on, DFA_Merge that
    merged ones do.  Uninitialized memory and the order of a hash map are arguments.
  \<^item> DFA_Bytecode, DFA_Bytecode_Compiler: the instruction encoding, the plan of jump tables, ranges
    and fallback of a node, the emission and the linker.  A failed linker assertion is None.
  \<^item> DFA_Bytecode_Interpreter: the interpreter as a step function and a partial function over it; a
    read outside the bytecode or the URL is an error value.
  \<^item> Transition_Plan, Bytecode_Layout, Jump_Distances, Bytecode_Execution, Bytecode_Runs,
    Content_Blocker, Bytecode_Size: the plan agrees with the transitions; the emitted bytes are an
    assembly of symbolic code; every jump fits the width chosen from the worst-case offsets; each
    instruction and then each node block runs as the automaton steps; the size is linear.
  \<^item> Content_Pipeline, NFA_Sample: conversion followed by compilation, and an automaton for the examples.
  \<^item> Content_Compiler, Content_Compilation: compileToBytecode of ContentExtensionCompiler.cpp, which
    composes all of these.  compiled_automata lists the automata it compiles; the main theorem asks of
    them that the terminator's edges survive, which terminator_edge_lost shows is needed.

  \<^bold>\<open>Regions\<close> (WebCore/platform/graphics).  Int_Rect models IntRect with 32-bit sums, Region_Shape and
  Region model Region.cpp: a shape is a vector of spans with offsets into a vector of segments.
  Region_Rows relates it to rows of segments, Region_Points, Region_Compare and Region_Bounds prove the
  merge, the comparison and the bounds for rows, Region_Sets and Region_Rects lift them to regions.
  Region_Algebra states the properties: regions are sets of pixels.  The locale pixel_sets is the
  contract of the operations, interpreted by the model.  Coordinates stay below 2^30 in magnitude,
  because the code compares them by subtracting.

  \<^bold>\<open>Session history\<close> (WebKitLegacy/mui/BackForwardList.cpp).  Back_Forward_List has every operation
  with 32-bit indices and UINT_MAX as marker, Back_Forward_History the reachable states as an inductive
  relation and the refinement to a list with a current position.  Items are their addresses; what the
  page cache is told is part of the state.

  \<^bold>\<open>The ad blocker\<close> (WebCore/loader/AdBlock.cpp).  Ad_Block has the rules, the lists over a heap of
  patterns, the cache of decisions, the filter file and the operations of the user interface.
  Ad_Block_Rules gives rules their meaning: stars and bars.  Ad_Block_Decisions and Ad_Block_Filters prove
  the decisions, the effect of blocking a resource and the round trip through the file.  The loops
  over matches are partial functions, because with an arbitrary engine they need not end;
  regex_engine is what is assumed of the engine, and a small engine shows that it can be met.

  \<^bold>\<open>Encodings\<close> (WTF/wtf).  Base64 and Base64_Round_Trip: text/Base64.cpp with both alphabets; the locale
  base64_alphabet is what the encoder and the decoder need of their tables, interpreted for both.
  The bound encodable keeps the int that counts characters for line feeds from overflowing.
  LEB_Decoder: LEBDecoder.h for every word length.

  \<^bold>\<open>Conventions\<close>.  Prelude has the shared types and lemmas.  Machine integers that wrap are words, or
  integers reduced by u32 and i32; vectors are lists; None stands for an access outside a vector, a
  failed assertion or a loop that does not end, and totality is proved where the code promises it.
  Loops are while_option or functions with a termination proof, without fuel.

  \<^bold>\<open>Findings\<close>.  Some properties show what the code does where it does not do what it means to:
  terminator_edge_lost, contains_empty_region_denied, go_back_empty_breaks, cache_ignores_type and
  write_before_load_loses_rules.

  \<^bold>\<open>Not modelled\<close>.  In the content blocker: URLFilterParser, Term, CombinedURLFilters and
  ContentExtensionParser, which build the nondeterministic automata, drive the Yarr parser and JSON;
  the serialization of the actions in ContentExtensionCompiler.cpp works on the rules they produce.
  The rest of the browser: JavaScriptCore, the DOM, style, layout, rendering and network of WebCore,
  WebKit, WebDriver, WebInspectorUI, ThirdParty, bmalloc, and the MUI classes of WebKitLegacy, which
  are operating system calls and callbacks of the user interface.
\<close>

subsection \<open>A small automaton\<close>

definition sample_dfa :: dfa where
  "sample_dfa =
     \<lparr>nodes =
        [\<lparr>m_actionsStart = 0, m_transitionsStart = 0, m_actionsLength = 0,
          m_transitionsLength = 2, m_flags = 0\<rparr>,
         \<lparr>m_actionsStart = 0, m_transitionsStart = 2, m_actionsLength = 1,
          m_transitionsLength = 2, m_flags = 0\<rparr>,
         \<lparr>m_actionsStart = 1, m_transitionsStart = 4, m_actionsLength = 1,
          m_transitionsLength = 0, m_flags = 0\<rparr>],
      dfa_actions = [7, 8589934601],
      transitionRanges =
        [\<lparr>crFirst = 65, crLast = 65\<rparr>, \<lparr>crFirst = 97, crLast = 97\<rparr>,
         \<lparr>crFirst = 0, crLast = 0\<rparr>, \<lparr>crFirst = 1, crLast = 127\<rparr>],
      transitionDestinations = [1, 1, 2, 0],
      root = 0\<rparr>"

lemma sample_transitions:
  "node_transitions sample_dfa (nodes sample_dfa ! 0) =
     [(\<lparr>crFirst = 65, crLast = 65\<rparr>, 1), (\<lparr>crFirst = 97, crLast = 97\<rparr>, 1)]"
  "node_transitions sample_dfa (nodes sample_dfa ! 1) =
     [(\<lparr>crFirst = 0, crLast = 0\<rparr>, 2), (\<lparr>crFirst = 1, crLast = 127\<rparr>, 0)]"
  "node_transitions sample_dfa (nodes sample_dfa ! 2) = []"
  by (simp_all add: sample_dfa_def node_transitions_def numeral_eq_Suc)

lemma sample_nodes:
  "length (nodes sample_dfa) = 3" "root sample_dfa = 0"
  "length (dfa_actions sample_dfa) = 2" "length (transitionRanges sample_dfa) = 4"
  "length (transitionDestinations sample_dfa) = 4"
  by (simp_all add: sample_dfa_def)

lemma sample_index: "i < 3 \<Longrightarrow> i = 0 \<or> i = 1 \<or> i = (2::nat)"
  by auto

lemma sample_live: "live sample_dfa i \<longleftrightarrow> i < 3"
proof -
  have "\<not> isKilled (nodes sample_dfa ! i)" if "i < 3"
    using sample_index [OF that]
    by (elim disjE) (simp_all add: sample_dfa_def isKilled_def IsKilled_def)
  then show ?thesis by (auto simp: live_def sample_nodes)
qed

lemma sample_wf_node: "i < 3 \<Longrightarrow> wf_node sample_dfa (nodes sample_dfa ! i)"
  by (drule sample_index, elim disjE)
     (simp_all add: wf_node_def sample_transitions sample_transitions [simplified] sample_live
        sample_nodes sorted_transitions_def, simp_all add: sample_dfa_def)

lemma sample_wf: "wf_dfa sample_dfa"
proof -
  have "set (nodes sample_dfa) = {nodes sample_dfa ! i |i. i < 3}"
    by (auto simp: set_conv_nth sample_nodes)
  then show ?thesis
    using sample_wf_node by (auto simp: wf_dfa_def sample_live sample_nodes u32_max_def)
qed

lemma sample_node_actions:
  "node_actions sample_dfa (nodes sample_dfa ! 0) = []"
  "node_actions sample_dfa (nodes sample_dfa ! 1) = [7]"
  "node_actions sample_dfa (nodes sample_dfa ! 2) = [8589934601]"
  by (simp_all add: sample_dfa_def node_actions_def)

lemma sample_next:
  "dfa_next sample_dfa 0 c = (if c = 65 \<or> c = 97 then Some 1 else None)"
  "dfa_next sample_dfa 1 c = (if c = 0 then Some 2 else if 1 \<le> c \<and> c \<le> 127 then Some 0 else None)"
  "dfa_next sample_dfa 2 c = None"
  by (auto simp: dfa_next_def sample_transitions sample_transitions [simplified] in_range_def)

lemma sample_fallback:
  "canUseFallbackTransition sample_dfa (nodes sample_dfa ! 0) = False"
  "bestFallbackTarget sample_dfa (nodes sample_dfa ! 1) = Some 0"
  "canUseFallbackTransition sample_dfa (nodes sample_dfa ! 2) = False"
  by (simp_all add: canUseFallbackTransition_def bestFallbackTarget_def sample_transitions
      sample_transitions [simplified])

lemma sample_blocker: "blocker_dfa sample_dfa" and sample_terminator: "keeps_terminator sample_dfa"
proof -
  have next0: "dfa_next sample_dfa i 0 = Some t \<longleftrightarrow> i = 1 \<and> t = 2" if "i < 3" for i t
    using sample_index [OF that] by (elim disjE) (auto simp: sample_next sample_next [simplified])
  have "end_safe sample_dfa"
    using sample_fallback(3) by (auto simp: end_safe_def sample_live next0)
  moreover have "\<forall>a \<in> set (dfa_actions sample_dfa). wf_action a"
    by (simp add: sample_dfa_def wf_action_def)
  ultimately show "blocker_dfa sample_dfa" using sample_wf by (intro blocker_dfaI)
  show "keeps_terminator sample_dfa"
    using sample_fallback(2) by (auto simp: keeps_terminator_def sample_live next0)
qed

lemma sample_size: "size_bound sample_dfa = 2721"
  by (simp add: size_bound_def sample_dfa_def numeral_3_eq_3)

subsection \<open>The content blocker's bytecode\<close>



text \<open>
  C6.  On the compiled file \<^verbatim>\<open>actionsMatchingEverything\<close> returns the accepted actions without flags
  of the first automaton's root: together with \<^verbatim>\<open>interpret\<close> no root action is lost or returned twice.
\<close>

theorem actions_matching_everything_correct:
  assumes "blocker_dfa d" "2 * size_bound d < 2147483647" "compile d [] = Some bytes"
    and "length (bytes @ rest) < 2147483647"
  shows "actionsMatchingEverything (bytes @ rest) topActs =
    Some (Returned {a \<in> set (node_actions d (nodes d ! root d)).
      a AND ActionFlagMask = 0 \<and> accepted topActs 0 a})"
proof -
  have wf: "wf_dfa d" "live d (root d)" using assms(1) by (auto simp: blocker_dfa_def wf_dfa_def)
  then have "2 * worst_case_size d < 2147483647" using worst_case_size_bound assms(2) by fastforce
  then obtain final where "compiled_at (bytes @ rest) d 0 (length bytes) final"
    using compile_compiled_at [OF wf(1) _ assms(3), of "[]" rest] assms(4) by auto
  from matching_everything_first [OF assms(1) this assms(4), of topActs 0] show ?thesis
    by (simp add: collect_def root_action_list_def flagged_def conj_ac Collect_conj_eq Int_ac)
qed

lemma sample_compiles:
  obtains bytes where "compile sample_dfa [] = Some bytes" "length bytes \<le> 2721"
proof -
  have "worst_case_size sample_dfa \<le> 2721"
    using worst_case_size_bound [of sample_dfa] sample_size by (simp add: sample_live sample_nodes)
  then show ?thesis
    using that by (auto intro: compile_succeeds [OF sample_wf])
qed

theorem actions_matching_everything_correct_witness:
  "\<exists>bytes. compile sample_dfa [] = Some bytes \<and>
     actionsMatchingEverything (bytes @ [0, 1]) None = Some (Returned {})"
proof -
  obtain bytes where b: "compile sample_dfa [] = Some bytes" "length bytes \<le> 2721"
    by (rule sample_compiles)
  have "2 * size_bound sample_dfa < 2147483647" by (simp add: sample_size)
  from actions_matching_everything_correct [OF sample_blocker this b(1), of "[0, 1]" None] b
  show ?thesis by (simp add: sample_nodes sample_node_actions)
qed

text \<open>
  C5.  Compilation of a well-formed automaton never hits one of the linker's release assertions:
  every jump fits the width chosen for it before the positions of the nodes were known, and the
  code takes at most 901 bytes per node, 7 per action and 4 for the header.
\<close>

theorem compile_total:
  assumes "wf_dfa d" "2 * size_bound d < 2147483647"
  shows "\<exists>bytes. compile d [] = Some bytes \<and> 4 \<le> length bytes \<and>
    length bytes \<le> 4 + (\<Sum>i < length (nodes d). 7 * m_actionsLength (nodes d ! i) + 901)"
proof -
  have w: "worst_case_size d \<le> size_bound d"
    using worst_case_size_bound assms(1) by (simp add: wf_dfa_def)
  then have "2 * worst_case_size d < 2147483647" using assms(2) by linarith
  then obtain bytes where "compile d [] = Some bytes" "length bytes \<le> worst_case_size d" "4 \<le> length bytes"
    by (rule compile_succeeds [OF assms(1)])
  then show ?thesis
    using w unfolding size_bound_def by (intro exI [of _ bytes] conjI) (assumption | rule order_trans)+
qed

theorem compile_total_witness:
  "\<exists>bytes. compile sample_dfa [] = Some bytes \<and> 4 \<le> length bytes"
proof -
  have "2 * size_bound sample_dfa < 2147483647" by (simp add: sample_size)
  from compile_total [OF sample_wf this] show ?thesis by blast
qed

subsection \<open>The lost terminator\<close>

text \<open>Rules that block \<open>^x.\<close> and \<open>^x$\<close> with the same action: the two accepting nodes are one.\<close>

definition lossy_dfa :: dfa where
  "lossy_dfa =
     \<lparr>nodes =
        [\<lparr>m_actionsStart = 0, m_transitionsStart = 0, m_actionsLength = 0,
          m_transitionsLength = 1, m_flags = 0\<rparr>,
         \<lparr>m_actionsStart = 0, m_transitionsStart = 1, m_actionsLength = 0,
          m_transitionsLength = 2, m_flags = 0\<rparr>,
         \<lparr>m_actionsStart = 0, m_transitionsStart = 3, m_actionsLength = 1,
          m_transitionsLength = 0, m_flags = 0\<rparr>],
      dfa_actions = [7],
      transitionRanges =
        [\<lparr>crFirst = 120, crLast = 120\<rparr>, \<lparr>crFirst = 0, crLast = 0\<rparr>, \<lparr>crFirst = 1, crLast = 127\<rparr>],
      transitionDestinations = [1, 2, 2],
      root = 0\<rparr>"

lemma lossy_transitions:
  "node_transitions lossy_dfa (nodes lossy_dfa ! 0) = [(\<lparr>crFirst = 120, crLast = 120\<rparr>, 1)]"
  "node_transitions lossy_dfa (nodes lossy_dfa ! 1) =
     [(\<lparr>crFirst = 0, crLast = 0\<rparr>, 2), (\<lparr>crFirst = 1, crLast = 127\<rparr>, 2)]"
  "node_transitions lossy_dfa (nodes lossy_dfa ! 2) = []"
  by (simp_all add: lossy_dfa_def node_transitions_def numeral_eq_Suc)

lemma lossy_nodes:
  "length (nodes lossy_dfa) = 3" "root lossy_dfa = 0" "length (dfa_actions lossy_dfa) = 1"
  "length (transitionRanges lossy_dfa) = 3" "length (transitionDestinations lossy_dfa) = 3"
  by (simp_all add: lossy_dfa_def)

lemma lossy_live: "live lossy_dfa i \<longleftrightarrow> i < 3"
proof -
  have "\<not> isKilled (nodes lossy_dfa ! i)" if "i < 3"
    using sample_index [OF that]
    by (elim disjE) (simp_all add: lossy_dfa_def isKilled_def IsKilled_def)
  then show ?thesis by (auto simp: live_def lossy_nodes)
qed

lemma lossy_wf: "wf_dfa lossy_dfa"
proof -
  have "wf_node lossy_dfa (nodes lossy_dfa ! i)" if "i < 3" for i
    using sample_index [OF that]
    by (elim disjE)
       (simp_all add: wf_node_def lossy_transitions lossy_transitions [simplified] lossy_live
          lossy_nodes sorted_transitions_def, simp_all add: lossy_dfa_def)
  moreover have "set (nodes lossy_dfa) = {nodes lossy_dfa ! i |i. i < 3}"
    by (auto simp: set_conv_nth lossy_nodes)
  ultimately show ?thesis by (auto simp: wf_dfa_def lossy_live lossy_nodes u32_max_def)
qed

lemma lossy_next:
  "dfa_next lossy_dfa 0 c = (if c = 120 then Some 1 else None)"
  "dfa_next lossy_dfa 1 c = (if 0 \<le> c \<and> c \<le> 127 then Some 2 else None)"
  "dfa_next lossy_dfa 2 c = None"
  by (auto simp: dfa_next_def lossy_transitions lossy_transitions [simplified] in_range_def)

lemma lossy_fallback:
  "node_fallback lossy_dfa (nodes lossy_dfa ! 0) = None"
  "node_fallback lossy_dfa (nodes lossy_dfa ! 1) = Some 2"
  "canUseFallbackTransition lossy_dfa (nodes lossy_dfa ! 2) = False"
  by (simp_all add: node_fallback_def canUseFallbackTransition_def bestFallbackTarget_def
      lossy_transitions lossy_transitions [simplified])

lemma lossy_blocker: "blocker_dfa lossy_dfa"
proof -
  have "dfa_next lossy_dfa i 0 = Some t \<longleftrightarrow> i = 1 \<and> t = 2" if "i < 3" for i t
    using sample_index [OF that] by (elim disjE) (auto simp: lossy_next lossy_next [simplified])
  then have "end_safe lossy_dfa"
    using lossy_fallback(3) by (auto simp: end_safe_def lossy_live)
  moreover have "wf_action 7" by (simp add: wf_action_def)
  moreover have "dfa_actions lossy_dfa = [7]" by (simp add: lossy_dfa_def)
  ultimately show ?thesis using lossy_wf by (intro blocker_dfaI) simp_all
qed

lemma lossy_actions:
  "node_actions lossy_dfa (nodes lossy_dfa ! 0) = []"
  "node_actions lossy_dfa (nodes lossy_dfa ! 1) = []"
  "node_actions lossy_dfa (nodes lossy_dfa ! 2) = [7]"
  by (simp_all add: lossy_dfa_def node_actions_def)

lemma lossy_size: "2 * worst_case_size lossy_dfa < 2147483647"
proof -
  have "size_bound lossy_dfa = 2714"
    by (simp add: size_bound_def lossy_dfa_def numeral_3_eq_3)
  then show ?thesis
    using worst_case_size_bound [of lossy_dfa] by (simp add: lossy_live lossy_nodes)
qed

lemma lossy_compiled_trace: "compiled_trace lossy_dfa 0 (url_chars [120]) = [1]"
  by (simp add: url_chars_def compiled_next_def lossy_next lossy_next [simplified]
      lossy_fallback lossy_fallback [simplified])

lemma lossy_run: "dfa_trace lossy_dfa 0 (map uint [120 :: byte] @ [0]) = [1, 2]"
  by (simp add: lossy_next lossy_next [simplified])

text \<open>
  C13.  A defect: \<^verbatim>\<open>DFABytecodeCompiler::transitions\<close> drops the edge on the terminator when it leads to
  the fallback target, although the fallback jump is not taken on the terminator.  On a well-formed
  automaton for which reading the URL \<open>x\<close> and its terminator selects action 7, the compiled code
  returns no action.
\<close>

theorem terminator_edge_lost:
  "wf_dfa lossy_dfa \<and>
   automata_actions True None 0 [lossy_dfa] [120] = {7} \<and>
   (\<exists>B. compile_file [lossy_dfa] = Some B \<and> interpret_url B None [120] 0 = Some (Returned {}))"
proof (intro conjI lossy_wf)
  have "accepted None 0 7"
    by (simp add: accepted_def flags_match_def)
  then show "automata_actions True None 0 [lossy_dfa] [120] = {7}"
    unfolding automata_actions.simps automaton_actions_def lossy_nodes(2) lossy_run
    by (auto simp: lossy_actions lossy_actions [simplified])
  have "file_result True None 0 [lossy_dfa] [120] = {}"
    unfolding file_result.simps dfa_result_def visited_def lossy_nodes(2) lossy_compiled_trace
    by (simp add: root_action_list_def lossy_nodes lossy_actions lossy_actions [simplified] collected_def
        collect_def)
  then show "\<exists>B. compile_file [lossy_dfa] = Some B \<and> interpret_url B None [120] 0 = Some (Returned {})"
    using interpret_compiled_file [of "[lossy_dfa]" "[120]" None 0] lossy_blocker lossy_size
    by (auto simp: ascii_url_def)
qed

subsection \<open>The fallback transition\<close>

text \<open>
  C9.  When \<^verbatim>\<open>canUseFallbackTransition\<close> holds of a node with sorted transitions, the node has a
  transition for every character from 1 to 127, \<^verbatim>\<open>bestFallbackTarget\<close> returns one of its targets,
  and no other target is reached by more characters (the terminator not counted).
\<close>

theorem fallback_target_best:
  assumes "sorted_transitions (node_transitions d n)" "canUseFallbackTransition d n"
  shows "(\<forall>c. 1 \<le> c \<and> c \<le> 127 \<longrightarrow> find_target c (node_transitions d n) \<noteq> None) \<and>
    (\<exists>b. bestFallbackTarget d n = Some b \<and> b \<in> snd ` set (node_transitions d n) \<and>
       (\<forall>t. char_count (node_transitions d n) t \<le> char_count (node_transitions d n) b))"
proof -
  obtain b where b: "bestFallbackTarget d n = Some b"
    using canUseFallbackTransition_best [OF assms] by blast
  then have "char_count (node_transitions d n) t \<le> char_count (node_transitions d n) b" for t
    using bestFallbackTarget_weight [OF assms(1) b]
    by (simp add: char_count_total_weight [OF assms(1)])
  then show ?thesis
    using b bestFallbackTarget_mem [OF b] canUseFallbackTransition_total [OF assms(2)] by blast
qed

theorem fallback_target_best_witness:
  "canUseFallbackTransition sample_dfa (nodes sample_dfa ! 1) \<and>
   (\<exists>b. bestFallbackTarget sample_dfa (nodes sample_dfa ! 1) = Some b)"
proof -
  have s: "sorted_transitions (node_transitions sample_dfa (nodes sample_dfa ! 1))"
    and c: "canUseFallbackTransition sample_dfa (nodes sample_dfa ! 1)"
    by (simp_all add: sorted_transitions_def canUseFallbackTransition_def sample_transitions [simplified])
  then show ?thesis using fallback_target_best [OF s c] by blast
qed

subsection \<open>The plan of a node\<close>



subsection \<open>From nondeterministic automata to bytecode\<close>

text \<open>
  C3.  \<^verbatim>\<open>NFAToDFA::convert\<close> terminates on every well-formed automaton with at most 65535 actions,
  whatever the iteration order of the hash sets, and returns an automaton with at most one node per
  set of states that is well-formed and selects for every URL exactly the actions of the states
  the nondeterministic automaton reaches on the prefixes of the URL.
\<close>

theorem nfa_to_dfa_correct:
  assumes "wf_nfa a" "few_actions a" "enumerates order" "enumerates actionOrder"
  shows "\<exists>d. NFAToDFA_convert order actionOrder a = Some (Inr d) \<and>
    length (nodes d) \<le> 2 ^ length (nfa_nodes a) \<and> (length (nodes d) \<le> u32_max \<longrightarrow> wf_dfa d) \<and>
    (\<forall>first topActs flags url.
       automaton_actions first topActs flags d url = nfa_selected first topActs flags a url)"
proof -
  obtain d lab where d: "NFAToDFA_convert order actionOrder a = Some (Inr d)" and s: "simulates a d lab"
    using NFAToDFA_convert_simulates [OF assms] by blast
  show ?thesis
    using d simulates_size [OF s] simulates_wf_dfa [OF s] simulates_automaton_actions [OF s] by blast
qed

theorem nfa_to_dfa_correct_witness:
  "\<exists>d. NFAToDFA_convert sorted_list_of_set sorted_list_of_set sample_nfa = Some (Inr d) \<and>
    automaton_actions False None 0 d [98, 97] = nfa_selected False None 0 sample_nfa [98, 97]"
  using nfa_to_dfa_correct [OF sample_nfa_wf sample_nfa_few_actions enumerates_sorted enumerates_sorted] by blast

text \<open>
  The path without minimization and combination: when a list of nondeterministic automata is converted, compiled to
  bytecode and interpreted on an ASCII URL, the interpreter returns exactly the actions the
  nondeterministic automata select.
\<close>

lemma nfa_blocker_correct:
  assumes "\<forall>a \<in> set as. wf_nfa a \<and> few_actions a" "enumerates order" "enumerates actionOrder"
    and "list_all2 (\<lambda>a d. NFAToDFA_convert order actionOrder a = Some (Inr d)) as ds"
    and "\<forall>d \<in> set ds. blocker_dfa d \<and> keeps_terminator d"
    and "2 * sum_list (map size_bound ds) < 2147483647" "ascii_url url"
  shows "\<exists>B. compile_file ds = Some B \<and>
    interpret_url B topActs url flags = Some (Returned (nfas_selected True topActs flags as url))"
proof -
  have "automata_actions True topActs flags ds url = nfas_selected True topActs flags as url"
    by (rule converted_selected [OF assms(4,1,2,3)])
  then show ?thesis using compiled_file_automata [OF assms(5-7), of topActs flags] by simp
qed

text \<open>
  C7.  The node builder: adding transitions over ASCII ranges one after the other never fails, and
  finalizing the builder stores in its node exactly the added targets per character, as sorted
  disjoint ranges, the added epsilon targets and the actions, and changes no other complete node.
\<close>

theorem builder_records:
  assumes "\<forall>(f, l, t) \<in> set ts. 0 \<le> f \<and> f \<le> l \<and> l \<le> 127"
    "enumerates order" "enumerates actionOrder"
  shows "case builder_new a of (b, a0) \<Rightarrow>
    \<exists>b' a'. addTransitions ts b = Some b' \<and>
      builder_destroy order actionOrder (builder_setActions acts (fold addEpsilonTransition es b')) a0 =
        Some (\<lparr>m_rangeList = m_rangeList b', m_epsilonTransitionTargets = set es, m_actions = set acts,
                m_nodeId = length (nfa_nodes a), m_finalized = True\<rparr>, a') \<and>
      wf_nfa_node a' (length (nfa_nodes a)) \<and>
      (\<forall>c. node_targets a' (length (nfa_nodes a)) c = added_targets ts c) \<and>
      set (epsilon_targets a' (length (nfa_nodes a))) = set es \<and>
      set (nfa_node_actions a' (length (nfa_nodes a))) = set acts \<and>
      (\<forall>j < length (nfa_nodes a). wf_nfa_node a j \<longrightarrow> wf_nfa_node a' j \<and>
         transitionsForNode a' j = transitionsForNode a j \<and> epsilon_targets a' j = epsilon_targets a j \<and>
         nfa_node_actions a' j = nfa_node_actions a j)"
  using builder_node_complete [OF assms, where a = a and es = es and acts = acts] by (simp add: builder_new_def)

theorem builder_records_witness:
  "\<exists>b' a'. addTransitions [(97, 122, 0), (97, 97, 1)] (fst (builder_new new_nfa)) = Some b' \<and>
     builder_destroy sorted_list_of_set sorted_list_of_set
       (builder_setActions [7] (fold addEpsilonTransition [2] b')) (snd (builder_new new_nfa)) =
       Some (\<lparr>m_rangeList = m_rangeList b', m_epsilonTransitionTargets = {2}, m_actions = {7},
              m_nodeId = 0, m_finalized = True\<rparr>, a') \<and>
     node_targets a' 0 97 = {0, 1} \<and> node_targets a' 0 98 = {0}"
proof -
  have t: "\<forall>(f, l, t) \<in> set [(97, 122, 0), (97, 97, 1)]. 0 \<le> (f :: int) \<and> f \<le> l \<and> l \<le> 127" by simp
  have "added_targets [(97, 122, 0), (97, 97, 1)] 97 = {0, 1}" "added_targets [(97, 122, 0), (97, 97, 1)] 98 = {0}"
    by (auto simp: added_targets_def)
  then show ?thesis
    using builder_records [OF t enumerates_sorted enumerates_sorted, where a = new_nfa and acts = "[7]" and es = "[2]"]
    unfolding builder_new_def by (simp add: new_nfa_def) metis
qed

text \<open>
  C4.  \<^verbatim>\<open>MutableRangeList::extend\<close> merges a sorted sequence of ASCII ranges into a well-formed list: it
  terminates, keeps the chain inside the vector well-formed and its ranges sorted and disjoint, and
  every character has the combined data of the two lists.
\<close>

theorem range_list_extend_correct:
  assumes "represents v xs" "ordered_from 0 xs" "ordered_from 0 os"
  shows "\<exists>w ys. range_list_extend convert ext os v = Some w \<and> represents w ys \<and> iterate w = Some ys \<and>
    ordered_from 0 ys \<and>
    (\<forall>c. range_data ys c = combine_data convert ext (range_data xs c) (range_data os c))"
  using range_list_extend_data [OF assms, of convert ext] iterate_represents by blast

theorem range_list_extend_correct_witness:
  "\<exists>w ys. range_list_extend target_convert target_extend [(5, 20, 2)]
      [\<lparr>mrData = {1}, nextRangeIndex = 0, mrFirst = 10, mrLast = 30\<rparr>] = Some w \<and> iterate w = Some ys \<and>
    range_data ys 5 = Some {2} \<and> range_data ys 15 = Some {1, 2} \<and> range_data ys 25 = Some {1} \<and>
    range_data ys 31 = None"
proof -
  let ?v = "[\<lparr>mrData = {1 :: nat}, nextRangeIndex = 0, mrFirst = 10, mrLast = 30\<rparr>]"
  have "represents ?v [(10, 30, {1})]"
    by (auto simp: represents_def chain_def item_def intro!: exI [of _ "[0]"])
  then obtain w ys where w: "range_list_extend target_convert target_extend [(5, 20, 2)] ?v = Some w"
    "iterate w = Some ys" "\<And>c. range_data ys c = combine_data target_convert target_extend
       (range_data [(10, 30, {1})] c) (range_data [(5, 20, 2)] c)"
    using range_list_extend_correct [of ?v "[(10, 30, {1})]" "[(5, 20, 2)]" target_convert target_extend] by auto
  show ?thesis
    by (intro exI [of _ w] exI [of _ ys] conjI w(1,2))
       (simp_all add: w(3) target_convert_def target_extend_def insert_commute)
qed

text \<open>
  C10.  \<^verbatim>\<open>epsilonClosureExcludingSelf\<close> terminates, cycles of epsilon transitions included, and lists
  without repetition exactly the other nodes that epsilon transitions reach.
\<close>

theorem epsilon_closure_correct:
  assumes "wf_nfa a" "n < length (nfa_nodes a)"
  shows "\<exists>ns. epsilonClosureExcludingSelf a n = Some ns \<and> distinct ns \<and>
    set ns = {m. (n, m) \<in> {(i, j). j \<in> set (epsilon_targets a i)}\<^sup>*} - {n}"
  using epsilonClosureExcludingSelf_reach [OF closed_nodes [OF assms(1)] assms(2)]
  by (simp add: eps_closure_def eps_def Image_def)

theorem epsilon_closure_correct_witness:
  "\<exists>ns. epsilonClosureExcludingSelf sample_nfa 1 = Some ns \<and> distinct ns"
  using epsilon_closure_correct [OF sample_nfa_wf, of 1] by (auto simp: sample_nfa_def)

text \<open>
  The hash of a set of nodes does not depend on the order in which the set is iterated, so the
  table finds a set again that was built by other insertions.
\<close>

lemma node_set_hash_order_independent:
  assumes "enumerates order" "enumerates order'" "finite S"
  shows "node_set_hash order S = node_set_hash order' S"
  using node_set_hash_sum [OF assms(1,3)] node_set_hash_sum [OF assms(2,3)] by simp

end
